(* ===== verification/Prelude.thy ===== *)
theory Prelude
  imports Main "HOL-Library.Word" "HOL-Library.Multiset" "HOL-Library.Sublist" "HOL-Library.Monad_Syntax"
begin

unbundle bit_operations_syntax

text \<open>
  Shared vocabulary of the development: the machine integers of the C code, the
  error codes of \<open>include/git2/errors.h\<close>, checked array reads, and the list and
  word lemmas that several components use.

  C integers that can wrap are \<open>w word\<close>; counts that the code keeps below the
  size of an existing object are \<open>nat\<close>. A pointer into a buffer is an index into
  the list that models the buffer, or the list's remaining suffix. A function that
  returns a negative error code on failure returns \<open>git_error_code + 'a\<close>. A read
  or write outside an object, and a failed \<open>assert\<close>, is the value \<open>None\<close>.
\<close>

type_synonym u8 = "8 word"
type_synonym u16 = "16 word"
type_synonym u32 = "32 word"
type_synonym u64 = "64 word"
type_synonym size_t = "64 word"

text \<open>The error codes of \<open>git_error_code\<close>, one constructor per enumerator that the models return.\<close>

datatype git_error_code =
    GIT_ERROR
  | GIT_ENOTFOUND
  | GIT_EEXISTS
  | GIT_EAMBIGUOUS
  | GIT_EBUFS
  | GIT_EUSER
  | GIT_EINVALIDSPEC
  | GIT_EINVALID
  | GIT_EMODIFIED
  | GIT_EUNMERGED
  | GIT_PASSTHROUGH
  | GIT_ITEROVER

definition SIZE_MAX :: nat where "SIZE_MAX = 2 ^ 64 - 1"

type_synonym 'a result = "git_error_code + 'a"

subsection \<open>Fact collections\<close>

named_theorems cmp_intros \<open>consequences of a comparison function's laws\<close>
named_theorems seg_simps \<open>segments of an array\<close>
named_theorems vector_simps \<open>effects of the vector operations on the abstract list\<close>

subsection \<open>Effects\<close>

text \<open>
  A function that changes a structure returns an error code or a value, and the structure as it leaves it.
  \<open>None\<close> stands for a loop that has used up its fuel, and for a wild pointer.
\<close>

type_synonym ('s, 'a) eff = "'s \<Rightarrow> ('a result \<times> 's) option"

definition ret :: "'a \<Rightarrow> ('s, 'a) eff" where "ret x s = Some (Inr x, s)"

definition fail :: "git_error_code \<Rightarrow> ('s, 'a) eff" where "fail e s = Some (Inl e, s)"

definition bnd :: "('s, 'a) eff \<Rightarrow> ('a \<Rightarrow> ('s, 'b) eff) \<Rightarrow> ('s, 'b) eff" where
  "bnd m k s = (case m s of
      None \<Rightarrow> None
    | Some (Inl e, s1) \<Rightarrow> Some (Inl e, s1)
    | Some (Inr x, s1) \<Rightarrow> k x s1)"

definition get_state :: "('s, 's) eff" where "get_state s = Some (Inr s, s)"

definition update_state :: "('s \<Rightarrow> 's) \<Rightarrow> ('s, unit) eff" where "update_state f s = Some (Inr (), f s)"

lemma bnd_assoc: "bnd (bnd m k) l = bnd m (\<lambda>x. bnd (k x) l)"
  by (simp add: bnd_def fun_eq_iff split: option.splits sum.splits prod.splits)

text \<open>A for loop over an array.\<close>

primrec for_each :: "('a \<Rightarrow> ('s, unit) eff) \<Rightarrow> 'a list \<Rightarrow> ('s, unit) eff" where
  "for_each f [] = ret ()"
| "for_each f (x # xs) = bnd (f x) (\<lambda>_. for_each f xs)"

subsection \<open>Segments of an array\<close>

text \<open>\<open>seg dst s n\<close> is the segment of \<open>n\<close> cells of \<open>dst\<close> from index \<open>s\<close> on.\<close>

definition seg :: "'a list \<Rightarrow> nat \<Rightarrow> nat \<Rightarrow> 'a list" where
  "seg dst s n = take n (drop s dst)"

lemma length_seg [seg_simps]: "s + n \<le> length dst \<Longrightarrow> length (seg dst s n) = n"
  by (simp add: seg_def)

lemma seg_append_left [seg_simps]: "s + n \<le> length xs \<Longrightarrow> seg (xs @ ys) s n = seg xs s n"
  by (simp add: seg_def)

lemma seg_append_right [seg_simps]: "length xs = s \<Longrightarrow> seg (xs @ ys) s n = take n ys"
  by (simp add: seg_def)

lemma split_at_seg: "dst = take s dst @ seg dst s n @ drop (s + n) dst"
  by (metis append_take_drop_id drop_drop add.commute seg_def)

lemma seg_add: "seg dst s (m + n) = seg dst s m @ seg dst (s + m) n"
  by (simp add: seg_def take_add add.commute)

lemma seg_Suc: "s + n < length dst \<Longrightarrow> seg dst s (Suc n) = seg dst s n @ [dst ! (s + n)]"
  by (simp add: seg_def take_Suc_conv_app_nth)

lemma seg_cong_take: "take m xs = take m ys \<Longrightarrow> s + n \<le> m \<Longrightarrow> seg xs s n = seg ys s n"
  unfolding seg_def by (metis add.commute min.absorb1 take_drop take_take)

lemma seg_cong_drop: "drop m xs = drop m ys \<Longrightarrow> m \<le> s \<Longrightarrow> seg xs s n = seg ys s n"
  unfolding seg_def by (metis drop_drop le_add_diff_inverse2)

subsection \<open>Bits of bytes\<close>

lemma mask_127: "(127 :: u64) = mask 7" "(127 :: u32) = mask 7" "(127 :: u8) = mask 7"
  by (simp_all add: mask_eq_exp_minus_1)

lemma mask_255: "(255 :: u64) = mask 8" "(255 :: u32) = mask 8"
  by (simp_all add: mask_eq_exp_minus_1)

lemma mask_65535: "(65535 :: u64) = mask 16" "(65535 :: u32) = mask 16"
  by (simp_all add: mask_eq_exp_minus_1)

lemma bit_128: "bit (128 :: int) n \<longleftrightarrow> n = 7"
  using bit_exp_iff [where ?'a = int, of 7 n] by auto

lemma bit_bound: "unat (w :: 'a :: len word) < 2 ^ k \<Longrightarrow> bit w n \<Longrightarrow> n < k"
proof (rule ccontr)
  assume w: "unat w < 2 ^ k" and n: "bit w n" "\<not> n < k"
  have "unat (drop_bit k w) = 0" unfolding unat_drop_bit_eq using w by (simp add: drop_bit_eq_div)
  then have "drop_bit k w = 0" by (simp only: unat_eq_0)
  moreover have "bit (drop_bit k w) (n - k) = bit w n" using n(2) by (simp add: bit_drop_bit_eq)
  ultimately show False using n(1) by simp
qed

lemma unat_ucast_u32_u64: "unat (ucast (x :: u32) :: u64) = unat x"
proof -
  have "unat x < 2 ^ 64" using unsigned_less [of x, where ?'a = nat] by simp
  then show ?thesis unfolding unsigned_ucast_eq by (simp add: take_bit_nat_eq_self)
qed

lemma and_128: "((c :: u8) AND 128 \<noteq> 0) = bit c 7"
  by (simp add: and_exp_eq_0_iff_not_bit [of c 7, simplified])

end
