(* ===== verification/Compare.thy ===== *)
theory Compare
  imports Prelude
begin

text \<open>
  Comparison callbacks. Sorting, searching and the priority queue of libgit2 take a
  \<open>git_vector_cmp\<close>: a function that returns a negative, zero or positive \<open>int\<close>.
  The locale \<open>git_cmp\<close> states the contract that these clients rely on. Every
  comparison function of the code that is modelled interprets it.
\<close>

type_synonym 'a cmp = "'a \<Rightarrow> 'a \<Rightarrow> int"

text \<open>
  A list is sorted for \<open>cmp\<close>, and two lists hold the same elements with the elements
  that compare equal in the same order.
\<close>

definition sorted_by :: "'a cmp \<Rightarrow> 'a list \<Rightarrow> bool" where
  "sorted_by cmp xs \<longleftrightarrow> sorted_wrt (\<lambda>a b. cmp a b \<le> 0) xs"

definition stable_perm :: "'a cmp \<Rightarrow> 'a list \<Rightarrow> 'a list \<Rightarrow> bool" where
  "stable_perm cmp xs ys \<longleftrightarrow>
     (\<forall>z. filter (\<lambda>y. cmp z y = 0) xs = filter (\<lambda>y. cmp z y = 0) ys)"

lemma sorted_by_Nil [simp]: "sorted_by cmp []"
  by (simp add: sorted_by_def)

lemma sorted_by_single [simp]: "sorted_by cmp [x]"
  by (simp add: sorted_by_def)

lemma sorted_by_append:
  "sorted_by cmp (xs @ ys) \<longleftrightarrow>
     sorted_by cmp xs \<and> sorted_by cmp ys \<and> (\<forall>x\<in>set xs. \<forall>y\<in>set ys. cmp x y \<le> 0)"
  by (simp add: sorted_by_def sorted_wrt_append)

lemma sorted_by_Cons:
  "sorted_by cmp (x # xs) \<longleftrightarrow> (\<forall>y\<in>set xs. cmp x y \<le> 0) \<and> sorted_by cmp xs"
  by (auto simp: sorted_by_def)

lemma sorted_by_nth: "sorted_by cmp xs \<Longrightarrow> i < j \<Longrightarrow> j < length xs \<Longrightarrow> cmp (xs ! i) (xs ! j) \<le> 0"
  unfolding sorted_by_def by (rule sorted_wrt_nth_less)

lemma sorted_by_take: "sorted_by cmp xs \<Longrightarrow> sorted_by cmp (take n xs)"
  by (metis append_take_drop_id sorted_by_append)

lemma sorted_by_drop: "sorted_by cmp xs \<Longrightarrow> sorted_by cmp (drop n xs)"
  by (metis append_take_drop_id sorted_by_append)

lemma stable_perm_refl [simp]: "stable_perm cmp xs xs"
  by (simp add: stable_perm_def)

lemma stable_perm_trans: "stable_perm cmp xs ys \<Longrightarrow> stable_perm cmp ys zs \<Longrightarrow> stable_perm cmp xs zs"
  by (simp add: stable_perm_def)

lemma stable_perm_sym: "stable_perm cmp xs ys \<Longrightarrow> stable_perm cmp ys xs"
  by (simp add: stable_perm_def)

lemma stable_perm_append:
  "stable_perm cmp xs xs' \<Longrightarrow> stable_perm cmp ys ys' \<Longrightarrow> stable_perm cmp (xs @ ys) (xs' @ ys')"
  by (simp add: stable_perm_def)

lemma stable_perm_middle:
  "stable_perm cmp ys ys' \<Longrightarrow> stable_perm cmp (xs @ ys @ zs) (xs @ ys' @ zs)"
  by (simp add: stable_perm_def)

locale git_cmp =
  fixes cmp :: "'a cmp"
  assumes cmp_antisym: "0 < cmp a b \<longleftrightarrow> cmp b a < 0"
    and cmp_trans: "cmp a b \<le> 0 \<Longrightarrow> cmp b c \<le> 0 \<Longrightarrow> cmp a c \<le> 0"
begin

lemma cmp_refl [simp]: "cmp a a = 0"
  using cmp_antisym [of a a] by linarith

lemma cmp_eq_sym: "cmp a b = 0 \<longleftrightarrow> cmp b a = 0"
  using cmp_antisym [of a b] cmp_antisym [of b a] by linarith

lemma cmp_le_iff: "cmp a b \<le> 0 \<longleftrightarrow> 0 \<le> cmp b a"
  using cmp_antisym [of a b] by linarith

lemma cmp_total: "cmp a b \<le> 0 \<or> cmp b a \<le> 0"
  using cmp_antisym [of a b] by linarith

lemma cmp_less_le_trans: "cmp a b < 0 \<Longrightarrow> cmp b c \<le> 0 \<Longrightarrow> cmp a c < 0"
  by (metis cmp_antisym cmp_trans linorder_not_less not_less_iff_gr_or_eq)

lemma cmp_le_less_trans: "cmp a b \<le> 0 \<Longrightarrow> cmp b c < 0 \<Longrightarrow> cmp a c < 0"
  by (metis cmp_antisym cmp_trans linorder_not_less not_less_iff_gr_or_eq)

lemma cmp_less_trans: "cmp a b < 0 \<Longrightarrow> cmp b c < 0 \<Longrightarrow> cmp a c < 0"
  by (meson cmp_le_less_trans order_less_imp_le)

lemma cmp_eq_trans: "cmp a b = 0 \<Longrightarrow> cmp b c = 0 \<Longrightarrow> cmp a c = 0"
  by (metis cmp_eq_sym cmp_le_iff cmp_trans order_antisym order_refl)

lemma cmp_eq_cong: "cmp a b = 0 \<Longrightarrow> cmp a c = 0 \<longleftrightarrow> cmp b c = 0"
  by (metis cmp_eq_sym cmp_eq_trans)

text \<open>A stable permutation is a permutation: an element compares equal to itself.\<close>

lemma stable_perm_mset: "stable_perm cmp xs ys \<Longrightarrow> mset xs = mset ys"
proof (rule multiset_eqI)
  fix z
  assume "stable_perm cmp xs ys"
  then have "filter (\<lambda>y. y = z) (filter (\<lambda>y. cmp z y = 0) xs)
      = filter (\<lambda>y. y = z) (filter (\<lambda>y. cmp z y = 0) ys)"
    by (simp add: stable_perm_def)
  moreover have "filter (\<lambda>y. y = z) (filter (\<lambda>y. cmp z y = 0) us) = filter (\<lambda>y. y = z) us" for us
    by (induction us) auto
  ultimately have "filter (\<lambda>y. y = z) xs = filter (\<lambda>y. y = z) ys" by simp
  then have "filter_mset (\<lambda>y. y = z) (mset xs) = filter_mset (\<lambda>y. y = z) (mset ys)"
    by (simp flip: mset_filter)
  then show "count (mset xs) z = count (mset ys) z"
    by (metis (full_types) count_filter_mset)
qed

lemma stable_perm_length: "stable_perm cmp xs ys \<Longrightarrow> length xs = length ys"
  by (metis stable_perm_mset size_mset)

text \<open>Moving an element over elements that differ from it keeps the order of the equals.\<close>

lemma stable_perm_move:
  assumes "\<forall>y\<in>set ys. cmp x y \<noteq> 0"
  shows "stable_perm cmp (ys @ [x]) (x # ys)"
  unfolding stable_perm_def
proof
  fix z
  show "filter (\<lambda>y. cmp z y = 0) (ys @ [x]) = filter (\<lambda>y. cmp z y = 0) (x # ys)"
  proof (cases "cmp z x = 0")
    case True
    then have "filter (\<lambda>y. cmp z y = 0) ys = []"
      using assms by (auto simp: filter_empty_conv dest: cmp_eq_cong)
    then show ?thesis by simp
  qed simp
qed

lemma sorted_by_snoc_le:
  "sorted_by cmp xs \<Longrightarrow> xs \<noteq> [] \<Longrightarrow> cmp (last xs) x \<le> 0 \<Longrightarrow> sorted_by cmp (xs @ [x])"
proof (induction xs rule: rev_induct)
  case (snoc y ys)
  then show ?case
    by (fastforce simp: sorted_by_append sorted_by_Cons intro: cmp_trans)
qed simp

text \<open>Sortedness follows from the order of neighbours.\<close>

lemma sorted_by_neighbours:
  "(\<And>i. Suc i < length xs \<Longrightarrow> cmp (xs ! i) (xs ! Suc i) \<le> 0) \<Longrightarrow> sorted_by cmp xs"
proof (induction xs rule: rev_induct)
  case (snoc y ys)
  have "sorted_by cmp ys"
  proof (rule snoc.IH)
    fix i assume "Suc i < length ys"
    then show "cmp (ys ! i) (ys ! Suc i) \<le> 0"
      using snoc.prems [of i] by (simp add: nth_append)
  qed
  moreover have "ys \<noteq> [] \<Longrightarrow> cmp (last ys) y \<le> 0"
    using snoc.prems [of "length ys - 1"] by (simp add: nth_append last_conv_nth)
  ultimately show ?case
    by (cases "ys = []") (auto intro: sorted_by_snoc_le)
qed simp

end

end
