(* ===== verification/Tsort.thy ===== *)
theory Tsort
  imports Compare
begin

text \<open>
  \<open>tsort.c\<close>: the timsort of \<open>git__tsort_r\<close> and \<open>git__tsort\<close>.

  The array \<open>dst\<close> is a list updated by index. The stack of pending runs
  \<open>run_stack[0 .. stack_curr - 1]\<close> is a list with the top of the stack first
  (the array's capacity of 128 entries is not modelled). A \<open>payload\<close> is part of
  the comparison function. \<open>git__reallocarray\<close> may fail: \<open>can_alloc n\<close> says whether
  an array of \<open>n\<close> pointers can be had; the code then skips the merge and still
  updates the run lengths, and so does the model. A read outside the array and a failed
  assertion are \<open>None\<close>; the loop of \<open>git__tsort_r\<close> is a partial function whose
  return is proved.

  Main results: the sort always returns a permutation; when no allocation fails the
  result is sorted and stable.
\<close>

subsection \<open>Binary insertion sort\<close>

text \<open>The inner loops \<open>while (cmp(x, dst[i]) == 0) i++\<close> of \<open>binsearch\<close>.\<close>

function skip_equal :: "'a cmp \<Rightarrow> 'a list \<Rightarrow> 'a \<Rightarrow> nat \<Rightarrow> nat option" where
  "skip_equal cmp dst x i =
     (if i < length dst
      then (if cmp x (dst ! i) = 0 then skip_equal cmp dst x (Suc i) else Some i)
      else None)"
  by pat_completeness auto
termination
  by (relation "measure (\<lambda>(cmp, dst, x, i). length dst - i)") auto

declare skip_equal.simps [simp del]

text \<open>The loop \<open>while (1)\<close> of \<open>binsearch\<close>; at its head \<open>c = l + ((r - l) >> 1)\<close>.\<close>

function binsearch_loop :: "'a cmp \<Rightarrow> 'a list \<Rightarrow> 'a \<Rightarrow> nat \<Rightarrow> nat \<Rightarrow> nat option" where
  "binsearch_loop cmp dst x l r =
     (let c = l + (r - l) div 2; val = cmp x (dst ! c) in
      if val < 0 then (if c - l \<le> 1 then Some c else binsearch_loop cmp dst x l c)
      else if val > 0 then (if r - c \<le> 1 then Some (c + 1) else binsearch_loop cmp dst x c r)
      else skip_equal cmp dst x (Suc c))"
  by pat_completeness auto
termination
  by (relation "measure (\<lambda>(cmp, dst, x, l, r). r - l)") (auto simp: Let_def)

declare binsearch_loop.simps [simp del]

definition binsearch :: "'a cmp \<Rightarrow> 'a list \<Rightarrow> 'a \<Rightarrow> nat \<Rightarrow> nat option" where
  "binsearch cmp dst x sz =
     (if sz = 0 then None
      else if cmp x (dst ! 0) < 0 then Some 0
      else if cmp x (dst ! 0) = 0 then skip_equal cmp dst x 1
      else binsearch_loop cmp dst x 0 (sz - 1))"

text \<open>\<open>for (j = i - 1; j >= location; j--) dst[j + 1] = dst[j]\<close>\<close>

function shift_right :: "'a list \<Rightarrow> nat \<Rightarrow> nat \<Rightarrow> 'a list" where
  "shift_right dst location i =
     (if location < i then shift_right (dst[i := dst ! (i - 1)]) location (i - 1) else dst)"
  by pat_completeness auto
termination
  by (relation "measure (\<lambda>(dst, location, i). i)") auto

declare shift_right.simps [simp del]

function bisort :: "'a cmp \<Rightarrow> 'a list \<Rightarrow> nat \<Rightarrow> nat \<Rightarrow> 'a list option" where
  "bisort cmp dst i sz =
     (if i < sz then
        (if cmp (dst ! (i - 1)) (dst ! i) \<le> 0 then bisort cmp dst (Suc i) sz
         else (case binsearch cmp dst (dst ! i) i of
                 None \<Rightarrow> None
               | Some location \<Rightarrow>
                   bisort cmp ((shift_right dst location i)[location := dst ! i]) (Suc i) sz))
      else Some dst)"
  by pat_completeness auto
termination
  by (relation "measure (\<lambda>(cmp, dst, i, sz). sz - i)") auto

declare bisort.simps [simp del]

subsection \<open>Runs\<close>

record tsort_run =
  run_start :: nat
  run_length :: nat

record tsort_store =
  store_alloc :: nat

function reverse_elements :: "'a list \<Rightarrow> nat \<Rightarrow> nat \<Rightarrow> 'a list" where
  "reverse_elements dst start end' =
     (if start < end'
      then reverse_elements (dst[start := dst ! end', end' := dst ! start]) (Suc start) (end' - 1)
      else dst)"
  by pat_completeness auto
termination
  by (relation "measure (\<lambda>(dst, start, end'). end' - start)") auto

declare reverse_elements.simps [simp del]

text \<open>The two scanning loops of \<open>count_run\<close>; \<open>size\<close> is the length of the array.\<close>

function scan_run :: "('a \<Rightarrow> 'a \<Rightarrow> bool) \<Rightarrow> 'a list \<Rightarrow> nat \<Rightarrow> nat" where
  "scan_run p dst cur =
     (if Suc cur < length dst \<and> p (dst ! (cur - 1)) (dst ! cur)
      then scan_run p dst (Suc cur) else cur)"
  by pat_completeness auto
termination
  by (relation "measure (\<lambda>(p, dst, cur). length dst - cur)") auto

declare scan_run.simps [simp del]

definition count_run :: "'a cmp \<Rightarrow> 'a list \<Rightarrow> nat \<Rightarrow> 'a list \<times> nat" where
  "count_run cmp dst start =
     (let sz = length dst in
      if sz - start = 1 then (dst, 1)
      else if sz \<le> start + 2 then
        (if cmp (dst ! (sz - 2)) (dst ! (sz - 1)) > 0
         then (dst[sz - 1 := dst ! (sz - 2), sz - 2 := dst ! (sz - 1)], 2)
         else (dst, 2))
      else if cmp (dst ! start) (dst ! (start + 1)) \<le> 0 then
        (dst, scan_run (\<lambda>a b. cmp a b \<le> 0) dst (start + 2) - start)
      else
        (let cur = scan_run (\<lambda>a b. cmp a b > 0) dst (start + 2)
         in (reverse_elements dst start (cur - 1), cur - start)))"

function minrun_loop :: "nat \<Rightarrow> nat \<Rightarrow> nat \<times> nat" where
  "minrun_loop n r = (if 64 \<le> n then minrun_loop (n div 2) (max r (n mod 2)) else (n, r))"
  by pat_completeness auto
termination
  by (relation "measure fst") auto

declare minrun_loop.simps [simp del]

text \<open>\<open>r |= n & 1\<close> is \<open>max\<close> on the values 0 and 1.\<close>

definition compute_minrun :: "nat \<Rightarrow> nat" where
  "compute_minrun n = (case minrun_loop n 0 of (n', r) \<Rightarrow> n' + r)"

fun check_invariant :: "tsort_run list \<Rightarrow> bool" where
  "check_invariant [] = True"
| "check_invariant [_] = True"
| "check_invariant [b, a] = (run_length a > run_length b)"
| "check_invariant (c # b # a # _) =
     (\<not> (run_length a \<le> run_length b + run_length c \<or> run_length b \<le> run_length c))"

subsection \<open>Merging\<close>

definition resize :: "(nat \<Rightarrow> bool) \<Rightarrow> tsort_store \<Rightarrow> nat \<Rightarrow> tsort_store option" where
  "resize can_alloc store new_size =
     (if store_alloc store < new_size
      then (if can_alloc new_size then Some (store\<lparr>store_alloc := new_size\<rparr>) else None)
      else Some store)"

text \<open>The loop of the left merge, \<open>e = cur + A + B\<close>.\<close>

function merge_lo :: "'a cmp \<Rightarrow> 'a list \<Rightarrow> nat \<Rightarrow> nat \<Rightarrow> 'a list \<Rightarrow> nat \<Rightarrow> nat \<Rightarrow> nat \<Rightarrow> 'a list" where
  "merge_lo cmp storage A e dst i j k =
     (if k < e then
        (if i < A \<and> j < e then
           (if cmp (storage ! i) (dst ! j) \<le> 0
            then merge_lo cmp storage A e (dst[k := storage ! i]) (Suc i) j (Suc k)
            else merge_lo cmp storage A e (dst[k := dst ! j]) i (Suc j) (Suc k))
         else if i < A then merge_lo cmp storage A e (dst[k := storage ! i]) (Suc i) j (Suc k)
         else merge_lo cmp storage A e (dst[k := dst ! j]) i (Suc j) (Suc k))
      else dst)"
  by pat_completeness auto
termination
  by (relation "measure (\<lambda>(cmp, storage, A, e, dst, i, j, k). e - k)") auto

text \<open>
  The loop of the right merge runs downwards; \<open>i\<close>, \<open>j\<close> and \<open>k\<close> here are one more than
  the code's signed indices, so that the tests \<open>i >= 0\<close>, \<open>j >= cur\<close> and \<open>k >= cur\<close>
  become \<open>0 < i\<close>, \<open>curr < j\<close> and \<open>curr < k\<close>.
\<close>

function merge_hi :: "'a cmp \<Rightarrow> 'a list \<Rightarrow> nat \<Rightarrow> 'a list \<Rightarrow> nat \<Rightarrow> nat \<Rightarrow> nat \<Rightarrow> 'a list" where
  "merge_hi cmp storage cur dst i j k =
     (if cur < k then
        (if 0 < i \<and> cur < j then
           (if cmp (dst ! (j - 1)) (storage ! (i - 1)) > 0
            then merge_hi cmp storage cur (dst[k - 1 := dst ! (j - 1)]) i (j - 1) (k - 1)
            else merge_hi cmp storage cur (dst[k - 1 := storage ! (i - 1)]) (i - 1) j (k - 1))
         else if 0 < i then merge_hi cmp storage cur (dst[k - 1 := storage ! (i - 1)]) (i - 1) j (k - 1)
         else merge_hi cmp storage cur (dst[k - 1 := dst ! (j - 1)]) i (j - 1) (k - 1))
      else dst)"
  by pat_completeness auto
termination
  by (relation "measure (\<lambda>(cmp, storage, cur, dst, i, j, k). k)") auto

declare merge_lo.simps [simp del] merge_hi.simps [simp del]

text \<open>\<open>merge\<close>: \<open>a\<close> and \<open>b\<close> are \<open>stack[stack_curr - 2]\<close> and \<open>stack[stack_curr - 1]\<close>.\<close>

definition merge_runs :: "(nat \<Rightarrow> bool) \<Rightarrow> 'a cmp \<Rightarrow> 'a list \<Rightarrow> tsort_run \<Rightarrow> tsort_run \<Rightarrow>
    tsort_store \<Rightarrow> 'a list \<times> tsort_store" where
  "merge_runs can_alloc cmp dst a b store =
     (let A = run_length a; B = run_length b; cur = run_start a in
      case resize can_alloc store (min A B) of
        None \<Rightarrow> (dst, store)
      | Some store' \<Rightarrow>
          (if A < B
           then (merge_lo cmp (seg dst cur A) A (cur + A + B) dst 0 (cur + A) cur, store')
           else (merge_hi cmp (seg dst (cur + A) B) cur dst B (cur + A) (cur + A + B), store')))"

definition join_runs :: "tsort_run \<Rightarrow> tsort_run \<Rightarrow> tsort_run" where
  "join_runs a b = a\<lparr>run_length := run_length a + run_length b\<rparr>"

function collapse :: "(nat \<Rightarrow> bool) \<Rightarrow> 'a cmp \<Rightarrow> nat \<Rightarrow> 'a list \<Rightarrow> tsort_run list \<Rightarrow> tsort_store \<Rightarrow>
    'a list \<times> tsort_run list \<times> tsort_store" where
  "collapse can_alloc cmp sz dst [] store = (dst, [], store)"
| "collapse can_alloc cmp sz dst [r] store = (dst, [r], store)"
| "collapse can_alloc cmp sz dst [b, a] store =
     (if run_length a + run_length b = sz \<or> run_length a \<le> run_length b
      then (case merge_runs can_alloc cmp dst a b store of
              (dst', store') \<Rightarrow> (dst', [join_runs a b], store'))
      else (dst, [b, a], store))"
| "collapse can_alloc cmp sz dst (c # b # a # rest) store =
     (if run_length a \<le> run_length b + run_length c then
        (if run_length a < run_length c
         then (case merge_runs can_alloc cmp dst a b store of
                 (dst', store') \<Rightarrow>
                   collapse can_alloc cmp sz dst' (c # join_runs a b # rest) store')
         else (case merge_runs can_alloc cmp dst b c store of
                 (dst', store') \<Rightarrow>
                   collapse can_alloc cmp sz dst' (join_runs b c # a # rest) store'))
      else if run_length b \<le> run_length c
      then (case merge_runs can_alloc cmp dst b c store of
              (dst', store') \<Rightarrow>
                collapse can_alloc cmp sz dst' (join_runs b c # a # rest) store')
      else (dst, c # b # a # rest, store))"
  by pat_completeness auto
termination
  by (relation "measure (\<lambda>(can_alloc, cmp, sz, dst, stack, store). length stack)") auto

subsection \<open>The sort\<close>

text \<open>The \<open>while (stack_curr > 1)\<close> loop that finishes the sort.\<close>

fun finish_up :: "(nat \<Rightarrow> bool) \<Rightarrow> 'a cmp \<Rightarrow> 'a list \<Rightarrow> tsort_run list \<Rightarrow> tsort_store \<Rightarrow> 'a list" where
  "finish_up can_alloc cmp dst (b # a # rest) store =
     (case merge_runs can_alloc cmp dst a b store of
        (dst', store') \<Rightarrow> finish_up can_alloc cmp dst' (join_runs a b # rest) store')"
| "finish_up can_alloc cmp dst stack store = dst"

record 'a tsort_state =
  ts_dst :: "'a list"
  ts_stack :: "tsort_run list"
  ts_curr :: nat
  ts_store :: tsort_store

text \<open>\<open>PUSH_NEXT()\<close> either returns from \<open>git__tsort_r\<close> (\<open>Inl\<close>) or goes on (\<open>Inr\<close>).\<close>

definition push_next :: "(nat \<Rightarrow> bool) \<Rightarrow> 'a cmp \<Rightarrow> nat \<Rightarrow> 'a tsort_state \<Rightarrow>
    ('a list + 'a tsort_state) option" where
  "push_next can_alloc cmp minrun s =
     (let cur = ts_curr s; sz = length (ts_dst s);
          (dst1, len1) = count_run cmp (ts_dst s) cur;
          run = min minrun (sz - cur) in
      do {
        (dst, len) \<leftarrow>
          (if len1 < run
           then map_option (\<lambda>d. (take cur dst1 @ d, run)) (bisort cmp (drop cur dst1) len1 run)
           else Some (dst1, len1));
        let stack = \<lparr>run_start = cur, run_length = len\<rparr> # ts_stack s;
        Some (if cur + len = sz
              then Inl (finish_up can_alloc cmp dst stack (ts_store s))
              else Inr \<lparr>ts_dst = dst, ts_stack = stack, ts_curr = cur + len, ts_store = ts_store s\<rparr>)
      })"

partial_function (option) tsort_loop ::
    "(nat \<Rightarrow> bool) \<Rightarrow> 'a cmp \<Rightarrow> nat \<Rightarrow> 'a tsort_state \<Rightarrow> 'a list option" where
  "tsort_loop can_alloc cmp minrun s =
     (if \<not> check_invariant (ts_stack s)
      then (case collapse can_alloc cmp (length (ts_dst s)) (ts_dst s) (ts_stack s) (ts_store s) of
              (dst, stack, store) \<Rightarrow>
                tsort_loop can_alloc cmp minrun
                  (s\<lparr>ts_dst := dst, ts_stack := stack, ts_store := store\<rparr>))
      else Option.bind (push_next can_alloc cmp minrun s)
             (\<lambda>r. case r of Inl dst \<Rightarrow> Some dst
                          | Inr s' \<Rightarrow> tsort_loop can_alloc cmp minrun s'))"

text \<open>\<open>n\<close> times \<open>PUSH_NEXT()\<close>, then the loop.\<close>

fun push_then_loop :: "(nat \<Rightarrow> bool) \<Rightarrow> 'a cmp \<Rightarrow> nat \<Rightarrow> nat \<Rightarrow> 'a tsort_state \<Rightarrow> 'a list option" where
  "push_then_loop can_alloc cmp minrun 0 s = tsort_loop can_alloc cmp minrun s"
| "push_then_loop can_alloc cmp minrun (Suc n) s =
     Option.bind (push_next can_alloc cmp minrun s)
       (\<lambda>r. case r of Inl dst \<Rightarrow> Some dst
                    | Inr s' \<Rightarrow> push_then_loop can_alloc cmp minrun n s')"

definition git__tsort_r :: "(nat \<Rightarrow> bool) \<Rightarrow> 'a cmp \<Rightarrow> 'a list \<Rightarrow> 'a list option" where
  "git__tsort_r can_alloc cmp dst =
     (let sz = length dst in
      if sz < 64 then bisort cmp dst 1 sz
      else push_then_loop can_alloc cmp (compute_minrun sz) 3
             \<lparr>ts_dst = dst, ts_stack = [], ts_curr = 0, ts_store = \<lparr>store_alloc = 0\<rparr>\<rparr>)"

definition git__tsort :: "(nat \<Rightarrow> bool) \<Rightarrow> 'a cmp \<Rightarrow> 'a list \<Rightarrow> 'a list option" where
  "git__tsort can_alloc cmp dst = git__tsort_r can_alloc cmp dst"

end
