(* ===== verification/TsortLemmas.thy ===== *)
theory TsortLemmas
  imports Tsort
begin

text \<open>
  Lemmas on the pieces of \<open>tsort.c\<close>: the array moves, the binary insertion sort, the run
  scanner and the two merge loops, each against a function on lists.
\<close>

subsection \<open>Array moves\<close>

lemma shift_right_eq:
  "location \<le> i \<Longrightarrow> i < length dst \<Longrightarrow>
   (shift_right dst location i)[location := x] =
     take location dst @ x # seg dst location (i - location) @ drop (Suc i) dst"
proof (induction dst location i rule: shift_right.induct)
  case (1 dst location i)
  show ?case
  proof (cases "location < i")
    case True
    let ?d = "dst[i := dst ! (i - 1)]"
    have i1: "location \<le> i - 1" "i - 1 < length ?d" using True "1.prems" by auto
    have "(shift_right dst location i)[location := x] =
        take location ?d @ x # seg ?d location (i - 1 - location) @ drop i ?d"
      using "1.IH" [OF True i1] True by (simp add: shift_right.simps [of dst])
    moreover have "take location ?d = take location dst" using True by simp
    moreover have "seg ?d location (i - 1 - location) = seg dst location (i - 1 - location)"
      using True "1.prems" by (intro seg_cong_take [where m = "i - 1"]) auto
    moreover have "drop i ?d = dst ! (i - 1) # drop (Suc i) dst"
      using "1.prems" True by (subst Cons_nth_drop_Suc [symmetric]) auto
    moreover have "seg dst location (i - location) = seg dst location (i - 1 - location) @ [dst ! (i - 1)]"
      using True "1.prems" seg_Suc [of location "i - 1 - location" dst]
      by (simp add: Suc_diff_Suc)
    ultimately show ?thesis by simp
  next
    case False
    then have "location = i" using "1.prems" by simp
    then show ?thesis using "1.prems"
      by (simp add: shift_right.simps [of dst] upd_conv_take_nth_drop seg_def)
  qed
qed

lemma length_shift_right [simp]: "length (shift_right dst location i) = length dst"
  by (induction dst location i rule: shift_right.induct) (simp add: shift_right.simps)

lemma length_reverse_elements [simp]: "length (reverse_elements dst s e) = length dst"
  by (induction dst s e rule: reverse_elements.induct) (simp add: reverse_elements.simps)

lemma reverse_elements_eq:
  "length xs = s \<Longrightarrow> Suc e = s + length ys \<Longrightarrow> reverse_elements (xs @ ys @ zs) s e = xs @ rev ys @ zs"
proof (induction "length ys" arbitrary: xs ys zs s e rule: less_induct)
  case less
  show ?case
  proof (cases "s < e")
    case True
    then obtain a ms b where ys: "ys = a # ms @ [b]"
      using less.prems by (cases ys; cases "tl ys" rule: rev_cases) auto
    let ?d = "xs @ ys @ zs"
    have "?d ! s = a" "?d ! e = b" using less.prems ys by (auto simp: nth_append)
    then have "reverse_elements ?d s e = reverse_elements (?d[s := b, e := a]) (Suc s) (e - 1)"
      using True by (simp add: reverse_elements.simps [of ?d])
    also have "?d[s := b, e := a] = (xs @ [b]) @ ms @ (a # zs)"
      using less.prems ys by (auto simp: list_update_append)
    also have "reverse_elements \<dots> (Suc s) (e - 1) = (xs @ [b]) @ rev ms @ (a # zs)"
      using less.prems ys True by (intro less.hyps) auto
    finally show ?thesis using ys by simp
  next
    case False
    then have "length ys \<le> 1" using less.prems by simp
    then have "rev ys = ys" by (cases ys) auto
    then show ?thesis using False by (simp add: reverse_elements.simps)
  qed
qed

context git_cmp begin

subsection \<open>Binary insertion sort\<close>

text \<open>\<open>loc\<close> is the position after all elements of the first \<open>n\<close> that are at most \<open>x\<close>.\<close>

lemma upper_position:
  assumes "sorted_by cmp (take n dst)" "n \<le> length dst"
    and "0 < i" "i \<le> m" "m < n" "cmp (dst ! (i - 1)) x \<le> 0" "cmp x (dst ! i) < 0"
  shows "(\<forall>k<i. cmp (dst ! k) x \<le> 0) \<and> (\<forall>k. i \<le> k \<and> k < n \<longrightarrow> cmp x (dst ! k) < 0)"
proof (intro conjI allI impI)
  have nth: "cmp (dst ! j) (dst ! k) \<le> 0" if "j \<le> k" "k < n" for j k
    using sorted_by_nth [OF assms(1), of j k] assms(2) that by (cases "j = k") auto
  fix k assume "k < i"
  then have "cmp (dst ! k) (dst ! (i - 1)) \<le> 0" using nth assms by simp
  then show "cmp (dst ! k) x \<le> 0" using assms(6) by (rule cmp_trans)
next
  have nth: "cmp (dst ! j) (dst ! k) \<le> 0" if "j \<le> k" "k < n" for j k
    using sorted_by_nth [OF assms(1), of j k] assms(2) that by (cases "j = k") auto
  fix k assume "i \<le> k \<and> k < n"
  then show "cmp x (dst ! k) < 0" using nth assms(7) cmp_less_le_trans by blast
qed

lemma skip_equal_spec:
  assumes "sorted_by cmp (take n dst)" "n \<le> length dst" "m < n" "cmp x (dst ! m) < 0"
    and "0 < i" "i \<le> m" "cmp x (dst ! (i - 1)) = 0"
  shows "\<exists>loc. skip_equal cmp dst x i = Some loc \<and> loc \<le> m \<and>
    (\<forall>k<loc. cmp (dst ! k) x \<le> 0) \<and> (\<forall>k. loc \<le> k \<and> k < n \<longrightarrow> cmp x (dst ! k) < 0)"
  using assms
proof (induction "m - i" arbitrary: i rule: less_induct)
  case less
  note prems = less.prems
  show ?case
  proof (cases "cmp x (dst ! i) = 0")
    case True
    then have "i \<noteq> m" using prems by auto
    then have "\<exists>loc. skip_equal cmp dst x (Suc i) = Some loc \<and> loc \<le> m \<and>
        (\<forall>k<loc. cmp (dst ! k) x \<le> 0) \<and> (\<forall>k. loc \<le> k \<and> k < n \<longrightarrow> cmp x (dst ! k) < 0)"
      using True prems \<open>i \<noteq> m\<close> by (intro less.hyps) auto
    then show ?thesis using True prems by (simp add: skip_equal.simps [of _ dst x i])
  next
    case False
    have "cmp (dst ! (i - 1)) (dst ! i) \<le> 0"
      using sorted_by_nth [OF prems(1), of "i - 1" i] prems by simp
    then have "cmp x (dst ! i) \<le> 0" using prems cmp_trans [of x "dst ! (i - 1)"] by simp
    then have less: "cmp x (dst ! i) < 0" using False by simp
    have "cmp (dst ! (i - 1)) x \<le> 0" using prems by (simp add: cmp_le_iff)
    have "skip_equal cmp dst x i = Some i"
      using False prems by (simp add: skip_equal.simps [of _ dst x i])
    then show ?thesis using prems(6) upper_position [OF prems(1,2,5,6,3) \<open>cmp (dst ! (i - 1)) x \<le> 0\<close> less]
      by blast
  qed
qed

lemma binsearch_loop_spec:
  assumes "sorted_by cmp (take n dst)" "n \<le> length dst" "l < r" "r < n"
    and "cmp x (dst ! l) > 0" "cmp x (dst ! r) < 0"
  shows "\<exists>loc. binsearch_loop cmp dst x l r = Some loc \<and> loc < n \<and>
    (\<forall>k<loc. cmp (dst ! k) x \<le> 0) \<and> (\<forall>k. loc \<le> k \<and> k < n \<longrightarrow> cmp x (dst ! k) < 0)"
  using assms
proof (induction "r - l" arbitrary: l r rule: less_induct)
  case less
  note prems = less.prems
  let ?c = "l + (r - l) div 2"
  have c: "l \<le> ?c" "?c < r" using prems by auto
  have c2: "l < ?c" if "\<not> r - ?c \<le> 1" using that by linarith
  have lx: "cmp (dst ! l) x \<le> 0" using prems cmp_antisym [of x] by auto
  consider (lt) "cmp x (dst ! ?c) < 0" | (gt) "cmp x (dst ! ?c) > 0" | (eq) "cmp x (dst ! ?c) = 0"
    by linarith
  then show ?case
  proof cases
    case lt
    then have "dst ! ?c \<noteq> dst ! l" using prems(5) by auto
    then have "l \<noteq> ?c" by metis
    show ?thesis
    proof (cases "?c - l \<le> 1")
      case True
      then have "?c = Suc l" using \<open>l \<noteq> ?c\<close> c by simp
      then have "(\<forall>k<?c. cmp (dst ! k) x \<le> 0) \<and> (\<forall>k. ?c \<le> k \<and> k < n \<longrightarrow> cmp x (dst ! k) < 0)"
        using lt lx prems by (intro upper_position [where m = ?c]) auto
      then show ?thesis using True lt c prems by (simp add: binsearch_loop.simps [of _ dst x l r] Let_def)
    next
      case False
      then have "\<exists>loc. binsearch_loop cmp dst x l ?c = Some loc \<and> loc < n \<and>
          (\<forall>k<loc. cmp (dst ! k) x \<le> 0) \<and> (\<forall>k. loc \<le> k \<and> k < n \<longrightarrow> cmp x (dst ! k) < 0)"
        using lt prems c False by (intro less.hyps) auto
      then show ?thesis using lt False by (simp add: binsearch_loop.simps [of _ dst x l r] Let_def)
    qed
  next
    case gt
    then have cx: "cmp (dst ! ?c) x \<le> 0" using cmp_antisym [of x] by auto
    show ?thesis
    proof (cases "r - ?c \<le> 1")
      case True
      then have "r = Suc ?c" using c by simp
      then have "(\<forall>k<r. cmp (dst ! k) x \<le> 0) \<and> (\<forall>k. r \<le> k \<and> k < n \<longrightarrow> cmp x (dst ! k) < 0)"
      proof -
        have "cmp (dst ! (r - 1)) x \<le> 0" using cx \<open>r = Suc ?c\<close> by (metis diff_Suc_1)
        then show ?thesis using upper_position [OF prems(1,2), of r r x] prems(3,4,6) by auto
      qed
      then show ?thesis using True gt \<open>r = Suc ?c\<close> prems(4)
        by (simp add: binsearch_loop.simps [of _ dst x l r] Let_def)
    next
      case False
      then have "\<exists>loc. binsearch_loop cmp dst x ?c r = Some loc \<and> loc < n \<and>
          (\<forall>k<loc. cmp (dst ! k) x \<le> 0) \<and> (\<forall>k. loc \<le> k \<and> k < n \<longrightarrow> cmp x (dst ! k) < 0)"
        using gt prems c c2 [OF False] by (intro less.hyps diff_less_mono2) auto
      then show ?thesis using gt False by (simp add: binsearch_loop.simps [of _ dst x l r] Let_def)
    qed
  next
    case eq
    then have "\<exists>loc. skip_equal cmp dst x (Suc ?c) = Some loc \<and> loc \<le> r \<and>
        (\<forall>k<loc. cmp (dst ! k) x \<le> 0) \<and> (\<forall>k. loc \<le> k \<and> k < n \<longrightarrow> cmp x (dst ! k) < 0)"
      using prems c by (intro skip_equal_spec) auto
    then show ?thesis using eq prems(4) by (auto simp: binsearch_loop.simps [of _ dst x l r] Let_def)
  qed
qed

lemma binsearch_spec:
  assumes srt: "sorted_by cmp (take n dst)" and n: "0 < n" "n \<le> length dst"
    and last: "cmp x (dst ! (n - 1)) < 0"
  shows "\<exists>loc. binsearch cmp dst x n = Some loc \<and> loc < n \<and>
    (\<forall>k<loc. cmp (dst ! k) x \<le> 0) \<and> (\<forall>k. loc \<le> k \<and> k < n \<longrightarrow> cmp x (dst ! k) < 0)"
proof -
  consider (lt) "cmp x (dst ! 0) < 0" | (eq) "cmp x (dst ! 0) = 0" | (gt) "cmp x (dst ! 0) > 0"
    by linarith
  then show ?thesis
  proof cases
    case lt
    have "cmp x (dst ! k) < 0" if "k < n" for k
      using lt that sorted_by_nth [OF srt, of 0 k] n cmp_less_le_trans by (cases "k = 0") auto
    then show ?thesis using lt n by (simp add: binsearch_def)
  next
    case eq
    then have "n - 1 \<noteq> 0" using last by auto
    then have "\<exists>loc. skip_equal cmp dst x 1 = Some loc \<and> loc \<le> n - 1 \<and>
        (\<forall>k<loc. cmp (dst ! k) x \<le> 0) \<and> (\<forall>k. loc \<le> k \<and> k < n \<longrightarrow> cmp x (dst ! k) < 0)"
      using eq n last srt by (intro skip_equal_spec) auto
    then show ?thesis using eq n by (auto simp: binsearch_def)
  next
    case gt
    then have "n - 1 \<noteq> 0" using last by auto
    then have "\<exists>loc. binsearch_loop cmp dst x 0 (n - 1) = Some loc \<and> loc < n \<and>
        (\<forall>k<loc. cmp (dst ! k) x \<le> 0) \<and> (\<forall>k. loc \<le> k \<and> k < n \<longrightarrow> cmp x (dst ! k) < 0)"
      using gt n last srt by (intro binsearch_loop_spec) auto
    then show ?thesis using gt n by (simp add: binsearch_def)
  qed
qed

text \<open>Squeezing \<open>x\<close> into the sorted prefix keeps it sorted and moves \<open>x\<close> over greater elements only.\<close>

lemma insert_sorted:
  assumes srt: "sorted_by cmp (take i dst)" and i: "i < length dst" and loc: "loc \<le> i"
    and below: "\<forall>k<loc. cmp (dst ! k) x \<le> 0"
    and above: "\<forall>k. loc \<le> k \<and> k < i \<longrightarrow> cmp x (dst ! k) < 0"
    and x: "x = dst ! i"
  defines "ins \<equiv> take loc dst @ x # seg dst loc (i - loc)"
  shows "sorted_by cmp ins" "stable_perm cmp (take (Suc i) dst) ins"
proof -
  have split: "take i dst = take loc dst @ seg dst loc (i - loc)"
    using loc seg_add [of dst 0 loc "i - loc"] by (simp add: seg_def)
  have up: "\<forall>y\<in>set (seg dst loc (i - loc)). cmp x y < 0"
    using above i loc by (auto simp: seg_def in_set_conv_nth)
  have lo: "\<forall>y\<in>set (take loc dst). cmp y x \<le> 0"
    using below by (auto simp: in_set_conv_nth)
  show "sorted_by cmp ins"
    using srt up lo unfolding ins_def split
    by (auto simp: sorted_by_append sorted_by_Cons intro: order_less_imp_le)
  have "take (Suc i) dst = take loc dst @ seg dst loc (i - loc) @ [x]"
    using i x split by (simp add: take_Suc_conv_app_nth)
  moreover have "stable_perm cmp (seg dst loc (i - loc) @ [x]) (x # seg dst loc (i - loc))"
    using up by (intro stable_perm_move) auto
  ultimately show "stable_perm cmp (take (Suc i) dst) ins"
    unfolding ins_def by (simp add: stable_perm_append)
qed

lemma bisort_spec:
  assumes "0 < i" "i \<le> sz" "sz \<le> length dst" "sorted_by cmp (take i dst)"
  shows "\<exists>dst'. bisort cmp dst i sz = Some dst' \<and> length dst' = length dst \<and>
    drop sz dst' = drop sz dst \<and> sorted_by cmp (take sz dst') \<and>
    stable_perm cmp (take sz dst) (take sz dst')"
  using assms
proof (induction "sz - i" arbitrary: dst i rule: less_induct)
  case less
  note prems = less.prems
  show ?case
  proof (cases "i < sz")
    case False
    then show ?thesis using prems by (simp add: bisort.simps [of _ dst sz sz])
  next
    case True
    then have i: "i < length dst" using prems by simp
    show ?thesis
    proof (cases "cmp (dst ! (i - 1)) (dst ! i) \<le> 0")
      case le: True
      have "take i dst = take (i - 1) dst @ [dst ! (i - 1)]"
        using take_Suc_conv_app_nth [of "i - 1" dst] prems i by simp
      then have "take i dst \<noteq> []" "last (take i dst) = dst ! (i - 1)" by simp_all
      then have "sorted_by cmp (take (Suc i) dst)"
        using sorted_by_snoc_le [OF prems(4)] le i by (simp add: take_Suc_conv_app_nth)
      then have "\<exists>dst'. bisort cmp dst (Suc i) sz = Some dst' \<and> length dst' = length dst \<and>
          drop sz dst' = drop sz dst \<and> sorted_by cmp (take sz dst') \<and>
          stable_perm cmp (take sz dst) (take sz dst')"
        using True prems by (intro less.hyps) auto
      then show ?thesis using True le
        by (simp add: bisort.simps [of _ dst i sz])
    next
      case gt: False
      let ?x = "dst ! i"
      have "cmp ?x (dst ! (i - 1)) < 0" using gt cmp_antisym by force
      then obtain loc where loc: "binsearch cmp dst ?x i = Some loc" "loc < i"
        "\<forall>k<loc. cmp (dst ! k) ?x \<le> 0" "\<forall>k. loc \<le> k \<and> k < i \<longrightarrow> cmp ?x (dst ! k) < 0"
        using binsearch_spec [OF prems(4,1) less_imp_le [OF i]] by blast
      let ?ins = "take loc dst @ ?x # seg dst loc (i - loc)"
      let ?d = "(shift_right dst loc i)[loc := ?x]"
      have d: "?d = ?ins @ drop (Suc i) dst" using shift_right_eq [of loc i dst ?x] loc i by simp
      have len: "length ?ins = Suc i" using loc i by (simp add: seg_def)
      have ins: "sorted_by cmp ?ins" "stable_perm cmp (take (Suc i) dst) ?ins"
        using insert_sorted [OF prems(4) i _ loc(3,4) refl] loc(2) by auto
      have take_d: "take (Suc i) ?d = ?ins" and drop_d: "drop (Suc i) ?d = drop (Suc i) dst"
        using d len by (metis append_eq_conv_conj)+
      have "\<exists>dst'. bisort cmp ?d (Suc i) sz = Some dst' \<and> length dst' = length ?d \<and>
          drop sz dst' = drop sz ?d \<and> sorted_by cmp (take sz dst') \<and>
          stable_perm cmp (take sz ?d) (take sz dst')"
        using True prems ins(1) take_d by (intro less.hyps) auto
      moreover have "drop sz ?d = drop sz dst"
        using drop_d True by (metis Suc_leI drop_drop le_add_diff_inverse2)
      moreover have "stable_perm cmp (take sz dst) (take sz ?d)"
      proof -
        have "take sz dst = take (Suc i) dst @ take (sz - Suc i) (drop (Suc i) dst)"
          using True by (metis Suc_leI le_add_diff_inverse take_add)
        moreover have "take sz ?d = ?ins @ take (sz - Suc i) (drop (Suc i) dst)"
          using True take_d drop_d append_take_drop_id [of "Suc i" ?d]
          by (metis Suc_leI le_add_diff_inverse take_add)
        ultimately show ?thesis using ins(2) by (simp only: stable_perm_append stable_perm_refl)
      qed
      ultimately show ?thesis using True gt loc(1) stable_perm_trans
        by (fastforce simp: bisort.simps [of _ dst i sz])
    qed
  qed
qed

end

subsection \<open>Merging\<close>

text \<open>The merge as a function of the two runs, from the front and from the back.\<close>

fun merge_list :: "'a cmp \<Rightarrow> 'a list \<Rightarrow> 'a list \<Rightarrow> 'a list" where
  "merge_list cmp [] ys = ys"
| "merge_list cmp xs [] = xs"
| "merge_list cmp (x # xs) (y # ys) =
     (if cmp x y \<le> 0 then x # merge_list cmp xs (y # ys) else y # merge_list cmp (x # xs) ys)"

text \<open>Arguments of \<open>merge_back\<close> are the reversed runs, its result is the reversed merge.\<close>

fun merge_back :: "'a cmp \<Rightarrow> 'a list \<Rightarrow> 'a list \<Rightarrow> 'a list" where
  "merge_back cmp [] ys = ys"
| "merge_back cmp xs [] = xs"
| "merge_back cmp (x # xs) (y # ys) =
     (if cmp x y > 0 then x # merge_back cmp xs (y # ys) else y # merge_back cmp (x # xs) ys)"

lemma merge_list_Nil2 [simp]: "merge_list cmp xs [] = xs"
  by (cases xs) auto

lemma merge_back_Nil2 [simp]: "merge_back cmp xs [] = xs"
  by (cases xs) auto

lemma mset_merge_list [simp]: "mset (merge_list cmp xs ys) = mset xs + mset ys"
  by (induction cmp xs ys rule: merge_list.induct) auto

lemma set_merge_list [simp]: "set (merge_list cmp xs ys) = set xs \<union> set ys"
  by (induction cmp xs ys rule: merge_list.induct) auto

lemma mset_merge_back [simp]: "mset (merge_back cmp xs ys) = mset xs + mset ys"
  by (induction cmp xs ys rule: merge_back.induct) auto

lemma merge_lo_eq:
  assumes "length G = A - i" "i \<le> A" "A \<le> length storage"
    and "k = length P" "j = k + length G" "e = j + length R"
  shows "merge_lo cmp storage A e (P @ G @ R @ S) i j k =
           P @ merge_list cmp (seg storage i (A - i)) R @ S"
  using assms
proof (induction "e - k" arbitrary: P G R i j k rule: less_induct)
  case less
  note prems = less.prems
  let ?dst = "P @ G @ R @ S"
  have sto: "seg storage i (A - i) = storage ! i # seg storage (Suc i) (A - Suc i)" if "i < A"
    using that prems(3) by (simp add: seg_def Cons_nth_drop_Suc [symmetric] take_Suc Suc_diff_Suc [symmetric])
  have done_: "seg storage i (A - i) = []" if "\<not> i < A"
    using that by (simp add: seg_def)
  have ke: "k < e \<longleftrightarrow> i < A \<or> R \<noteq> []" using prems by (cases R) auto
  have left: "merge_lo cmp storage A e (?dst[k := storage ! i]) (Suc i) j (Suc k) =
      P @ storage ! i # merge_list cmp (seg storage (Suc i) (A - Suc i)) R @ S" if iA: "i < A"
  proof -
    obtain g G' where G: "G = g # G'" using prems(1) iA by (cases G) auto
    have "?dst[k := storage ! i] = (P @ [storage ! i]) @ G' @ R @ S"
      using G prems(4) by (simp add: list_update_append)
    moreover have "merge_lo cmp storage A e ((P @ [storage ! i]) @ G' @ R @ S) (Suc i) j (Suc k) =
        (P @ [storage ! i]) @ merge_list cmp (seg storage (Suc i) (A - Suc i)) R @ S"
      using prems G iA by (intro less.hyps) auto
    ultimately show ?thesis by simp
  qed
  have right: "merge_lo cmp storage A e (?dst[k := ?dst ! j]) i (Suc j) (Suc k) =
      P @ hd R # merge_list cmp (seg storage i (A - i)) (tl R) @ S" if R: "R \<noteq> []"
  proof -
    obtain r R' where R': "R = r # R'" using R by (cases R) auto
    have dj: "?dst ! j = r" using prems(4,5) R' by (simp add: nth_append)
    obtain G' where G': "?dst[k := r] = (P @ [r]) @ G' @ R' @ S" "length G' = length G"
    proof (cases G)
      case Nil
      then show ?thesis using that [of "[]"] prems R' by simp
    next
      case (Cons g gs)
      then show ?thesis using that [of "gs @ [r]"] prems R' by simp
    qed
    moreover have "merge_lo cmp storage A e ((P @ [r]) @ G' @ R' @ S) i (Suc j) (Suc k) =
        (P @ [r]) @ merge_list cmp (seg storage i (A - i)) R' @ S"
      using prems R' G' by (intro less.hyps) auto
    ultimately show ?thesis using R' dj by simp
  qed
  show ?case
  proof (cases R)
    case Nil
    then show ?thesis using left sto done_ prems ke
      unfolding merge_lo.simps [of _ _ _ _ ?dst i j k]
      by (cases "i < A") simp_all
  next
    case (Cons r R')
    have dj: "?dst ! j = r" using prems(4,5) Cons by (simp add: nth_append)
    have "j < e" "k < e" using prems Cons by auto
    then show ?thesis using left right sto done_ Cons dj
      unfolding merge_lo.simps [of _ _ _ _ ?dst i j k]
      by (cases "i < A") simp_all
  qed
qed

lemma merge_hi_eq:
  assumes "length G = i" "i \<le> length storage" "cur = length P"
    and "j = cur + length L" "k = j + length G"
  shows "merge_hi cmp storage cur (P @ L @ G @ Q) i j k =
           P @ rev (merge_back cmp (rev L) (rev (take i storage))) @ Q"
  using assms
proof (induction "k" arbitrary: L G Q i j rule: less_induct)
  case (less k)
  note prems = less.prems
  let ?dst = "P @ L @ G @ Q"
  have sto: "rev (take i storage) = storage ! (i - 1) # rev (take (i - 1) storage)" if "0 < i"
    using that prems(2) take_Suc_conv_app_nth [of "i - 1" storage] by simp
  have right: "merge_hi cmp storage cur (?dst[k - 1 := storage ! (i - 1)]) (i - 1) j (k - 1) =
      P @ rev (merge_back cmp (rev L) (rev (take (i - 1) storage))) @ storage ! (i - 1) # Q"
    if i0: "0 < i"
  proof -
    obtain G' g where G: "G = G' @ [g]" using prems(1) i0 by (cases G rule: rev_cases) auto
    have "k - 1 = length P + (length L + length G')" using G prems by simp
    then have "?dst[k - 1 := storage ! (i - 1)] = P @ L @ G' @ storage ! (i - 1) # Q"
      using G by (simp add: list_update_append)
    moreover have "merge_hi cmp storage cur (P @ L @ G' @ storage ! (i - 1) # Q) (i - 1) j (k - 1) =
        P @ rev (merge_back cmp (rev L) (rev (take (i - 1) storage))) @ storage ! (i - 1) # Q"
      using prems G i0 by (intro less.IH) auto
    ultimately show ?thesis by simp
  qed
  have left: "merge_hi cmp storage cur (?dst[k - 1 := ?dst ! (j - 1)]) i (j - 1) (k - 1) =
      P @ rev (merge_back cmp (rev (butlast L)) (rev (take i storage))) @ last L # Q"
    if L: "L \<noteq> []"
  proof -
    obtain L' l where L': "L = L' @ [l]" using L by (cases L rule: rev_cases) auto
    have dj: "?dst ! (j - 1) = l" using prems L' by (simp add: nth_append)
    obtain G' where G': "?dst[k - 1 := l] = P @ L' @ G' @ l # Q" "length G' = length G"
    proof (cases G rule: rev_cases)
      case Nil
      then show ?thesis using that [of "[]"] prems L' by (simp add: list_update_append)
    next
      case (snoc gs g)
      then show ?thesis using that [of "l # gs"] prems L' by (simp add: list_update_append)
    qed
    moreover have "merge_hi cmp storage cur (P @ L' @ G' @ l # Q) i (j - 1) (k - 1) =
        P @ rev (merge_back cmp (rev L') (rev (take i storage))) @ l # Q"
      using prems L' G' by (intro less.IH) auto
    ultimately show ?thesis using L' dj by simp
  qed
  show ?case
  proof (cases L rule: rev_cases)
    case Nil
    then show ?thesis using right sto prems
      unfolding merge_hi.simps [of _ _ _ ?dst i j k]
      by (cases "0 < i") simp_all
  next
    case (snoc L' l)
    have dj: "?dst ! (j - 1) = l" using prems snoc by (simp add: nth_append)
    show ?thesis using left right sto prems snoc dj
      unfolding merge_hi.simps [of _ _ _ ?dst i j k]
      by (cases "0 < i") simp_all
  qed
qed

context git_cmp begin

lemma sorted_merge_list: "sorted_by cmp xs \<Longrightarrow> sorted_by cmp ys \<Longrightarrow> sorted_by cmp (merge_list cmp xs ys)"
proof (induction "length xs + length ys" arbitrary: xs ys rule: less_induct)
  case less
  show ?case
  proof (cases xs; cases ys)
    fix x xs' y ys' assume xs: "xs = x # xs'" and ys: "ys = y # ys'"
    show ?thesis
    proof (cases "cmp x y \<le> 0")
      case True
      then show ?thesis using less.hyps [of xs' ys] less.prems xs ys
        by (auto simp: sorted_by_Cons intro: cmp_trans)
    next
      case False
      then have "cmp y x \<le> 0" using cmp_total by blast
      then show ?thesis using less.hyps [of xs ys'] less.prems xs ys False
        by (auto simp: sorted_by_Cons intro: cmp_trans)
    qed
  qed (use less.prems in auto)
qed

lemma stable_merge_list: "sorted_by cmp xs \<Longrightarrow> stable_perm cmp (xs @ ys) (merge_list cmp xs ys)"
proof (induction "length xs + length ys" arbitrary: xs ys rule: less_induct)
  case less
  show ?case
  proof (cases xs; cases ys)
    fix x xs' y ys' assume xs: "xs = x # xs'" and ys: "ys = y # ys'"
    show ?thesis
    proof (cases "cmp x y \<le> 0")
      case True
      have "stable_perm cmp (xs' @ ys) (merge_list cmp xs' ys)"
        using less.hyps [of xs' ys] less.prems xs by (auto simp: sorted_by_Cons)
      then show ?thesis using True xs ys stable_perm_append [of cmp "[x]" "[x]"] by fastforce
    next
      case False
      have "\<forall>z\<in>set xs. cmp y z \<noteq> 0"
      proof
        fix z assume "z \<in> set xs"
        then have "cmp x z \<le> 0" using less.prems xs by (auto simp: sorted_by_Cons)
        moreover have "cmp y x < 0" using False cmp_antisym by force
        ultimately show "cmp y z \<noteq> 0" using cmp_less_le_trans by fastforce
      qed
      then have "stable_perm cmp ((xs @ [y]) @ ys') ((y # xs) @ ys')"
        by (intro stable_perm_append stable_perm_move) auto
      moreover have "stable_perm cmp ([y] @ xs @ ys') ([y] @ merge_list cmp xs ys')"
        using less.hyps [of xs ys'] less.prems ys by (intro stable_perm_append) auto
      ultimately show ?thesis using False xs ys stable_perm_trans by fastforce
    qed
  qed simp_all
qed

lemma merge_list_snoc:
  "sorted_by cmp (xs @ [x]) \<Longrightarrow> sorted_by cmp (ys @ [y]) \<Longrightarrow>
   merge_list cmp (xs @ [x]) (ys @ [y]) =
     (if cmp x y > 0 then merge_list cmp xs (ys @ [y]) @ [x]
      else merge_list cmp (xs @ [x]) ys @ [y])"
proof (induction "length xs + length ys" arbitrary: xs ys rule: less_induct)
  case less
  have all_le: "merge_list cmp us [z] = us @ [z]" if "\<forall>u\<in>set us. cmp u z \<le> 0" for us z
    using that by (induction us) auto
  have all_gt: "merge_list cmp [z] vs = vs @ [z]" if "\<forall>v\<in>set vs. 0 < cmp z v" for vs z
    using that by (induction vs) auto
  show ?case
  proof (cases xs; cases ys)
    assume "xs = []" "ys = []"
    then show ?thesis by auto
  next
    fix v vs assume xs: "xs = []" and ys: "ys = v # vs"
    show ?thesis
    proof (cases "cmp x v \<le> 0")
      case True
      then have "cmp x y \<le> 0" using less.prems(2) ys by (auto simp: sorted_by_Cons intro: cmp_trans)
      then show ?thesis using xs ys True by simp
    next
      case False
      then show ?thesis using less.hyps [of "[]" vs] less.prems xs ys
        by (auto simp: sorted_by_Cons)
    qed
  next
    fix u us assume xs: "xs = u # us" and ys: "ys = []"
    show ?thesis
    proof (cases "cmp u y \<le> 0")
      case True
      then show ?thesis using less.hyps [of us "[]"] less.prems xs ys
        by (auto simp: sorted_by_Cons)
    next
      case False
      have "cmp u x \<le> 0" using less.prems xs by (auto simp: sorted_by_Cons)
      then have "0 < cmp x y" using False by (meson cmp_trans linorder_not_le)
      then show ?thesis using xs ys False by simp
    qed
  next
    fix u us v vs assume xs: "xs = u # us" and ys: "ys = v # vs"
    show ?thesis
    proof (cases "cmp u v \<le> 0")
      case True
      then show ?thesis using less.hyps [of us ys] less.prems xs ys
        by (auto simp: sorted_by_Cons)
    next
      case False
      then show ?thesis using less.hyps [of xs vs] less.prems xs ys
        by (auto simp: sorted_by_Cons)
    qed
  qed
qed

lemma merge_back_eq:
  "sorted_by cmp xs \<Longrightarrow> sorted_by cmp ys \<Longrightarrow> rev (merge_back cmp (rev xs) (rev ys)) = merge_list cmp xs ys"
proof (induction "length xs + length ys" arbitrary: xs ys rule: less_induct)
  case less
  show ?case
  proof (cases xs rule: rev_cases; cases ys rule: rev_cases)
    fix xs' x ys' y assume xs: "xs = xs' @ [x]" and ys: "ys = ys' @ [y]"
    have s: "sorted_by cmp xs'" "sorted_by cmp ys'" using less.prems xs ys by (auto simp: sorted_by_append)
    show ?thesis using less.hyps [of xs' ys] less.hyps [of xs ys'] less.prems xs ys s
        merge_list_snoc [of xs' x ys' y] by auto
  qed auto
qed

end

end
