(* ===== verification/TsortCorrect.thy ===== *)
theory TsortCorrect
  imports TsortLemmas
begin

text \<open>
  Correctness of \<open>git__tsort_r\<close>: the invariant of the stack of runs, termination of the
  main loop, and the properties of the whole sort.
\<close>

subsection \<open>Runs\<close>

fun runs_ok :: "('a list \<Rightarrow> bool) \<Rightarrow> 'a list \<Rightarrow> tsort_run list \<Rightarrow> nat \<Rightarrow> bool" where
  "runs_ok P dst [] cur = (cur = 0)"
| "runs_ok P dst (r # rs) cur =
     (run_start r + run_length r = cur \<and> 0 < run_length r \<and>
      P (seg dst (run_start r) (run_length r)) \<and> runs_ok P dst rs (run_start r))"

lemma runs_ok_cong:
  "runs_ok P dst rs cur \<Longrightarrow> take cur dst = take cur dst' \<Longrightarrow> runs_ok P dst' rs cur"
proof (induction rs arbitrary: cur)
  case (Cons r rs)
  then have "run_start r + run_length r = cur" by simp
  then have "take (run_start r) dst = take (run_start r) dst'"
    using Cons.prems(2) by (metis le_add1 min.absorb1 take_take)
  moreover have "seg dst (run_start r) (run_length r) = seg dst' (run_start r) (run_length r)"
    using Cons.prems \<open>run_start r + run_length r = cur\<close> by (metis order_refl seg_cong_take)
  ultimately show ?case using Cons by simp
qed simp

lemma scan_run_spec:
  "k \<le> scan_run p dst k \<and> (k < length dst \<longrightarrow> scan_run p dst k < length dst) \<and>
   (\<forall>j. k \<le> j \<and> j < scan_run p dst k \<longrightarrow> p (dst ! (j - 1)) (dst ! j))"
proof (induction "length dst - k" arbitrary: k rule: less_induct)
  case less
  show ?case
  proof (cases "Suc k < length dst \<and> p (dst ! (k - 1)) (dst ! k)")
    case True
    then have "scan_run p dst k = scan_run p dst (Suc k)" by (simp add: scan_run.simps [of p dst k])
    moreover have "p (dst ! (j - 1)) (dst ! j)" if "k \<le> j" "j < scan_run p dst (Suc k)" for j
      using that True less.hyps [of "Suc k"] by (cases "j = k") auto
    moreover have "length dst - Suc k < length dst - k" using True by (intro diff_less_mono2) auto
    ultimately show ?thesis using less.hyps [of "Suc k"] True by auto
  next
    case False
    then show ?thesis by (subst (1 2 3) scan_run.simps) auto
  qed
qed

context git_cmp begin

lemma descending_reverse:
  assumes "\<And>i. Suc i < length xs \<Longrightarrow> cmp (xs ! i) (xs ! Suc i) > 0"
  shows "sorted_by cmp (rev xs)" "stable_perm cmp xs (rev xs)"
proof -
  have "transp (\<lambda>a b. cmp b a < 0)" by (rule transpI) (blast intro: cmp_less_trans)
  then have desc: "sorted_wrt (\<lambda>a b. cmp b a < 0) xs"
    using assms cmp_antisym by (auto simp: sorted_wrt_iff_nth_Suc_transp)
  then show "sorted_by cmp (rev xs)"
    unfolding sorted_by_def sorted_wrt_rev by (rule sorted_wrt_mono_rel [rotated]) simp
  show "stable_perm cmp xs (rev xs)" using desc
  proof (induction xs)
    case (Cons x xs)
    have "cmp x y \<noteq> 0" if "y \<in> set xs" for y
      using that Cons.prems cmp_antisym [of x y] by auto
    then have "stable_perm cmp (rev xs @ [x]) (x # rev xs)" by (intro stable_perm_move) auto
    moreover have "stable_perm cmp ([x] @ xs) ([x] @ rev xs)" using Cons by (intro stable_perm_append) auto
    ultimately show ?case by (metis append_Cons append_Nil rev.simps(2) stable_perm_sym stable_perm_trans)
  qed simp
qed

lemma count_run_spec:
  assumes "start < length dst" and cr: "count_run cmp dst start = (dst', len)"
  shows "0 < len \<and> start + len \<le> length dst \<and> length dst' = length dst \<and>
    take start dst' = take start dst \<and> sorted_by cmp (seg dst' start len) \<and> stable_perm cmp dst dst'"
proof -
  let ?n = "length dst"
  consider (one) "?n - start = 1" | (two) "?n = start + 2" | (many) "start + 2 < ?n"
    using assms(1) by linarith
  then show ?thesis
  proof cases
    case one
    then have "dst' = dst" "len = 1" using cr by (auto simp: count_run_def Let_def)
    moreover have "seg dst start 1 = [dst ! start]"
      using assms(1) seg_Suc [of start 0 dst] by (simp add: seg_def)
    ultimately show ?thesis using assms(1) by simp
  next
    case two
    define P where "P = take start dst"
    obtain x y where xy: "drop start dst = [x, y]"
      using two by (metis (no_types, opaque_lifting) add_diff_cancel_left' length_drop
          numeral_2_eq_2 length_0_conv length_Suc_conv)
    then have dst: "dst = P @ [x, y]" using P_def by (metis append_take_drop_id)
    have P: "length P = start" using P_def two by simp
    have cr': "count_run cmp dst start = (if cmp x y > 0 then (P @ [y, x], 2) else (dst, 2))"
      using P by (simp add: count_run_def Let_def dst nth_append list_update_append)
    have "stable_perm cmp [x, y] [y, x]" if "cmp x y > 0"
      using that cmp_antisym [of x y] stable_perm_move [of "[x]" y] by simp
    then have "cmp x y > 0 \<Longrightarrow> stable_perm cmp (P @ [x, y]) (P @ [y, x])"
      by (intro stable_perm_append) auto
    moreover have "cmp x y > 0 \<Longrightarrow> cmp y x \<le> 0" using cmp_antisym [of x y] by simp
    ultimately show ?thesis using cr' cr P dst
      by (auto simp: seg_def sorted_by_Cons split: if_splits)
  next
    case many
    show ?thesis
    proof (cases "cmp (dst ! start) (dst ! (start + 1)) \<le> 0")
      case True
      let ?m = "scan_run (\<lambda>a b. cmp a b \<le> 0) dst (start + 2)"
      have res: "dst' = dst" "len = ?m - start" using cr many True by (auto simp: count_run_def Let_def split: if_splits)
      note sp = scan_run_spec [of "start + 2" "\<lambda>a b. cmp a b \<le> 0" dst]
      have lenseg: "length (seg dst start len) = len" using sp many res by (intro length_seg) auto
      have "sorted_by cmp (seg dst start len)"
      proof (rule sorted_by_neighbours)
        fix i assume "Suc i < length (seg dst start len)"
        then have i: "Suc i < len" using lenseg by simp
        show "cmp (seg dst start len ! i) (seg dst start len ! Suc i) \<le> 0"
        proof (cases i)
          case 0
          then show ?thesis using True i many by (simp add: seg_def)
        next
          case (Suc i')
          then have "cmp (dst ! (start + Suc i - 1)) (dst ! (start + Suc i)) \<le> 0"
            using sp i res by (metis (no_types, lifting) Suc_eq_plus1 add_2_eq_Suc' add_Suc_right
                add_le_cancel_left less_diff_conv2 le_add1 less_or_eq_imp_le less_diff_conv add.commute Suc_le_mono zero_le)
          then show ?thesis using i many sp res by (simp add: seg_def)
        qed
      qed
      then show ?thesis using res sp many by auto
    next
      case False
      let ?m = "scan_run (\<lambda>a b. cmp a b > 0) dst (start + 2)"
      note sp = scan_run_spec [of "start + 2" "\<lambda>a b. cmp a b > 0" dst]
      have res: "dst' = reverse_elements dst start (?m - 1)" "len = ?m - start"
        using cr many False by (auto simp: count_run_def Let_def split: if_splits)
      have m: "start + len = ?m" "start + len \<le> length dst" "2 \<le> len" using res sp many by auto
      have lenseg: "length (seg dst start len) = len" using m by (intro length_seg) auto
      have desc: "cmp (seg dst start len ! i) (seg dst start len ! Suc i) > 0"
        if "Suc i < length (seg dst start len)" for i
      proof -
        have i: "Suc i < len" using that lenseg by simp
        have "0 < cmp (dst ! (start + i)) (dst ! (start + Suc i))"
        proof (cases i)
          case 0
          then show ?thesis using False by simp
        next
          case (Suc i')
          then have "start + 2 \<le> start + Suc i \<and> start + Suc i < ?m" using i m by simp
          then show ?thesis using sp by fastforce
        qed
        then show ?thesis using i m by (simp add: seg_def)
      qed
      have split: "dst = take start dst @ seg dst start len @ drop (start + len) dst"
        by (rule split_at_seg)
      have eq: "dst' = take start dst @ rev (seg dst start len) @ drop (start + len) dst"
        unfolding res(1) using many m lenseg
        by (subst split, intro reverse_elements_eq) auto
      have "stable_perm cmp dst dst'"
        by (subst split, subst eq) (intro stable_perm_middle descending_reverse(2) desc)
      moreover have "seg dst' start len = rev (seg dst start len)"
        unfolding eq using many lenseg by (simp add: seg_def)
      moreover have "length dst' = length dst" unfolding res(1) by simp
      moreover have "take start dst' = take start dst" unfolding eq using many by simp
      ultimately show ?thesis using m descending_reverse(1) [OF desc] by auto
    qed
  qed
qed

end

subsection \<open>The stack of runs\<close>

context git_cmp begin

text \<open>
  The invariant of the sort: the runs on the stack tile the scanned part of the array,
  the array is a permutation of the input, and if no allocation fails (\<open>ok\<close>) the runs
  are sorted and equal elements keep their order.
\<close>

definition sort_inv :: "bool \<Rightarrow> 'a list \<Rightarrow> 'a list \<Rightarrow> tsort_run list \<Rightarrow> nat \<Rightarrow> bool" where
  "sort_inv ok dst0 dst stack cur \<longleftrightarrow>
     length dst = length dst0 \<and> mset dst = mset dst0 \<and> cur \<le> length dst \<and>
     runs_ok (\<lambda>s. ok \<longrightarrow> sorted_by cmp s) dst stack cur \<and> (ok \<longrightarrow> stable_perm cmp dst0 dst)"

lemma merge_runs_spec:
  assumes adj: "run_start a + run_length a = run_start b" "run_start b + run_length b \<le> length dst"
    and m: "merge_runs can_alloc cmp dst a b store = (dst', store')"
  shows "length dst' = length dst \<and> take (run_start a) dst' = take (run_start a) dst \<and>
    drop (run_start b + run_length b) dst' = drop (run_start b + run_length b) dst \<and>
    mset dst' = mset dst \<and>
    ((\<forall>n. can_alloc n) \<longrightarrow>
      sorted_by cmp (seg dst (run_start a) (run_length a)) \<longrightarrow>
      sorted_by cmp (seg dst (run_start b) (run_length b)) \<longrightarrow>
      sorted_by cmp (seg dst' (run_start a) (run_length a + run_length b)) \<and> stable_perm cmp dst dst')"
proof (cases "resize can_alloc store (min (run_length a) (run_length b))")
  case None
  then have "dst' = dst" using m by (simp add: merge_runs_def Let_def)
  moreover have "\<not> (\<forall>n. can_alloc n)" using None by (auto simp: resize_def split: if_splits)
  ultimately show ?thesis by blast
next
  case (Some st)
  let ?s = "run_start a" and ?A = "run_length a" and ?B = "run_length b"
  define P LA LB S where "P = take ?s dst" and "LA = seg dst ?s ?A"
    and "LB = seg dst (?s + ?A) ?B" and "S = drop (?s + ?A + ?B) dst"
  have dst: "dst = P @ LA @ LB @ S"
    using split_at_seg [of dst ?s "?A + ?B"] seg_add [of dst ?s ?A ?B]
    by (simp add: P_def LA_def LB_def S_def add.assoc)
  have len: "length P = ?s" "length LA = ?A" "length LB = ?B"
    using adj by (auto simp: P_def LA_def LB_def intro!: length_seg)
  define M where "M = (if ?A < ?B then merge_list cmp LA LB else rev (merge_back cmp (rev LA) (rev LB)))"
  have "merge_lo cmp LA ?A (?s + ?A + ?B) dst 0 (?s + ?A) ?s = P @ merge_list cmp LA LB @ S"
    unfolding dst using merge_lo_eq [of LA ?A 0 LA ?s P "?s + ?A" "?s + ?A + ?B" LB "cmp" S] len
    by (simp add: seg_def)
  moreover have "merge_hi cmp LB ?s dst ?B (?s + ?A) (?s + ?A + ?B) =
      P @ rev (merge_back cmp (rev LA) (rev LB)) @ S"
    unfolding dst using merge_hi_eq [of LB ?B LB ?s P "?s + ?A" LA "?s + ?A + ?B" "cmp" S] len
    by simp
  ultimately have dst': "dst' = P @ M @ S"
    using m Some by (auto simp: merge_runs_def Let_def M_def LA_def LB_def split: if_splits)
  have mM: "mset M = mset LA + mset LB" by (simp add: M_def)
  have lenM: "length M = ?A + ?B" using mM len by (metis size_mset size_union)
  have "sorted_by cmp LA \<Longrightarrow> sorted_by cmp LB \<Longrightarrow> M = merge_list cmp LA LB"
    by (simp add: M_def merge_back_eq)
  then have srt: "sorted_by cmp LA \<Longrightarrow> sorted_by cmp LB \<Longrightarrow>
      sorted_by cmp M \<and> stable_perm cmp (LA @ LB) M"
    by (simp add: sorted_merge_list stable_merge_list)
  have "seg dst' ?s (?A + ?B) = M" using lenM len by (simp add: dst' seg_def)
  moreover have "stable_perm cmp (LA @ LB) M \<Longrightarrow> stable_perm cmp dst dst'"
    using stable_perm_middle [of "cmp" "LA @ LB" M P S] by (simp add: dst dst')
  moreover have "length dst' = length dst" "mset dst' = mset dst"
    using lenM len mM by (simp_all add: dst dst')
  moreover have "take ?s dst' = take ?s dst" using len by (simp add: dst dst')
  moreover have "drop (?s + ?A + ?B) dst' = drop (?s + ?A + ?B) dst"
    using len lenM by (simp add: dst dst')
  moreover have "LB = seg dst (run_start b) ?B" using adj by (simp add: LB_def)
  ultimately show ?thesis using srt adj LA_def by simp
qed

lemma merge_top_inv:
  assumes inv: "sort_inv (\<forall>n. can_alloc n) dst0 dst (b # a # rest) cur"
    and m: "merge_runs can_alloc cmp dst a b store = (dst', store')"
  shows "sort_inv (\<forall>n. can_alloc n) dst0 dst' (join_runs a b # rest) cur"
proof -
  have r: "run_start a + run_length a = run_start b" "run_start b + run_length b = cur"
    "cur \<le> length dst" and ro: "runs_ok (\<lambda>s. (\<forall>n. can_alloc n) \<longrightarrow> sorted_by cmp s) dst rest (run_start a)"
    using inv by (auto simp: sort_inv_def)
  note sp = merge_runs_spec [OF r(1) _ m]
  have "runs_ok (\<lambda>s. (\<forall>n. can_alloc n) \<longrightarrow> sorted_by cmp s) dst' rest (run_start a)"
    using ro by (rule runs_ok_cong) (use sp r in simp)
  then show ?thesis using inv sp r stable_perm_trans [of "cmp" dst0 dst dst']
    by (auto simp: sort_inv_def join_runs_def)
qed

lemma merge_below_inv:
  assumes inv: "sort_inv (\<forall>n. can_alloc n) dst0 dst (c # b # a # rest) cur"
    and m: "merge_runs can_alloc cmp dst a b store = (dst', store')"
  shows "sort_inv (\<forall>n. can_alloc n) dst0 dst' (c # join_runs a b # rest) cur"
proof -
  have inv': "sort_inv (\<forall>n. can_alloc n) dst0 dst (b # a # rest) (run_start c)"
    and c: "run_start c + run_length c = cur" "cur \<le> length dst" "0 < run_length c"
      "(\<forall>n. can_alloc n) \<longrightarrow> sorted_by cmp (seg dst (run_start c) (run_length c))"
    using inv by (auto simp: sort_inv_def)
  have r: "run_start a + run_length a = run_start b" "run_start b + run_length b = run_start c"
    using inv by (auto simp: sort_inv_def)
  have "drop (run_start c) dst' = drop (run_start c) dst"
    using merge_runs_spec [OF r(1) _ m] r c by simp
  then have "seg dst' (run_start c) (run_length c) = seg dst (run_start c) (run_length c)"
    by (rule seg_cong_drop) simp
  moreover have "cur \<le> length dst0" using inv by (simp add: sort_inv_def)
  ultimately show ?thesis using merge_top_inv [OF inv' m] c by (simp add: sort_inv_def)
qed

lemma collapse_inv:
  "sort_inv (\<forall>n. can_alloc n) dst0 dst stack cur \<Longrightarrow>
   collapse can_alloc cmp sz dst stack store = (dst', stack', store') \<Longrightarrow>
   sort_inv (\<forall>n. can_alloc n) dst0 dst' stack' cur \<and> length stack' \<le> length stack \<and>
   (\<not> check_invariant stack \<longrightarrow> length stack' < length stack)"
proof (induction "length stack" arbitrary: dst stack store rule: less_induct)
  case less
  show ?case
  proof (cases stack rule: check_invariant.cases)
    case (3 b a)
    then show ?thesis using less.prems merge_top_inv
      by (auto split: if_splits prod.splits)
  next
    case (4 c b a rest)
    have step: ?thesis
      if inv: "sort_inv (\<forall>n. can_alloc n) dst0 d st cur" and "length st < length stack"
        and "collapse can_alloc cmp sz d st store1 = (dst', stack', store')" for d st store1
      using less.hyps [OF that(2,1,3)] that(2) by auto
    obtain d1 s1 where m1: "merge_runs can_alloc cmp dst a b store = (d1, s1)" by fastforce
    obtain d2 s2 where m2: "merge_runs can_alloc cmp dst b c store = (d2, s2)" by fastforce
    note inv1 = merge_below_inv [OF less.prems(1) [unfolded 4] m1]
    note inv2 = merge_top_inv [OF less.prems(1) [unfolded 4] m2]
    show ?thesis
    proof (cases "run_length a \<le> run_length b + run_length c \<or> run_length b \<le> run_length c")
      case True
      then show ?thesis using step [OF inv1] step [OF inv2] less.prems(2) m1 m2 4
        by (auto split: if_splits)
    next
      case False
      then show ?thesis using less.prems 4 by auto
    qed
  qed (use less.prems in auto)
qed

lemma finish_up_spec:
  assumes "sort_inv (\<forall>n. can_alloc n) dst0 dst stack (length dst)" "stack \<noteq> []"
  shows "mset (finish_up can_alloc cmp dst stack store) = mset dst0 \<and>
    ((\<forall>n. can_alloc n) \<longrightarrow> sorted_by cmp (finish_up can_alloc cmp dst stack store) \<and>
       stable_perm cmp dst0 (finish_up can_alloc cmp dst stack store))"
  using assms
proof (induction "length stack" arbitrary: dst stack store rule: less_induct)
  case less
  show ?case
  proof (cases "length stack \<le> 1")
    case True
    then obtain r where r: "stack = [r]" using less.prems(2)
      by (metis One_nat_def Suc_le_mono le_zero_eq length_0_conv length_Suc_conv neq_Nil_conv length_Cons)
    then have "seg dst (run_start r) (run_length r) = dst"
      using less.prems by (auto simp: sort_inv_def seg_def)
    then show ?thesis using less.prems r by (auto simp: sort_inv_def)
  next
    case False
    then obtain b a rest where st: "stack = b # a # rest"
      by (metis One_nat_def length_Cons list.exhaust list.size(3) nat_le_linear order_refl zero_le_one)
    obtain d s where m: "merge_runs can_alloc cmp dst a b store = (d, s)" by fastforce
    have inv: "sort_inv (\<forall>n. can_alloc n) dst0 d (join_runs a b # rest) (length dst)"
      using merge_top_inv less.prems st m by blast
    then have "length d = length dst" using less.prems by (simp add: sort_inv_def)
    then show ?thesis using less.hyps [of "join_runs a b # rest" d s] inv st m by simp
  qed
qed

definition sorted_result :: "bool \<Rightarrow> 'a list \<Rightarrow> 'a list \<Rightarrow> bool" where
  "sorted_result ok dst0 dst \<longleftrightarrow>
     mset dst = mset dst0 \<and> (ok \<longrightarrow> sorted_by cmp dst \<and> stable_perm cmp dst0 dst)"

definition state_inv :: "bool \<Rightarrow> 'a list \<Rightarrow> 'a tsort_state \<Rightarrow> bool" where
  "state_inv ok dst0 s \<longleftrightarrow>
     sort_inv ok dst0 (ts_dst s) (ts_stack s) (ts_curr s) \<and> ts_curr s < length dst0"

lemma push_step:
  fixes minrun :: nat
  assumes inv: "state_inv (\<forall>n. can_alloc n) dst0 s" and cr: "count_run cmp (ts_dst s) (ts_curr s) = (d1, l1)"
  defines "run \<equiv> min minrun (length (ts_dst s) - ts_curr s)"
  obtains dst len where
    "(if l1 < run then map_option (\<lambda>d. (take (ts_curr s) d1 @ d, run)) (bisort cmp (drop (ts_curr s) d1) l1 run)
      else Some (d1, l1)) = Some (dst, len)"
    "0 < len" "ts_curr s + len \<le> length (ts_dst s)" "length dst = length (ts_dst s)"
    "sort_inv (\<forall>n. can_alloc n) dst0 dst (\<lparr>run_start = ts_curr s, run_length = len\<rparr> # ts_stack s) (ts_curr s + len)"
proof -
  let ?ok = "\<forall>n. can_alloc n" and ?cur = "ts_curr s" and ?dst = "ts_dst s"
  have cur: "?cur < length ?dst" and inv0: "sort_inv ?ok dst0 ?dst (ts_stack s) ?cur"
    and len0: "length ?dst = length dst0" using inv by (auto simp: state_inv_def sort_inv_def)
  note c = count_run_spec [OF cur cr]
  have "\<exists>dst len. (if l1 < run
        then map_option (\<lambda>d. (take ?cur d1 @ d, run)) (bisort cmp (drop ?cur d1) l1 run)
        else Some (d1, l1)) = Some (dst, len) \<and>
      0 < len \<and> ?cur + len \<le> length ?dst \<and> length dst = length ?dst \<and>
      take ?cur dst = take ?cur ?dst \<and> sorted_by cmp (seg dst ?cur len) \<and> stable_perm cmp ?dst dst"
  proof (cases "l1 < run")
    case True
    have r: "run \<le> length (drop ?cur d1)" using c by (simp add: run_def)
    obtain d where d: "bisort cmp (drop ?cur d1) l1 run = Some d" "length d = length (drop ?cur d1)"
      "drop run d = drop run (drop ?cur d1)" "sorted_by cmp (take run d)"
      "stable_perm cmp (take run (drop ?cur d1)) (take run d)"
      using bisort_spec [of l1 run "drop ?cur d1"] c True r by (auto simp: seg_def)
    have "stable_perm cmp (take run (drop ?cur d1) @ drop run (drop ?cur d1)) (take run d @ drop run d)"
      using d by (intro stable_perm_append) auto
    then have "stable_perm cmp (drop ?cur d1) d" by (simp only: append_take_drop_id)
    then have "stable_perm cmp (take ?cur d1 @ drop ?cur d1) (take ?cur d1 @ d)"
      by (intro stable_perm_append) auto
    then have "stable_perm cmp d1 (take ?cur d1 @ d)" by (simp only: append_take_drop_id)
    then have st: "stable_perm cmp ?dst (take ?cur d1 @ d)"
      using c stable_perm_trans [of "cmp" ?dst d1] by blast
    have lt: "length (take ?cur d1) = ?cur" using c by simp
    have "?cur + run \<le> length ?dst" using cur by (simp add: run_def)
    moreover have "length (take ?cur d1 @ d) = length ?dst" using d(2) c cur by simp
    moreover have "take ?cur (take ?cur d1 @ d) = take ?cur ?dst" using c lt by (simp add: min_def)
    moreover have "sorted_by cmp (seg (take ?cur d1 @ d) ?cur run)"
      using d(4) by (simp only: seg_append_right [OF lt])
    ultimately show ?thesis using True d(1) st by auto
  next
    case False
    then show ?thesis using c by auto
  qed
  then obtain dst len where dl: "(if l1 < run
        then map_option (\<lambda>d. (take ?cur d1 @ d, run)) (bisort cmp (drop ?cur d1) l1 run)
        else Some (d1, l1)) = Some (dst, len)"
    "0 < len" "?cur + len \<le> length ?dst" "length dst = length ?dst"
    "take ?cur dst = take ?cur ?dst" "sorted_by cmp (seg dst ?cur len)" "stable_perm cmp ?dst dst"
    by blast
  let ?stack = "\<lparr>run_start = ?cur, run_length = len\<rparr> # ts_stack s"
  have "runs_ok (\<lambda>s. ?ok \<longrightarrow> sorted_by cmp s) dst (ts_stack s) ?cur"
    using inv0 dl(5) runs_ok_cong by (fastforce simp: sort_inv_def)
  then have inv1: "sort_inv ?ok dst0 dst ?stack (?cur + len)"
    using inv0 dl stable_perm_mset [OF dl(7)] stable_perm_trans [of "cmp" dst0 ?dst dst]
    by (auto simp: sort_inv_def)
  show ?thesis by (rule that [OF dl(1-4) inv1])
qed

lemma push_next_spec:
  assumes inv: "state_inv (\<forall>n. can_alloc n) dst0 s"
  shows "\<exists>r. push_next can_alloc cmp minrun s = Some r \<and>
    (case r of Inl d \<Rightarrow> sorted_result (\<forall>n. can_alloc n) dst0 d
             | Inr s' \<Rightarrow> state_inv (\<forall>n. can_alloc n) dst0 s' \<and> ts_curr s < ts_curr s')"
proof -
  let ?ok = "\<forall>n. can_alloc n" and ?cur = "ts_curr s" and ?dst = "ts_dst s"
  obtain d1 l1 where cr: "count_run cmp ?dst ?cur = (d1, l1)" by fastforce
  have len0: "length ?dst = length dst0" using inv by (auto simp: state_inv_def sort_inv_def)
  obtain dst len where dl: "(if l1 < min minrun (length ?dst - ?cur)
        then map_option (\<lambda>d. (take ?cur d1 @ d, min minrun (length ?dst - ?cur)))
               (bisort cmp (drop ?cur d1) l1 (min minrun (length ?dst - ?cur)))
        else Some (d1, l1)) = Some (dst, len)"
    "0 < len" "?cur + len \<le> length ?dst" "length dst = length ?dst"
    and inv1: "sort_inv ?ok dst0 dst (\<lparr>run_start = ?cur, run_length = len\<rparr> # ts_stack s) (?cur + len)"
    using push_step [OF inv cr] by blast
  let ?stack = "\<lparr>run_start = ?cur, run_length = len\<rparr> # ts_stack s"
  have eq: "push_next can_alloc cmp minrun s =
      Some (if ?cur + len = length ?dst then Inl (finish_up can_alloc cmp dst ?stack (ts_store s))
            else Inr \<lparr>ts_dst = dst, ts_stack = ?stack, ts_curr = ?cur + len, ts_store = ts_store s\<rparr>)"
    by (simp only: push_next_def Let_def cr prod.case dl(1) bind.bind_lunit)
  show ?thesis
  proof (cases "?cur + len = length ?dst")
    case True
    have "sorted_result ?ok dst0 (finish_up can_alloc cmp dst ?stack (ts_store s))"
      using finish_up_spec [of can_alloc dst0 dst ?stack "ts_store s"] inv1 True dl(4)
      by (simp add: sorted_result_def)
    then show ?thesis using eq True by simp
  next
    case False
    then have "?cur + len < length dst0" using dl(3) len0 by simp
    then show ?thesis using eq False inv1 dl(2) by (simp add: state_inv_def)
  qed
qed

lemma tsort_loop_spec:
  "state_inv (\<forall>n. can_alloc n) dst0 s \<Longrightarrow>
   \<exists>d. tsort_loop can_alloc cmp minrun s = Some d \<and> sorted_result (\<forall>n. can_alloc n) dst0 d"
proof (induction "(length dst0 - ts_curr s, length (ts_stack s))" arbitrary: s
    rule: wf_induct_rule [OF wf_lex_prod [OF wf_less_than wf_less_than]])
  case (1 s)
  let ?ok = "\<forall>n. can_alloc n"
  show ?case
  proof (cases "check_invariant (ts_stack s)")
    case True
    obtain r where r: "push_next can_alloc cmp minrun s = Some r"
      and r': "case r of Inl d \<Rightarrow> sorted_result ?ok dst0 d
             | Inr s' \<Rightarrow> state_inv ?ok dst0 s' \<and> ts_curr s < ts_curr s'"
      using push_next_spec [OF "1.prems"] by blast
    show ?thesis
    proof (cases r)
      case (Inl d)
      then show ?thesis using r r' True by (simp add: tsort_loop.simps [of _ _ _ s])
    next
      case (Inr s')
      then have "length dst0 - ts_curr s' < length dst0 - ts_curr s"
        using r' by (auto simp: state_inv_def)
      then have "\<exists>d. tsort_loop can_alloc cmp minrun s' = Some d \<and> sorted_result ?ok dst0 d"
        using r' Inr by (intro "1.hyps") auto
      then show ?thesis using r Inr True by (simp add: tsort_loop.simps [of _ _ _ s])
    qed
  next
    case False
    obtain d st sto where col: "collapse can_alloc cmp (length (ts_dst s)) (ts_dst s) (ts_stack s)
        (ts_store s) = (d, st, sto)" by (metis prod_cases3)
    let ?s = "s\<lparr>ts_dst := d, ts_stack := st, ts_store := sto\<rparr>"
    have "sort_inv ?ok dst0 d st (ts_curr s)" "length st < length (ts_stack s)"
      using collapse_inv [OF _ col] "1.prems" False by (auto simp: state_inv_def)
    then have "\<exists>d. tsort_loop can_alloc cmp minrun ?s = Some d \<and> sorted_result ?ok dst0 d"
      using "1.prems" by (intro "1.hyps") (auto simp: state_inv_def)
    then show ?thesis using col False by (simp add: tsort_loop.simps [of _ _ _ s])
  qed
qed

lemma push_then_loop_spec:
  "state_inv (\<forall>n. can_alloc n) dst0 s \<Longrightarrow>
   \<exists>d. push_then_loop can_alloc cmp minrun n s = Some d \<and> sorted_result (\<forall>n. can_alloc n) dst0 d"
proof (induction n arbitrary: s)
  case 0
  then show ?case using tsort_loop_spec by simp
next
  case (Suc n)
  then show ?case using push_next_spec [OF Suc.prems, of minrun] by (fastforce split: sum.splits)
qed

lemma tsort_result:
  "\<exists>d. git__tsort_r can_alloc cmp dst = Some d \<and> sorted_result (\<forall>n. can_alloc n) dst d"
proof (cases "length dst < 64")
  case True
  show ?thesis
  proof (cases "dst = []")
    case True
    then show ?thesis by (simp add: git__tsort_r_def bisort.simps sorted_result_def)
  next
    case False
    then have "take 1 dst = [hd dst]" by (cases dst) auto
    then obtain d where "bisort cmp dst 1 (length dst) = Some d" "length d = length dst"
      "sorted_by cmp d" "stable_perm cmp dst d"
      using bisort_spec [of 1 "length dst" dst] False by (auto simp: Suc_leI)
    then show ?thesis using True stable_perm_mset [of dst d]
      by (auto simp: git__tsort_r_def sorted_result_def)
  qed
next
  case False
  let ?s = "\<lparr>ts_dst = dst, ts_stack = [], ts_curr = 0, ts_store = \<lparr>store_alloc = 0\<rparr>\<rparr>"
  have "state_inv (\<forall>n. can_alloc n) dst ?s"
    using False by (auto simp: state_inv_def sort_inv_def)
  then show ?thesis using push_then_loop_spec [of can_alloc dst ?s "compute_minrun (length dst)" 3] False
    by (simp add: git__tsort_r_def Let_def del: push_then_loop.simps)
qed

end

subsection \<open>Properties\<close>





end
