(* ===== verification/Bsearch.thy ===== *)
theory Bsearch
  imports Compare
begin

text \<open>
  \<open>git__bsearch\<close> and \<open>git__bsearch_r\<close> of \<open>util.c\<close>: binary search that also reports where
  the key would go. The result is the pair of "found" (the code's 0 or
  \<open>GIT_ENOTFOUND\<close>) and the position.
\<close>

function bsearch_loop :: "('k \<Rightarrow> 'a \<Rightarrow> int) \<Rightarrow> 'a list \<Rightarrow> 'k \<Rightarrow> nat \<Rightarrow> nat \<Rightarrow> bool \<times> nat" where
  "bsearch_loop compare array key base lim =
     (if lim = 0 then (False, base)
      else (let part = base + lim div 2; c = compare key (array ! part) in
        if c = 0 then (True, part)
        else if c > 0 then bsearch_loop compare array key (part + 1) ((lim - 1) div 2)
        else bsearch_loop compare array key base (lim div 2)))"
  by pat_completeness auto
termination
  by (relation "measure (\<lambda>(compare, array, key, base, lim). lim)") auto

declare bsearch_loop.simps [simp del]

definition git__bsearch :: "'a list \<Rightarrow> nat \<Rightarrow> 'k \<Rightarrow> ('k \<Rightarrow> 'a \<Rightarrow> int) \<Rightarrow> bool \<times> nat" where
  "git__bsearch array array_len key compare = bsearch_loop compare array key 0 array_len"

definition git__bsearch_r ::
    "'a list \<Rightarrow> nat \<Rightarrow> 'k \<Rightarrow> ('k \<Rightarrow> 'a \<Rightarrow> 'p \<Rightarrow> int) \<Rightarrow> 'p \<Rightarrow> bool \<times> nat" where
  "git__bsearch_r array array_len key compare_r payload =
     bsearch_loop (\<lambda>k a. compare_r k a payload) array key 0 array_len"

text \<open>The array is ordered for the key: greater keys of it never come before smaller ones.\<close>

definition key_ordered :: "('k \<Rightarrow> 'a \<Rightarrow> int) \<Rightarrow> 'k \<Rightarrow> 'a list \<Rightarrow> bool" where
  "key_ordered compare key array \<longleftrightarrow>
     sorted_wrt (\<lambda>a b. (compare key b \<ge> 0 \<longrightarrow> compare key a \<ge> 0) \<and>
                       (compare key b > 0 \<longrightarrow> compare key a > 0)) array"

lemma key_ordered_nth:
  "key_ordered compare key array \<Longrightarrow> i \<le> j \<Longrightarrow> j < length array \<Longrightarrow>
   (compare key (array ! j) \<ge> 0 \<longrightarrow> compare key (array ! i) \<ge> 0) \<and>
   (compare key (array ! j) > 0 \<longrightarrow> compare key (array ! i) > 0)"
  unfolding key_ordered_def by (cases "i = j") (simp, drule sorted_wrt_nth_less [of _ _ i j], auto)

lemma bsearch_loop_spec:
  assumes "key_ordered compare key array" "base + lim \<le> length array"
    and "\<forall>i<base. compare key (array ! i) > 0"
    and "\<forall>i. base + lim \<le> i \<and> i < length array \<longrightarrow> compare key (array ! i) < 0"
    and "bsearch_loop compare array key base lim = (found, pos)"
  shows "if found then pos < length array \<and> compare key (array ! pos) = 0
    else pos \<le> length array \<and> (\<forall>i<pos. compare key (array ! i) > 0) \<and>
         (\<forall>i. pos \<le> i \<and> i < length array \<longrightarrow> compare key (array ! i) < 0)"
  using assms
proof (induction lim arbitrary: base rule: less_induct)
  case (less lim)
  note prems = less.prems
  show ?case
  proof (cases "lim = 0")
    case True
    then show ?thesis using prems by (auto simp: bsearch_loop.simps [of _ _ _ base 0])
  next
    case False
    let ?p = "base + lim div 2"
    have p: "?p < length array" using prems(2) False by linarith
    note ord = key_ordered_nth [OF prems(1)]
    consider (eq) "compare key (array ! ?p) = 0" | (gt) "compare key (array ! ?p) > 0"
      | (lt) "compare key (array ! ?p) < 0" by linarith
    then show ?thesis
    proof cases
      case eq
      then show ?thesis using prems(5) False p
        by (auto simp: bsearch_loop.simps [of _ _ _ base lim] Let_def)
    next
      case gt
      have 1: "(lim - 1) div 2 < lim" using False by linarith
      have 2: "?p + 1 + (lim - 1) div 2 = base + lim" using False by linarith
      have "\<forall>i<?p + 1. compare key (array ! i) > 0"
        using gt ord [of _ ?p] p by auto
      moreover have "bsearch_loop compare array key (?p + 1) ((lim - 1) div 2) = (found, pos)"
        using prems(5) gt False by (simp add: bsearch_loop.simps [of _ _ _ base lim] Let_def)
      ultimately show ?thesis using prems(1,2,4) unfolding 2 [symmetric]
        by (intro less.IH [OF 1, of "?p + 1"])
    next
      case lt
      have 1: "lim div 2 < lim" using False by simp
      have "compare key (array ! i) < 0" if "?p \<le> i" "i < length array" for i
        using lt ord [OF that] by linarith
      then have "\<forall>i. base + lim div 2 \<le> i \<and> i < length array \<longrightarrow> compare key (array ! i) < 0"
        by blast
      moreover have "bsearch_loop compare array key base (lim div 2) = (found, pos)"
        using prems(5) lt False by (simp add: bsearch_loop.simps [of _ _ _ base lim] Let_def)
      moreover have "base + lim div 2 \<le> length array" using p by simp
      ultimately show ?thesis using prems(1,3) by (intro less.IH [OF 1, of base])
    qed
  qed
qed

lemma git__bsearch_spec:
  assumes "key_ordered compare key array" "git__bsearch array (length array) key compare = (found, pos)"
  shows "if found then pos < length array \<and> compare key (array ! pos) = 0
    else pos \<le> length array \<and> (\<forall>i<pos. compare key (array ! i) > 0) \<and>
         (\<forall>i. pos \<le> i \<and> i < length array \<longrightarrow> compare key (array ! i) < 0)"
  using bsearch_loop_spec [OF assms(1), of 0 "length array"] assms(2)
  by (simp add: git__bsearch_def)

context git_cmp begin

text \<open>A list sorted by the comparison is ordered for every key of its own type.\<close>

lemma sorted_key_ordered: "sorted_by cmp xs \<Longrightarrow> key_ordered cmp k xs"
  unfolding sorted_by_def key_ordered_def
proof (rule sorted_wrt_mono_rel)
  fix a b assume "cmp a b \<le> 0"
  then show "(0 \<le> cmp k b \<longrightarrow> 0 \<le> cmp k a) \<and> (0 < cmp k b \<longrightarrow> 0 < cmp k a)"
    by (meson cmp_less_le_trans cmp_trans linorder_not_le)
qed

lemma insert_at_position:
  assumes "sorted_by cmp xs" "git__bsearch xs (length xs) x cmp = (found, pos)"
  shows "sorted_by cmp (take pos xs @ x # drop pos xs)" "pos \<le> length xs"
proof -
  note sp = git__bsearch_spec [OF sorted_key_ordered [OF assms(1)] assms(2)]
  show le: "pos \<le> length xs" using sp by (simp split: if_splits)
  have nth: "cmp (xs ! i) (xs ! j) \<le> 0" if "i \<le> j" "j < length xs" for i j
    using sorted_by_nth [OF assms(1), of i j] that by (cases "i = j") auto
  have lo: "cmp (xs ! i) x \<le> 0" if "i < pos" for i
  proof (cases found)
    case True
    then have "cmp (xs ! i) (xs ! pos) \<le> 0" "cmp (xs ! pos) x \<le> 0"
      using sp that nth cmp_eq_sym [of x] by auto
    then show ?thesis by (rule cmp_trans)
  next
    case False
    then show ?thesis using sp that by (metis cmp_le_iff order_less_imp_le)
  qed
  have hi: "cmp x (xs ! i) \<le> 0" if "pos \<le> i" "i < length xs" for i
  proof (cases found)
    case True
    then have "cmp x (xs ! pos) \<le> 0" "cmp (xs ! pos) (xs ! i) \<le> 0" using sp that nth by auto
    then show ?thesis by (rule cmp_trans)
  next
    case False
    then show ?thesis using sp that by (simp add: order_less_imp_le)
  qed
  have "sorted_by cmp (take pos xs @ drop pos xs)" using assms(1) by simp
  then show "sorted_by cmp (take pos xs @ x # drop pos xs)"
    using lo hi le unfolding sorted_by_append sorted_by_Cons
    by (auto simp: in_set_conv_nth intro: cmp_trans)
qed

end

subsection \<open>Properties\<close>

text \<open>
  C12. On a sorted array \<open>git__bsearch\<close> finds an element equal to the key exactly when there is
  one, reports its index, and otherwise reports the index where inserting the key keeps the
  array sorted.
\<close>

theorem git__bsearch_finds:
  assumes "git_cmp cmp" and "sorted_by cmp array"
    and "git__bsearch array (length array) key cmp = (found, pos)"
  shows "(found \<longleftrightarrow> (\<exists>x\<in>set array. cmp key x = 0)) \<and>
    (found \<longrightarrow> pos < length array \<and> cmp key (array ! pos) = 0) \<and>
    pos \<le> length array \<and> sorted_by cmp (take pos array @ key # drop pos array)"
proof -
  have ord: "key_ordered cmp key array" by (rule git_cmp.sorted_key_ordered [OF assms(1,2)])
  note sp = git__bsearch_spec [OF ord assms(3)]
  have "\<not> found \<Longrightarrow> cmp key x \<noteq> 0" if x: "x \<in> set array" for x
  proof -
    assume "\<not> found"
    obtain i where i: "i < length array" "x = array ! i" using x by (metis in_set_conv_nth)
    then have "0 < cmp key x \<or> cmp key x < 0"
      using sp \<open>\<not> found\<close> by (cases "i < pos") (simp_all add: not_less)
    then show "cmp key x \<noteq> 0" by linarith
  qed
  then show ?thesis using sp git_cmp.insert_at_position [OF assms]
    by (auto split: if_splits)
qed

theorem git__bsearch_finds_witness:
  "git__bsearch [10, 20, 30 :: int] (length [10, 20, 30 :: int]) 25 (\<lambda>a b. a - b) = (False, 2) \<and>
   \<not> (\<exists>x\<in>set [10, 20, 30 :: int]. 25 - x = 0) \<and>
   sorted_by (\<lambda>a b. a - b) (take 2 [10, 20, 30 :: int] @ 25 # drop 2 [10, 20, 30])"
proof -
  have cmp: "git_cmp (\<lambda>(a :: int) b. a - b)" by unfold_locales auto
  have srt: "sorted_by (\<lambda>a b. a - b) [10, 20, 30 :: int]" by (simp add: sorted_by_def)
  have run: "git__bsearch [10, 20, 30 :: int] (length [10, 20, 30 :: int]) 25 (\<lambda>a b. a - b) = (False, 2)"
    by code_simp
  show ?thesis using git__bsearch_finds [OF cmp srt run] run by simp
qed

end
