(* ===== verification/Vector.thy ===== *)
theory Vector
  imports TsortCorrect Bsearch
begin

text \<open>
  \<open>vector.c\<close> and \<open>vector.h\<close>: the growing array \<open>git_vector\<close>.

  \<open>contents\<close> is the live part \<open>contents[0 .. length - 1]\<close>, so \<open>v->length\<close> is its
  length; \<open>_alloc_size\<close> counts the cells that are allocated. NULL elements (written by
  \<open>git_vector_resize_to\<close> and \<open>git_vector_insert_null\<close>) are a value \<open>null\<close> of the
  element type that those operations take. \<open>can_alloc n\<close> says whether
  \<open>git__reallocarray\<close> gets \<open>n\<close> cells (it fails when the byte count overflows).
  An operation that returns an error code and leaves the vector changed returns both.
  \<open>None\<close> is a failed assertion (or a sort outside the array, which is proved not to
  happen).
\<close>

unbundle bit_operations_syntax

subsection \<open>Data\<close>

definition MIN_ALLOCSIZE :: nat where "MIN_ALLOCSIZE = 8"

definition GIT_VECTOR_SORTED :: u32 where "GIT_VECTOR_SORTED = 1"

definition GIT_VECTOR_FLAG_MAX :: u32 where "GIT_VECTOR_FLAG_MAX = 2"

record 'a git_vector =
  v_alloc_size :: nat
  v_cmp :: "'a cmp option"
  v_contents :: "'a list"
  v_flags :: u32

abbreviation v_length :: "'a git_vector \<Rightarrow> nat" where
  "v_length v \<equiv> length (v_contents v)"

definition git_vector_is_sorted :: "'a git_vector \<Rightarrow> bool" where
  "git_vector_is_sorted v \<longleftrightarrow> v_flags v AND GIT_VECTOR_SORTED \<noteq> 0"

definition git_vector_set_sorted :: "'a git_vector \<Rightarrow> bool \<Rightarrow> 'a git_vector" where
  "git_vector_set_sorted v s =
     v\<lparr>v_flags := (if s then v_flags v OR GIT_VECTOR_SORTED
                   else v_flags v AND NOT GIT_VECTOR_SORTED)\<rparr>"

text \<open>\<open>git_vector_set_cmp\<close>; \<open>same\<close> is the pointer comparison \<open>cmp == v->_cmp\<close>.\<close>

definition git_vector_set_cmp :: "'a git_vector \<Rightarrow> 'a cmp option \<Rightarrow> bool \<Rightarrow> 'a git_vector" where
  "git_vector_set_cmp v cmp same =
     (if \<not> same then git_vector_set_sorted (v\<lparr>v_cmp := cmp\<rparr>) False else v)"

definition git_vector_get :: "'a git_vector \<Rightarrow> nat \<Rightarrow> 'a option" where
  "git_vector_get v position =
     (if position < v_length v then Some (v_contents v ! position) else None)"

definition git_vector_last :: "'a git_vector \<Rightarrow> 'a option" where
  "git_vector_last v = (if v_length v > 0 then git_vector_get v (v_length v - 1) else None)"

subsection \<open>Allocation\<close>

definition compute_new_size :: "'a git_vector \<Rightarrow> nat" where
  "compute_new_size v =
     (let new_size = v_alloc_size v in
      if new_size < MIN_ALLOCSIZE then MIN_ALLOCSIZE
      else if new_size \<le> (SIZE_MAX div 3) * 2 then new_size + new_size div 2
      else SIZE_MAX)"

definition resize_vector :: "(nat \<Rightarrow> bool) \<Rightarrow> 'a git_vector \<Rightarrow> nat \<Rightarrow> 'a git_vector result" where
  "resize_vector can_alloc v new_size =
     (if new_size = 0 then Inr v
      else if can_alloc new_size then Inr (v\<lparr>v_alloc_size := new_size\<rparr>)
      else Inl GIT_ERROR)"

definition git_vector_size_hint :: "(nat \<Rightarrow> bool) \<Rightarrow> 'a git_vector \<Rightarrow> nat \<Rightarrow> 'a git_vector result" where
  "git_vector_size_hint can_alloc v size_hint =
     (if v_alloc_size v \<ge> size_hint then Inr v else resize_vector can_alloc v size_hint)"

definition git_vector_init :: "(nat \<Rightarrow> bool) \<Rightarrow> nat \<Rightarrow> 'a cmp option \<Rightarrow> 'a git_vector result" where
  "git_vector_init can_alloc initial_size cmp =
     resize_vector can_alloc
       \<lparr>v_alloc_size = 0, v_cmp = cmp, v_contents = [], v_flags = GIT_VECTOR_SORTED\<rparr>
       (max initial_size MIN_ALLOCSIZE)"

text \<open>
  \<open>git_vector_dup\<close>; \<open>cmp_same\<close> is the pointer comparison \<open>cmp == src->_cmp\<close>. On an
  allocation failure the code has already set the length of the new vector.
\<close>

definition git_vector_dup :: "(nat \<Rightarrow> bool) \<Rightarrow> 'a git_vector \<Rightarrow> 'a cmp option \<Rightarrow> bool \<Rightarrow>
    'a git_vector result" where
  "git_vector_dup can_alloc src cmp cmp_same =
     (let v = \<lparr>v_alloc_size = 0,
               v_cmp = (case cmp of Some c \<Rightarrow> Some c | None \<Rightarrow> v_cmp src),
               v_contents = v_contents src, v_flags = v_flags src\<rparr>;
          v1 = (if \<not> cmp_same then git_vector_set_sorted v False else v) in
      if v_length src \<noteq> 0 then
        (if can_alloc (v_length src) then Inr (v1\<lparr>v_alloc_size := v_length src\<rparr>) else Inl GIT_ERROR)
      else Inr v1)"

definition git_vector_free :: "'a git_vector \<Rightarrow> 'a git_vector" where
  "git_vector_free v = v\<lparr>v_contents := [], v_alloc_size := 0\<rparr>"

text \<open>\<open>git_vector_free_deep\<close>, with the list of elements given to \<open>git__free\<close>.\<close>

definition git_vector_free_deep :: "'a git_vector \<Rightarrow> 'a list \<times> 'a git_vector" where
  "git_vector_free_deep v = (v_contents v, git_vector_free v)"

definition git_vector_detach :: "'a git_vector \<Rightarrow> ('a list \<times> nat \<times> nat) \<times> 'a git_vector" where
  "git_vector_detach v =
     ((v_contents v, v_length v, v_alloc_size v), v\<lparr>v_alloc_size := 0, v_contents := []\<rparr>)"

definition git_vector_clear :: "'a git_vector \<Rightarrow> 'a git_vector" where
  "git_vector_clear v = git_vector_set_sorted (v\<lparr>v_contents := []\<rparr>) True"

definition git_vector_swap :: "'a git_vector \<Rightarrow> 'a git_vector \<Rightarrow> 'a git_vector \<times> 'a git_vector" where
  "git_vector_swap a b = (b, a)"

subsection \<open>Sorting, searching, inserting\<close>

text \<open>The growth step shared by the two inserts.\<close>

definition grow_for_insert :: "(nat \<Rightarrow> bool) \<Rightarrow> 'a git_vector \<Rightarrow> 'a git_vector result" where
  "grow_for_insert can_alloc v =
     (if v_length v \<ge> v_alloc_size v then resize_vector can_alloc v (compute_new_size v) else Inr v)"

definition git_vector_insert :: "(nat \<Rightarrow> bool) \<Rightarrow> 'a git_vector \<Rightarrow> 'a \<Rightarrow> 'a git_vector result" where
  "git_vector_insert can_alloc v element =
     (case grow_for_insert can_alloc v of
        Inl e \<Rightarrow> Inl GIT_ERROR
      | Inr v1 \<Rightarrow>
          (let v2 = v1\<lparr>v_contents := v_contents v1 @ [element]\<rparr>
           in Inr (git_vector_set_sorted v2 (v_length v2 \<le> 1))))"

definition git_vector_sort :: "(nat \<Rightarrow> bool) \<Rightarrow> 'a git_vector \<Rightarrow> 'a git_vector option" where
  "git_vector_sort can_alloc v =
     (if git_vector_is_sorted v then Some v
      else (case v_cmp v of
              None \<Rightarrow> Some v
            | Some cmp \<Rightarrow>
                (if v_length v > 1
                 then map_option (\<lambda>d. git_vector_set_sorted (v\<lparr>v_contents := d\<rparr>) True)
                        (git__tsort can_alloc cmp (v_contents v))
                 else Some (git_vector_set_sorted v True))))"

text \<open>
  \<open>git_vector_insert_sorted\<close>. \<open>on_dup old new\<close> returns its error code and what it left in
  the cell \<open>*old\<close>. The result is the code (negative, or 0) with the vector.
\<close>

definition git_vector_insert_sorted :: "(nat \<Rightarrow> bool) \<Rightarrow> 'a git_vector \<Rightarrow> 'a \<Rightarrow>
    ('a \<Rightarrow> 'a \<Rightarrow> int \<times> 'a) option \<Rightarrow> (int \<times> 'a git_vector) option" where
  "git_vector_insert_sorted can_alloc v element on_dup =
     (case v_cmp v of
        None \<Rightarrow> None
      | Some cmp \<Rightarrow> do {
          v1 \<leftarrow> (if \<not> git_vector_is_sorted v then git_vector_sort can_alloc v else Some v);
          (case grow_for_insert can_alloc v1 of
             Inl e \<Rightarrow> Some (-1, v1)
           | Inr v2 \<Rightarrow>
               (let (found, pos) = git__bsearch (v_contents v2) (v_length v2) element cmp;
                    (code, v3) = (case on_dup of
                        None \<Rightarrow> (0, v2)
                      | Some f \<Rightarrow>
                          (if found
                           then (case f (v_contents v2 ! pos) element of
                                   (c, old) \<Rightarrow> (c, v2\<lparr>v_contents := (v_contents v2)[pos := old]\<rparr>))
                           else (0, v2)))
                in if code < 0 then Some (code, v3)
                   else Some (0, v3\<lparr>v_contents :=
                     take pos (v_contents v3) @ element # drop pos (v_contents v3)\<rparr>)))
        })"

text \<open>\<open>None\<close> as the comparison of a vector is an error of the search, not a failed assertion.\<close>

definition git_vector_bsearch2 :: "(nat \<Rightarrow> bool) \<Rightarrow> 'a git_vector \<Rightarrow> ('k \<Rightarrow> 'a \<Rightarrow> int) \<Rightarrow> 'k \<Rightarrow>
    (nat result \<times> nat \<times> 'a git_vector) option" where
  "git_vector_bsearch2 can_alloc v key_lookup key =
     (case v_cmp v of
        None \<Rightarrow> Some (Inl GIT_ERROR, 0, v)
      | Some cmp \<Rightarrow> do {
          v1 \<leftarrow> git_vector_sort can_alloc v;
          (case git__bsearch (v_contents v1) (v_length v1) key key_lookup of
             (found, pos) \<Rightarrow> Some (if found then Inr pos else Inl GIT_ENOTFOUND, pos, v1))
        })"

fun search_loop :: "('k \<Rightarrow> 'a \<Rightarrow> int) \<Rightarrow> 'k \<Rightarrow> nat \<Rightarrow> 'a list \<Rightarrow> nat result" where
  "search_loop key_lookup key i [] = Inl GIT_ENOTFOUND"
| "search_loop key_lookup key i (x # xs) =
     (if key_lookup key x = 0 then Inr i else search_loop key_lookup key (Suc i) xs)"

definition git_vector_search2 :: "'a git_vector \<Rightarrow> ('k \<Rightarrow> 'a \<Rightarrow> int) \<Rightarrow> 'k \<Rightarrow> nat result" where
  "git_vector_search2 v key_lookup key = search_loop key_lookup key 0 (v_contents v)"

definition strict_comparison :: "'a cmp" where
  "strict_comparison a b = (if a = b then 0 else -1)"

definition git_vector_search :: "'a git_vector \<Rightarrow> 'a \<Rightarrow> nat result" where
  "git_vector_search v entry =
     git_vector_search2 v (case v_cmp v of Some c \<Rightarrow> c | None \<Rightarrow> strict_comparison) entry"

subsection \<open>Removing\<close>

definition git_vector_remove :: "'a git_vector \<Rightarrow> nat \<Rightarrow> 'a git_vector result" where
  "git_vector_remove v idx =
     (if idx \<ge> v_length v then Inl GIT_ENOTFOUND
      else Inr (v\<lparr>v_contents := take idx (v_contents v) @ drop (Suc idx) (v_contents v)\<rparr>))"

definition git_vector_pop :: "'a git_vector \<Rightarrow> 'a git_vector" where
  "git_vector_pop v =
     (if v_length v > 0 then v\<lparr>v_contents := take (v_length v - 1) (v_contents v)\<rparr> else v)"

text \<open>The loop of \<open>git_vector_uniq\<close>; the second result lists the elements given to \<open>git_free_cb\<close>.\<close>

function uniq_loop :: "'a cmp \<Rightarrow> 'a list \<Rightarrow> nat \<Rightarrow> nat \<Rightarrow> 'a list \<Rightarrow> 'a list \<times> 'a list" where
  "uniq_loop cmp xs i j freed =
     (if j < length xs then
        (if cmp (xs ! i) (xs ! j) = 0
         then uniq_loop cmp (xs[i := xs ! j]) i (Suc j) (freed @ [xs ! i])
         else uniq_loop cmp (xs[Suc i := xs ! j]) (Suc i) (Suc j) freed)
      else (take (length xs - (j - i - 1)) xs, freed))"
  by pat_completeness auto
termination
  by (relation "measure (\<lambda>(cmp, xs, i, j, freed). length xs - j)") auto

declare uniq_loop.simps [simp del]

definition git_vector_uniq :: "(nat \<Rightarrow> bool) \<Rightarrow> 'a git_vector \<Rightarrow> ('a git_vector \<times> 'a list) option" where
  "git_vector_uniq can_alloc v =
     (if v_length v \<le> 1 then Some (v, [])
      else do {
        v1 \<leftarrow> git_vector_sort can_alloc v;
        let cmp = (case v_cmp v1 of Some c \<Rightarrow> c | None \<Rightarrow> strict_comparison);
        let (xs, freed) = uniq_loop cmp (v_contents v1) 0 1 [];
        Some (v1\<lparr>v_contents := xs\<rparr>, freed)
      })"

text \<open>\<open>match\<close> sees the vector's cells, partly compacted, and the index under test.\<close>

function remove_matching_loop :: "('a list \<Rightarrow> nat \<Rightarrow> bool) \<Rightarrow> 'a list \<Rightarrow> nat \<Rightarrow> nat \<Rightarrow> 'a list" where
  "remove_matching_loop match xs i j =
     (if j < length xs then
        (let xs' = xs[i := xs ! j] in
         remove_matching_loop match xs' (if \<not> match xs' i then Suc i else i) (Suc j))
      else take i xs)"
  by pat_completeness auto
termination
  by (relation "measure (\<lambda>(match, xs, i, j). length xs - j)") auto

declare remove_matching_loop.simps [simp del]

definition git_vector_remove_matching ::
    "'a git_vector \<Rightarrow> ('a list \<Rightarrow> nat \<Rightarrow> bool) \<Rightarrow> 'a git_vector" where
  "git_vector_remove_matching v match =
     v\<lparr>v_contents := remove_matching_loop match (v_contents v) 0 0\<rparr>"

subsection \<open>Resizing\<close>

definition git_vector_resize_to :: "(nat \<Rightarrow> bool) \<Rightarrow> 'a \<Rightarrow> 'a git_vector \<Rightarrow> nat \<Rightarrow> 'a git_vector result" where
  "git_vector_resize_to can_alloc null v new_length =
     (case (if new_length > v_alloc_size v then resize_vector can_alloc v new_length else Inr v) of
        Inl e \<Rightarrow> Inl GIT_ERROR
      | Inr v1 \<Rightarrow>
          Inr (if new_length > v_length v1
               then v1\<lparr>v_contents := v_contents v1 @ replicate (new_length - v_length v1) null\<rparr>
               else v1\<lparr>v_contents := take new_length (v_contents v1)\<rparr>))"

definition git_vector_insert_null :: "(nat \<Rightarrow> bool) \<Rightarrow> 'a \<Rightarrow> 'a git_vector \<Rightarrow> nat \<Rightarrow> nat \<Rightarrow>
    'a git_vector result option" where
  "git_vector_insert_null can_alloc null v idx insert_len =
     (if \<not> (insert_len > 0 \<and> idx \<le> v_length v) then None
      else if v_length v + insert_len > SIZE_MAX then Some (Inl GIT_ERROR)
      else let new_length = v_length v + insert_len in
        (case (if new_length > v_alloc_size v then resize_vector can_alloc v new_length else Inr v) of
           Inl e \<Rightarrow> Some (Inl GIT_ERROR)
         | Inr v1 \<Rightarrow> Some (Inr (v1\<lparr>v_contents :=
             take idx (v_contents v1) @ replicate insert_len null @ drop idx (v_contents v1)\<rparr>))))"

definition git_vector_remove_range :: "'a git_vector \<Rightarrow> nat \<Rightarrow> nat \<Rightarrow> 'a git_vector option" where
  "git_vector_remove_range v idx remove_len =
     (let end_idx = idx + remove_len in
      if \<not> remove_len > 0 \<or> end_idx > SIZE_MAX \<or> \<not> end_idx \<le> v_length v then None
      else Some (v\<lparr>v_contents := take idx (v_contents v) @ drop end_idx (v_contents v)\<rparr>))"

definition git_vector_set :: "(nat \<Rightarrow> bool) \<Rightarrow> 'a \<Rightarrow> 'a git_vector \<Rightarrow> nat \<Rightarrow> 'a \<Rightarrow>
    ('a \<times> 'a git_vector) result" where
  "git_vector_set can_alloc null v position value =
     (case (if position + 1 > v_length v
            then git_vector_resize_to can_alloc null v (position + 1) else Inr v) of
        Inl e \<Rightarrow> Inl GIT_ERROR
      | Inr v1 \<Rightarrow> Inr (v_contents v1 ! position, v1\<lparr>v_contents := (v_contents v1)[position := value]\<rparr>))"

fun neighbours_ordered :: "'a cmp \<Rightarrow> 'a list \<Rightarrow> bool" where
  "neighbours_ordered cmp (x # y # xs) = (if cmp x y > 0 then False else neighbours_ordered cmp (y # xs))"
| "neighbours_ordered cmp _ = True"

definition git_vector_verify_sorted :: "'a git_vector \<Rightarrow> bool option" where
  "git_vector_verify_sorted v =
     (if \<not> git_vector_is_sorted v then Some False
      else case v_cmp v of
        Some cmp \<Rightarrow> Some (neighbours_ordered cmp (v_contents v))
      | None \<Rightarrow> (if v_length v \<le> 1 then Some True else None))"

function reverse_loop :: "'a list \<Rightarrow> nat \<Rightarrow> nat \<Rightarrow> 'a list" where
  "reverse_loop xs a b =
     (if a < b then reverse_loop (xs[a := xs ! b, b := xs ! a]) (Suc a) (b - 1) else xs)"
  by pat_completeness auto
termination
  by (relation "measure (\<lambda>(xs, a, b). b - a)") auto

declare reverse_loop.simps [simp del]

definition git_vector_reverse :: "'a git_vector \<Rightarrow> 'a git_vector" where
  "git_vector_reverse v =
     (if v_length v = 0 then v
      else v\<lparr>v_contents := reverse_loop (v_contents v) 0 (v_length v - 1)\<rparr>)"

end
