(* ===== verification/VectorCorrect.thy ===== *)
theory VectorCorrect
  imports Vector
begin

text \<open>
  The invariant of \<open>git_vector\<close> (the live part fits the allocation, and the flag
  \<open>GIT_VECTOR_SORTED\<close> tells the truth) and the effect of its operations on the
  sequence of elements. \<open>git_vector_set\<close>, \<open>git_vector_resize_to\<close>,
  \<open>git_vector_insert_null\<close> and \<open>git_vector_reverse\<close> leave the flag as it is, so
  the part of the invariant about the flag is not theirs to keep.
\<close>

subsection \<open>The flag\<close>

lemma is_sorted_set_sorted [simp]: "git_vector_is_sorted (git_vector_set_sorted v s) = s"
proof -
  have "(w OR 1) AND 1 = 1" for w :: u32
    by (rule bit_word_eqI) (auto simp: bit_simps)
  moreover have "(w AND - 2) AND 1 = 0" for w :: u32
    by (simp add: word_bw_assocs)
  ultimately show ?thesis
    by (simp add: git_vector_is_sorted_def git_vector_set_sorted_def GIT_VECTOR_SORTED_def)
qed

lemma set_sorted_fields [simp]:
  "v_contents (git_vector_set_sorted v s) = v_contents v"
  "v_cmp (git_vector_set_sorted v s) = v_cmp v"
  "v_alloc_size (git_vector_set_sorted v s) = v_alloc_size v"
  by (simp_all add: git_vector_set_sorted_def)

lemma is_sorted_contents [simp]:
  "git_vector_is_sorted (v\<lparr>v_contents := xs\<rparr>) = git_vector_is_sorted v"
  "git_vector_is_sorted (v\<lparr>v_alloc_size := n\<rparr>) = git_vector_is_sorted v"
  by (simp_all add: git_vector_is_sorted_def)

subsection \<open>The invariant\<close>

definition vector_fits :: "'a git_vector \<Rightarrow> bool" where
  "vector_fits v \<longleftrightarrow> v_length v \<le> v_alloc_size v \<and> v_alloc_size v \<le> SIZE_MAX"

definition vector_flag_ok :: "'a git_vector \<Rightarrow> bool" where
  "vector_flag_ok v \<longleftrightarrow>
     (git_vector_is_sorted v \<longrightarrow> (\<forall>cmp. v_cmp v = Some cmp \<longrightarrow> sorted_by cmp (v_contents v)))"

definition vector_inv :: "'a git_vector \<Rightarrow> bool" where
  "vector_inv v \<longleftrightarrow> vector_fits v \<and> vector_flag_ok v \<and> (\<forall>cmp. v_cmp v = Some cmp \<longrightarrow> git_cmp cmp)"

lemmas vector_inv_defs = vector_inv_def vector_fits_def vector_flag_ok_def

lemma compute_new_size_bounds:
  "v_alloc_size v \<le> SIZE_MAX \<Longrightarrow> compute_new_size v \<le> SIZE_MAX"
  "v_alloc_size v < SIZE_MAX \<Longrightarrow> v_alloc_size v < compute_new_size v"
  by (auto simp: compute_new_size_def Let_def MIN_ALLOCSIZE_def SIZE_MAX_def)

lemma resize_vector_inv:
  "resize_vector can_alloc v n = Inr v' \<Longrightarrow> vector_inv v \<Longrightarrow> v_length v \<le> n \<Longrightarrow> n \<le> SIZE_MAX \<Longrightarrow>
   vector_inv v' \<and> v_contents v' = v_contents v \<and> v_cmp v' = v_cmp v \<and>
   git_vector_is_sorted v' = git_vector_is_sorted v"
  by (auto simp: resize_vector_def vector_inv_defs split: if_splits)

lemma grow_for_insert_inv:
  assumes "grow_for_insert can_alloc v = Inr v'" "vector_inv v" "v_length v < SIZE_MAX"
  shows "vector_inv v' \<and> v_length v < v_alloc_size v' \<and> v_contents v' = v_contents v \<and>
    v_cmp v' = v_cmp v \<and> git_vector_is_sorted v' = git_vector_is_sorted v"
proof (cases "v_length v \<ge> v_alloc_size v")
  case True
  then have r: "resize_vector can_alloc v (compute_new_size v) = Inr v'"
    using assms(1) by (simp add: grow_for_insert_def)
  have "v_alloc_size v < compute_new_size v" "compute_new_size v \<le> SIZE_MAX"
    using compute_new_size_bounds [of v] True assms(2,3) by (auto simp: vector_inv_defs)
  moreover have "v_length v \<le> v_alloc_size v" using assms(2) by (simp add: vector_inv_defs)
  moreover have "v_alloc_size v' = compute_new_size v"
    using r calculation by (auto simp: resize_vector_def split: if_splits)
  ultimately show ?thesis using resize_vector_inv [OF r assms(2)] by simp
next
  case False
  then show ?thesis using assms by (simp add: grow_for_insert_def)
qed

lemma grow_for_insert_ok: "(\<And>n. n \<le> SIZE_MAX \<Longrightarrow> can_alloc n) \<Longrightarrow> vector_inv v \<Longrightarrow>
   \<exists>v'. grow_for_insert can_alloc v = Inr v'"
  using compute_new_size_bounds(1) [of v]
  by (auto simp: grow_for_insert_def resize_vector_def vector_inv_defs)

lemma git_vector_init_inv:
  "git_vector_init can_alloc n cmp = Inr v \<Longrightarrow> n \<le> SIZE_MAX \<Longrightarrow> (\<And>c. cmp = Some c \<Longrightarrow> git_cmp c) \<Longrightarrow>
   vector_inv v \<and> v_contents v = []"
  by (auto simp: git_vector_init_def resize_vector_def vector_inv_defs MIN_ALLOCSIZE_def
      SIZE_MAX_def split: if_splits)

lemma git_vector_insert_inv:
  assumes "git_vector_insert can_alloc v x = Inr v'" "vector_inv v" "v_length v < SIZE_MAX"
  shows "vector_inv v' \<and> v_contents v' = v_contents v @ [x]"
proof -
  obtain v1 where g: "grow_for_insert can_alloc v = Inr v1"
    and v': "v' = git_vector_set_sorted (v1\<lparr>v_contents := v_contents v1 @ [x]\<rparr>) (length (v_contents v1 @ [x]) \<le> 1)"
    using assms(1) by (auto simp: git_vector_insert_def Let_def split: sum.splits)
  show ?thesis using grow_for_insert_inv [OF g assms(2,3)] v'
    by (auto simp: vector_inv_defs Suc_leI)
qed

lemma git_vector_sort_spec:
  assumes "vector_inv v" and "\<forall>n. can_alloc n"
  shows "\<exists>v'. git_vector_sort can_alloc v = Some v' \<and> vector_inv v' \<and>
    mset (v_contents v') = mset (v_contents v) \<and> v_cmp v' = v_cmp v \<and> v_alloc_size v' = v_alloc_size v \<and>
    (v_cmp v = None \<longrightarrow> v' = v) \<and>
    (\<forall>cmp. v_cmp v = Some cmp \<longrightarrow> git_vector_is_sorted v' \<and> sorted_by cmp (v_contents v') \<and>
       stable_perm cmp (v_contents v) (v_contents v'))"
proof (cases "git_vector_is_sorted v \<or> v_cmp v = None")
  case True
  then show ?thesis using assms by (auto simp: git_vector_sort_def vector_inv_defs)
next
  case False
  then obtain "cmp" where c: "v_cmp v = Some cmp" "git_cmp cmp" using assms(1)
    by (auto simp: vector_inv_defs)
  show ?thesis
  proof (cases "v_length v > 1")
    case True
    obtain d where d: "git__tsort can_alloc cmp (v_contents v) = Some d" "sorted_by cmp d"
      "mset d = mset (v_contents v)" "stable_perm cmp (v_contents v) d"
      using git_cmp.tsort_result [OF c(2), of can_alloc "v_contents v"] assms(2)
      by (auto simp: git__tsort_def git_cmp.sorted_result_def [OF c(2)])
    then have "length d = v_length v" by (metis size_mset)
    then show ?thesis using False True c d assms
      by (auto simp: git_vector_sort_def vector_inv_defs)
  next
    case short: False
    then have "sorted_by cmp (v_contents v)" by (cases "v_contents v") auto
    then show ?thesis using False short c assms
      by (auto simp: git_vector_sort_def vector_inv_defs)
  qed
qed

lemma git_vector_remove_spec:
  "git_vector_remove v idx = (if idx < v_length v
     then Inr (v\<lparr>v_contents := take idx (v_contents v) @ drop (Suc idx) (v_contents v)\<rparr>)
     else Inl GIT_ENOTFOUND)"
  by (simp add: git_vector_remove_def)

lemma sorted_by_subseq:
  "subseq ys xs \<Longrightarrow> sorted_by cmp xs \<Longrightarrow> sorted_by cmp ys"
  unfolding sorted_by_def
  by (induction rule: list_emb.induct) (auto dest: list_emb_set)

lemma vector_inv_subseq:
  assumes "vector_inv v" "subseq xs (v_contents v)"
  shows "vector_inv (v\<lparr>v_contents := xs\<rparr>)"
  using assms sorted_by_subseq [OF assms(2)] list_emb_length [OF assms(2)]
  by (auto simp: vector_inv_defs)

lemma subseq_remove: "subseq (take i xs @ drop (i + n) xs) xs"
  by (metis add.commute append_take_drop_id drop_drop list_emb_append_mono subseq_drop_many
      subseq_order.refl suffix_drop suffix_imp_subseq)

lemma git_vector_remove_inv:
  "git_vector_remove v idx = Inr v' \<Longrightarrow> vector_inv v \<Longrightarrow> vector_inv v'"
  using subseq_remove [where i = idx and n = 1 and xs = "v_contents v"]
  by (auto simp: git_vector_remove_def intro: vector_inv_subseq split: if_splits)

lemma git_vector_remove_range_inv:
  "git_vector_remove_range v idx n = Some v' \<Longrightarrow> vector_inv v \<Longrightarrow> vector_inv v'"
  by (auto simp: git_vector_remove_range_def Let_def subseq_remove intro: vector_inv_subseq
      split: if_splits)

lemma git_vector_pop_inv: "vector_inv v \<Longrightarrow> vector_inv (git_vector_pop v)"
  using subseq_remove [where i = "v_length v - 1" and n = 1 and xs = "v_contents v"]
  by (auto simp: git_vector_pop_def intro!: vector_inv_subseq)

lemma git_vector_clear_inv: "vector_inv v \<Longrightarrow> vector_inv (git_vector_clear v)"
  by (auto simp: git_vector_clear_def vector_inv_defs)

subsection \<open>Removing duplicates\<close>

text \<open>What \<open>git_vector_uniq\<close> keeps and frees: of a run of equal neighbours the last stays.\<close>

fun uniq_list :: "'a cmp \<Rightarrow> 'a \<Rightarrow> 'a list \<Rightarrow> 'a list" where
  "uniq_list cmp x [] = [x]"
| "uniq_list cmp x (y # ys) = (if cmp x y = 0 then uniq_list cmp y ys else x # uniq_list cmp y ys)"

fun uniq_freed :: "'a cmp \<Rightarrow> 'a \<Rightarrow> 'a list \<Rightarrow> 'a list" where
  "uniq_freed cmp x [] = []"
| "uniq_freed cmp x (y # ys) = (if cmp x y = 0 then x # uniq_freed cmp y ys else uniq_freed cmp y ys)"

lemma uniq_loop_eq:
  "length P = i \<Longrightarrow> j = Suc (i + length G) \<Longrightarrow>
   uniq_loop cmp (P @ x # G @ R) i j freed = (P @ uniq_list cmp x R, freed @ uniq_freed cmp x R)"
proof (induction R arbitrary: P x G i j freed)
  case Nil
  then show ?case by (simp add: uniq_loop.simps)
next
  case (Cons y R)
  let ?xs = "P @ x # G @ y # R"
  have nth: "?xs ! i = x" "?xs ! j = y" "j < length ?xs" using Cons.prems by (auto simp: nth_append)
  show ?case
  proof (cases "cmp x y = 0")
    case True
    have "uniq_loop cmp ?xs i j freed = uniq_loop cmp (?xs[i := y]) i (Suc j) (freed @ [x])"
      using nth True by (simp add: uniq_loop.simps [of _ ?xs])
    also have "?xs[i := y] = P @ y # (G @ [y]) @ R" using Cons.prems by (simp add: list_update_append)
    also have "uniq_loop cmp \<dots> i (Suc j) (freed @ [x]) =
        (P @ uniq_list cmp y R, (freed @ [x]) @ uniq_freed cmp y R)"
      using Cons.prems by (intro Cons.IH) auto
    finally show ?thesis using True by simp
  next
    case False
    have "uniq_loop cmp ?xs i j freed = uniq_loop cmp (?xs[Suc i := y]) (Suc i) (Suc j) freed"
      using nth False by (simp add: uniq_loop.simps [of _ ?xs])
    also have "?xs[Suc i := y] = (P @ [x]) @ y # (case G of [] \<Rightarrow> [] | g # gs \<Rightarrow> gs @ [y]) @ R"
      using Cons.prems by (cases G) (simp_all add: list_update_append)
    also have "uniq_loop cmp \<dots> (Suc i) (Suc j) freed =
        ((P @ [x]) @ uniq_list cmp y R, freed @ uniq_freed cmp y R)"
      using Cons.prems by (intro Cons.IH) (auto split: list.split)
    finally show ?thesis using False by simp
  qed
qed

lemma uniq_list_mset: "mset (uniq_list cmp x xs) + mset (uniq_freed cmp x xs) = mset (x # xs)"
  by (induction cmp x xs rule: uniq_list.induct) auto

lemma uniq_list_subseq: "subseq (uniq_list cmp x xs) (x # xs)"
  by (induction cmp x xs rule: uniq_list.induct) auto

context git_cmp begin

lemma uniq_list_strict:
  "sorted_by cmp (x # xs) \<Longrightarrow> sorted_wrt (\<lambda>a b. cmp a b < 0) (uniq_list cmp x xs) \<and>
     (\<forall>y\<in>set (uniq_list cmp x xs). cmp x y \<le> 0)"
proof (induction xs arbitrary: x)
  case Nil
  then show ?case by simp
next
  case (Cons y ys)
  have xy: "cmp x y \<le> 0" and ys: "sorted_by cmp (y # ys)" using Cons.prems by (auto simp: sorted_by_Cons)
  note IH = Cons.IH [OF ys]
  show ?case
  proof (cases "cmp x y = 0")
    case True
    then show ?thesis using IH xy cmp_trans [of x y] by auto
  next
    case False
    then have "cmp x y < 0" using xy by simp
    then have "cmp x z < 0" if "z \<in> set (uniq_list cmp y ys)" for z
      using IH that cmp_less_le_trans by blast
    then show ?thesis using IH False by (auto simp: order_less_imp_le)
  qed
qed

lemma uniq_list_covers: "z \<in> set (x # xs) \<Longrightarrow> \<exists>y\<in>set (uniq_list cmp x xs). cmp z y = 0"
proof (induction xs arbitrary: x z)
  case (Cons w ws)
  show ?case
  proof (cases "z = x")
    case True
    show ?thesis
    proof (cases "cmp x w = 0")
      case eq: True
      then show ?thesis using Cons.IH [of w w] True cmp_eq_trans by auto
    qed (use True in simp)
  next
    case False
    then show ?thesis using Cons.IH [of z w] Cons.prems by auto
  qed
qed simp

end

lemma remove_matching_loop_eq:
  assumes "\<And>xs i. i < length xs \<Longrightarrow> match xs i = p (xs ! i)"
  shows "length P = i \<Longrightarrow> j = i + length G \<Longrightarrow>
    remove_matching_loop match (P @ G @ R) i j = P @ filter (\<lambda>x. \<not> p x) R"
proof (induction R arbitrary: P G i j)
  case Nil
  then show ?case by (simp add: remove_matching_loop.simps)
next
  case (Cons y R)
  let ?xs = "P @ G @ y # R"
  obtain G' where G': "?xs[i := y] = P @ y # G' @ R" "length G' = length G"
    using Cons.prems by (cases G) (auto simp: list_update_append intro: that [of "[]"] that)
  have j: "?xs ! j = y" "j < length ?xs" using Cons.prems by (auto simp: nth_append)
  have "match (P @ y # G' @ R) i = p y" using assms [of i "P @ y # G' @ R"] Cons.prems by (simp add: nth_append)
  then have eq: "remove_matching_loop match ?xs i j =
      remove_matching_loop match (P @ y # G' @ R) (if \<not> p y then Suc i else i) (Suc j)"
    using j G' by (simp add: remove_matching_loop.simps [of _ ?xs] Let_def)
  show ?case
  proof (cases "p y")
    case True
    then show ?thesis using eq Cons.IH [of P i "Suc j" "y # G'"] Cons.prems G' by simp
  next
    case False
    then show ?thesis using eq Cons.IH [of "P @ [y]" "Suc i" "Suc j" G'] Cons.prems G' by simp
  qed
qed

lemma git_vector_remove_matching_filter [vector_simps]:
  assumes "\<And>xs i. i < length xs \<Longrightarrow> match xs i = p (xs ! i)"
  shows "v_contents (git_vector_remove_matching v match) = filter (\<lambda>x. \<not> p x) (v_contents v)"
  using remove_matching_loop_eq [of match p "[]" 0 0 "[]"] assms
  by (simp add: git_vector_remove_matching_def)

lemma reverse_loop_eq: "reverse_loop xs a b = reverse_elements xs a b"
  by (induction xs a b rule: reverse_loop.induct)
    (simp add: reverse_loop.simps reverse_elements.simps)

lemma git_vector_reverse_rev [vector_simps]:
  "v_contents (git_vector_reverse v) = rev (v_contents v)"
proof (cases "v_contents v = []")
  case False
  then show ?thesis
    using reverse_elements_eq [of "[]" 0 "v_length v - 1" "v_contents v" "[]"]
    by (simp add: git_vector_reverse_def reverse_loop_eq)
qed (simp add: git_vector_reverse_def)

lemma search_loop_spec:
  "search_loop f key i xs = (case find (\<lambda>n. f key (xs ! n) = 0) [0..<length xs] of
     None \<Rightarrow> Inl GIT_ENOTFOUND | Some n \<Rightarrow> Inr (i + n))"
proof (induction xs arbitrary: i)
  case (Cons x xs)
  have "[0..<length (x # xs)] = 0 # map Suc [0..<length xs]"
    by (simp add: upt_conv_Cons map_Suc_upt del: upt_Suc)
  moreover have "find (\<lambda>n. f key ((x # xs) ! n) = 0) (map Suc ns) =
      map_option Suc (find (\<lambda>n. f key (xs ! n) = 0) ns)" for ns
    by (induction ns) auto
  ultimately show ?case using Cons by (simp split: option.split)
qed simp

subsection \<open>Inserting in order\<close>

lemma insert_sorted_spec:
  assumes inv: "vector_inv v" and alloc: "\<forall>n. can_alloc n" and len: "v_length v < SIZE_MAX"
    and c: "v_cmp v = Some cmp"
  shows "\<exists>v'. git_vector_insert_sorted can_alloc v x None = Some (0, v') \<and> vector_inv v' \<and>
    mset (v_contents v') = add_mset x (mset (v_contents v)) \<and> sorted_by cmp (v_contents v')"
proof -
  have cmp: "git_cmp cmp" using inv c by (simp add: vector_inv_defs)
  obtain v1 where v1: "(if \<not> git_vector_is_sorted v then git_vector_sort can_alloc v else Some v) = Some v1"
    "vector_inv v1" "mset (v_contents v1) = mset (v_contents v)" "v_cmp v1 = Some cmp"
    "git_vector_is_sorted v1" "sorted_by cmp (v_contents v1)"
    using git_vector_sort_spec [OF inv alloc] c inv
    by (cases "git_vector_is_sorted v") (auto simp: vector_inv_defs)
  have len1: "v_length v1 < SIZE_MAX" using len v1(3) by (metis size_mset)
  obtain v2 where v2: "grow_for_insert can_alloc v1 = Inr v2"
    using grow_for_insert_ok [OF _ v1(2), of can_alloc] alloc by auto
  note g = grow_for_insert_inv [OF v2 v1(2) len1]
  obtain found pos where b: "git__bsearch (v_contents v2) (v_length v2) x cmp = (found, pos)"
    by fastforce
  let ?xs = "take pos (v_contents v2) @ x # drop pos (v_contents v2)"
  have srt: "sorted_by cmp ?xs" "pos \<le> v_length v2"
    using git_cmp.insert_at_position [OF cmp _ b] g v1(6) by auto
  have ms: "mset ?xs = add_mset x (mset (v_contents v2))"
    by (metis append_take_drop_id mset.simps(2) mset_append union_mset_add_mset_right)
  have "git_vector_insert_sorted can_alloc v x None = Some (0, v2\<lparr>v_contents := ?xs\<rparr>)"
    using v1(1) v2 b c by (simp add: git_vector_insert_sorted_def Let_def)
  moreover have "vector_inv (v2\<lparr>v_contents := ?xs\<rparr>)"
    using g srt c v1(4) by (auto simp: vector_inv_defs)
  ultimately show ?thesis using srt ms g v1(3) by auto
qed

lemma git_vector_uniq_spec:
  assumes inv: "vector_inv v" and alloc: "\<forall>n. can_alloc n" and c: "v_cmp v = Some cmp"
  shows "\<exists>v' freed. git_vector_uniq can_alloc v = Some (v', freed) \<and> vector_inv v' \<and>
    mset (v_contents v') + mset freed = mset (v_contents v) \<and>
    sorted_wrt (\<lambda>a b. cmp a b < 0) (v_contents v') \<and>
    (\<forall>x\<in>set (v_contents v). \<exists>y\<in>set (v_contents v'). cmp x y = 0)"
proof (cases "v_length v \<le> 1")
  case True
  moreover have "cmp x x = 0" for x
    using inv c git_cmp.cmp_refl by (auto simp: vector_inv_defs)
  ultimately show ?thesis using inv by (cases "v_contents v") (auto simp: git_vector_uniq_def)
next
  case False
  have cmp: "git_cmp cmp" using inv c by (simp add: vector_inv_defs)
  obtain v1 where v1: "git_vector_sort can_alloc v = Some v1" "vector_inv v1"
    "mset (v_contents v1) = mset (v_contents v)" "v_cmp v1 = Some cmp"
    "sorted_by cmp (v_contents v1)"
    using git_vector_sort_spec [OF inv alloc] c by auto
  obtain x xs where xs: "v_contents v1 = x # xs"
    using False v1(3) by (metis list.exhaust list.size(3) mset_zero_iff not_less_eq_eq zero_le)
  have "uniq_loop cmp (v_contents v1) 0 1 [] = (uniq_list cmp x xs, uniq_freed cmp x xs)"
    using uniq_loop_eq [of "[]" 0 1 "[]" "cmp" x xs "[]"] xs by simp
  then have "git_vector_uniq can_alloc v = Some (v1\<lparr>v_contents := uniq_list cmp x xs\<rparr>, uniq_freed cmp x xs)"
    using False v1 by (simp add: git_vector_uniq_def Let_def)
  moreover have "vector_inv (v1\<lparr>v_contents := uniq_list cmp x xs\<rparr>)"
    using uniq_list_subseq [of "cmp" x xs] xs v1(2) by (intro vector_inv_subseq) auto
  moreover have "set (v_contents v) = set (x # xs)" using v1(3) xs by (metis mset_eq_setD)
  ultimately show ?thesis
    using git_cmp.uniq_list_strict [OF cmp] git_cmp.uniq_list_covers [OF cmp] v1 xs
      uniq_list_mset [of "cmp" x xs] by auto
qed

subsection \<open>Properties\<close>


lemma int_vector_inv:
  "vector_inv \<lparr>v_alloc_size = 8, v_cmp = Some (\<lambda>a b. a - b), v_contents = [1, 3, 3, 7 :: int], v_flags = 1\<rparr>"
proof -
  have "git_cmp (\<lambda>(a :: int) b. a - b)" by unfold_locales auto
  then show ?thesis by (simp add: vector_inv_defs SIZE_MAX_def sorted_by_def)
qed




text \<open>
  C9. \<open>git_vector_uniq\<close> leaves a strictly increasing vector that still holds a
  representative of every element, and gives exactly the other elements to the free callback.
\<close>

theorem git_vector_uniq_removes_duplicates:
  assumes "vector_inv v" and "\<forall>n. can_alloc n" and "v_cmp v = Some cmp"
  shows "\<exists>v' freed. git_vector_uniq can_alloc v = Some (v', freed) \<and>
    mset (v_contents v') + mset freed = mset (v_contents v) \<and>
    sorted_wrt (\<lambda>a b. cmp a b < 0) (v_contents v') \<and>
    (\<forall>x\<in>set (v_contents v). \<exists>y\<in>set (v_contents v'). cmp x y = 0)"
  using git_vector_uniq_spec [OF assms] by blast

theorem git_vector_uniq_removes_duplicates_witness:
  "\<exists>v' freed. git_vector_uniq (\<lambda>_. True)
     \<lparr>v_alloc_size = 8, v_cmp = Some (\<lambda>a b. a - b), v_contents = [1, 3, 3, 7 :: int], v_flags = 1\<rparr> = Some (v', freed) \<and>
     mset (v_contents v') + mset freed = mset [1, 3, 3, 7]"
  using git_vector_uniq_removes_duplicates [OF int_vector_inv, of "\<lambda>_. True"] by fastforce

end
