(* ===== verification/Pqueue.thy ===== *)
theory Pqueue
  imports VectorCorrect
begin

text \<open>
  \<open>pqueue.c\<close>: the binary heap over a \<open>git_vector\<close>. The queued items are not NULL, so a
  NULL from \<open>git_vector_get\<close> is \<open>None\<close>. A queue without a comparison function is a
  stack. With \<open>GIT_PQUEUE_FIXED_SIZE\<close> a full queue keeps the greatest items.

  The contract of the queue is the locale \<open>priority_queue\<close>; every comparison function
  that satisfies \<open>git_cmp\<close> gives one.
\<close>

type_synonym 'a git_pqueue = "'a git_vector"

definition GIT_PQUEUE_FIXED_SIZE :: u32 where "GIT_PQUEUE_FIXED_SIZE = push_bit 1 GIT_VECTOR_FLAG_MAX"

definition PQUEUE_LCHILD_OF :: "nat \<Rightarrow> nat" where "PQUEUE_LCHILD_OF i = 2 * i + 1"

definition PQUEUE_RCHILD_OF :: "nat \<Rightarrow> nat" where "PQUEUE_RCHILD_OF i = 2 * i + 2"

definition PQUEUE_PARENT_OF :: "nat \<Rightarrow> nat" where "PQUEUE_PARENT_OF i = (i - 1) div 2"

definition git_pqueue_init :: "(nat \<Rightarrow> bool) \<Rightarrow> u32 \<Rightarrow> nat \<Rightarrow> 'a cmp option \<Rightarrow> 'a git_pqueue result" where
  "git_pqueue_init can_alloc flags init_size cmp =
     (case git_vector_init can_alloc init_size cmp of
        Inl e \<Rightarrow> Inl e
      | Inr pq \<Rightarrow>
          (let pq1 = pq\<lparr>v_flags := v_flags pq OR flags\<rparr> in
           if flags AND GIT_PQUEUE_FIXED_SIZE \<noteq> 0 \<and> init_size > 0
           then Inr (pq1\<lparr>v_alloc_size := init_size\<rparr>) else Inr pq1))"

text \<open>The loops return the cells and the index where the moved element goes.\<close>

function pqueue_up_loop :: "'a cmp \<Rightarrow> 'a \<Rightarrow> 'a list \<Rightarrow> nat \<Rightarrow> 'a list \<times> nat" where
  "pqueue_up_loop cmp kid xs el =
     (if el > 0 then
        (let parent_el = PQUEUE_PARENT_OF el; parent = xs ! parent_el in
         if cmp parent kid \<le> 0 then (xs, el)
         else pqueue_up_loop cmp kid (xs[el := parent]) parent_el)
      else (xs, el))"
  by pat_completeness auto
termination
  by (relation "measure (\<lambda>(cmp, kid, xs, el). el)") (auto simp: PQUEUE_PARENT_OF_def)

declare pqueue_up_loop.simps [simp del]

definition pqueue_up :: "'a cmp \<Rightarrow> 'a git_pqueue \<Rightarrow> nat \<Rightarrow> 'a git_pqueue" where
  "pqueue_up cmp pq el =
     (case git_vector_get pq el of
        None \<Rightarrow> pq
      | Some kid \<Rightarrow>
          (case pqueue_up_loop cmp kid (v_contents pq) el of
             (xs, el') \<Rightarrow> pq\<lparr>v_contents := xs[el' := kid]\<rparr>))"

text \<open>The smaller child of \<open>el\<close> with its index, if there is a child.\<close>

definition smaller_kid :: "'a cmp \<Rightarrow> 'a list \<Rightarrow> nat \<Rightarrow> ('a \<times> nat) option" where
  "smaller_kid cmp xs el =
     (let kid_el = PQUEUE_LCHILD_OF el in
      if kid_el < length xs then
        (if kid_el + 1 < length xs \<and> cmp (xs ! kid_el) (xs ! (kid_el + 1)) > 0
         then Some (xs ! (kid_el + 1), kid_el + 1) else Some (xs ! kid_el, kid_el))
      else None)"

lemma smaller_kid_less: "smaller_kid cmp xs el = Some (k, n) \<Longrightarrow> el < n \<and> n < length xs"
  by (auto simp: smaller_kid_def PQUEUE_LCHILD_OF_def Let_def split: if_splits)

function pqueue_down_loop :: "'a cmp \<Rightarrow> 'a \<Rightarrow> 'a list \<Rightarrow> nat \<Rightarrow> 'a list \<times> nat" where
  "pqueue_down_loop cmp parent xs el =
     (case smaller_kid cmp xs el of
        None \<Rightarrow> (xs, el)
      | Some (kid, kid_el) \<Rightarrow>
          (if cmp parent kid \<le> 0 then (xs, el)
           else pqueue_down_loop cmp parent (xs[el := kid]) kid_el))"
  by pat_completeness auto
termination
  by (relation "measure (\<lambda>(cmp, parent, xs, el). length xs - el)") (auto, metis diff_less_mono2 order_less_trans smaller_kid_less)

declare pqueue_down_loop.simps [simp del]

definition pqueue_down :: "'a cmp \<Rightarrow> 'a git_pqueue \<Rightarrow> nat \<Rightarrow> 'a git_pqueue" where
  "pqueue_down cmp pq el =
     (case git_vector_get pq el of
        None \<Rightarrow> pq
      | Some parent \<Rightarrow>
          (case pqueue_down_loop cmp parent (v_contents pq) el of
             (xs, el') \<Rightarrow> pq\<lparr>v_contents := xs[el' := parent]\<rparr>))"

definition git_pqueue_pop :: "'a git_pqueue \<Rightarrow> 'a option \<times> 'a git_pqueue" where
  "git_pqueue_pop pq =
     (let rval = (case v_cmp pq of None \<Rightarrow> git_vector_last pq | Some _ \<Rightarrow> git_vector_get pq 0) in
      case v_cmp pq of
        Some cmp \<Rightarrow>
          (if v_length pq > 1 then
             (let pq1 = pq\<lparr>v_contents := (v_contents pq)[0 := last (v_contents pq)]\<rparr>;
                  pq2 = git_vector_pop pq1
              in (rval, pqueue_down cmp pq2 0))
           else (rval, git_vector_pop pq))
      | None \<Rightarrow> (rval, git_vector_pop pq))"

definition git_pqueue_insert :: "(nat \<Rightarrow> bool) \<Rightarrow> 'a git_pqueue \<Rightarrow> 'a \<Rightarrow> 'a git_pqueue result" where
  "git_pqueue_insert can_alloc pq item =
     (let full = (v_flags pq AND GIT_PQUEUE_FIXED_SIZE \<noteq> 0 \<and> v_length pq \<ge> v_alloc_size pq);
          skip = (full \<and> (case v_cmp pq of
                            None \<Rightarrow> True
                          | Some cmp \<Rightarrow> (case git_vector_get pq 0 of
                                           Some m \<Rightarrow> cmp item m \<le> 0 | None \<Rightarrow> False)));
          pq1 = (if full then snd (git_pqueue_pop pq) else pq) in
      if skip then Inr pq
      else (case git_vector_insert can_alloc pq1 item of
              Inl e \<Rightarrow> Inl e
            | Inr pq2 \<Rightarrow>
                (case v_cmp pq2 of
                   Some cmp \<Rightarrow> Inr (pqueue_up cmp pq2 (v_length pq2 - 1))
                 | None \<Rightarrow> Inr pq2)))"

subsection \<open>The heap order\<close>

definition heap_ordered :: "'a cmp \<Rightarrow> 'a list \<Rightarrow> bool" where
  "heap_ordered cmp xs \<longleftrightarrow>
     (\<forall>i. 0 < i \<and> i < length xs \<longrightarrow> cmp (xs ! PQUEUE_PARENT_OF i) (xs ! i) \<le> 0)"

text \<open>The order holds but for the element at \<open>el\<close> and its parent, or its children.\<close>

definition heap_but_up :: "'a cmp \<Rightarrow> 'a list \<Rightarrow> nat \<Rightarrow> bool" where
  "heap_but_up cmp xs el \<longleftrightarrow>
     (\<forall>i. 0 < i \<and> i < length xs \<and> i \<noteq> el \<longrightarrow> cmp (xs ! PQUEUE_PARENT_OF i) (xs ! i) \<le> 0) \<and>
     (\<forall>i. 0 < i \<and> i < length xs \<and> 0 < el \<and> PQUEUE_PARENT_OF i = el \<longrightarrow>
        cmp (xs ! PQUEUE_PARENT_OF el) (xs ! i) \<le> 0)"

definition heap_but_down :: "'a cmp \<Rightarrow> 'a list \<Rightarrow> nat \<Rightarrow> bool" where
  "heap_but_down cmp xs el \<longleftrightarrow>
     (\<forall>i. 0 < i \<and> i < length xs \<and> PQUEUE_PARENT_OF i \<noteq> el \<longrightarrow>
        cmp (xs ! PQUEUE_PARENT_OF i) (xs ! i) \<le> 0) \<and>
     (\<forall>i. 0 < i \<and> i < length xs \<and> 0 < el \<and> PQUEUE_PARENT_OF i = el \<longrightarrow>
        cmp (xs ! PQUEUE_PARENT_OF el) (xs ! i) \<le> 0)"

lemma parent_less [simp]: "0 < i \<Longrightarrow> PQUEUE_PARENT_OF i < i"
  by (auto simp: PQUEUE_PARENT_OF_def)

lemma child_cases: "0 < i \<Longrightarrow> PQUEUE_PARENT_OF i = el \<longleftrightarrow> i = PQUEUE_LCHILD_OF el \<or> i = PQUEUE_LCHILD_OF el + 1"
  unfolding PQUEUE_PARENT_OF_def PQUEUE_LCHILD_OF_def by presburger

lemma mset_hole_move:
  "i < length xs \<Longrightarrow> j < length xs \<Longrightarrow> i \<noteq> j \<Longrightarrow> mset (xs[i := xs ! j, j := x]) = mset (xs[i := x])"
proof -
  assume ij: "i < length xs" "j < length xs" "i \<noteq> j"
  have "xs[i := x, j := x, i := xs ! j] = xs[i := xs ! j, j := x]"
    using ij(3) by (metis list_update_overwrite list_update_swap)
  then show ?thesis using mset_swap [of i "xs[i := x]" j] ij by simp
qed

context git_cmp begin

lemma heap_root: "heap_ordered cmp xs \<Longrightarrow> i < length xs \<Longrightarrow> cmp (xs ! 0) (xs ! i) \<le> 0"
proof (induction i rule: less_induct)
  case (less i)
  show ?case
  proof (cases "i = 0")
    case False
    then have "PQUEUE_PARENT_OF i < i" by simp
    then have "cmp (xs ! 0) (xs ! PQUEUE_PARENT_OF i) \<le> 0" using less by simp
    moreover have "cmp (xs ! PQUEUE_PARENT_OF i) (xs ! i) \<le> 0"
      using less.prems False by (simp add: heap_ordered_def)
    ultimately show ?thesis by (rule cmp_trans)
  qed simp
qed

lemma pqueue_up_loop_spec:
  assumes "el < length xs" "heap_but_up cmp (xs[el := kid]) el"
    and "pqueue_up_loop cmp kid xs el = (xs', el')"
  shows "heap_ordered cmp (xs'[el' := kid]) \<and> mset (xs'[el' := kid]) = mset (xs[el := kid])"
  using assms
proof (induction el arbitrary: xs rule: less_induct)
  case (less el)
  let ?p = "PQUEUE_PARENT_OF el" and ?ys = "xs[el := kid]"
  show ?case
  proof (cases "el > 0 \<and> \<not> cmp (xs ! ?p) kid \<le> 0")
    case False
    then have "xs' = xs" "el' = el"
      using less.prems(3) by (auto simp: pqueue_up_loop.simps [of _ _ xs el] Let_def split: if_splits)
    moreover have "heap_ordered cmp ?ys"
      unfolding heap_ordered_def
    proof (intro allI impI)
      fix i assume i: "0 < i \<and> i < length ?ys"
      show "cmp (?ys ! PQUEUE_PARENT_OF i) (?ys ! i) \<le> 0"
        using i less.prems(1,2) False by (cases "i = el") (auto simp: heap_but_up_def nth_list_update)
    qed
    ultimately show ?thesis by simp
  next
    case True
    then have p: "?p < el" by simp
    let ?xs1 = "xs[el := xs ! ?p]"
    have run: "pqueue_up_loop cmp kid ?xs1 ?p = (xs', el')"
      using less.prems(3) True by (simp add: pqueue_up_loop.simps [of _ _ xs el] Let_def)
    have lt: "cmp kid (xs ! ?p) < 0" using True cmp_antisym by force
    have b1: "cmp (?ys ! PQUEUE_PARENT_OF i) (?ys ! i) \<le> 0" if "0 < i" "i < length xs" "i \<noteq> el" for i
      using less.prems(2) that by (simp add: heap_but_up_def)
    have b2: "cmp (xs ! ?p) (?ys ! i) \<le> 0" if "0 < i" "i < length xs" "PQUEUE_PARENT_OF i = el" for i
      using less.prems(2) that True p by (auto simp: heap_but_up_def)
    have "heap_but_up cmp (?xs1[?p := kid]) ?p"
      unfolding heap_but_up_def
    proof (intro conjI allI impI)
      fix i assume i: "0 < i \<and> i < length (?xs1[?p := kid]) \<and> i \<noteq> ?p"
      consider "i = el" | "i \<noteq> el" "PQUEUE_PARENT_OF i = ?p" | "PQUEUE_PARENT_OF i = el"
        | "i \<noteq> el" "PQUEUE_PARENT_OF i \<noteq> ?p" "PQUEUE_PARENT_OF i \<noteq> el" by blast
      then show "cmp (?xs1[?p := kid] ! PQUEUE_PARENT_OF i) (?xs1[?p := kid] ! i) \<le> 0"
      proof cases
        case 1
        then show ?thesis using lt p less.prems(1) by (simp add: nth_list_update)
      next
        case 2
        then have "cmp (xs ! ?p) (xs ! i) \<le> 0" using b1 [of i] i p by (simp add: nth_list_update)
        then have "cmp kid (xs ! i) < 0" using lt cmp_less_le_trans by blast
        then show ?thesis using 2 i p less.prems(1) by (simp add: nth_list_update)
      next
        case 3
        then have "el < i" using i parent_less [of i] by simp
        then show ?thesis using b2 [of i] 3 i p less.prems(1) by (simp add: nth_list_update)
      next
        case 4
        then show ?thesis using b1 [of i] i p less.prems(1) by (simp add: nth_list_update)
      qed
    next
      fix i assume i: "0 < i \<and> i < length (?xs1[?p := kid]) \<and> 0 < ?p \<and> PQUEUE_PARENT_OF i = ?p"
      have pp: "PQUEUE_PARENT_OF ?p < ?p" using i by simp
      have gp: "cmp (xs ! PQUEUE_PARENT_OF ?p) (xs ! ?p) \<le> 0"
        using b1 [of ?p] i p pp less.prems(1) by (simp add: nth_list_update)
      show "cmp (?xs1[?p := kid] ! PQUEUE_PARENT_OF ?p) (?xs1[?p := kid] ! i) \<le> 0"
      proof (cases "i = el")
        case True
        then show ?thesis using gp p pp less.prems(1) by (simp add: nth_list_update)
      next
        case False
        then have "cmp (xs ! ?p) (xs ! i) \<le> 0" using b1 [of i] i p by (simp add: nth_list_update)
        then have "cmp (xs ! PQUEUE_PARENT_OF ?p) (xs ! i) \<le> 0" using gp cmp_trans by blast
        moreover have "i \<noteq> ?p" using i parent_less [of i] by auto
        ultimately show ?thesis using False p pp less.prems(1) by (simp add: nth_list_update)
      qed
    qed
    then show ?thesis
      using less.IH [OF p _ _ run] p less.prems(1) mset_hole_move [of el xs ?p kid] by simp
  qed
qed

lemma smaller_kid_cases:
  assumes "smaller_kid cmp xs el = Some (kid, k)"
  shows "0 < k \<and> k < length xs \<and> el < k \<and> PQUEUE_PARENT_OF k = el \<and> kid = xs ! k \<and>
    (\<forall>i. 0 < i \<and> i < length xs \<and> PQUEUE_PARENT_OF i = el \<longrightarrow> cmp kid (xs ! i) \<le> 0)"
proof -
  let ?l = "PQUEUE_LCHILD_OF el"
  have par: "PQUEUE_PARENT_OF ?l = el" "PQUEUE_PARENT_OF (?l + 1) = el" "el < ?l" "0 < ?l"
    by (auto simp: PQUEUE_LCHILD_OF_def PQUEUE_PARENT_OF_def)
  have only: "i = ?l \<or> i = ?l + 1" if "0 < i" "PQUEUE_PARENT_OF i = el" for i
    using that child_cases by blast
  have l: "?l < length xs" using assms by (simp add: smaller_kid_def Let_def split: if_splits)
  show ?thesis
  proof (cases "?l + 1 < length xs \<and> cmp (xs ! ?l) (xs ! (?l + 1)) > 0")
    case True
    then have kk: "kid = xs ! (?l + 1)" "k = ?l + 1" using assms l by (auto simp: smaller_kid_def Let_def)
    have "cmp (xs ! (?l + 1)) (xs ! ?l) \<le> 0" using True cmp_antisym [of "xs ! ?l"] by auto
    then have "cmp kid (xs ! i) \<le> 0" if "0 < i" "PQUEUE_PARENT_OF i = el" for i
      using only [OF that] kk(1) by auto
    then show ?thesis using kk True par by simp
  next
    case False
    then have kk: "kid = xs ! ?l" "k = ?l" using assms l by (auto simp: smaller_kid_def Let_def)
    have "cmp kid (xs ! i) \<le> 0" if "0 < i" "i < length xs" "PQUEUE_PARENT_OF i = el" for i
      using only [OF that(1,3)] that(2) kk(1) False by auto
    then show ?thesis using kk par l by simp
  qed
qed

lemma smaller_kid_None: "smaller_kid cmp xs el = None \<Longrightarrow> 0 < i \<Longrightarrow> PQUEUE_PARENT_OF i = el \<Longrightarrow> \<not> i < length xs"
  using child_cases [of i el] by (auto simp: smaller_kid_def Let_def split: if_splits)

lemma pqueue_down_loop_spec:
  assumes "el < length xs" "heap_but_down cmp (xs[el := parent]) el"
    and "pqueue_down_loop cmp parent xs el = (xs', el')"
  shows "heap_ordered cmp (xs'[el' := parent]) \<and> mset (xs'[el' := parent]) = mset (xs[el := parent])"
  using assms
proof (induction "length xs - el" arbitrary: xs el rule: less_induct)
  case less
  let ?ys = "xs[el := parent]"
  have b1: "cmp (?ys ! PQUEUE_PARENT_OF i) (?ys ! i) \<le> 0"
    if "0 < i" "i < length xs" "PQUEUE_PARENT_OF i \<noteq> el" for i
    using less.prems(2) that by (simp add: heap_but_down_def)
  have b2: "cmp (xs ! PQUEUE_PARENT_OF el) (xs ! i) \<le> 0"
    if "0 < i" "i < length xs" "0 < el" "PQUEUE_PARENT_OF i = el" for i
  proof -
    have "PQUEUE_PARENT_OF el < el" "el < i" using that parent_less [of i] by auto
    moreover have "cmp (?ys ! PQUEUE_PARENT_OF el) (?ys ! i) \<le> 0"
      using less.prems(2) that by (simp add: heap_but_down_def)
    ultimately show ?thesis by simp
  qed
  show ?case
  proof (cases "smaller_kid cmp xs el")
    case None
    then have "xs' = xs \<and> el' = el"
      using less.prems(3) unfolding pqueue_down_loop.simps [of cmp parent xs el] by simp
    then have "xs' = xs" "el' = el" by simp_all
    moreover have "heap_ordered cmp ?ys"
      unfolding heap_ordered_def
    proof (intro allI impI)
      fix i assume i: "0 < i \<and> i < length ?ys"
      then have "PQUEUE_PARENT_OF i \<noteq> el" using smaller_kid_None [OF None, of i] by auto
      then show "cmp (?ys ! PQUEUE_PARENT_OF i) (?ys ! i) \<le> 0" using b1 i by simp
    qed
    ultimately show ?thesis by simp
  next
    case (Some kk)
    then obtain kid k where kk: "smaller_kid cmp xs el = Some (kid, k)" by (cases kk) auto
    note sk = smaller_kid_cases [OF kk]
    show ?thesis
    proof (cases "cmp parent kid \<le> 0")
      case True
      then have "xs' = xs" "el' = el"
        using less.prems(3) kk by (auto simp: pqueue_down_loop.simps [of _ _ xs el])
      moreover have "heap_ordered cmp ?ys"
        unfolding heap_ordered_def
      proof (intro allI impI)
        fix i assume i: "0 < i \<and> i < length ?ys"
        show "cmp (?ys ! PQUEUE_PARENT_OF i) (?ys ! i) \<le> 0"
        proof (cases "PQUEUE_PARENT_OF i = el")
          case eq: True
          from sk have "\<forall>i. 0 < i \<and> i < length xs \<and> PQUEUE_PARENT_OF i = el \<longrightarrow> cmp kid (xs ! i) \<le> 0" by blast
          with eq i have "cmp kid (xs ! i) \<le> 0" by simp
          then have "cmp parent (xs ! i) \<le> 0" using True cmp_trans by blast
          then show ?thesis using eq i less.prems(1) parent_less [of i] by (auto simp: nth_list_update)
        next
          case False
          then show ?thesis using b1 i by simp
        qed
      qed
      ultimately show ?thesis by simp
    next
      case False
      let ?xs1 = "xs[el := kid]"
      have run: "pqueue_down_loop cmp parent ?xs1 k = (xs', el')"
        using less.prems(3) kk False by (simp add: pqueue_down_loop.simps [of _ _ xs el])
      have lt: "cmp kid parent \<le> 0" using False cmp_total by blast
      have "heap_but_down cmp (?xs1[k := parent]) k"
        unfolding heap_but_down_def
      proof (intro conjI allI impI)
        fix i assume i: "0 < i \<and> i < length (?xs1[k := parent]) \<and> PQUEUE_PARENT_OF i \<noteq> k"
        consider "i = k" | "i \<noteq> k" "PQUEUE_PARENT_OF i = el" | "i = el"
          | "i \<noteq> k" "i \<noteq> el" "PQUEUE_PARENT_OF i \<noteq> el" by blast
        then show "cmp (?xs1[k := parent] ! PQUEUE_PARENT_OF i) (?xs1[k := parent] ! i) \<le> 0"
        proof cases
          case 1
          then show ?thesis using lt sk less.prems(1) by (simp add: nth_list_update)
        next
          case 2
          then have "cmp kid (xs ! i) \<le> 0" "i \<noteq> el" using sk i parent_less [of i] by auto
          then show ?thesis using 2 sk i less.prems(1) by (simp add: nth_list_update)
        next
          case 3
          then have pe: "PQUEUE_PARENT_OF el < el" "0 < el" using i by auto
          then have "cmp (xs ! PQUEUE_PARENT_OF el) kid \<le> 0" using b2 [of k] sk by simp
          then show ?thesis using 3 pe sk i less.prems(1) by (simp add: nth_list_update)
        next
          case 4
          then show ?thesis using b1 [of i] i sk less.prems(1) by (auto simp: nth_list_update)
        qed
      next
        fix i assume i: "0 < i \<and> i < length (?xs1[k := parent]) \<and> 0 < k \<and> PQUEUE_PARENT_OF i = k"
        then have "k < i" using parent_less [of i] by simp
        then have "cmp kid (xs ! i) \<le> 0" using b1 [of i] i sk by (auto simp: nth_list_update)
        then show "cmp (?xs1[k := parent] ! PQUEUE_PARENT_OF k) (?xs1[k := parent] ! i) \<le> 0"
          using sk \<open>k < i\<close> less.prems(1) by (simp add: nth_list_update)
      qed
      moreover have "length ?xs1 - k < length xs - el" using sk less.prems(1) by (metis diff_less_mono2 length_list_update order_less_trans)
      moreover have "mset (?xs1[k := parent]) = mset ?ys"
        using mset_hole_move [of el xs k parent] sk less.prems(1) by simp
      ultimately show ?thesis using less.hyps [of ?xs1 k] run sk by simp
    qed
  qed
qed

text \<open>Heap with a new last element, and heap whose root was replaced.\<close>

lemma heap_but_up_snoc: "heap_ordered cmp xs \<Longrightarrow> heap_but_up cmp (xs @ [x]) (length xs)"
proof -
  assume h: "heap_ordered cmp xs"
  have "cmp ((xs @ [x]) ! PQUEUE_PARENT_OF i) ((xs @ [x]) ! i) \<le> 0"
    if "0 < i" "i < length (xs @ [x])" "i \<noteq> length xs" for i
  proof -
    have "i < length xs" "PQUEUE_PARENT_OF i < length xs" using that parent_less [OF that(1)] by simp_all
    then show ?thesis using h that by (simp add: heap_ordered_def nth_append)
  qed
  moreover have "\<not> PQUEUE_PARENT_OF i = length xs" if "0 < i" "i < length (xs @ [x])" for i
    using that(2) parent_less [OF that(1)] by simp
  ultimately show ?thesis by (auto simp: heap_but_up_def)
qed

lemma heap_take: "heap_ordered cmp xs \<Longrightarrow> heap_ordered cmp (take n xs)"
  unfolding heap_ordered_def
proof (intro allI impI)
  fix i assume h: "\<forall>i. 0 < i \<and> i < length xs \<longrightarrow> cmp (xs ! PQUEUE_PARENT_OF i) (xs ! i) \<le> 0"
    and i: "0 < i \<and> i < length (take n xs)"
  then have "PQUEUE_PARENT_OF i < n" using parent_less [of i] by (metis length_take min_less_iff_conj order_less_trans)
  then show "cmp (take n xs ! PQUEUE_PARENT_OF i) (take n xs ! i) \<le> 0" using h i by simp
qed

lemma heap_but_down_root: "heap_ordered cmp xs \<Longrightarrow> heap_but_down cmp (xs[0 := x]) 0"
  by (auto simp: heap_ordered_def heap_but_down_def nth_list_update)

end

subsection \<open>The operations\<close>

lemma grow_for_insert_fits:
  assumes "grow_for_insert can_alloc v = Inr v'" "vector_fits v" "v_length v < SIZE_MAX"
  shows "vector_fits v' \<and> v_length v < v_alloc_size v' \<and> v_contents v' = v_contents v \<and>
    v_cmp v' = v_cmp v \<and> v_flags v' = v_flags v \<and>
    (v_length v < v_alloc_size v \<longrightarrow> v_alloc_size v' = v_alloc_size v)"
proof (cases "v_length v \<ge> v_alloc_size v")
  case True
  then have "v_alloc_size v < SIZE_MAX" using assms(2,3) by (simp add: vector_fits_def)
  then have "v_alloc_size v < compute_new_size v" "compute_new_size v \<le> SIZE_MAX"
    by (auto intro: compute_new_size_bounds)
  then show ?thesis using assms True
    by (auto simp: grow_for_insert_def resize_vector_def vector_fits_def split: if_splits)
next
  case False
  then show ?thesis using assms by (simp add: grow_for_insert_def)
qed

lemma git_vector_insert_fits:
  assumes "git_vector_insert can_alloc v x = Inr v'" "vector_fits v" "v_length v < SIZE_MAX"
  shows "vector_fits v' \<and> v_contents v' = v_contents v @ [x] \<and> v_cmp v' = v_cmp v \<and>
    (v_length v < v_alloc_size v \<longrightarrow> v_alloc_size v' = v_alloc_size v)"
proof -
  obtain v1 where g: "grow_for_insert can_alloc v = Inr v1"
    and v': "v' = git_vector_set_sorted (v1\<lparr>v_contents := v_contents v1 @ [x]\<rparr>) (length (v_contents v1 @ [x]) \<le> 1)"
    using assms(1) by (auto simp: git_vector_insert_def Let_def split: sum.splits)
  show ?thesis using grow_for_insert_fits [OF g assms(2,3)] v' by (auto simp: vector_fits_def)
qed

definition pqueue_inv :: "'a cmp \<Rightarrow> 'a git_pqueue \<Rightarrow> bool" where
  "pqueue_inv cmp pq \<longleftrightarrow> v_cmp pq = Some cmp \<and> vector_fits pq \<and> heap_ordered cmp (v_contents pq)"

definition fixed_size :: "'a git_pqueue \<Rightarrow> bool" where
  "fixed_size pq \<longleftrightarrow> v_flags pq AND GIT_PQUEUE_FIXED_SIZE \<noteq> 0"

definition elems :: "'a git_pqueue \<Rightarrow> 'a multiset" where
  "elems pq = mset (v_contents pq)"

context git_cmp begin

lemma pqueue_up_spec:
  assumes "v_contents pq = xs @ [x]" "heap_ordered cmp xs"
  shows "heap_ordered cmp (v_contents (pqueue_up cmp pq (length xs))) \<and>
    mset (v_contents (pqueue_up cmp pq (length xs))) = add_mset x (mset xs) \<and>
    length (v_contents (pqueue_up cmp pq (length xs))) = Suc (length xs)"
proof -
  obtain ys e where up: "pqueue_up_loop cmp x (xs @ [x]) (length xs) = (ys, e)" by fastforce
  have "heap_but_up cmp ((xs @ [x])[length xs := x]) (length xs)"
    using heap_but_up_snoc [OF assms(2)] by simp
  note sp = pqueue_up_loop_spec [OF _ this up]
  have "heap_ordered cmp (ys[e := x])" "mset (ys[e := x]) = add_mset x (mset xs)"
    using sp by simp_all
  moreover from this(2) have "length (ys[e := x]) = Suc (length xs)" by (metis size_add_mset size_mset)
  moreover have "v_contents (pqueue_up cmp pq (length xs)) = ys[e := x]"
    using assms(1) up by (simp add: pqueue_up_def git_vector_get_def)
  ultimately show ?thesis by simp
qed

lemma pqueue_up_fields [simp]:
  "v_cmp (pqueue_up c pq n) = v_cmp pq" "v_alloc_size (pqueue_up c pq n) = v_alloc_size pq"
  "v_flags (pqueue_up c pq n) = v_flags pq"
  by (simp_all add: pqueue_up_def split: option.splits prod.splits)

lemma pqueue_down_fields [simp]:
  "v_cmp (pqueue_down c pq n) = v_cmp pq" "v_alloc_size (pqueue_down c pq n) = v_alloc_size pq"
  "v_flags (pqueue_down c pq n) = v_flags pq"
  by (simp_all add: pqueue_down_def split: option.splits prod.splits)

lemma git_pqueue_pop_empty: "pqueue_inv cmp pq \<Longrightarrow> v_contents pq = [] \<Longrightarrow> git_pqueue_pop pq = (None, pq)"
  by (simp add: pqueue_inv_def git_pqueue_pop_def git_vector_get_def git_vector_pop_def)

lemma git_pqueue_pop_spec:
  assumes inv: "pqueue_inv cmp pq" and ne: "v_contents pq \<noteq> []"
  shows "\<exists>x pq'. git_pqueue_pop pq = (Some x, pq') \<and> x = v_contents pq ! 0 \<and>
    (\<forall>y\<in>#elems pq. cmp x y \<le> 0) \<and> elems pq = add_mset x (elems pq') \<and>
    pqueue_inv cmp pq' \<and> v_alloc_size pq' = v_alloc_size pq \<and> v_flags pq' = v_flags pq"
proof -
  let ?xs = "v_contents pq"
  have c: "v_cmp pq = Some cmp" and h: "heap_ordered cmp ?xs" and fits: "vector_fits pq"
    using inv by (auto simp: pqueue_inv_def)
  have min: "\<forall>y\<in>#elems pq. cmp (?xs ! 0) y \<le> 0"
    using heap_root [OF h] by (auto simp: elems_def in_set_conv_nth)
  show ?thesis
  proof (cases "length ?xs > 1")
    case True
    obtain x ys z where xs: "?xs = x # ys @ [z]"
      using True by (cases ?xs; cases "tl ?xs" rule: rev_cases) auto
    have "heap_ordered cmp (x # ys)"
      using heap_take [OF h, of "length (x # ys)"] by (simp add: xs)
    then have hd: "heap_but_down cmp ((z # ys)[0 := z]) 0"
      using heap_but_down_root [of "x # ys" z] by simp
    obtain us e where down: "pqueue_down_loop cmp z (z # ys) 0 = (us, e)" by fastforce
    note sp = pqueue_down_loop_spec [OF _ hd down]
    have us: "heap_ordered cmp (us[e := z])" "mset (us[e := z]) = add_mset z (mset ys)"
      using sp by simp_all
    from us(2) have len: "length us = Suc (length ys)" by (metis length_list_update size_add_mset size_mset)
    have pop: "git_vector_pop (pq\<lparr>v_contents := z # ys @ [z]\<rparr>) = pq\<lparr>v_contents := z # ys\<rparr>"
      by (simp add: git_vector_pop_def)
    have "git_pqueue_pop pq = (Some x, pq\<lparr>v_contents := us[e := z]\<rparr>)"
      using c xs pop down by (simp add: git_pqueue_pop_def git_vector_get_def pqueue_down_def Let_def)
    then show ?thesis using us min c fits len xs
      by (auto simp: pqueue_inv_def elems_def vector_fits_def)
  next
    case False
    then obtain x where xs: "?xs = [x]" using ne by (cases ?xs) auto
    then have "git_pqueue_pop pq = (Some x, pq\<lparr>v_contents := []\<rparr>)"
      using c by (simp add: git_pqueue_pop_def git_vector_get_def git_vector_pop_def)
    then show ?thesis using min c fits xs
      by (auto simp: pqueue_inv_def elems_def vector_fits_def heap_ordered_def)
  qed
qed

lemma git_pqueue_insert_room:
  assumes inv: "pqueue_inv cmp pq" and "v_length pq < SIZE_MAX"
    and room: "\<not> (fixed_size pq \<and> v_length pq \<ge> v_alloc_size pq)"
    and ins: "git_pqueue_insert can_alloc pq x = Inr pq'"
  shows "pqueue_inv cmp pq' \<and> elems pq' = add_mset x (elems pq) \<and>
    (v_length pq < v_alloc_size pq \<longrightarrow> v_alloc_size pq' = v_alloc_size pq)"
proof -
  have c: "v_cmp pq = Some cmp" and h: "heap_ordered cmp (v_contents pq)" and fits: "vector_fits pq"
    using inv by (auto simp: pqueue_inv_def)
  have nf: "\<not> (v_flags pq AND GIT_PQUEUE_FIXED_SIZE \<noteq> 0 \<and> v_length pq \<ge> v_alloc_size pq)"
    using room by (simp add: fixed_size_def)
  obtain pq2 where pq2: "git_vector_insert can_alloc pq x = Inr pq2"
    and pq': "pq' = (case v_cmp pq2 of Some cmp \<Rightarrow> pqueue_up cmp pq2 (v_length pq2 - 1) | None \<Rightarrow> pq2)"
    using ins nf unfolding git_pqueue_insert_def Let_def
    by (auto split: sum.splits option.splits)
  note g = git_vector_insert_fits [OF pq2 fits assms(2)]
  have eq: "pq' = pqueue_up cmp pq2 (length (v_contents pq))" using pq' g c by simp
  have sp: "heap_ordered cmp (v_contents pq') \<and> mset (v_contents pq') = add_mset x (mset (v_contents pq)) \<and>
      length (v_contents pq') = Suc (v_length pq)"
    unfolding eq using pqueue_up_spec [OF _ h, of pq2 x] g by blast
  moreover have "v_cmp pq' = Some cmp" "v_alloc_size pq' = v_alloc_size pq2"
    unfolding eq using g c by simp_all
  ultimately show ?thesis using g by (auto simp: pqueue_inv_def elems_def vector_fits_def)
qed

text \<open>A full queue of fixed size keeps the greater items.\<close>

lemma git_pqueue_insert_full:
  assumes inv: "pqueue_inv cmp pq" and "v_length pq < SIZE_MAX"
    and full: "fixed_size pq" "v_length pq = v_alloc_size pq" "0 < v_alloc_size pq"
  shows "\<exists>pq' m. git_pqueue_insert can_alloc pq x = Inr pq' \<and> pqueue_inv cmp pq' \<and>
    m \<in># elems pq \<and> (\<forall>y\<in>#elems pq. cmp m y \<le> 0) \<and> v_alloc_size pq' = v_alloc_size pq \<and>
    elems pq' = (if cmp x m \<le> 0 then elems pq else add_mset x (elems pq - {#m#}))"
proof -
  have c: "v_cmp pq = Some cmp" and ne: "v_contents pq \<noteq> []" using inv full by (auto simp: pqueue_inv_def)
  obtain m pq1 where pop: "git_pqueue_pop pq = (Some m, pq1)" "m = v_contents pq ! 0"
    "\<forall>y\<in>#elems pq. cmp m y \<le> 0" "elems pq = add_mset m (elems pq1)" "pqueue_inv cmp pq1"
    "v_alloc_size pq1 = v_alloc_size pq" "v_flags pq1 = v_flags pq"
    using git_pqueue_pop_spec [OF inv ne] by blast
  have get: "git_vector_get pq 0 = Some m" using ne pop(2) by (simp add: git_vector_get_def)
  have len1: "Suc (v_length pq1) = v_length pq" using pop(4) unfolding elems_def
    by (metis size_add_mset size_mset)
  show ?thesis
  proof (cases "cmp x m \<le> 0")
    case True
    then have "git_pqueue_insert can_alloc pq x = Inr pq"
      using full c get by (simp add: git_pqueue_insert_def fixed_size_def Let_def)
    then show ?thesis using True inv pop by auto
  next
    case False
    define pq2 where "pq2 = git_vector_set_sorted (pq1\<lparr>v_contents := v_contents pq1 @ [x]\<rparr>)
        (length (v_contents pq1 @ [x]) \<le> 1)"
    have v: "git_vector_insert can_alloc pq1 x = Inr pq2"
      using len1 full pop by (simp add: pq2_def git_vector_insert_def grow_for_insert_def Let_def)
    have pq2: "v_contents pq2 = v_contents pq1 @ [x]" "v_cmp pq2 = Some cmp" "v_alloc_size pq2 = v_alloc_size pq"
      using pop(5,6) by (simp_all add: pq2_def pqueue_inv_def)
    have ins: "git_pqueue_insert can_alloc pq x = Inr (pqueue_up cmp pq2 (v_length pq1))"
      using full c get False pop(1) v pq2
      by (simp add: git_pqueue_insert_def fixed_size_def Let_def)
    have h1: "heap_ordered cmp (v_contents pq1)" "v_alloc_size pq \<le> SIZE_MAX"
      using pop(5) inv by (auto simp: pqueue_inv_def vector_fits_def)
    have "pqueue_inv cmp (pqueue_up cmp pq2 (v_length pq1))"
      using pop pqueue_up_spec [OF pq2(1) h1(1)] pq2 len1 full(2) h1(2)
      by (simp add: pqueue_inv_def vector_fits_def)
    moreover have "elems (pqueue_up cmp pq2 (v_length pq1)) = add_mset x (elems pq - {#m#})"
      using pop(4) pqueue_up_spec [OF pq2(1) h1(1)] by (simp add: elems_def)
    moreover have "m \<in># elems pq" using pop(4) by simp
    ultimately show ?thesis using ins False pop(3) pq2(3) by auto
  qed
qed

end

subsection \<open>The contract\<close>

text \<open>
  What the users of the queue rely on: an insertion that succeeds adds the item, and a
  pop removes an item that no other item precedes.
\<close>

locale priority_queue = git_cmp cmp for cmp :: "'a cmp" +
  fixes insert :: "'q \<Rightarrow> 'a \<Rightarrow> 'q result" and pop :: "'q \<Rightarrow> 'a option \<times> 'q"
    and items :: "'q \<Rightarrow> 'a multiset" and invar :: "'q \<Rightarrow> bool"
  assumes insert_law: "invar q \<Longrightarrow> insert q x = Inr q' \<Longrightarrow> invar q' \<and> items q' = add_mset x (items q)"
    and pop_empty_law: "invar q \<Longrightarrow> items q = {#} \<Longrightarrow> pop q = (None, q)"
    and pop_law: "invar q \<Longrightarrow> items q \<noteq> {#} \<Longrightarrow> \<exists>x q'. pop q = (Some x, q') \<and> invar q' \<and>
      items q = add_mset x (items q') \<and> (\<forall>y\<in>#items q. cmp x y \<le> 0)"

text \<open>The loops of the clients: put a list of items in, take the items out until NULL comes.\<close>

primrec insert_all :: "('q \<Rightarrow> 'a \<Rightarrow> 'q result) \<Rightarrow> 'q \<Rightarrow> 'a list \<Rightarrow> 'q result" where
  "insert_all ins q [] = Inr q"
| "insert_all ins q (x # xs) = (case ins q x of Inl e \<Rightarrow> Inl e | Inr q' \<Rightarrow> insert_all ins q' xs)"

primrec drain :: "('q \<Rightarrow> 'a option \<times> 'q) \<Rightarrow> nat \<Rightarrow> 'q \<Rightarrow> 'a list" where
  "drain pop 0 q = []"
| "drain pop (Suc n) q = (case pop q of (None, q') \<Rightarrow> [] | (Some x, q') \<Rightarrow> x # drain pop n q')"

context priority_queue begin

lemma insert_all_items:
  "invar q \<Longrightarrow> insert_all insert q xs = Inr q' \<Longrightarrow> invar q' \<and> items q' = items q + mset xs"
proof (induction xs arbitrary: q)
  case (Cons x xs)
  then obtain q1 where q1: "insert q x = Inr q1" "insert_all insert q1 xs = Inr q'"
    by (auto split: sum.splits)
  then show ?case using insert_law [OF Cons.prems(1) q1(1)] Cons.IH [of q1] by simp
qed simp

lemma drain_sorts:
  "invar q \<Longrightarrow> size (items q) \<le> n \<Longrightarrow> sorted_by cmp (drain pop n q) \<and> mset (drain pop n q) = items q"
proof (induction n arbitrary: q)
  case (Suc n)
  show ?case
  proof (cases "items q = {#}")
    case True
    then show ?thesis using pop_empty_law [OF Suc.prems(1)] by simp
  next
    case False
    obtain x q' where pop: "pop q = (Some x, q')" "invar q'" "items q = add_mset x (items q')"
      "\<forall>y\<in>#items q. cmp x y \<le> 0"
      using pop_law [OF Suc.prems(1) False] by blast
    have IH: "sorted_by cmp (drain pop n q')" "mset (drain pop n q') = items q'"
      using Suc.IH [OF pop(2)] Suc.prems(2) pop(3) by simp_all
    have "\<forall>y\<in>set (drain pop n q'). cmp x y \<le> 0"
      using pop(3,4) IH(2) by (metis insert_iff set_mset_add_mset_insert set_mset_mset)
    then show ?thesis using IH pop by (simp add: sorted_by_Cons)
  qed
qed simp

end

text \<open>
  The queue of \<open>pqueue.c\<close> that may grow, for any comparison function. The allocator fails
  before the count of cells reaches the end of \<open>size_t\<close>, since a cell is a pointer.
\<close>

definition growing_inv :: "(nat \<Rightarrow> bool) \<Rightarrow> 'a cmp \<Rightarrow> 'a git_pqueue \<Rightarrow> bool" where
  "growing_inv can_alloc cmp pq \<longleftrightarrow> pqueue_inv cmp pq \<and> \<not> fixed_size pq \<and> v_alloc_size pq < SIZE_MAX"

lemma set_sorted_keeps_fixed:
  "v_flags (git_vector_set_sorted v b) AND GIT_PQUEUE_FIXED_SIZE = v_flags v AND GIT_PQUEUE_FIXED_SIZE"
  unfolding git_vector_set_sorted_def GIT_PQUEUE_FIXED_SIZE_def GIT_VECTOR_FLAG_MAX_def GIT_VECTOR_SORTED_def
  by (cases b; simp) (rule bit_word_eqI, auto simp: bit_simps intro!: gr0I)+

context git_cmp begin

lemma git_pqueue_insert_growing:
  assumes inv: "growing_inv can_alloc cmp pq" and lim: "\<forall>n\<ge>SIZE_MAX. \<not> can_alloc n"
    and ins: "git_pqueue_insert can_alloc pq x = Inr pq'"
  shows "growing_inv can_alloc cmp pq' \<and> elems pq' = add_mset x (elems pq)"
proof -
  have p: "pqueue_inv cmp pq" "\<not> fixed_size pq" "v_alloc_size pq < SIZE_MAX" "v_cmp pq = Some cmp"
    using inv by (auto simp: growing_inv_def pqueue_inv_def)
  then have len: "v_length pq < SIZE_MAX" by (simp add: pqueue_inv_def vector_fits_def)
  note room = git_pqueue_insert_room [OF p(1) len _ ins]
  obtain v1 where v1: "grow_for_insert can_alloc pq = Inr v1" "v_flags pq' AND GIT_PQUEUE_FIXED_SIZE = v_flags v1 AND GIT_PQUEUE_FIXED_SIZE"
      "v_alloc_size pq' = v_alloc_size v1"
    using ins p(2) unfolding git_pqueue_insert_def git_vector_insert_def fixed_size_def Let_def
    by (auto simp: set_sorted_keeps_fixed split: sum.splits option.splits)
  then have "v_flags v1 = v_flags pq" "v_alloc_size v1 < SIZE_MAX"
    using p(3) lim by (auto simp: grow_for_insert_def resize_vector_def not_le split: if_splits)
  then show ?thesis using room p(2) v1 by (auto simp: growing_inv_def fixed_size_def)
qed

lemma git_pqueue_pop_growing:
  assumes inv: "growing_inv can_alloc cmp pq" and ne: "elems pq \<noteq> {#}"
  shows "\<exists>x pq'. git_pqueue_pop pq = (Some x, pq') \<and> growing_inv can_alloc cmp pq' \<and>
    elems pq = add_mset x (elems pq') \<and> (\<forall>y\<in>#elems pq. cmp x y \<le> 0)"
proof -
  have "pqueue_inv cmp pq" "v_contents pq \<noteq> []"
    using inv ne by (auto simp: growing_inv_def elems_def)
  from git_pqueue_pop_spec [OF this] show ?thesis
    using inv by (auto simp: growing_inv_def fixed_size_def)
qed

end

locale pqueue_client = git_cmp cmp for cmp :: "'a cmp" +
  fixes can_alloc :: "nat \<Rightarrow> bool"
  assumes alloc_limit: "\<forall>n\<ge>SIZE_MAX. \<not> can_alloc n"

sublocale pqueue_client \<subseteq> priority_queue cmp "git_pqueue_insert can_alloc" git_pqueue_pop elems
  "growing_inv can_alloc cmp"
proof unfold_locales
  fix q x q'
  assume "growing_inv can_alloc cmp q" "git_pqueue_insert can_alloc q x = Inr q'"
  then show "growing_inv can_alloc cmp q' \<and> elems q' = add_mset x (elems q)"
    by (rule git_pqueue_insert_growing [OF _ alloc_limit])
next
  fix q :: "'a git_pqueue"
  assume "growing_inv can_alloc cmp q" "elems q = {#}"
  then show "git_pqueue_pop q = (None, q)"
    by (simp add: git_pqueue_pop_empty growing_inv_def elems_def)
qed (rule git_pqueue_pop_growing)

context pqueue_client begin

lemma queue_sorts:
  assumes "growing_inv can_alloc cmp pq" "elems pq = {#}"
    and "insert_all (git_pqueue_insert can_alloc) pq xs = Inr pq'"
  shows "sorted_by cmp (drain git_pqueue_pop (length xs) pq') \<and>
    mset (drain git_pqueue_pop (length xs) pq') = mset xs"
proof -
  have "growing_inv can_alloc cmp pq'" "elems pq' = mset xs"
    using insert_all_items [OF assms(1,3)] assms(2) by simp_all
  then show ?thesis using drain_sorts [of pq' "length xs"] by simp
qed

end

lemma git_pqueue_insert_has_room:
  assumes "\<not> fixed_size pq" "v_length pq < v_alloc_size pq" "v_cmp pq = Some cmp" "git_cmp cmp" "pqueue_inv cmp pq"
    "v_alloc_size pq < SIZE_MAX"
  shows "\<exists>pq'. git_pqueue_insert can_alloc pq x = Inr pq' \<and> v_length pq' = Suc (v_length pq) \<and>
    v_alloc_size pq' = v_alloc_size pq"
proof -
  have ex: "\<exists>pq'. git_pqueue_insert can_alloc pq x = Inr pq'"
    using assms(1-3) by (auto simp: git_pqueue_insert_def fixed_size_def git_vector_insert_def grow_for_insert_def Let_def
        split: option.splits)
  then obtain pq' where pq': "git_pqueue_insert can_alloc pq x = Inr pq'" by blast
  have "elems pq' = add_mset x (elems pq) \<and> v_alloc_size pq' = v_alloc_size pq"
    using git_cmp.git_pqueue_insert_room [OF assms(4,5) _ _ pq'] assms by auto
  then have "v_length pq' = Suc (v_length pq)" unfolding elems_def by (metis size_add_mset size_mset)
  then show ?thesis using pq' \<open>elems pq' = _ \<and> _\<close> by blast
qed

lemma insert_all_has_room:
  assumes "git_cmp cmp" "\<forall>n\<ge>SIZE_MAX. \<not> can_alloc n"
  shows "growing_inv can_alloc cmp pq \<Longrightarrow> v_length pq + length xs \<le> v_alloc_size pq \<Longrightarrow>
    \<exists>pq'. insert_all (git_pqueue_insert can_alloc) pq xs = Inr pq'"
proof (induction xs arbitrary: pq)
  case (Cons x xs)
  have p: "pqueue_inv cmp pq" "\<not> fixed_size pq" "v_alloc_size pq < SIZE_MAX" "v_cmp pq = Some cmp"
    using Cons.prems by (auto simp: growing_inv_def pqueue_inv_def)
  obtain pq1 where i: "git_pqueue_insert can_alloc pq x = Inr pq1" "v_length pq1 = Suc (v_length pq)"
    "v_alloc_size pq1 = v_alloc_size pq"
    using git_pqueue_insert_has_room [OF p(2) _ p(4) assms(1) p(1,3), of can_alloc x] Cons.prems(2) by auto
  have "growing_inv can_alloc cmp pq1"
    using git_cmp.git_pqueue_insert_growing [OF assms(1) Cons.prems(1) assms(2) i(1)] by simp
  then show ?case using Cons.IH [of pq1] Cons.prems(2) i by simp
qed simp

lemma git_pqueue_init_growing:
  assumes "git_pqueue_init can_alloc 0 n (Some cmp) = Inr pq" and lim: "\<forall>n\<ge>SIZE_MAX. \<not> can_alloc n"
  shows "growing_inv can_alloc cmp pq \<and> elems pq = {#}"
proof -
  have "can_alloc (max n MIN_ALLOCSIZE)" and
    pq: "pq = \<lparr>v_alloc_size = max n MIN_ALLOCSIZE, v_cmp = Some cmp, v_contents = [], v_flags = GIT_VECTOR_SORTED\<rparr>"
    using assms(1) by (auto simp: git_pqueue_init_def git_vector_init_def resize_vector_def MIN_ALLOCSIZE_def split: if_splits)
  then have "max n MIN_ALLOCSIZE < SIZE_MAX" using lim not_le by blast
  then show ?thesis unfolding pq
    by (simp add: growing_inv_def pqueue_inv_def vector_fits_def elems_def heap_ordered_def fixed_size_def
        GIT_PQUEUE_FIXED_SIZE_def GIT_VECTOR_FLAG_MAX_def GIT_VECTOR_SORTED_def)
qed

subsection \<open>Properties\<close>

text \<open>
  C10. A queue filled by \<open>git_pqueue_insert\<close> gives its items back in the order of the comparison
  function when \<open>git_pqueue_pop\<close> is repeated until it returns NULL.
\<close>

theorem git_pqueue_drains_sorted:
  assumes "git_cmp cmp" and "\<forall>n\<ge>SIZE_MAX. \<not> can_alloc n"
    and "git_pqueue_init can_alloc 0 n (Some cmp) = Inr pq"
    and "insert_all (git_pqueue_insert can_alloc) pq xs = Inr pq'"
  shows "sorted_by cmp (drain git_pqueue_pop (length xs) pq') \<and>
    mset (drain git_pqueue_pop (length xs) pq') = mset xs"
proof -
  have "pqueue_client cmp can_alloc"
    by (intro pqueue_client.intro pqueue_client_axioms.intro assms)
  then show ?thesis
    using pqueue_client.queue_sorts git_pqueue_init_growing [OF assms(3,2)] assms(4) by blast
qed

theorem git_pqueue_drains_sorted_witness:
  "\<exists>pq pq'. git_pqueue_init (\<lambda>n. n < 100) 0 4 (Some (\<lambda>a b. a - b :: int)) = Inr pq \<and>
    insert_all (git_pqueue_insert (\<lambda>n. n < 100)) pq [5, 2, 9, 2] = Inr pq' \<and>
    sorted_by (\<lambda>a b. a - b) (drain git_pqueue_pop 4 pq') \<and> mset (drain git_pqueue_pop 4 pq') = mset [5, 2, 9, 2]"
proof -
  have c: "git_cmp (\<lambda>(a :: int) b. a - b)" by unfold_locales auto
  have l: "\<forall>n\<ge>SIZE_MAX. \<not> n < (100 :: nat)" by (simp add: SIZE_MAX_def)
  obtain pq where i: "git_pqueue_init (\<lambda>n. n < 100) 0 4 (Some (\<lambda>a b. a - b :: int)) = Inr pq"
    and pq: "pq = \<lparr>v_alloc_size = 8, v_cmp = Some (\<lambda>a b. a - b), v_contents = [], v_flags = 1\<rparr>"
    by (simp add: git_pqueue_init_def git_vector_init_def resize_vector_def MIN_ALLOCSIZE_def GIT_VECTOR_SORTED_def)
  have "growing_inv (\<lambda>n. n < 100) (\<lambda>a b. a - b) pq" using git_pqueue_init_growing [OF i l] by simp
  then obtain pq' where q': "insert_all (git_pqueue_insert (\<lambda>n. n < 100)) pq [5, 2, 9, 2] = Inr pq'"
    using insert_all_has_room [OF c l, of pq "[5, 2, 9, 2]"] pq by auto
  have "sorted_by (\<lambda>a b. a - b) (drain git_pqueue_pop 4 pq') \<and> mset (drain git_pqueue_pop 4 pq') = mset [5, 2, 9, 2]"
    using git_pqueue_drains_sorted [OF c l i q'] by (simp only: list.size numeral_nat add_0 add_Suc plus_nat.simps One_nat_def)
  then show ?thesis using i q' by blast
qed

text \<open>
  C11. A full queue of fixed size keeps the greatest items: an insertion into it drops an item that
  precedes all others, which is the new item itself when it does not come after the first one.
\<close>

theorem git_pqueue_fixed_size_keeps_greatest:
  assumes "git_cmp cmp" and "pqueue_inv cmp pq" and "v_length pq < SIZE_MAX"
    and "fixed_size pq" "v_length pq = v_alloc_size pq" "0 < v_alloc_size pq"
  shows "\<exists>pq' m. git_pqueue_insert can_alloc pq x = Inr pq' \<and> pqueue_inv cmp pq' \<and>
    m \<in># elems pq \<and> (\<forall>y\<in>#elems pq. cmp m y \<le> 0) \<and> v_length pq' = v_alloc_size pq' \<and>
    elems pq' = (if cmp x m \<le> 0 then elems pq else add_mset x (elems pq - {#m#}))"
proof -
  obtain pq' m where r: "git_pqueue_insert can_alloc pq x = Inr pq'" "pqueue_inv cmp pq'" "m \<in># elems pq"
    "\<forall>y\<in>#elems pq. cmp m y \<le> 0" "v_alloc_size pq' = v_alloc_size pq"
    "elems pq' = (if cmp x m \<le> 0 then elems pq else add_mset x (elems pq - {#m#}))"
    using git_cmp.git_pqueue_insert_full [OF assms, of can_alloc x] by blast
  have "size (elems pq') = size (elems pq)"
    using r(3) unfolding r(6) by (simp add: size_Suc_Diff1)
  then have "v_length pq' = v_alloc_size pq'" using r(5) assms(5) by (simp add: elems_def)
  then show ?thesis using r by blast
qed

theorem git_pqueue_fixed_size_keeps_greatest_witness:
  "\<exists>pq' m. git_pqueue_insert (\<lambda>_. True)
      \<lparr>v_alloc_size = 2, v_cmp = Some (\<lambda>a b. a - b), v_contents = [3, 7 :: int], v_flags = 4\<rparr> 5 = Inr pq' \<and>
    elems pq' = (if 5 - m \<le> 0 then {#3, 7#} else add_mset 5 ({#3, 7#} - {#m#}))"
proof -
  let ?q = "\<lparr>v_alloc_size = 2, v_cmp = Some (\<lambda>a b. a - b), v_contents = [3, 7 :: int], v_flags = 4\<rparr>"
  have c: "git_cmp (\<lambda>(a :: int) b. a - b)" by unfold_locales auto
  have "heap_ordered (\<lambda>a b. a - b) [3, 7 :: int]"
    by (auto simp: heap_ordered_def less_Suc_eq PQUEUE_PARENT_OF_def)
  then have i: "pqueue_inv (\<lambda>a b. a - b) ?q"
    by (simp add: pqueue_inv_def vector_fits_def SIZE_MAX_def)
  have f: "fixed_size ?q" by (simp add: fixed_size_def GIT_PQUEUE_FIXED_SIZE_def GIT_VECTOR_FLAG_MAX_def)
  obtain pq' m where r: "git_pqueue_insert (\<lambda>_. True) ?q 5 = Inr pq'"
    "elems pq' = (if 5 - m \<le> 0 then elems ?q else add_mset 5 (elems ?q - {#m#}))"
    using git_pqueue_fixed_size_keeps_greatest [OF c i _ f, of "\<lambda>_. True" 5] by (auto simp: SIZE_MAX_def)
  then show ?thesis by (intro exI [of _ pq'] exI [of _ m]) (simp add: elems_def)
qed

end
