(* ===== verification/Varint.thy ===== *)
theory Varint
  imports Prelude
begin

text \<open>
  \<open>varint.c\<close>: the variable-width integers of index format 4. The coding is a bijection between
  the 64-bit integers and the byte strings that \<open>git_decode_varint\<close> accepts: a continuation
  adds one, so that no value has two codings.

  A decoder that reads past the end of its buffer is \<open>None\<close>.
\<close>

unbundle bit_operations_syntax

definition MSB7 :: "u64 \<Rightarrow> bool" where "MSB7 x \<longleftrightarrow> x AND push_bit 57 (NOT 0) \<noteq> 0"

fun decode_varint_loop :: "u8 list \<Rightarrow> u8 \<Rightarrow> u64 \<Rightarrow> nat \<Rightarrow> (u64 \<times> nat) option" where
  "decode_varint_loop buf c val n =
     (if c AND 128 \<noteq> 0 then
        (let val1 = val + 1 in
         if val1 = 0 \<or> MSB7 val1 then Some (0, 0)
         else (case buf of
                 [] \<Rightarrow> None
               | c1 # buf1 \<Rightarrow> decode_varint_loop buf1 c1 (push_bit 7 val1 + ucast (c1 AND 127)) (n + 1)))
      else Some (val, n))"

declare decode_varint_loop.simps [simp del]

text \<open>The value and the number of bytes, which is 0 on overflow.\<close>

definition git_decode_varint :: "u8 list \<Rightarrow> (u64 \<times> nat) option" where
  "git_decode_varint bufp =
     (case bufp of [] \<Rightarrow> None | c # buf \<Rightarrow> decode_varint_loop buf c (ucast (c AND 127)) 1)"

lemma unat_drop_bit7: "unat (drop_bit 7 (x :: u64)) = unat x div 128"
  by (simp add: drop_bit_eq_div unat_div)

lemma shift_pred_less: "drop_bit 7 (x :: u64) \<noteq> 0 \<Longrightarrow> unat (drop_bit 7 x - 1) < unat x div 128"
  by (metis One_nat_def diff_less unat_drop_bit7 unat_gt_0 unat_minus_one zero_less_Suc)

text \<open>\<open>varint[pos ..]\<close> is the list of bytes; \<open>pos\<close> is 16 less its length.\<close>

function encode_varint_loop :: "u64 \<Rightarrow> u8 list \<Rightarrow> u8 list" where
  "encode_varint_loop value varint =
     (let value1 = drop_bit 7 value in
      if value1 \<noteq> 0 then encode_varint_loop (value1 - 1) ((128 OR (ucast (value1 - 1) AND 127)) # varint)
      else varint)"
  by pat_completeness auto

termination
  by (relation "measure (\<lambda>(value, varint). unat value)")
    (auto intro: order_less_le_trans [OF shift_pred_less])

declare encode_varint_loop.simps [simp del]

text \<open>The buffer is NULL (\<open>None\<close>) when only the length is wanted; else its size is given.\<close>

definition git_encode_varint :: "nat option \<Rightarrow> u64 \<Rightarrow> (nat \<times> u8 list) result" where
  "git_encode_varint buf value =
     (let varint = encode_varint_loop value [ucast (value AND 127)] in
      case buf of
        Some bufsize \<Rightarrow> (if bufsize < length varint then Inl GIT_ERROR else Inr (length varint, varint))
      | None \<Rightarrow> Inr (length varint, varint))"

subsection \<open>The coding as a list function\<close>

text \<open>The bytes of a value that is followed by more bytes, most significant byte first.\<close>

lemma encode_loop_append: "encode_varint_loop v (xs @ ys) = encode_varint_loop v xs @ ys"
proof (induction v xs rule: encode_varint_loop.induct)
  case (1 v xs)
  show ?case
    unfolding encode_varint_loop.simps [of v "xs @ ys"] encode_varint_loop.simps [of v xs]
    using 1 by (auto simp: Let_def)
qed

definition high_part :: "u64 \<Rightarrow> u8 list" where "high_part v = encode_varint_loop v []"

lemma encode_eq_high_part: "encode_varint_loop v bs = high_part v @ bs"
  unfolding high_part_def using encode_loop_append [of v "[]" bs] by simp

lemma high_part_rec:
  "high_part v = (if drop_bit 7 v \<noteq> 0
     then high_part (drop_bit 7 v - 1) @ [128 OR (ucast (drop_bit 7 v - 1) AND 127)] else [])"
proof -
  have "high_part v = encode_varint_loop v []" by (rule high_part_def)
  also have "\<dots> = (if drop_bit 7 v \<noteq> 0
     then encode_varint_loop (drop_bit 7 v - 1) [128 OR (ucast (drop_bit 7 v - 1) AND 127)] else [])"
    unfolding encode_varint_loop.simps [of v] Let_def ..
  finally show ?thesis unfolding encode_eq_high_part [of "drop_bit 7 v - 1"] .
qed

lemma MSB7_iff: "MSB7 x \<longleftrightarrow> 2 ^ 57 \<le> unat x"
proof -
  have "MSB7 x \<longleftrightarrow> drop_bit 57 x \<noteq> 0"
  proof -
    have "x AND push_bit 57 (NOT 0) = push_bit 57 (drop_bit 57 x)"
      by (rule bit_word_eqI) (auto simp: bit_simps)
    moreover have "drop_bit 57 (push_bit 57 (drop_bit 57 x)) = drop_bit 57 x"
      by (rule bit_word_eqI) (auto simp: bit_simps dest: bit_imp_le_length)
    ultimately show ?thesis unfolding MSB7_def by (metis drop_bit_of_0 push_bit_of_0)
  qed
  also have "\<dots> \<longleftrightarrow> unat x div 2 ^ 57 \<noteq> 0"
    by (metis drop_bit_eq_div unat_drop_bit_eq unat_eq_zero)
  also have "\<dots> \<longleftrightarrow> 2 ^ 57 \<le> unat x" by (simp add: div_eq_0_iff not_less)
  finally show ?thesis .
qed

lemma low7_add: "push_bit 7 (drop_bit 7 v) + (v AND 127) = (v :: u64)"
proof -
  have "push_bit 7 (drop_bit 7 v) + (v AND 127) = push_bit 7 (drop_bit 7 v) OR (v AND 127)"
    by (rule disjunctive_add) (auto simp: bit_simps mask_127)
  also have "\<dots> = v"
    unfolding mask_127 by (rule bit_word_eqI) (auto simp: bit_simps)
  finally show ?thesis .
qed

text \<open>The coding of a value: \<open>high_part\<close> and the last byte.\<close>

definition varint_bytes :: "u64 \<Rightarrow> u8 list" where
  "varint_bytes v = high_part v @ [ucast (v AND 127)]"

lemma git_encode_varint_bytes:
  "git_encode_varint None v = Inr (length (varint_bytes v), varint_bytes v)"
  "git_encode_varint (Some n) v =
     (if n < length (varint_bytes v) then Inl GIT_ERROR else Inr (length (varint_bytes v), varint_bytes v))"
  by (simp_all add: git_encode_varint_def encode_eq_high_part varint_bytes_def Let_def)

lemma length_high_part: "unat v < 128 ^ Suc k \<Longrightarrow> length (high_part v) \<le> k"
proof (induction k arbitrary: v)
  case 0
  then have "drop_bit 7 v = 0" by (metis One_nat_def div_less power_one_right unat_drop_bit7 unat_eq_zero)
  then show ?case by (subst high_part_rec) simp
next
  case (Suc k)
  show ?case
  proof (cases "drop_bit 7 v = 0")
    case False
    then have "unat (drop_bit 7 v - 1) < unat v div 128" by (rule shift_pred_less)
    also have "\<dots> < 128 ^ Suc k" using Suc.prems by (simp add: div_less_iff_less_mult mult.commute)
    finally have "length (high_part (drop_bit 7 v - 1)) \<le> k"
      using Suc.IH by (metis Suc.prems Suc_le_eq div_le_mono dual_order.strict_trans1 less_or_eq_imp_le)
    then show ?thesis using False by (subst high_part_rec) simp
  qed (subst high_part_rec, simp)
qed

lemma length_varint_bytes: "length (varint_bytes v) \<le> 10"
proof -
  have "unat v < 2 ^ 64" using unsigned_less [of v] by simp
  also have "(2 :: nat) ^ 64 \<le> 128 ^ Suc 9" by simp
  finally show ?thesis using length_high_part [of v 9] by (simp add: varint_bytes_def)
qed

subsection \<open>Decoding\<close>

lemma low7_bytes:
  "(128 OR (ucast (v :: u64) AND 127)) AND 128 \<noteq> (0 :: u8)"
  "ucast ((128 OR (ucast v AND 127)) AND 127 :: u8) = v AND 127"
  "(ucast (v AND 127) :: u8) AND 128 = 0"
  "ucast ((ucast (v AND 127) :: u8) AND 127) = v AND 127"
proof -
  show "(128 OR (ucast (v :: u64) AND 127)) AND 128 \<noteq> (0 :: u8)"
  proof
    assume "(128 OR (ucast v AND 127)) AND 128 = (0 :: u8)"
    then have "bit ((128 OR (ucast v AND 127)) AND 128 :: u8) 7 = False" by simp
    then show False by (simp add: bit_simps bit_128)
  qed
  show "ucast ((128 OR (ucast v AND 127)) AND 127 :: u8) = v AND 127"
    unfolding mask_127 by (rule bit_word_eqI) (auto simp: bit_simps bit_128)
  show "(ucast (v AND 127) :: u8) AND 128 = 0"
    unfolding mask_127 by (rule bit_word_eqI) (auto simp: bit_simps bit_128)
  show "ucast ((ucast (v AND 127) :: u8) AND 127) = v AND 127"
    unfolding mask_127 by (rule bit_word_eqI) (auto simp: bit_simps)
qed

lemma shift_ok: "drop_bit 7 v \<noteq> 0 \<Longrightarrow> drop_bit 7 v - 1 + 1 = drop_bit 7 v \<and> \<not> MSB7 (drop_bit 7 v)"
proof -
  have "unat (drop_bit 7 v) < 2 ^ 57"
    using unsigned_less [of v] by (simp add: unat_drop_bit7 div_less_iff_less_mult)
  then show ?thesis by (simp add: MSB7_iff not_le)
qed

lemma decode_high_part:
  "high_part v = b # bs \<Longrightarrow>
   decode_varint_loop (bs @ c # rest) b (ucast (b AND 127)) 1 =
   decode_varint_loop rest c (push_bit 7 (drop_bit 7 v) + ucast (c AND 127)) (length (b # bs) + 1)"
proof (induction "unat v" arbitrary: v b bs c rest rule: less_induct)
  case less
  let ?w = "drop_bit 7 v" and ?m = "128 OR (ucast (drop_bit 7 v - 1) AND 127) :: u8"
  have w: "?w \<noteq> 0" using less.prems by (subst (asm) high_part_rec) (simp split: if_splits)
  have hp: "b # bs = high_part (?w - 1) @ [?m]" using less.prems w by (subst (asm) high_part_rec) simp
  have step: "decode_varint_loop (c # rest) ?m (?w - 1) n =
      decode_varint_loop rest c (push_bit 7 ?w + ucast (c AND 127)) (n + 1)" for n
    unfolding decode_varint_loop.simps [of "c # rest"] using shift_ok [OF w] w low7_bytes(1)
    by (simp add: Let_def)
  show ?case
  proof (cases "high_part (?w - 1)")
    case Nil
    then have b: "b = ?m" "bs = []" using hp by simp_all
    have "drop_bit 7 (?w - 1) = 0" using Nil by (subst (asm) high_part_rec) (simp split: if_splits)
    then have "ucast (b AND 127) = ?w - 1"
      using low7_add [of "?w - 1"] low7_bytes(2) [of "?w - 1"] b by simp
    then show ?thesis using step [of 1] b by simp
  next
    case (Cons b' bs')
    then have b: "b = b'" "bs = bs' @ [?m]" using hp by simp_all
    have "unat (?w - 1) < unat v" using shift_pred_less [OF w] by (meson div_le_dividend order_less_le_trans)
    from less.hyps [OF this Cons, of ?m "c # rest"]
    have "decode_varint_loop (bs @ c # rest) b (ucast (b AND 127)) 1 =
        decode_varint_loop (c # rest) ?m (?w - 1) (length (b' # bs') + 1)"
      using low7_add [of "?w - 1"] low7_bytes(2) [of "?w - 1"] b by simp
    then show ?thesis using step b by simp
  qed
qed

lemma decode_varint_bytes: "git_decode_varint (varint_bytes v @ rest) = Some (v, length (varint_bytes v))"
proof -
  let ?l = "ucast (v AND 127) :: u8"
  have fin: "decode_varint_loop rest ?l x n = Some (x, n)" for x n
    by (subst decode_varint_loop.simps) (simp add: low7_bytes)
  show ?thesis
  proof (cases "high_part v")
    case Nil
    then have "drop_bit 7 v = 0" by (subst (asm) high_part_rec) (simp split: if_splits)
    then have "ucast (?l AND 127) = v" using low7_add [of v] low7_bytes(4) [of v] by simp
    then show ?thesis using Nil fin by (simp add: varint_bytes_def git_decode_varint_def)
  next
    case (Cons b bs)
    then show ?thesis
      using decode_high_part [OF Cons, of ?l rest] fin low7_add [of v] low7_bytes(4) [of v]
      by (simp add: varint_bytes_def git_decode_varint_def)
  qed
qed

lemma numeral_128: "(2 :: u8) ^ 7 = 128" by simp

lemma byte_split:
  assumes "(c :: u8) AND 128 \<noteq> 0" "ucast (c AND 127) = (v :: u64) AND 127"
  shows "c = 128 OR (ucast v AND 127)"
proof (rule bit_word_eqI)
  fix n assume n: "n < LENGTH(8)"
  have "c AND 128 = (if bit c 7 then 128 else 0)"
    by (rule bit_word_eqI) (auto simp: bit_simps bit_128)
  then have "bit c 7" using assms(1) by presburger
  have "bit (ucast (c AND 127) :: u64) n = bit (v AND 127) n" using assms(2) by simp
  then have "n < 7 \<Longrightarrow> bit c n = bit v n" unfolding mask_127 by (auto simp: bit_simps)
  then show "bit c n = bit (128 OR (ucast v AND 127) :: u8) n"
    using n \<open>bit c 7\<close> unfolding mask_127 by (cases "n = 7") (auto simp: bit_simps bit_128)
qed

lemma shift_in_byte:
  assumes "\<not> MSB7 x"
  shows "drop_bit 7 (push_bit 7 x + ucast (c AND 127 :: u8)) = (x :: u64)"
    and "(push_bit 7 x + ucast (c AND 127 :: u8)) AND 127 = (ucast (c AND 127) :: u64)"
proof -
  have or: "push_bit 7 x + ucast (c AND 127 :: u8) = push_bit 7 x OR ucast (c AND 127 :: u8)"
    unfolding mask_127 by (rule disjunctive_add) (auto simp: bit_simps)
  have "drop_bit 57 x = 0"
    using assms by (metis MSB7_iff div_less drop_bit_eq_div not_le unat_drop_bit_eq unat_eq_zero)
  have hi: "n < 57" if "bit x n" for n
  proof (rule ccontr)
    assume "\<not> n < 57"
    then have "bit (drop_bit 57 x) (n - 57) = bit x n" by (simp add: bit_simps)
    then show False using \<open>drop_bit 57 x = 0\<close> that by simp
  qed
  show "drop_bit 7 (push_bit 7 x + ucast (c AND 127 :: u8)) = x"
    unfolding or unfolding mask_127 by (rule bit_word_eqI) (auto simp: bit_simps not_less dest: hi)
  show "(push_bit 7 x + ucast (c AND 127 :: u8)) AND 127 = (ucast (c AND 127) :: u64)"
    unfolding or unfolding mask_127 by (rule bit_word_eqI) (auto simp: bit_simps)
qed

lemma decode_loop_canonical:
  "decode_varint_loop buf c val n = Some (v, k) \<Longrightarrow> 0 < k \<Longrightarrow> ucast (c AND 127) = val AND 127 \<Longrightarrow>
   \<exists>bs rest. varint_bytes v = high_part val @ c # bs \<and> buf = bs @ rest \<and> k = n + length bs"
proof (induction buf c val n rule: decode_varint_loop.induct)
  case (1 buf c val n)
  show ?case
  proof (cases "c AND 128 \<noteq> 0")
    case False
    then have "\<not> bit c 7" by (metis and_exp_eq_0_iff_not_bit numeral_128)
    then have "c = c AND 127"
      unfolding mask_127 by (intro bit_word_eqI) (auto simp: bit_simps less_Suc_eq numeral_eq_Suc)
    also have "\<dots> = ucast (ucast (c AND 127) :: u64)" by (rule bit_word_eqI) (auto simp: bit_simps)
    finally have "c = ucast (val AND 127)" using "1.prems"(3) by simp
    then show ?thesis using False "1.prems"(1)
      by (simp add: decode_varint_loop.simps [of buf] varint_bytes_def)
  next
    case True
    define val1 where "val1 = val + 1"
    have ok: "val1 \<noteq> 0" "\<not> MSB7 val1"
      using "1.prems"(1,2) True unfolding decode_varint_loop.simps [of buf] val1_def
      by (auto simp: Let_def split: if_splits)
    obtain c1 buf1 where buf: "buf = c1 # buf1"
      using "1.prems"(1) True ok unfolding decode_varint_loop.simps [of buf] val1_def
      by (auto simp: Let_def split: list.splits)
    let ?v = "push_bit 7 val1 + ucast (c1 AND 127)"
    have run: "decode_varint_loop buf1 c1 ?v (n + 1) = Some (v, k)"
      using "1.prems"(1) True ok unfolding decode_varint_loop.simps [of buf] val1_def
      by (simp add: Let_def buf)
    have "high_part ?v = high_part val @ [c]"
      using ok shift_in_byte [OF ok(2), of c1] byte_split [OF True "1.prems"(3)]
      by (subst high_part_rec) (simp add: val1_def)
    moreover have "\<exists>bs rest. varint_bytes v = high_part ?v @ c1 # bs \<and> buf1 = bs @ rest \<and> k = n + 1 + length bs"
      using "1.IH" [OF True val1_def _ buf run "1.prems"(2)] ok shift_in_byte(2) [OF ok(2), of c1] by simp
    ultimately show ?thesis using buf by fastforce
  qed
qed

subsection \<open>Properties\<close>

text \<open>
  C13. \<open>git_decode_varint\<close> accepts exactly the codings that \<open>git_encode_varint\<close> writes, whatever
  follows them: each decodes to the value that was encoded and to the length of the coding, and a
  value has one coding only.
\<close>

theorem varint_roundtrip:
  "git_decode_varint buf = Some (v, n) \<and> 0 < n \<longleftrightarrow>
   (\<exists>bytes rest. git_encode_varint None v = Inr (n, bytes) \<and> buf = bytes @ rest \<and> n = length bytes)"
proof
  assume "\<exists>bytes rest. git_encode_varint None v = Inr (n, bytes) \<and> buf = bytes @ rest \<and> n = length bytes"
  then obtain rest where "buf = varint_bytes v @ rest" "n = length (varint_bytes v)"
    unfolding git_encode_varint_bytes by blast
  moreover have "0 < length (varint_bytes v)" by (simp add: varint_bytes_def)
  ultimately show "git_decode_varint buf = Some (v, n) \<and> 0 < n"
    using decode_varint_bytes by simp
next
  assume d: "git_decode_varint buf = Some (v, n) \<and> 0 < n"
  then obtain c bs where buf: "buf = c # bs" by (cases buf) (auto simp: git_decode_varint_def)
  have "drop_bit 7 (ucast (c AND 127) :: u64) = 0"
    unfolding mask_127 by (rule bit_word_eqI) (auto simp: bit_simps)
  then have "high_part (ucast (c AND 127)) = []" by (subst high_part_rec) simp
  moreover have "ucast (c AND 127) = (ucast (c AND 127) :: u64) AND 127"
    unfolding mask_127 by (rule bit_word_eqI) (auto simp: bit_simps)
  ultimately have "\<exists>us rest. varint_bytes v = c # us \<and> bs = us @ rest \<and> n = 1 + length us"
    using decode_loop_canonical [of bs c "ucast (c AND 127)" 1 v n] d buf by (simp add: git_decode_varint_def)
  then obtain us rest where "varint_bytes v = c # us" "bs = us @ rest" "n = 1 + length us" by blast
  then show "\<exists>bytes rest. git_encode_varint None v = Inr (n, bytes) \<and> buf = bytes @ rest \<and> n = length bytes"
    by (intro exI [of _ "varint_bytes v"] exI [of _ rest]) (simp add: git_encode_varint_bytes buf)
qed

text \<open>
  C14. \<open>git_encode_varint\<close> needs at most ten of its sixteen bytes, fails exactly when the caller's
  buffer is too small, and says how many bytes it wrote.
\<close>

theorem git_encode_varint_length:
  "\<exists>bytes. git_encode_varint None v = Inr (length bytes, bytes) \<and> 1 \<le> length bytes \<and> length bytes \<le> 10 \<and>
    git_encode_varint (Some n) v = (if n < length bytes then Inl GIT_ERROR else Inr (length bytes, bytes))"
proof -
  have "1 \<le> length (varint_bytes v)" by (simp add: varint_bytes_def)
  then show ?thesis
    using length_varint_bytes [of v] by (intro exI [of _ "varint_bytes v"]) (simp add: git_encode_varint_bytes)
qed

end
