(* ===== verification/Delta.thy ===== *)
theory Delta
  imports Prelude
begin

text \<open>
  \<open>delta.c\<close>: the binary deltas of pack files. The first part is the reader
  (\<open>git_delta_apply\<close>), the second the writer: an index of the blocks of the source
  by their Rabin fingerprint (\<open>git_delta_index_init\<close>), and the search for copies
  (\<open>git_delta_create_from_index\<close>).

  A buffer is a list; the input pointer of the reader is the suffix that is left, a position
  in the source or target is a \<open>nat\<close>. The linked list of a hash bucket is a list of its entries.
  The value \<open>None\<close> is a read or write outside a buffer or a shift by the width of the type.
\<close>

subsection \<open>Reading\<close>

fun hdr_loop :: "u8 list \<Rightarrow> size_t \<Rightarrow> nat \<Rightarrow> (size_t \<times> u8 list) result option" where
  "hdr_loop [] r shift = Some (Inl GIT_ERROR)"
| "hdr_loop (d # ds) r shift =
     (let c = ucast d :: u32 in
      if shift \<ge> 32 then None
      else (let r1 = r OR ucast (push_bit shift (c AND 0x7f)) in
            if c AND 0x80 \<noteq> 0 then hdr_loop ds r1 (shift + 7) else Some (Inr (r1, ds))))"

definition hdr_sz :: "u8 list \<Rightarrow> (size_t \<times> u8 list) result option" where
  "hdr_sz delta = hdr_loop delta 0 0"

definition git_delta_read_header :: "u8 list \<Rightarrow> (size_t \<times> size_t) result option" where
  "git_delta_read_header delta =
     (case hdr_sz delta of
        None \<Rightarrow> None
      | Some (Inl e) \<Rightarrow> Some (Inl GIT_ERROR)
      | Some (Inr (base_out, delta1)) \<Rightarrow>
          (case hdr_sz delta1 of
             None \<Rightarrow> None
           | Some (Inl e) \<Rightarrow> Some (Inl GIT_ERROR)
           | Some (Inr (result_out, _)) \<Rightarrow> Some (Inr (base_out, result_out))))"

text \<open>
  \<open>read s n\<close> is \<open>git_packfile_stream_read\<close>: its return value, the bytes it put in the buffer
  and the stream afterwards. \<open>GIT_EBUFS\<close> is -6. The loop gets fuel, since a stream may return
  \<open>GIT_EBUFS\<close> for ever. A pointer past the end of the buffer is \<open>None\<close>.
\<close>

definition DELTA_HEADER_BUFFER_LEN :: size_t where "DELTA_HEADER_BUFFER_LEN = 16"

primrec fromstream_loop :: "('s \<Rightarrow> nat \<Rightarrow> int \<times> u8 list \<times> 's) \<Rightarrow> nat \<Rightarrow> 's \<Rightarrow> size_t \<Rightarrow> u8 list \<Rightarrow>
    (size_t \<times> u8 list) option" where
  "fromstream_loop read 0 s len buffer = None"
| "fromstream_loop read (Suc fuel) s len buffer =
     (if len < DELTA_HEADER_BUFFER_LEN then
        (case read s (unat (DELTA_HEADER_BUFFER_LEN - len)) of
           (r, bytes, s1) \<Rightarrow>
             (if r = 0 then Some (len, buffer)
              else if r = -6 then fromstream_loop read fuel s1 len buffer
              else fromstream_loop read fuel s1 (len + of_int r) (buffer @ bytes)))
      else Some (len, buffer))"

definition git_delta_read_header_fromstream ::
    "('s \<Rightarrow> nat \<Rightarrow> int \<times> u8 list \<times> 's) \<Rightarrow> nat \<Rightarrow> 's \<Rightarrow> (size_t \<times> size_t) result option" where
  "git_delta_read_header_fromstream read fuel s =
     (case fromstream_loop read fuel s 0 [] of
        None \<Rightarrow> None
      | Some (len, buffer) \<Rightarrow>
          (if len > DELTA_HEADER_BUFFER_LEN then None else git_delta_read_header (take (unat len) buffer)))"

text \<open>\<open>ADD_DELTA\<close> when the bit of the command is set; \<open>None\<close> is \<open>goto fail\<close>.\<close>

definition add_delta :: "bool \<Rightarrow> nat \<Rightarrow> size_t \<times> u8 list \<Rightarrow> (size_t \<times> u8 list) option" where
  "add_delta present shift acc =
     (if present then
        (case acc of
           (x, d # ds) \<Rightarrow> Some (x OR ucast (push_bit shift (ucast d :: u32)), ds)
         | (x, []) \<Rightarrow> None)
      else Some acc)"

text \<open>Offset, length and the rest of the delta.\<close>

definition copy_args :: "u8 \<Rightarrow> u8 list \<Rightarrow> (size_t \<times> size_t \<times> u8 list) option" where
  "copy_args cmd delta =
     do {
       a0 \<leftarrow> add_delta (cmd AND 0x01 \<noteq> 0) 0 (0, delta);
       a1 \<leftarrow> add_delta (cmd AND 0x02 \<noteq> 0) 8 a0;
       a2 \<leftarrow> add_delta (cmd AND 0x04 \<noteq> 0) 16 a1;
       (off, delta1) \<leftarrow> add_delta (cmd AND 0x08 \<noteq> 0) 24 a2;
       b0 \<leftarrow> add_delta (cmd AND 0x10 \<noteq> 0) 0 (0, delta1);
       b1 \<leftarrow> add_delta (cmd AND 0x20 \<noteq> 0) 8 b0;
       (len, delta2) \<leftarrow> add_delta (cmd AND 0x40 \<noteq> 0) 16 b1;
       Some (off, if len = 0 then 0x10000 else len, delta2)
     }"

lemma add_delta_length: "add_delta p s acc = Some (x, ds) \<Longrightarrow> length ds \<le> length (snd acc)"
  by (auto simp: add_delta_def split: if_splits prod.splits list.splits)

lemma copy_args_length: "copy_args cmd delta = Some (off, len, ds) \<Longrightarrow> length ds \<le> length delta"
  unfolding copy_args_def
  by (auto simp: bind_eq_Some_conv dest!: add_delta_length split: if_splits)

text \<open>The loop of \<open>git_delta_apply\<close>, with the bytes written so far and the count still to write.\<close>

function apply_loop :: "u8 list \<Rightarrow> u8 list \<Rightarrow> u8 list \<Rightarrow> nat \<Rightarrow> u8 list result" where
  "apply_loop base [] res_dp res_sz = (if res_sz \<noteq> 0 then Inl GIT_ERROR else Inr res_dp)"
| "apply_loop base (cmd # delta) res_dp res_sz =
     (if cmd AND 0x80 \<noteq> 0 then
        (case copy_args cmd delta of
           None \<Rightarrow> Inl GIT_ERROR
         | Some (off, len, delta1) \<Rightarrow>
             (let end = unat off + unat len in
              if end > SIZE_MAX \<or> length base < end \<or> res_sz < unat len then Inl GIT_ERROR
              else apply_loop base delta1 (res_dp @ seg base (unat off) (unat len)) (res_sz - unat len)))
      else if cmd \<noteq> 0 then
        (if length delta < unat cmd \<or> res_sz < unat cmd then Inl GIT_ERROR
         else apply_loop base (drop (unat cmd) delta) (res_dp @ take (unat cmd) delta) (res_sz - unat cmd))
      else Inl GIT_ERROR)"
  by pat_completeness auto
termination
  by (relation "measure (\<lambda>(base, delta, res_dp, res_sz). length delta)")
    (auto dest!: copy_args_length)

declare apply_loop.simps(2) [simp del]

definition git_delta_apply :: "(nat \<Rightarrow> bool) \<Rightarrow> u8 list \<Rightarrow> u8 list \<Rightarrow> u8 list result option" where
  "git_delta_apply can_alloc base delta =
     (case hdr_sz delta of
        None \<Rightarrow> None
      | Some (Inl e) \<Rightarrow> Some (Inl GIT_ERROR)
      | Some (Inr (base_sz, delta1)) \<Rightarrow>
          (if unat base_sz \<noteq> length base then Some (Inl GIT_ERROR)
           else (case hdr_sz delta1 of
                   None \<Rightarrow> None
                 | Some (Inl e) \<Rightarrow> Some (Inl GIT_ERROR)
                 | Some (Inr (res_sz, delta2)) \<Rightarrow>
                     (if unat res_sz + 1 > SIZE_MAX \<or> \<not> can_alloc (unat res_sz + 1) then Some (Inl GIT_ERROR)
                      else Some (apply_loop base delta2 [] (unat res_sz))))))"

subsection \<open>The Rabin fingerprint\<close>

definition T_tab :: "u32 list" where
  "T_tab =
    [0x00000000, 0xab59b4d1, 0x56b369a2, 0xfdeadd73, 0x063f6795, 0xad66d344, 0x508c0e37, 0xfbd5bae6,
     0x0c7ecf2a, 0xa7277bfb, 0x5acda688, 0xf1941259, 0x0a41a8bf, 0xa1181c6e, 0x5cf2c11d, 0xf7ab75cc,
     0x18fd9e54, 0xb3a42a85, 0x4e4ef7f6, 0xe5174327, 0x1ec2f9c1, 0xb59b4d10, 0x48719063, 0xe32824b2,
     0x1483517e, 0xbfdae5af, 0x423038dc, 0xe9698c0d, 0x12bc36eb, 0xb9e5823a, 0x440f5f49, 0xef56eb98,
     0x31fb3ca8, 0x9aa28879, 0x6748550a, 0xcc11e1db, 0x37c45b3d, 0x9c9defec, 0x6177329f, 0xca2e864e,
     0x3d85f382, 0x96dc4753, 0x6b369a20, 0xc06f2ef1, 0x3bba9417, 0x90e320c6, 0x6d09fdb5, 0xc6504964,
     0x2906a2fc, 0x825f162d, 0x7fb5cb5e, 0xd4ec7f8f, 0x2f39c569, 0x846071b8, 0x798aaccb, 0xd2d3181a,
     0x25786dd6, 0x8e21d907, 0x73cb0474, 0xd892b0a5, 0x23470a43, 0x881ebe92, 0x75f463e1, 0xdeadd730,
     0x63f67950, 0xc8afcd81, 0x354510f2, 0x9e1ca423, 0x65c91ec5, 0xce90aa14, 0x337a7767, 0x9823c3b6,
     0x6f88b67a, 0xc4d102ab, 0x393bdfd8, 0x92626b09, 0x69b7d1ef, 0xc2ee653e, 0x3f04b84d, 0x945d0c9c,
     0x7b0be704, 0xd05253d5, 0x2db88ea6, 0x86e13a77, 0x7d348091, 0xd66d3440, 0x2b87e933, 0x80de5de2,
     0x7775282e, 0xdc2c9cff, 0x21c6418c, 0x8a9ff55d, 0x714a4fbb, 0xda13fb6a, 0x27f92619, 0x8ca092c8,
     0x520d45f8, 0xf954f129, 0x04be2c5a, 0xafe7988b, 0x5432226d, 0xff6b96bc, 0x02814bcf, 0xa9d8ff1e,
     0x5e738ad2, 0xf52a3e03, 0x08c0e370, 0xa39957a1, 0x584ced47, 0xf3155996, 0x0eff84e5, 0xa5a63034,
     0x4af0dbac, 0xe1a96f7d, 0x1c43b20e, 0xb71a06df, 0x4ccfbc39, 0xe79608e8, 0x1a7cd59b, 0xb125614a,
     0x468e1486, 0xedd7a057, 0x103d7d24, 0xbb64c9f5, 0x40b17313, 0xebe8c7c2, 0x16021ab1, 0xbd5bae60,
     0x6cb54671, 0xc7ecf2a0, 0x3a062fd3, 0x915f9b02, 0x6a8a21e4, 0xc1d39535, 0x3c394846, 0x9760fc97,
     0x60cb895b, 0xcb923d8a, 0x3678e0f9, 0x9d215428, 0x66f4eece, 0xcdad5a1f, 0x3047876c, 0x9b1e33bd,
     0x7448d825, 0xdf116cf4, 0x22fbb187, 0x89a20556, 0x7277bfb0, 0xd92e0b61, 0x24c4d612, 0x8f9d62c3,
     0x7836170f, 0xd36fa3de, 0x2e857ead, 0x85dcca7c, 0x7e09709a, 0xd550c44b, 0x28ba1938, 0x83e3ade9,
     0x5d4e7ad9, 0xf617ce08, 0x0bfd137b, 0xa0a4a7aa, 0x5b711d4c, 0xf028a99d, 0x0dc274ee, 0xa69bc03f,
     0x5130b5f3, 0xfa690122, 0x0783dc51, 0xacda6880, 0x570fd266, 0xfc5666b7, 0x01bcbbc4, 0xaae50f15,
     0x45b3e48d, 0xeeea505c, 0x13008d2f, 0xb85939fe, 0x438c8318, 0xe8d537c9, 0x153feaba, 0xbe665e6b,
     0x49cd2ba7, 0xe2949f76, 0x1f7e4205, 0xb427f6d4, 0x4ff24c32, 0xe4abf8e3, 0x19412590, 0xb2189141,
     0x0f433f21, 0xa41a8bf0, 0x59f05683, 0xf2a9e252, 0x097c58b4, 0xa225ec65, 0x5fcf3116, 0xf49685c7,
     0x033df00b, 0xa86444da, 0x558e99a9, 0xfed72d78, 0x0502979e, 0xae5b234f, 0x53b1fe3c, 0xf8e84aed,
     0x17bea175, 0xbce715a4, 0x410dc8d7, 0xea547c06, 0x1181c6e0, 0xbad87231, 0x4732af42, 0xec6b1b93,
     0x1bc06e5f, 0xb099da8e, 0x4d7307fd, 0xe62ab32c, 0x1dff09ca, 0xb6a6bd1b, 0x4b4c6068, 0xe015d4b9,
     0x3eb80389, 0x95e1b758, 0x680b6a2b, 0xc352defa, 0x3887641c, 0x93ded0cd, 0x6e340dbe, 0xc56db96f,
     0x32c6cca3, 0x999f7872, 0x6475a501, 0xcf2c11d0, 0x34f9ab36, 0x9fa01fe7, 0x624ac294, 0xc9137645,
     0x26459ddd, 0x8d1c290c, 0x70f6f47f, 0xdbaf40ae, 0x207afa48, 0x8b234e99, 0x76c993ea, 0xdd90273b,
     0x2a3b52f7, 0x8162e626, 0x7c883b55, 0xd7d18f84, 0x2c043562, 0x875d81b3, 0x7ab75cc0, 0xd1eee811]"

definition U_tab :: "u32 list" where
  "U_tab =
    [0x00000000, 0x7eb5200d, 0x5633f4cb, 0x2886d4c6, 0x073e5d47, 0x798b7d4a, 0x510da98c, 0x2fb88981,
     0x0e7cba8e, 0x70c99a83, 0x584f4e45, 0x26fa6e48, 0x0942e7c9, 0x77f7c7c4, 0x5f711302, 0x21c4330f,
     0x1cf9751c, 0x624c5511, 0x4aca81d7, 0x347fa1da, 0x1bc7285b, 0x65720856, 0x4df4dc90, 0x3341fc9d,
     0x1285cf92, 0x6c30ef9f, 0x44b63b59, 0x3a031b54, 0x15bb92d5, 0x6b0eb2d8, 0x4388661e, 0x3d3d4613,
     0x39f2ea38, 0x4747ca35, 0x6fc11ef3, 0x11743efe, 0x3eccb77f, 0x40799772, 0x68ff43b4, 0x164a63b9,
     0x378e50b6, 0x493b70bb, 0x61bda47d, 0x1f088470, 0x30b00df1, 0x4e052dfc, 0x6683f93a, 0x1836d937,
     0x250b9f24, 0x5bbebf29, 0x73386bef, 0x0d8d4be2, 0x2235c263, 0x5c80e26e, 0x740636a8, 0x0ab316a5,
     0x2b7725aa, 0x55c205a7, 0x7d44d161, 0x03f1f16c, 0x2c4978ed, 0x52fc58e0, 0x7a7a8c26, 0x04cfac2b,
     0x73e5d470, 0x0d50f47d, 0x25d620bb, 0x5b6300b6, 0x74db8937, 0x0a6ea93a, 0x22e87dfc, 0x5c5d5df1,
     0x7d996efe, 0x032c4ef3, 0x2baa9a35, 0x551fba38, 0x7aa733b9, 0x041213b4, 0x2c94c772, 0x5221e77f,
     0x6f1ca16c, 0x11a98161, 0x392f55a7, 0x479a75aa, 0x6822fc2b, 0x1697dc26, 0x3e1108e0, 0x40a428ed,
     0x61601be2, 0x1fd53bef, 0x3753ef29, 0x49e6cf24, 0x665e46a5, 0x18eb66a8, 0x306db26e, 0x4ed89263,
     0x4a173e48, 0x34a21e45, 0x1c24ca83, 0x6291ea8e, 0x4d29630f, 0x339c4302, 0x1b1a97c4, 0x65afb7c9,
     0x446b84c6, 0x3adea4cb, 0x1258700d, 0x6ced5000, 0x4355d981, 0x3de0f98c, 0x15662d4a, 0x6bd30d47,
     0x56ee4b54, 0x285b6b59, 0x00ddbf9f, 0x7e689f92, 0x51d01613, 0x2f65361e, 0x07e3e2d8, 0x7956c2d5,
     0x5892f1da, 0x2627d1d7, 0x0ea10511, 0x7014251c, 0x5facac9d, 0x21198c90, 0x099f5856, 0x772a785b,
     0x4c921c31, 0x32273c3c, 0x1aa1e8fa, 0x6414c8f7, 0x4bac4176, 0x3519617b, 0x1d9fb5bd, 0x632a95b0,
     0x42eea6bf, 0x3c5b86b2, 0x14dd5274, 0x6a687279, 0x45d0fbf8, 0x3b65dbf5, 0x13e30f33, 0x6d562f3e,
     0x506b692d, 0x2ede4920, 0x06589de6, 0x78edbdeb, 0x5755346a, 0x29e01467, 0x0166c0a1, 0x7fd3e0ac,
     0x5e17d3a3, 0x20a2f3ae, 0x08242768, 0x76910765, 0x59298ee4, 0x279caee9, 0x0f1a7a2f, 0x71af5a22,
     0x7560f609, 0x0bd5d604, 0x235302c2, 0x5de622cf, 0x725eab4e, 0x0ceb8b43, 0x246d5f85, 0x5ad87f88,
     0x7b1c4c87, 0x05a96c8a, 0x2d2fb84c, 0x539a9841, 0x7c2211c0, 0x029731cd, 0x2a11e50b, 0x54a4c506,
     0x69998315, 0x172ca318, 0x3faa77de, 0x411f57d3, 0x6ea7de52, 0x1012fe5f, 0x38942a99, 0x46210a94,
     0x67e5399b, 0x19501996, 0x31d6cd50, 0x4f63ed5d, 0x60db64dc, 0x1e6e44d1, 0x36e89017, 0x485db01a,
     0x3f77c841, 0x41c2e84c, 0x69443c8a, 0x17f11c87, 0x38499506, 0x46fcb50b, 0x6e7a61cd, 0x10cf41c0,
     0x310b72cf, 0x4fbe52c2, 0x67388604, 0x198da609, 0x36352f88, 0x48800f85, 0x6006db43, 0x1eb3fb4e,
     0x238ebd5d, 0x5d3b9d50, 0x75bd4996, 0x0b08699b, 0x24b0e01a, 0x5a05c017, 0x728314d1, 0x0c3634dc,
     0x2df207d3, 0x534727de, 0x7bc1f318, 0x0574d315, 0x2acc5a94, 0x54797a99, 0x7cffae5f, 0x024a8e52,
     0x06852279, 0x78300274, 0x50b6d6b2, 0x2e03f6bf, 0x01bb7f3e, 0x7f0e5f33, 0x57888bf5, 0x293dabf8,
     0x08f998f7, 0x764cb8fa, 0x5eca6c3c, 0x207f4c31, 0x0fc7c5b0, 0x7172e5bd, 0x59f4317b, 0x27411176,
     0x1a7c5765, 0x64c97768, 0x4c4fa3ae, 0x32fa83a3, 0x1d420a22, 0x63f72a2f, 0x4b71fee9, 0x35c4dee4,
     0x1400edeb, 0x6ab5cde6, 0x42331920, 0x3c86392d, 0x133eb0ac, 0x6d8b90a1, 0x450d4467, 0x3bb8646a]"

definition RABIN_WINDOW :: nat where "RABIN_WINDOW = 16"

definition HASH_LIMIT :: nat where "HASH_LIMIT = 64"

definition UINT_MAX :: nat where "UINT_MAX = 2 ^ 32 - 1"

definition rabin_step :: "u32 \<Rightarrow> u8 \<Rightarrow> u32" where
  "rabin_step val c = (push_bit 8 val OR ucast c) XOR T_tab ! unat (drop_bit 23 val)"

definition rabin_shift_out :: "u32 \<Rightarrow> u8 \<Rightarrow> u32" where
  "rabin_shift_out val c = val XOR U_tab ! unat c"

subsection \<open>The index\<close>

record index_entry =
  e_ptr :: nat
  e_val :: u32

record git_delta_index =
  di_memsize :: nat
  di_src_buf :: "u8 list"
  di_hash_mask :: u32
  di_hash :: "index_entry list list"

text \<open>The structures take 24, 8 and 32 bytes.\<close>

definition lookup_index_alloc :: "(nat \<Rightarrow> bool) \<Rightarrow> nat \<Rightarrow> nat \<Rightarrow> nat result" where
  "lookup_index_alloc can_alloc entries hash_count =
     (let entries_len = entries * 24; hash_len = hash_count * 8;
          index_len = 32 + entries_len + hash_len in
      if entries_len > SIZE_MAX \<or> hash_len > SIZE_MAX \<or> index_len > SIZE_MAX \<or> \<not> can_alloc index_len
      then Inl GIT_ERROR else Inr index_len)"

definition index_entries :: "nat \<Rightarrow> nat" where
  "index_entries bufsize =
     (if bufsize \<ge> 0xffffffff then 0xfffffffe div RABIN_WINDOW
      else unat (of_nat (bufsize - 1) :: u32) div RABIN_WINDOW)"

text \<open>The least \<open>i\<close> from \<open>i\<close> to 31 with \<open>hsize <= 2 ^ i\<close>.\<close>

function hash_bits :: "nat \<Rightarrow> nat \<Rightarrow> nat" where
  "hash_bits hsize i = (if i < 31 \<and> 2 ^ i < hsize then hash_bits hsize (i + 1) else i)"
  by pat_completeness auto
termination by (relation "measure (\<lambda>(hsize, i). 31 - i)") auto

declare hash_bits.simps [simp del]

type_synonym index_state = "u32 \<times> index_entry list list \<times> nat list"

text \<open>
  One block of the source. \<open>entry[-1]\<close> is the entry that was added last, which is the head of
  the bucket of \<open>prev_val\<close>.
\<close>

definition index_block :: "u8 list \<Rightarrow> u32 \<Rightarrow> nat \<Rightarrow> index_state \<Rightarrow> index_state option" where
  "index_block buf hmask data s =
     (case s of (prev_val, hash, hash_count) \<Rightarrow>
        (let val = foldl rabin_step 0 (seg buf (data + 1) RABIN_WINDOW); i = unat (val AND hmask) in
         if val = prev_val then
           (case hash ! i of
              [] \<Rightarrow> None
            | e # es \<Rightarrow> Some (prev_val, hash[i := e\<lparr>e_ptr := data + RABIN_WINDOW\<rparr> # es], hash_count))
         else Some (val, hash[i := \<lparr>e_ptr = data + RABIN_WINDOW, e_val = val\<rparr> # hash ! i],
                    hash_count[i := hash_count ! i + 1])))"

primrec index_blocks :: "u8 list \<Rightarrow> u32 \<Rightarrow> nat \<Rightarrow> index_state \<Rightarrow> index_state option" where
  "index_blocks buf hmask 0 s = Some s"
| "index_blocks buf hmask (Suc k) s =
     (case index_block buf hmask (RABIN_WINDOW * k) s of
        None \<Rightarrow> None
      | Some s1 \<Rightarrow> index_blocks buf hmask k s1)"

text \<open>The inner loop of the culling, \<open>do entry = entry->next; while (--skip && entry);\<close>.\<close>

fun skip_entries :: "int \<Rightarrow> 'e list \<Rightarrow> 'e list" where
  "skip_entries skip [] = []"
| "skip_entries skip (entry # next) =
     (if skip - 1 \<noteq> 0 \<and> next \<noteq> [] then skip_entries (skip - 1) next else next)"

lemma skip_entries_shorter: "length (skip_entries skip es) \<le> length es - 1"
proof (induction skip es rule: skip_entries.induct)
  case (2 skip e es)
  then show ?case by (cases es) auto
qed simp

lemma skip_entries_length: "length (skip_entries skip (e # es)) \<le> length es"
  using skip_entries_shorter [of skip "e # es"] by simp

function cull_bucket :: "nat \<Rightarrow> 'e list \<Rightarrow> 'e list" where
  "cull_bucket cnt [] = []"
| "cull_bucket cnt (keep # es) =
     keep # cull_bucket cnt (skip_entries (int (cnt div HASH_LIMIT div 2)) (keep # es))"
  by pat_completeness auto
termination
  by (relation "measure (\<lambda>(cnt, es). length es)")
    (auto simp del: skip_entries.simps intro: le_imp_less_Suc skip_entries_length)

definition cull_hash :: "nat list \<Rightarrow> index_entry list list \<Rightarrow> index_entry list list" where
  "cull_hash hash_count hash =
     map2 (\<lambda>cnt bucket. if cnt < HASH_LIMIT then bucket else cull_bucket cnt bucket) hash_count hash"

text \<open>The inner \<open>None\<close> is the return value 0 with \<open>*out\<close> NULL.\<close>

definition git_delta_index_init :: "(nat \<Rightarrow> bool) \<Rightarrow> u8 list option \<Rightarrow> git_delta_index option result option" where
  "git_delta_index_init can_alloc buf =
     (case buf of
        None \<Rightarrow> Some (Inr None)
      | Some buffer \<Rightarrow>
          (if length buffer = 0 then Some (Inr None)
           else (let entries = index_entries (length buffer);
                     hsize = 2 ^ hash_bits (entries div 4) 4;
                     hmask = of_nat hsize - 1 :: u32 in
             case lookup_index_alloc can_alloc entries hsize of
               Inl e \<Rightarrow> Some (Inl GIT_ERROR)
             | Inr memsize \<Rightarrow>
                 (if \<not> can_alloc (hsize * 4) then Some (Inl GIT_ERROR)
                  else (case index_blocks buffer hmask entries (NOT 0, replicate hsize [], replicate hsize 0) of
                          None \<Rightarrow> None
                        | Some (_, hash, hash_count) \<Rightarrow>
                            Some (Inr (Some \<lparr>di_memsize = memsize, di_src_buf = buffer, di_hash_mask = hmask,
                                             di_hash = cull_hash hash_count hash\<rparr>)))))))"

definition git_delta_index_size :: "git_delta_index \<Rightarrow> nat" where
  "git_delta_index_size index = di_memsize index"

subsection \<open>Writing\<close>

definition MAX_OP_SIZE :: u32 where "MAX_OP_SIZE = 5 + 5 + 1 + of_nat RABIN_WINDOW + 7"

function put_size :: "u8 list \<Rightarrow> u32 \<Rightarrow> u8 list" where
  "put_size buf i =
     (if i \<ge> 0x80 then put_size (buf @ [ucast (i OR 0x80)]) (drop_bit 7 i) else buf @ [ucast i])"
  by pat_completeness auto
termination
proof (relation "measure (\<lambda>(buf, i). unat i)")
  fix buf :: "u8 list" and i :: u32
  assume "128 \<le> i"
  then have "0 < unat i" by (simp add: word_le_nat_alt)
  then have "unat i div 2 ^ 7 < unat i" by simp
  then show "((buf @ [ucast (i OR 0x80)], drop_bit 7 i), buf, i) \<in> measure (\<lambda>(buf, i). unat i)"
    by (simp add: drop_bit_eq_div unat_div)
qed simp

declare put_size.simps [simp del]

text \<open>
  The local variables of the loop. \<open>buf\<close> holds the first \<open>bufpos\<close> bytes, the slot that is
  reserved for the count of a literal included. \<open>data\<close> is a position in the target.
\<close>

record delta_state =
  ds_buf :: "u8 list"
  ds_bufsize :: u32
  ds_data :: nat
  ds_inscnt :: int
  ds_moff :: nat
  ds_msize :: nat
  ds_val :: u32

text \<open>\<open>while (ref_size-- && *src++ == *ref) ref++;\<close> returns the final position of \<open>ref\<close>.\<close>

primrec compare_loop :: "u8 list \<Rightarrow> u8 list \<Rightarrow> nat \<Rightarrow> nat \<Rightarrow> nat \<Rightarrow> nat" where
  "compare_loop ref_data trg src ref 0 = ref"
| "compare_loop ref_data trg src ref (Suc ref_size) =
     (if trg ! src = ref_data ! ref then compare_loop ref_data trg (src + 1) (ref + 1) ref_size else ref)"

text \<open>The search through a bucket for the longest match, as \<open>(moff, msize)\<close>.\<close>

primrec search_bucket :: "u8 list \<Rightarrow> u8 list \<Rightarrow> u32 \<Rightarrow> nat \<Rightarrow> index_entry list \<Rightarrow> nat \<times> nat \<Rightarrow> nat \<times> nat" where
  "search_bucket ref_data trg val data [] best = best"
| "search_bucket ref_data trg val data (entry # next) best =
     (if e_val entry \<noteq> val then search_bucket ref_data trg val data next best
      else (let ref_size = min (length ref_data - e_ptr entry) (length trg - data) in
        if ref_size \<le> snd best then best
        else (let found = compare_loop ref_data trg data (e_ptr entry) ref_size - e_ptr entry in
          if snd best < found then
            (if found \<ge> 4096 then (e_ptr entry, found)
             else search_bucket ref_data trg val data next (e_ptr entry, found))
          else search_bucket ref_data trg val data next best)))"

definition find_match :: "git_delta_index \<Rightarrow> u8 list \<Rightarrow> delta_state \<Rightarrow> delta_state" where
  "find_match index trg st =
     (if ds_msize st < 4096 then
        (let data = ds_data st;
             val = rabin_step (rabin_shift_out (ds_val st) (trg ! (data - RABIN_WINDOW))) (trg ! data);
             best = search_bucket (di_src_buf index) trg val data
                      (di_hash index ! unat (val AND di_hash_mask index)) (ds_moff st, ds_msize st)
         in st\<lparr>ds_val := val, ds_moff := fst best, ds_msize := snd best\<rparr>)
      else st)"

definition set_count :: "delta_state \<Rightarrow> delta_state" where
  "set_count st =
     st\<lparr>ds_buf := (ds_buf st)[nat (int (length (ds_buf st)) - ds_inscnt st - 1) := of_int (ds_inscnt st)]\<rparr>"

text \<open>The branch \<open>msize < 4\<close>. The reserved slot is given the value 0 until it is written.\<close>

definition insert_literal :: "u8 list \<Rightarrow> delta_state \<Rightarrow> delta_state" where
  "insert_literal trg st =
     (let buf = (if ds_inscnt st = 0 then ds_buf st @ [0] else ds_buf st);
          st1 = st\<lparr>ds_buf := buf @ [trg ! ds_data st], ds_data := ds_data st + 1, ds_inscnt := ds_inscnt st + 1\<rparr>;
          st2 = (if ds_inscnt st1 = 0x7f then (set_count st1)\<lparr>ds_inscnt := 0\<rparr> else st1)
      in st2\<lparr>ds_msize := 0\<rparr>)"

text \<open>The loop that extends a match backwards, by recursion on \<open>moff\<close>.\<close>

primrec match_back :: "u8 list \<Rightarrow> u8 list \<Rightarrow> nat \<Rightarrow> delta_state \<Rightarrow> delta_state" where
  "match_back ref_data trg 0 st = st\<lparr>ds_moff := 0\<rparr>"
| "match_back ref_data trg (Suc m) st =
     (if ref_data ! m = trg ! (ds_data st - 1) then
        (let st1 = st\<lparr>ds_msize := ds_msize st + 1, ds_moff := m, ds_data := ds_data st - 1,
                       ds_buf := butlast (ds_buf st), ds_inscnt := ds_inscnt st - 1\<rparr> in
         if ds_inscnt st1 \<noteq> 0 then match_back ref_data trg m st1
         else st1\<lparr>ds_buf := butlast (ds_buf st1), ds_inscnt := ds_inscnt st1 - 1\<rparr>)
      else st\<lparr>ds_moff := Suc m\<rparr>)"

definition put_op_byte :: "u32 \<Rightarrow> nat \<Rightarrow> u8 \<Rightarrow> u8 \<times> u8 list \<Rightarrow> u8 \<times> u8 list" where
  "put_op_byte x shift flag op =
     (if x AND push_bit shift 0xff \<noteq> 0
      then (fst op OR flag, snd op @ [ucast (drop_bit shift x)]) else op)"

text \<open>The bytes of a copy instruction; \<open>*op = i\<close> is written when \<open>i\<close> is complete.\<close>

definition copy_op :: "u32 \<Rightarrow> u32 \<Rightarrow> u8 list" where
  "copy_op moff msize =
     (let op0 = (0x80, []);
          op1 = put_op_byte moff 0 0x01 op0;
          op2 = put_op_byte moff 8 0x02 op1;
          op3 = put_op_byte moff 16 0x04 op2;
          op4 = put_op_byte moff 24 0x08 op3;
          op5 = put_op_byte msize 0 0x10 op4;
          op6 = put_op_byte msize 8 0x20 op5
      in fst op6 # snd op6)"

definition write_copy :: "u8 list \<Rightarrow> u8 list \<Rightarrow> delta_state \<Rightarrow> delta_state" where
  "write_copy ref_data trg st =
     (let st1 = (if ds_inscnt st \<noteq> 0
                 then (set_count (match_back ref_data trg (ds_moff st) st))\<lparr>ds_inscnt := 0\<rparr> else st);
          left = (if ds_msize st1 < 0x10000 then 0 else ds_msize st1 - 0x10000);
          msize = ds_msize st1 - left;
          data = ds_data st1 + msize
      in st1\<lparr>ds_buf := ds_buf st1 @ copy_op (of_nat (ds_moff st1)) (of_nat msize),
             ds_data := data, ds_moff := ds_moff st1 + msize, ds_msize := left,
             ds_val := (if left < 4096 then foldl rabin_step 0 (seg trg (data - RABIN_WINDOW) RABIN_WINDOW)
                        else ds_val st1)\<rparr>)"

datatype 'a step = Continue 'a | Break 'a | Return git_error_code

definition first_size :: "nat \<Rightarrow> u32 \<Rightarrow> u32" where
  "first_size max_size bufsize =
     (if max_size \<noteq> 0 \<and> unat bufsize \<ge> max_size then of_nat max_size + MAX_OP_SIZE + 1 else bufsize)"

definition grow_buf :: "(nat \<Rightarrow> bool) \<Rightarrow> nat \<Rightarrow> delta_state \<Rightarrow> delta_state step" where
  "grow_buf can_alloc max_size st =
     (if of_nat (length (ds_buf st)) \<ge> ds_bufsize st - MAX_OP_SIZE then
        (let bufsize = first_size max_size (ds_bufsize st * 3 div 2) in
         if max_size \<noteq> 0 \<and> length (ds_buf st) > max_size then Break (st\<lparr>ds_bufsize := bufsize\<rparr>)
         else if can_alloc (unat bufsize) then Continue (st\<lparr>ds_bufsize := bufsize\<rparr>)
         else Return GIT_ERROR)
      else Continue st)"

text \<open>One turn of the loop; \<open>None\<close> when it writes past the end of the buffer.\<close>

definition delta_step :: "(nat \<Rightarrow> bool) \<Rightarrow> git_delta_index \<Rightarrow> u8 list \<Rightarrow> nat \<Rightarrow> delta_state \<Rightarrow> delta_state step option" where
  "delta_step can_alloc index trg max_size st =
     (let st1 = find_match index trg st;
          st2 = (if ds_msize st1 < 4 then insert_literal trg st1 else write_copy (di_src_buf index) trg st1) in
      if length (ds_buf st2) > unat (ds_bufsize st2) then None
      else Some (grow_buf can_alloc max_size st2))"

primrec delta_loop :: "(nat \<Rightarrow> bool) \<Rightarrow> git_delta_index \<Rightarrow> u8 list \<Rightarrow> nat \<Rightarrow> nat \<Rightarrow> delta_state \<Rightarrow> delta_state result option" where
  "delta_loop can_alloc index trg max_size 0 st = None"
| "delta_loop can_alloc index trg max_size (Suc fuel) st =
     (if ds_data st < length trg then
        (case delta_step can_alloc index trg max_size st of
           None \<Rightarrow> None
         | Some (Return e) \<Rightarrow> Some (Inl e)
         | Some (Break st1) \<Rightarrow> Some (Inr st1)
         | Some (Continue st1) \<Rightarrow> delta_loop can_alloc index trg max_size fuel st1)
      else Some (Inr st))"

text \<open>The state before the loop: the two sizes and the first window as a literal.\<close>

definition delta_start :: "git_delta_index \<Rightarrow> u8 list \<Rightarrow> nat \<Rightarrow> delta_state" where
  "delta_start index trg max_size =
     (let hd1 = put_size [] (of_nat (length (di_src_buf index)));
          hd2 = put_size hd1 (of_nat (length trg));
          window = take RABIN_WINDOW trg
      in \<lparr>ds_buf = hd2 @ [0] @ window, ds_bufsize = first_size max_size 8192, ds_data = length window,
          ds_inscnt = int (length window), ds_moff = 0, ds_msize = 0, ds_val = foldl rabin_step 0 window\<rparr>)"

text \<open>
  The inner \<open>None\<close> is the return value 0 with \<open>*out\<close> NULL. The loop gets one unit of fuel for
  each byte of the target and one more.
\<close>

definition git_delta_create_from_index ::
    "(nat \<Rightarrow> bool) \<Rightarrow> git_delta_index \<Rightarrow> u8 list \<Rightarrow> nat \<Rightarrow> u8 list option result option" where
  "git_delta_create_from_index can_alloc index trg max_size =
     (if length trg = 0 then Some (Inr None)
      else if length (di_src_buf index) > UINT_MAX \<or> length trg > UINT_MAX \<or>
              max_size > UINT_MAX - unat MAX_OP_SIZE - 1 then Some (Inl GIT_ERROR)
      else (let st = delta_start index trg max_size in
        if \<not> can_alloc (unat (ds_bufsize st)) then Some (Inl GIT_ERROR)
        else if length (ds_buf st) > unat (ds_bufsize st) then None
        else (case delta_loop can_alloc index trg max_size (Suc (length trg)) st of
           None \<Rightarrow> None
         | Some (Inl e) \<Rightarrow> Some (Inl e)
         | Some (Inr st1) \<Rightarrow>
             (let st2 = (if ds_inscnt st1 \<noteq> 0 then set_count st1 else st1) in
              if max_size \<noteq> 0 \<and> length (ds_buf st2) > max_size then Some (Inl GIT_EBUFS)
              else Some (Inr (Some (ds_buf st2)))))))"

definition git_delta :: "(nat \<Rightarrow> bool) \<Rightarrow> u8 list \<Rightarrow> u8 list \<Rightarrow> nat \<Rightarrow> u8 list option result option" where
  "git_delta can_alloc src_buf trg_buf max_delta_size =
     (case git_delta_index_init can_alloc (Some src_buf) of
        None \<Rightarrow> None
      | Some (Inl e) \<Rightarrow> Some (Inl GIT_ERROR)
      | Some (Inr None) \<Rightarrow> Some (Inr None)
      | Some (Inr (Some index)) \<Rightarrow> git_delta_create_from_index can_alloc index trg_buf max_delta_size)"

end
