(* ===== verification/DeltaCorrect.thy ===== *)
theory DeltaCorrect
  imports Delta
begin

text \<open>
  Correctness of \<open>delta.c\<close>: applying the delta that was written for a source and a target to the
  source gives the target; the writer stays inside its buffer; the fingerprint never indexes its
  tables out of range.
\<close>

subsection \<open>The header\<close>

lemma put_size_append: "put_size (a @ b) i = a @ put_size b i"
proof (induction b i rule: put_size.induct)
  case (1 b i)
  then show ?case by (simp add: put_size.simps [of "a @ b"] put_size.simps [of b])
qed

lemma put_size_start: "put_size buf i = buf @ put_size [] i"
  using put_size_append [of buf "[]"] by simp

lemma put_size_rec:
  "put_size [] i = (if i \<ge> 0x80 then ucast (i OR 0x80) # put_size [] (drop_bit 7 i) else [ucast i])"
  by (subst put_size.simps) (simp add: put_size_start [of "[ucast (i OR 0x80)]"])

lemma header_byte:
  "(ucast (ucast (v OR 0x80 :: u32) :: u8) :: u32) AND 0x80 \<noteq> 0"
  "(ucast (ucast (v OR 0x80 :: u32) :: u8) :: u32) AND 0x7f = v AND 0x7f"
proof -
  show "(ucast (ucast (v OR 0x80 :: u32) :: u8) :: u32) AND 0x80 \<noteq> 0"
  proof
    assume "(ucast (ucast (v OR 0x80 :: u32) :: u8) :: u32) AND 0x80 = 0"
    then have "bit ((ucast (ucast (v OR 0x80 :: u32) :: u8) :: u32) AND 0x80) 7 = False" by simp
    then show False by (simp add: bit_simps bit_128)
  qed
  show "(ucast (ucast (v OR 0x80 :: u32) :: u8) :: u32) AND 0x7f = v AND 0x7f"
    unfolding mask_127 by (rule bit_word_eqI) (auto simp: bit_simps bit_128)
qed

lemma small_u32: "v < 128 \<Longrightarrow> (ucast (ucast (v :: u32) :: u8) :: u32) = v \<and> v AND 0x80 = 0 \<and> v AND 0x7f = v"
proof -
  assume "v < 128"
  then have hi: "n < 7" if "bit v n" for n
    using bit_bound [of v 7 n] that by (simp add: word_less_nat_alt)
  show ?thesis unfolding mask_127
    by (intro conjI; rule bit_word_eqI) (auto simp: bit_simps bit_128 dest: hi)
qed

lemma numeral_128_nat: "(2 :: nat) ^ 7 = 128" by simp

lemma hdr_loop_put_size:
  "s \<le> 28 \<Longrightarrow> s mod 7 = 0 \<Longrightarrow> unat v < 2 ^ (32 - s) \<Longrightarrow>
   hdr_loop (put_size [] v @ rest) r s = Some (Inr (r OR ucast (push_bit s v), rest))"
proof (induction "unat v" arbitrary: v s r rule: less_induct)
  case less
  show ?case
  proof (cases "v \<ge> 0x80")
    case True
    then have big: "128 \<le> unat v" by (simp add: word_le_nat_alt)
    then have "(2 :: nat) ^ 7 < 2 ^ (32 - s)" using less.prems(3) by simp
    then have "7 < 32 - s" by (rule power_less_imp_less_exp [rotated]) simp
    then have s: "s + 7 \<le> 28" using less.prems(1,2) by presburger
    have mod7: "(s + 7) mod 7 = 0" using less.prems(2) by simp
    from s have "32 - s = 7 + (32 - (s + 7))" by simp
    then have "(2 :: nat) ^ (32 - s) = 128 * 2 ^ (32 - (s + 7))"
      by (metis (no_types, lifting) numeral_128_nat power_add)
    then have d: "unat (drop_bit 7 v) < 2 ^ (32 - (s + 7))"
      using less.prems(3) by (simp add: drop_bit_eq_div unat_div div_less_iff_less_mult mult.commute)
    have "unat (drop_bit 7 v) < unat v"
      using big by (simp add: drop_bit_eq_div unat_div)
    from less.hyps [OF this s mod7 d]
    have "hdr_loop (put_size [] (drop_bit 7 v) @ rest) (r OR ucast (push_bit s (v AND 0x7f))) (s + 7) =
        Some (Inr ((r OR ucast (push_bit s (v AND 0x7f))) OR ucast (push_bit (s + 7) (drop_bit 7 v)), rest))"
      by blast
    moreover have "(r OR ucast (push_bit s (v AND 0x7f))) OR ucast (push_bit (s + 7) (drop_bit 7 v)) =
        r OR ucast (push_bit s v)"
    proof (rule bit_word_eqI)
      fix n
      have "s + 7 \<le> n \<Longrightarrow> 7 + (n - (s + 7)) = n - s" by simp
      then show "bit ((r OR ucast (push_bit s (v AND 0x7f))) OR ucast (push_bit (s + 7) (drop_bit 7 v))) n =
          bit (r OR ucast (push_bit s v)) n"
        unfolding mask_127 by (cases "s + 7 \<le> n") (auto simp: bit_simps)
    qed
    ultimately show ?thesis
      using True less.prems(1) header_byte [of v] by (simp add: put_size_rec [of v] Let_def del: push_bit_and)
  next
    case False
    then have "v < 128" by simp
    from small_u32 [OF this] False less.prems(1) show ?thesis
      by (simp add: put_size_rec [of v] Let_def del: push_bit_and)
  qed
qed

lemma hdr_sz_put_size: "hdr_sz (put_size [] v @ rest) = Some (Inr (ucast v, rest))"
  using hdr_loop_put_size [of 0 v rest 0] unsigned_less [of v] by (simp add: hdr_sz_def)

lemma length_put_size: "unat v < 128 ^ k \<Longrightarrow> 0 < k \<Longrightarrow> length (put_size [] v) \<le> k"
proof (induction k arbitrary: v)
  case (Suc k)
  show ?case
  proof (cases "v \<ge> 0x80")
    case True
    then have "128 \<le> unat v" by (simp add: word_le_nat_alt)
    then have "k \<noteq> 0" using Suc.prems(1) by (cases k) auto
    moreover have "unat (drop_bit 7 v) < 128 ^ k"
      using Suc.prems(1) by (simp add: drop_bit_eq_div unat_div div_less_iff_less_mult mult.commute)
    ultimately show ?thesis using Suc.IH True by (simp add: put_size_rec [of v])
  qed (simp add: put_size_rec [of v])
qed simp

subsection \<open>Copy instructions\<close>

lemma op_byte_value:
  "(if x AND push_bit s 0xff \<noteq> 0 then ucast (push_bit s (ucast (ucast (drop_bit s x) :: u8) :: u32)) else 0) =
   (ucast (x AND push_bit s 0xff :: u32) :: size_t)"
proof -
  have "ucast (push_bit s (ucast (ucast (drop_bit s x) :: u8) :: u32)) = (ucast (x AND push_bit s 0xff :: u32) :: size_t)"
    unfolding mask_255 by (rule bit_word_eqI) (auto simp: bit_simps)
  then show ?thesis by simp
qed

lemma add_delta_optional:
  "add_delta p s (x, (if p then [b] else []) @ ds) =
   Some (x OR (if p then ucast (push_bit s (ucast b :: u32)) else 0), ds)"
  by (cases p) (simp_all add: add_delta_def)

lemma add_delta_skip: "add_delta False s acc = Some acc"
  by (simp add: add_delta_def)

lemma command_bits:
  fixes p0 p1 p2 p3 p4 p5 :: bool
  defines "cmd \<equiv> ((((((0x80 OR (if p0 then 0x01 else 0)) OR (if p1 then 0x02 else 0)) OR (if p2 then 0x04 else 0)) OR
      (if p3 then 0x08 else 0)) OR (if p4 then 0x10 else 0)) OR (if p5 then 0x20 else 0)) :: u8"
  shows "cmd AND 0x80 \<noteq> 0" "(cmd AND 0x01 \<noteq> 0) = p0" "(cmd AND 0x02 \<noteq> 0) = p1" "(cmd AND 0x04 \<noteq> 0) = p2"
    "(cmd AND 0x08 \<noteq> 0) = p3" "(cmd AND 0x10 \<noteq> 0) = p4" "(cmd AND 0x20 \<noteq> 0) = p5" "(cmd AND 0x40 \<noteq> 0) = False"
  unfolding cmd_def by (cases p0; cases p1; cases p2; cases p3; cases p4; cases p5; simp)+

lemma put_op_byte_alt:
  "put_op_byte x s flag (i, bytes) =
   (i OR (if x AND push_bit s 0xff \<noteq> 0 then flag else 0),
    bytes @ (if x AND push_bit s 0xff \<noteq> 0 then [ucast (drop_bit s x)] else []))"
  by (simp add: put_op_byte_def)

lemma bit_byte: "bit (x AND push_bit s 0xff :: u32) n \<longleftrightarrow> bit x n \<and> s \<le> n \<and> n < s + 8"
  unfolding mask_255 by (auto simp: bit_simps dest: bit_imp_le_length)

lemma or_bytes:
  "((((0 OR ucast (x AND push_bit 0 0xff)) OR ucast (x AND push_bit 8 0xff)) OR ucast (x AND push_bit 16 0xff)) OR
     ucast (x AND push_bit 24 0xff)) = (ucast (x :: u32) :: size_t)"
proof (rule bit_word_eqI)
  fix n :: nat
  have "bit x n \<Longrightarrow> n < 32" using bit_imp_le_length [of x n] by simp
  then show "bit ((((0 OR ucast (x AND push_bit 0 0xff)) OR ucast (x AND push_bit 8 0xff)) OR
      ucast (x AND push_bit 16 0xff)) OR ucast (x AND push_bit 24 0xff) :: size_t) n = bit (ucast x :: size_t) n"
    unfolding bit_or_iff bit_unsigned_iff bit_byte bit_0_eq bot_apply bot_bool_def by auto
qed

lemma or_two_bytes:
  "((0 OR ucast (x AND push_bit 0 0xff)) OR ucast (x AND push_bit 8 0xff)) = (ucast (x AND 0xffff :: u32) :: size_t)"
proof (rule bit_word_eqI)
  fix n :: nat
  have "bit (x AND 0xffff) n = (bit x n \<and> n < 16)" unfolding mask_65535 by (auto simp: bit_simps)
  then show "bit ((0 OR ucast (x AND push_bit 0 0xff)) OR ucast (x AND push_bit 8 0xff) :: size_t) n =
      bit (ucast (x AND 0xffff) :: size_t) n"
    unfolding bit_or_iff bit_unsigned_iff bit_byte bit_0_eq bot_apply bot_bool_def by auto
qed

lemma ucast_u32_u64: "ucast (ucast (x :: u32) :: size_t) = x"
  by (rule bit_word_eqI) (auto simp: bit_simps)

lemma copy_length:
  assumes "msize \<noteq> 0" "msize \<le> (0x10000 :: u32)"
  shows "(if ucast (msize AND 0xffff) = (0 :: size_t) then 0x10000 else ucast (msize AND 0xffff)) = (ucast msize :: size_t)"
proof (cases "msize = 0x10000")
  case False
  then have "unat msize \<noteq> unat (0x10000 :: u32)" by (metis unsigned_word_eqI)
  then have "unat msize < 2 ^ 16" using assms(2) by (simp add: word_le_nat_alt)
  then have "msize AND 0xffff = msize"
    unfolding mask_65535 using bit_bound [of msize 16] by (intro bit_word_eqI) (auto simp: bit_simps)
  moreover have "ucast msize \<noteq> (0 :: size_t)" proof
    assume "ucast msize = (0 :: size_t)"
    then have "msize = ucast (0 :: size_t)" by (metis ucast_u32_u64)
    then show False using assms(1) by simp
  qed
  ultimately show ?thesis by simp
qed simp

lemma copy_args_copy_op:
  assumes "msize \<noteq> 0" "msize \<le> 0x10000"
  shows "\<exists>cmd bytes. copy_op moff msize = cmd # bytes \<and> cmd AND 0x80 \<noteq> 0 \<and> length bytes \<le> 6 \<and>
    copy_args cmd (bytes @ rest) = Some (ucast moff, ucast msize, rest)"
proof -
  define p0 where "p0 = (moff AND push_bit 0 0xff \<noteq> 0)"
  define p1 where "p1 = (moff AND push_bit 8 0xff \<noteq> 0)"
  define p2 where "p2 = (moff AND push_bit 16 0xff \<noteq> 0)"
  define p3 where "p3 = (moff AND push_bit 24 0xff \<noteq> 0)"
  define p4 where "p4 = (msize AND push_bit 0 0xff \<noteq> 0)"
  define p5 where "p5 = (msize AND push_bit 8 0xff \<noteq> 0)"
  let ?cmd = "((((((0x80 OR (if p0 then 0x01 else 0)) OR (if p1 then 0x02 else 0)) OR (if p2 then 0x04 else 0)) OR
      (if p3 then 0x08 else 0)) OR (if p4 then 0x10 else 0)) OR (if p5 then 0x20 else 0)) :: u8"
  let ?bytes = "(if p0 then [ucast (drop_bit 0 moff)] else []) @ (if p1 then [ucast (drop_bit 8 moff)] else []) @
    (if p2 then [ucast (drop_bit 16 moff)] else []) @ (if p3 then [ucast (drop_bit 24 moff)] else []) @
    (if p4 then [ucast (drop_bit 0 msize)] else []) @ (if p5 then [ucast (drop_bit 8 msize)] else []) :: u8 list"
  have op: "copy_op moff msize = ?cmd # ?bytes"
    unfolding copy_op_def Let_def put_op_byte_alt p0_def p1_def p2_def p3_def p4_def p5_def
    by (simp only: fst_conv snd_conv append_Nil append_assoc)
  have args: "copy_args ?cmd (?bytes @ rest) = Some (ucast moff, ucast msize, rest)"
    unfolding copy_args_def command_bits append_assoc add_delta_optional bind.bind_lunit case_prod_conv add_delta_skip
    unfolding p0_def p1_def p2_def p3_def p4_def p5_def op_byte_value or_bytes
    unfolding or_two_bytes copy_length [OF assms] ..
  show ?thesis
    using op args command_bits(1) [of p0 p1 p2 p3 p4 p5] by auto
qed

subsection \<open>What a sequence of instructions writes\<close>

definition decodes :: "u8 list \<Rightarrow> u8 list \<Rightarrow> u8 list \<Rightarrow> bool" where
  "decodes base ops t \<longleftrightarrow>
     (\<forall>rest out res. length t \<le> res \<longrightarrow>
        apply_loop base (ops @ rest) out res = apply_loop base rest (out @ t) (res - length t))"

lemma decodes_Nil: "decodes base [] []"
  by (simp add: decodes_def)

lemma decodes_append: "decodes base a s \<Longrightarrow> decodes base b t \<Longrightarrow> decodes base (a @ b) (s @ t)"
  by (simp add: decodes_def)

lemma decodes_literal:
  assumes "lit \<noteq> []" "length lit \<le> 127"
  shows "decodes base (of_nat (length lit) # lit) lit"
proof -
  have n: "unat (of_nat (length lit) :: u8) = length lit"
    using assms(2) by (simp add: unat_of_nat)
  then have "\<not> bit (of_nat (length lit) :: u8) 7" using bit_bound [of "of_nat (length lit) :: u8" 7 7] assms(2) by auto
  then have "(of_nat (length lit) :: u8) AND 0x80 = 0" using and_128 by blast
  moreover have "(of_nat (length lit) :: u8) \<noteq> 0" using n assms(1) by auto
  ultimately show ?thesis using n by (simp add: decodes_def apply_loop.simps(2))
qed

lemma decodes_copy:
  assumes "0 < msize" "msize \<le> 0x10000" "moff + msize \<le> length base" "length base \<le> UINT_MAX"
  shows "decodes base (copy_op (of_nat moff) (of_nat msize)) (seg base moff msize)"
proof -
  have n: "unat (of_nat msize :: u32) = msize" "unat (of_nat moff :: u32) = moff"
    using assms by (simp_all add: unat_of_nat UINT_MAX_def)
  then have nz: "(of_nat msize :: u32) \<noteq> 0" "(of_nat msize :: u32) \<le> 0x10000"
    using assms(1,2) by (auto simp: word_le_nat_alt)
  have sz: "moff + msize \<le> SIZE_MAX" using assms(3,4) by (simp add: UINT_MAX_def SIZE_MAX_def)
  show ?thesis
    unfolding decodes_def
  proof (intro allI impI)
    fix rest out res
    assume "length (seg base moff msize) \<le> res"
    then have res: "msize \<le> res" using assms(3) by (simp add: length_seg)
    obtain cmd bytes where op: "copy_op (of_nat moff) (of_nat msize) = cmd # bytes" "cmd AND 0x80 \<noteq> 0"
      "copy_args cmd (bytes @ rest) = Some (ucast (of_nat moff :: u32), ucast (of_nat msize :: u32), rest)"
      using copy_args_copy_op [OF nz, of "of_nat moff" rest] by blast
    have u: "unat (ucast (of_nat moff :: u32) :: size_t) = moff" "unat (ucast (of_nat msize :: u32) :: size_t) = msize"
      using n by (simp_all only: unat_ucast_u32_u64)
    show "apply_loop base (copy_op (of_nat moff) (of_nat msize) @ rest) out res =
        apply_loop base rest (out @ seg base moff msize) (res - length (seg base moff msize))"
      using op u res assms(3) sz by (simp add: apply_loop.simps(2) Let_def length_seg)
  qed
qed

lemma length_copy_op: "msize \<noteq> 0 \<Longrightarrow> msize \<le> 0x10000 \<Longrightarrow> length (copy_op moff msize) \<le> 7"
  using copy_args_copy_op [of msize moff] by fastforce

text \<open>A sequence of instructions decides all of the result.\<close>

lemma apply_decodes: "decodes base ops t \<Longrightarrow> apply_loop base ops [] (length t) = Inr t"
  unfolding decodes_def by (drule spec [of _ "[]"]) simp

subsection \<open>Matches\<close>

definition matches :: "u8 list \<Rightarrow> u8 list \<Rightarrow> nat \<Rightarrow> nat \<times> nat \<Rightarrow> bool" where
  "matches ref_data trg data m \<longleftrightarrow>
     fst m + snd m \<le> length ref_data \<and> data + snd m \<le> length trg \<and>
     (\<forall>j < snd m. ref_data ! (fst m + j) = trg ! (data + j))"

lemma compare_loop_spec:
  "\<exists>k\<le>n. compare_loop ref_data trg src ref n = ref + k \<and> (\<forall>j<k. ref_data ! (ref + j) = trg ! (src + j))"
proof (induction n arbitrary: src ref)
  case (Suc n)
  show ?case
  proof (cases "trg ! src = ref_data ! ref")
    case True
    obtain k where k: "k \<le> n" "compare_loop ref_data trg (src + 1) (ref + 1) n = ref + 1 + k"
      "\<forall>j<k. ref_data ! (ref + 1 + j) = trg ! (src + 1 + j)"
      using Suc.IH [of "src + 1" "ref + 1"] by blast
    have "\<forall>j<Suc k. ref_data ! (ref + j) = trg ! (src + j)"
    proof (intro allI impI)
      fix j assume "j < Suc k"
      then show "ref_data ! (ref + j) = trg ! (src + j)" using True k(3) by (cases j) auto
    qed
    then show ?thesis using True k(1,2) by (intro exI [of _ "Suc k"]) simp
  qed simp
qed simp

lemma search_bucket_matches:
  assumes "\<forall>e\<in>set es. e_ptr e \<le> length ref_data" "data \<le> length trg" "matches ref_data trg data best"
  shows "matches ref_data trg data (search_bucket ref_data trg val data es best)"
  using assms
proof (induction es arbitrary: best)
  case (Cons e es)
  let ?n = "min (length ref_data - e_ptr e) (length trg - data)"
  obtain k where k: "k \<le> ?n" "compare_loop ref_data trg data (e_ptr e) ?n = e_ptr e + k"
    "\<forall>j<k. ref_data ! (e_ptr e + j) = trg ! (data + j)"
    using compare_loop_spec by blast
  then have "matches ref_data trg data (e_ptr e, k)" using Cons.prems(1,2) by (auto simp: matches_def)
  then show ?case using Cons k(2) by (simp add: Let_def)
qed simp

subsection \<open>The invariant of the loop\<close>

text \<open>
  The buffer holds the header, instructions that write a prefix of the target, and a literal
  that is not finished, with the slot of its count.
\<close>

definition pending :: "u8 \<Rightarrow> u8 list \<Rightarrow> u8 list" where
  "pending slot lit = (if lit = [] then [] else slot # lit)"

definition content_inv :: "u8 list \<Rightarrow> u8 list \<Rightarrow> u8 list \<Rightarrow> delta_state \<Rightarrow> bool" where
  "content_inv hdr src trg st \<longleftrightarrow>
     (\<exists>ops t lit slot. ds_buf st = hdr @ ops @ pending slot lit \<and> ds_inscnt st = int (length lit) \<and>
        length lit < 127 \<and> take (ds_data st) trg = t @ lit \<and> decodes src ops t \<and>
        length ops \<le> 2 * length t) \<and>
     (ds_data st < length trg \<longrightarrow> RABIN_WINDOW \<le> ds_data st) \<and> matches src trg (ds_data st) (ds_moff st, ds_msize st)"

definition index_ok :: "git_delta_index \<Rightarrow> bool" where
  "index_ok index \<longleftrightarrow>
     length (di_hash index) = Suc (unat (di_hash_mask index)) \<and>
     (\<forall>es\<in>set (di_hash index). \<forall>e\<in>set es. e_ptr e \<le> length (di_src_buf index))"

lemma content_inv_data: "content_inv hdr src trg st \<Longrightarrow> ds_data st \<le> length trg"
  by (simp add: content_inv_def matches_def)

lemma content_inv_length:
  "content_inv hdr src trg st \<Longrightarrow> length (ds_buf st) \<le> length hdr + 2 * ds_data st + 1"
proof -
  assume inv: "content_inv hdr src trg st"
  then obtain ops t lit slot where a: "ds_buf st = hdr @ ops @ pending slot lit"
    "take (ds_data st) trg = t @ lit" "length ops \<le> 2 * length t"
    by (auto simp: content_inv_def)
  have "ds_data st = length t + length lit"
    using arg_cong [OF a(2), of length] content_inv_data [OF inv] by simp
  then show ?thesis using a by (simp add: pending_def)
qed

lemma find_match_inv:
  assumes "content_inv hdr (di_src_buf index) trg st" "index_ok index"
  shows "content_inv hdr (di_src_buf index) trg (find_match index trg st)"
proof -
  let ?val = "rabin_step (rabin_shift_out (ds_val st) (trg ! (ds_data st - RABIN_WINDOW))) (trg ! ds_data st)"
  let ?i = "unat (?val AND di_hash_mask index)"
  have "?val AND di_hash_mask index \<le> di_hash_mask index" by (rule word_and_le1)
  then have "?i < length (di_hash index)"
    using assms(2) by (simp add: index_ok_def word_le_nat_alt)
  then have "di_hash index ! ?i \<in> set (di_hash index)" by (rule nth_mem)
  then have "\<forall>e\<in>set (di_hash index ! ?i). e_ptr e \<le> length (di_src_buf index)"
    using assms(2) unfolding index_ok_def by blast
  from search_bucket_matches [OF this content_inv_data [OF assms(1)], of "(ds_moff st, ds_msize st)" ?val]
  show ?thesis using assms(1) by (simp add: find_match_def content_inv_def Let_def)
qed

lemma set_count_pending:
  assumes "ds_buf st = hdr @ ops @ pending slot lit" "ds_inscnt st = int (length lit)" "lit \<noteq> []"
  shows "set_count st = st\<lparr>ds_buf := hdr @ ops @ of_nat (length lit) # lit\<rparr>"
proof -
  have "nat (int (length (ds_buf st)) - ds_inscnt st - 1) = length (hdr @ ops)"
    using assms by (simp add: pending_def)
  then show ?thesis using assms by (simp add: set_count_def pending_def list_update_append)
qed

lemma insert_literal_inv:
  assumes inv: "content_inv hdr src trg st" and less: "ds_data st < length trg"
  shows "content_inv hdr src trg (insert_literal trg st) \<and> ds_data (insert_literal trg st) = Suc (ds_data st) \<and>
    length (ds_buf (insert_literal trg st)) \<le> length (ds_buf st) + 2 \<and>
    ds_bufsize (insert_literal trg st) = ds_bufsize st"
proof -
  obtain ops t lit slot where a: "ds_buf st = hdr @ ops @ pending slot lit" "ds_inscnt st = int (length lit)"
    "length lit < 127" "take (ds_data st) trg = t @ lit" "decodes src ops t" "length ops \<le> 2 * length t"
    using inv by (auto simp: content_inv_def)
  have w: "RABIN_WINDOW \<le> ds_data st" and m: "ds_moff st \<le> length src"
    using inv less by (auto simp: content_inv_def matches_def)
  define x lit1 slot1 where "x = trg ! ds_data st" and "lit1 = lit @ [x]"
    and "slot1 = (if lit = [] then 0 else slot)"
  define st1 where "st1 = st\<lparr>ds_buf := hdr @ ops @ pending slot1 lit1, ds_data := ds_data st + 1,
    ds_inscnt := int (length lit1)\<rparr>"
  have t1: "take (ds_data st1) trg = t @ lit1"
    using a(4) less by (simp add: st1_def lit1_def x_def take_Suc_conv_app_nth)
  have buf: "(if ds_inscnt st = 0 then ds_buf st @ [0] else ds_buf st) @ [x] = ds_buf st1"
    using a by (simp add: st1_def pending_def lit1_def slot1_def)
  have e: "st\<lparr>ds_buf := (if ds_inscnt st = 0 then ds_buf st @ [0] else ds_buf st) @ [trg ! ds_data st],
      ds_data := ds_data st + 1, ds_inscnt := ds_inscnt st + 1\<rparr> = st1"
    using buf a(2) by (simp add: st1_def x_def lit1_def)
  have ins: "insert_literal trg st =
      (if length lit1 = 127 then (set_count st1)\<lparr>ds_inscnt := 0\<rparr> else st1)\<lparr>ds_msize := 0\<rparr>"
    unfolding insert_literal_def Let_def e by (simp add: st1_def)
  show ?thesis
  proof (cases "length lit1 = 127")
    case True
    then have ne: "lit1 \<noteq> []" by auto
    have sc: "set_count st1 = st1\<lparr>ds_buf := hdr @ ops @ of_nat (length lit1) # lit1\<rparr>"
      by (rule set_count_pending [OF _ _ ne]) (simp_all add: st1_def)
    have d: "decodes src (ops @ of_nat (length lit1) # lit1) (t @ lit1)"
      using decodes_append [OF a(5) decodes_literal [OF ne, of src]] True by simp
    have l: "length (ops @ of_nat (length lit1) # lit1) \<le> 2 * length (t @ lit1)"
      using a(6) True by simp
    have "content_inv hdr src trg (insert_literal trg st)"
      unfolding content_inv_def
      using ins True sc d l t1 w m less
      by (intro conjI exI [of _ "ops @ of_nat (length lit1) # lit1"] exI [of _ "t @ lit1"] exI [of _ "[]"])
        (simp_all add: pending_def st1_def matches_def)
    then show ?thesis using ins True sc a by (auto simp: st1_def lit1_def pending_def)
  next
    case False
    then have "length lit1 < 127" using a(3) by (simp add: lit1_def)
    then have "content_inv hdr src trg (insert_literal trg st)"
      unfolding content_inv_def
      using ins False a t1 w m less
      by (intro conjI exI [of _ ops] exI [of _ t] exI [of _ lit1] exI [of _ slot1])
        (simp_all add: st1_def matches_def)
    then show ?thesis using ins False a by (simp add: st1_def lit1_def pending_def)
  qed
qed

text \<open>Extending a match backwards takes bytes off the literal.\<close>

lemma take_less_snoc:
  assumes "take n xs = ys @ lit" "lit \<noteq> []" "n \<le> length xs"
  shows "take (n - 1) xs = ys @ butlast lit \<and> last lit = xs ! (n - 1) \<and> 0 < n"
proof -
  have n: "0 < n" using assms by (cases n) auto
  have "take (n - 1) xs = butlast (take n xs)" using assms(3) by (simp add: butlast_take)
  moreover have "last (take n xs) = xs ! (n - 1)"
    using n assms(3) by (metis Suc_diff_1 Suc_le_lessD last_snoc take_Suc_conv_app_nth)
  ultimately show ?thesis using assms(1,2) n by (simp add: butlast_append)
qed

lemma match_back_spec:
  assumes "ds_buf st = pre @ slot # lit" "lit \<noteq> []" "ds_inscnt st = int (length lit)"
    and "take (ds_data st) trg = t @ lit" "matches src trg (ds_data st) (m, ds_msize st)"
  shows "\<exists>k\<le>length lit. k \<le> m \<and> (let st' = match_back src trg m st; lit' = take (length lit - k) lit in
    ds_buf st' = pre @ pending slot lit' \<and>
    ds_inscnt st' = (if lit' = [] then -1 else int (length lit')) \<and>
    ds_data st' = ds_data st - k \<and> k \<le> ds_data st \<and> ds_msize st' = ds_msize st + k \<and> ds_moff st' = m - k \<and>
    take (ds_data st') trg = t @ lit' \<and> matches src trg (ds_data st') (ds_moff st', ds_msize st') \<and>
    ds_val st' = ds_val st \<and> ds_bufsize st' = ds_bufsize st)"
  using assms
proof (induction m arbitrary: st lit)
  case 0
  then show ?case by (intro exI [of _ 0]) (simp add: pending_def)
next
  case (Suc m)
  show ?case
  proof (cases "src ! m = trg ! (ds_data st - 1)")
    case False
    then show ?thesis using Suc.prems by (intro exI [of _ 0]) (simp add: pending_def)
  next
    case True
    have le: "ds_data st \<le> length trg" using Suc.prems(5) by (simp add: matches_def)
    note tk = take_less_snoc [OF Suc.prems(4,2) le]
    define st1 where "st1 = st\<lparr>ds_msize := ds_msize st + 1, ds_moff := m, ds_data := ds_data st - 1,
      ds_buf := butlast (ds_buf st), ds_inscnt := ds_inscnt st - 1\<rparr>"
    have m1: "matches src trg (ds_data st1) (m, ds_msize st1)"
      unfolding matches_def
    proof (intro conjI allI impI)
      fix j assume j: "j < snd (m, ds_msize st1)"
      show "src ! (fst (m, ds_msize st1) + j) = trg ! (ds_data st1 + j)"
      proof (cases j)
        case 0
        then show ?thesis using True by (simp add: st1_def)
      next
        case (Suc i)
        then have "i < ds_msize st" using j by (simp add: st1_def)
        then show ?thesis using Suc Suc.prems(5) tk by (simp add: matches_def st1_def)
      qed
    qed (use Suc.prems(5) tk in \<open>simp_all add: matches_def st1_def\<close>)
    have run: "match_back src trg (Suc m) st = (if ds_inscnt st1 \<noteq> 0 then match_back src trg m st1
        else st1\<lparr>ds_buf := butlast (ds_buf st1), ds_inscnt := ds_inscnt st1 - 1\<rparr>)"
      using True by (simp add: st1_def Let_def)
    show ?thesis
    proof (cases "butlast lit = []")
      case nil: True
      then have l1: "length lit = 1" using Suc.prems(2) by (cases lit rule: rev_cases) auto
      then have "lit = [last lit]" using nil Suc.prems(2) by (metis append_butlast_last_id append_Nil)
      then have "butlast (ds_buf st) = pre @ [slot]" using Suc.prems(1) by (metis butlast_snoc append.assoc append_Cons append_Nil)
      then show ?thesis
        using run l1 Suc.prems(3) tk nil m1 by (intro exI [of _ 1]) (simp add: st1_def pending_def Let_def)
    next
      case ne: False
      then have i: "ds_inscnt st1 = int (length (butlast lit))" "ds_inscnt st1 \<noteq> 0"
        using Suc.prems(2,3) by (cases lit rule: rev_cases; simp add: st1_def)+
      have b: "ds_buf st1 = pre @ slot # butlast lit" using Suc.prems(1,2) by (simp add: st1_def butlast_append)
      have t1: "take (ds_data st1) trg = t @ butlast lit" using tk by (simp add: st1_def)
      obtain k where k: "k \<le> length (butlast lit)" "k \<le> m" and r: "let st' = match_back src trg m st1; lit' = take (length (butlast lit) - k) (butlast lit) in
        ds_buf st' = pre @ pending slot lit' \<and>
        ds_inscnt st' = (if lit' = [] then -1 else int (length lit')) \<and>
        ds_data st' = ds_data st1 - k \<and> k \<le> ds_data st1 \<and> ds_msize st' = ds_msize st1 + k \<and> ds_moff st' = m - k \<and>
        take (ds_data st') trg = t @ lit' \<and> matches src trg (ds_data st') (ds_moff st', ds_msize st') \<and>
        ds_val st' = ds_val st1 \<and> ds_bufsize st' = ds_bufsize st1"
        using Suc.IH [OF b ne i(1) t1 m1] by blast
      have lit': "take (length (butlast lit) - k) (butlast lit) = take (length lit - Suc k) lit"
        using Suc.prems(2) by (simp add: butlast_conv_take min_def)
      have sk: "Suc k \<le> length lit" using k(1) Suc.prems(2) by (cases lit rule: rev_cases) simp_all
      have run1: "match_back src trg (Suc m) st = match_back src trg m st1" using run i(2) by simp
      have f: "ds_data st1 = ds_data st - 1" "ds_msize st1 = Suc (ds_msize st)" "ds_val st1 = ds_val st"
        "ds_bufsize st1 = ds_bufsize st" by (simp_all add: st1_def)
      have kd: "Suc k \<le> ds_data st" using r f(1) tk by (simp add: Let_def) linarith
      show ?thesis
        using r k(2) sk kd unfolding lit' run1 f Let_def by (intro exI [of _ "Suc k"]) auto
    qed
  qed
qed

lemma finish_literal:
  assumes inv: "content_inv hdr src trg st"
  defines "st1 \<equiv> if ds_inscnt st \<noteq> 0
    then (set_count (match_back src trg (ds_moff st) st))\<lparr>ds_inscnt := 0\<rparr> else st"
  shows "\<exists>ops. ds_buf st1 = hdr @ ops \<and> ds_inscnt st1 = 0 \<and> decodes src ops (take (ds_data st1) trg) \<and>
    length ops \<le> 2 * ds_data st1 \<and> matches src trg (ds_data st1) (ds_moff st1, ds_msize st1) \<and>
    ds_data st1 \<le> ds_data st \<and> ds_data st \<le> ds_data st1 + 126 \<and>
    ds_data st1 + ds_msize st1 = ds_data st + ds_msize st \<and> length (ds_buf st1) \<le> length (ds_buf st) \<and>
    ds_val st1 = ds_val st \<and> ds_bufsize st1 = ds_bufsize st"
proof -
  obtain ops t lit slot where a: "ds_buf st = hdr @ ops @ pending slot lit" "ds_inscnt st = int (length lit)"
    "length lit < 127" "take (ds_data st) trg = t @ lit" "decodes src ops t" "length ops \<le> 2 * length t"
    using inv by (auto simp: content_inv_def)
  have m: "matches src trg (ds_data st) (ds_moff st, ds_msize st)" using inv by (simp add: content_inv_def)
  have le: "ds_data st \<le> length trg" by (rule content_inv_data [OF inv])
  show ?thesis
  proof (cases "lit = []")
    case True
    have "st1 = st" "t = take (ds_data st) trg" using True a by (simp_all add: st1_def)
    moreover have "length t = ds_data st" using \<open>t = _\<close> le by simp
    ultimately show ?thesis using a m True by (intro exI [of _ ops]) (simp add: pending_def)
  next
    case False
    define st2 where "st2 = match_back src trg (ds_moff st) st"
    have buf: "ds_buf st = (hdr @ ops) @ slot # lit" using a(1) False by (simp add: pending_def)
    obtain k where k: "k \<le> length lit" "k \<le> ds_moff st" and
      r: "let lit' = take (length lit - k) lit in
        ds_buf st2 = (hdr @ ops) @ pending slot lit' \<and>
        ds_inscnt st2 = (if lit' = [] then -1 else int (length lit')) \<and>
        ds_data st2 = ds_data st - k \<and> k \<le> ds_data st \<and> ds_msize st2 = ds_msize st + k \<and>
        ds_moff st2 = ds_moff st - k \<and>
        take (ds_data st2) trg = t @ lit' \<and> matches src trg (ds_data st2) (ds_moff st2, ds_msize st2) \<and>
        ds_val st2 = ds_val st \<and> ds_bufsize st2 = ds_bufsize st"
      using match_back_spec [OF buf False a(2,4) m] unfolding st2_def Let_def by blast
    define lit' where "lit' = take (length lit - k) lit"
    note r = r [unfolded Let_def, folded lit'_def]
    have st1: "st1 = (set_count st2)\<lparr>ds_inscnt := 0\<rparr>" using a(2) False by (simp add: st1_def st2_def)
    have len: "length t + length lit' = ds_data st2"
      using arg_cong [of _ _ length, OF conjunct1 [OF conjunct2 [OF conjunct2 [OF conjunct2 [OF conjunct2 [OF conjunct2 [OF conjunct2 [OF r]]]]]]]] le r
      by simp
    have l': "length lit' \<le> length lit" by (simp add: lit'_def)
    have common: "ds_data st2 \<le> ds_data st" "ds_data st \<le> ds_data st2 + 126"
      "ds_data st2 + ds_msize st2 = ds_data st + ds_msize st"
      using r k a(3) by auto
    show ?thesis
    proof (cases "lit' = []")
      case True
      then have "ds_inscnt st2 = -1" using r by simp
      then have "set_count st2 = st2" by (simp add: set_count_def list_update_beyond)
      then show ?thesis using st1 r True a(5,6) common len buf
        by (intro exI [of _ ops]) (auto simp: pending_def)
    next
      case ne: False
      have sc: "set_count st2 = st2\<lparr>ds_buf := hdr @ ops @ of_nat (length lit') # lit'\<rparr>"
        by (rule set_count_pending [OF _ _ ne]) (use r ne in simp_all)
      have "decodes src (ops @ of_nat (length lit') # lit') (t @ lit')"
        using decodes_append [OF a(5) decodes_literal [OF ne, of src]] l' a(3) by simp
      moreover have "length (ops @ of_nat (length lit') # lit') \<le> 2 * ds_data st2"
        using a(6) len ne by (cases lit') auto
      ultimately show ?thesis using st1 sc r common l' buf
        by (intro exI [of _ "ops @ of_nat (length lit') # lit'"]) (auto simp: pending_def)
    qed
  qed
qed

lemma write_copy_inv:
  assumes inv: "content_inv hdr src trg st" and ms: "4 \<le> ds_msize st" and src: "length src \<le> UINT_MAX"
  shows "content_inv hdr src trg (write_copy src trg st) \<and> ds_data st < ds_data (write_copy src trg st) \<and>
    length (ds_buf (write_copy src trg st)) \<le> length (ds_buf st) + 7 \<and>
    ds_bufsize (write_copy src trg st) = ds_bufsize st"
proof -
  define st1 where "st1 = (if ds_inscnt st \<noteq> 0
    then (set_count (match_back src trg (ds_moff st) st))\<lparr>ds_inscnt := 0\<rparr> else st)"
  obtain ops where a: "ds_buf st1 = hdr @ ops" "ds_inscnt st1 = 0" "decodes src ops (take (ds_data st1) trg)"
    "length ops \<le> 2 * ds_data st1" "matches src trg (ds_data st1) (ds_moff st1, ds_msize st1)"
    "ds_data st1 \<le> ds_data st" "ds_data st \<le> ds_data st1 + 126"
    "ds_data st1 + ds_msize st1 = ds_data st + ds_msize st" "length (ds_buf st1) \<le> length (ds_buf st)"
    "ds_val st1 = ds_val st" "ds_bufsize st1 = ds_bufsize st"
    using finish_literal [OF inv] unfolding st1_def by blast
  define left where "left = (if ds_msize st1 < 0x10000 then 0 else ds_msize st1 - 0x10000)"
  define n where "n = ds_msize st1 - left"
  define data where "data = ds_data st1 + n"
  have w: "write_copy src trg st = st1\<lparr>ds_buf := ds_buf st1 @ copy_op (of_nat (ds_moff st1)) (of_nat n),
      ds_data := data, ds_moff := ds_moff st1 + n, ds_msize := left,
      ds_val := (if left < 4096 then foldl rabin_step 0 (seg trg (data - RABIN_WINDOW) RABIN_WINDOW) else ds_val st1)\<rparr>"
    unfolding write_copy_def Let_def st1_def left_def n_def data_def by simp
  have n: "4 \<le> n" "n \<le> 0x10000" "n + left = ds_msize st1" "ds_data st < data"
    using ms a(6-8) by (auto simp: n_def left_def data_def)
  have b: "ds_moff st1 + n \<le> length src" "ds_data st1 + n \<le> length trg"
    using a(5) n by (auto simp: matches_def)
  have "seg src (ds_moff st1) n = seg trg (ds_data st1) n"
    using a(5) b n by (intro nth_equalityI) (auto simp: matches_def seg_def length_seg)
  then have "decodes src (ops @ copy_op (of_nat (ds_moff st1)) (of_nat n)) (take (ds_data st1) trg @ seg trg (ds_data st1) n)"
    using decodes_append [OF a(3) decodes_copy [OF _ n(2) b(1) src]] n(1) by simp
  then have d: "decodes src (ops @ copy_op (of_nat (ds_moff st1)) (of_nat n)) (take data trg)"
    by (simp add: data_def take_add seg_def)
  have "unat (of_nat n :: u32) = n" using n(2) by (simp add: unat_of_nat)
  then have "(of_nat n :: u32) \<noteq> 0" "(of_nat n :: u32) \<le> 0x10000" using n(1,2) by (auto simp: word_le_nat_alt)
  then have l: "length (copy_op (of_nat (ds_moff st1)) (of_nat n)) \<le> 7" by (rule length_copy_op)
  have mt: "matches src trg data (ds_moff st1 + n, left)"
    using a(5) n(3) by (auto simp: matches_def data_def add.assoc)
  have "RABIN_WINDOW \<le> data" using inv n(4) ms by (auto simp: content_inv_def matches_def)
  moreover have "length (take data trg) = data" using b by (simp add: data_def)
  ultimately have "content_inv hdr src trg (write_copy src trg st)"
    unfolding content_inv_def w using a d l mt n(1)
    by (intro conjI exI [of _ "ops @ copy_op (of_nat (ds_moff st1)) (of_nat n)"] exI [of _ "take data trg"]
        exI [of _ "[]"]) (simp_all add: pending_def data_def)
  then show ?thesis using w n(4) l a by simp
qed

subsection \<open>The size of the buffer\<close>

lemma content_inv_bufsize [simp]: "content_inv hdr src trg (st\<lparr>ds_bufsize := b\<rparr>) = content_inv hdr src trg st"
  by (simp add: content_inv_def)

definition size_inv :: "nat \<Rightarrow> nat \<Rightarrow> delta_state \<Rightarrow> bool" where
  "size_inv max_size trg_len st \<longleftrightarrow>
     (let size = unat (ds_bufsize st) in
      length (ds_buf st) + 7 \<le> size \<and> (8192 \<le> size \<or> max_size \<noteq> 0 \<and> max_size + 35 = size) \<and>
      size \<le> 3 * trg_len + 9000)"

lemma MAX_OP_SIZE_unat: "unat MAX_OP_SIZE = 34"
  by (simp add: MAX_OP_SIZE_def RABIN_WINDOW_def)

lemma first_size_unat:
  "max_size \<le> UINT_MAX - 35 \<Longrightarrow>
   unat (first_size max_size b) = (if max_size \<noteq> 0 \<and> unat b \<ge> max_size then max_size + 35 else unat b)"
proof -
  assume m: "max_size \<le> UINT_MAX - 35"
  have "of_nat max_size + MAX_OP_SIZE + 1 = (of_nat (max_size + 35) :: u32)"
    by (simp add: MAX_OP_SIZE_def RABIN_WINDOW_def)
  moreover have "unat (of_nat (max_size + 35) :: u32) = max_size + 35"
    using m unfolding unat_of_nat by (simp add: UINT_MAX_def)
  ultimately have "unat (of_nat max_size + MAX_OP_SIZE + 1 :: u32) = max_size + 35" by (simp only:)
  then show ?thesis unfolding first_size_def by presburger
qed

lemma three_halves: "3 * unat (b :: u32) < 2 ^ 32 \<Longrightarrow> unat (b * 3 div 2) = unat b * 3 div 2"
  by (simp add: unat_div unat_word_ariths mult.commute)

lemma grow_buf_spec:
  assumes fits: "length (ds_buf st) \<le> unat (ds_bufsize st)"
    and size: "8192 \<le> unat (ds_bufsize st) \<or> max_size \<noteq> 0 \<and> max_size + 35 = unat (ds_bufsize st)"
    "unat (ds_bufsize st) \<le> 3 * trg_len + 9000"
    and len: "length (ds_buf st) \<le> 2 * trg_len + 11" and trg: "trg_len \<le> 2 ^ 28"
    and max: "max_size \<le> UINT_MAX - 35"
  shows "case grow_buf can_alloc max_size st of
      Continue st' \<Rightarrow> size_inv max_size trg_len st' \<and> (\<exists>b. st' = st\<lparr>ds_bufsize := b\<rparr>)
    | Break st' \<Rightarrow> max_size \<noteq> 0 \<and> max_size < length (ds_buf st') \<and> (\<exists>b. st' = st\<lparr>ds_bufsize := b\<rparr>)
    | Return e \<Rightarrow> e = GIT_ERROR \<and> (\<exists>n. \<not> can_alloc n)"
proof -
  let ?L = "length (ds_buf st)" and ?B = "unat (ds_bufsize st)"
  have B: "36 \<le> ?B" using size(1) by auto
  then have "MAX_OP_SIZE \<le> ds_bufsize st" by (simp add: word_le_nat_alt MAX_OP_SIZE_unat)
  then have sub: "unat (ds_bufsize st - MAX_OP_SIZE) = ?B - 34" by (simp add: unat_sub MAX_OP_SIZE_unat)
  have "unat (of_nat ?L :: u32) = ?L" using len trg by (simp add: unat_of_nat)
  then have full: "of_nat ?L \<ge> ds_bufsize st - MAX_OP_SIZE \<longleftrightarrow> ?B - 34 \<le> ?L"
    by (simp add: word_le_nat_alt sub)
  have nowrap: "3 * ?B < 2 ^ 32" using size(2) trg by simp
  define B' where "B' = first_size max_size (ds_bufsize st * 3 div 2)"
  have B': "unat B' = (if max_size \<noteq> 0 \<and> ?B * 3 div 2 \<ge> max_size then max_size + 35 else ?B * 3 div 2)"
    unfolding B'_def first_size_unat [OF max] three_halves [OF nowrap] by simp
  show ?thesis
  proof (cases "?B - 34 \<le> ?L")
    case False
    then have "grow_buf can_alloc max_size st = Continue st" using full by (simp add: grow_buf_def)
    moreover have "size_inv max_size trg_len st" using False size B by (auto simp: size_inv_def Let_def)
    ultimately show ?thesis by simp (rule exI [of _ "ds_bufsize st"], simp)
  next
    case True
    have inv: "size_inv max_size trg_len (st\<lparr>ds_bufsize := B'\<rparr>)" if "\<not> (max_size \<noteq> 0 \<and> max_size < ?L)"
      using that B' fits size(1) True len by (auto simp: size_inv_def Let_def)
    show ?thesis
      using True full inv by (auto simp: grow_buf_def Let_def B'_def [symmetric])
  qed
qed

subsection \<open>The loop\<close>

lemma delta_step_spec:
  assumes inv: "content_inv hdr (di_src_buf index) trg st" "size_inv max_size (length trg) st"
    and idx: "index_ok index" and less: "ds_data st < length trg"
    and lim: "length (di_src_buf index) \<le> UINT_MAX" "length trg \<le> 2 ^ 28" "max_size \<le> UINT_MAX - 35" "length hdr \<le> 10"
  shows "\<exists>r. delta_step can_alloc index trg max_size st = Some r \<and>
    (case r of
      Continue st' \<Rightarrow> content_inv hdr (di_src_buf index) trg st' \<and> size_inv max_size (length trg) st' \<and> ds_data st < ds_data st'
    | Break st' \<Rightarrow> content_inv hdr (di_src_buf index) trg st' \<and> max_size \<noteq> 0 \<and> max_size < length (ds_buf st')
    | Return e \<Rightarrow> e = GIT_ERROR \<and> (\<exists>n. \<not> can_alloc n))"
proof -
  define st1 where "st1 = find_match index trg st"
  define st2 where "st2 = (if ds_msize st1 < 4 then insert_literal trg st1 else write_copy (di_src_buf index) trg st1)"
  have same: "ds_data st1 = ds_data st" "ds_buf st1 = ds_buf st" "ds_bufsize st1 = ds_bufsize st"
    by (simp_all add: st1_def find_match_def Let_def)
  have i1: "content_inv hdr (di_src_buf index) trg st1" unfolding st1_def by (rule find_match_inv [OF inv(1) idx])
  have s2: "content_inv hdr (di_src_buf index) trg st2 \<and> ds_data st < ds_data st2 \<and>
      length (ds_buf st2) \<le> length (ds_buf st) + 7 \<and> ds_bufsize st2 = ds_bufsize st"
  proof (cases "ds_msize st1 < 4")
    case True
    then show ?thesis using insert_literal_inv [OF i1] less same by (simp add: st2_def)
  next
    case False
    then show ?thesis using write_copy_inv [OF i1 _ lim(1)] same by (simp add: st2_def)
  qed
  have size: "length (ds_buf st) + 7 \<le> unat (ds_bufsize st)"
    "8192 \<le> unat (ds_bufsize st) \<or> max_size \<noteq> 0 \<and> max_size + 35 = unat (ds_bufsize st)"
    "unat (ds_bufsize st) \<le> 3 * length trg + 9000"
    using inv(2) by (simp_all add: size_inv_def Let_def)
  have fits: "length (ds_buf st2) \<le> unat (ds_bufsize st2)" using s2 size(1) by simp
  have "length (ds_buf st2) \<le> length hdr + 2 * ds_data st2 + 1" "ds_data st2 \<le> length trg"
    using s2 content_inv_length content_inv_data by blast+
  then have len: "length (ds_buf st2) \<le> 2 * length trg + 11" using lim(4) by linarith
  have "delta_step can_alloc index trg max_size st = Some (grow_buf can_alloc max_size st2)"
    using fits by (simp add: delta_step_def st1_def [symmetric] st2_def [symmetric] Let_def)
  moreover note grow_buf_spec [OF fits _ _ len lim(2,3), of can_alloc]
  ultimately show ?thesis using s2 size by (auto split: step.splits)
qed

lemma delta_loop_spec:
  assumes idx: "index_ok index"
    and lim: "length (di_src_buf index) \<le> UINT_MAX" "length trg \<le> 2 ^ 28" "max_size \<le> UINT_MAX - 35" "length hdr \<le> 10"
  shows "content_inv hdr (di_src_buf index) trg st \<Longrightarrow> size_inv max_size (length trg) st \<Longrightarrow>
    length trg - ds_data st < fuel \<Longrightarrow>
    \<exists>r. delta_loop can_alloc index trg max_size fuel st = Some r \<and>
      (case r of Inl e \<Rightarrow> e = GIT_ERROR \<and> (\<exists>n. \<not> can_alloc n)
       | Inr st' \<Rightarrow> content_inv hdr (di_src_buf index) trg st' \<and>
           (ds_data st' = length trg \<or> max_size \<noteq> 0 \<and> max_size < length (ds_buf st')))"
proof (induction fuel arbitrary: st)
  case (Suc fuel)
  show ?case
  proof (cases "ds_data st < length trg")
    case False
    then show ?thesis using Suc.prems(1) content_inv_data [OF Suc.prems(1)] by simp
  next
    case True
    obtain r where r: "delta_step can_alloc index trg max_size st = Some r" and
      c: "case r of
        Continue st' \<Rightarrow> content_inv hdr (di_src_buf index) trg st' \<and> size_inv max_size (length trg) st' \<and> ds_data st < ds_data st'
      | Break st' \<Rightarrow> content_inv hdr (di_src_buf index) trg st' \<and> max_size \<noteq> 0 \<and> max_size < length (ds_buf st')
      | Return e \<Rightarrow> e = GIT_ERROR \<and> (\<exists>n. \<not> can_alloc n)"
      using delta_step_spec [OF Suc.prems(1,2) idx True lim] by blast
    show ?thesis
    proof (cases r)
      case (Continue st')
      have "length trg - ds_data st' < fuel" using Suc.prems(3) c Continue True by (simp, linarith)
      then show ?thesis using Suc.IH [of st'] c r True Continue by simp
    qed (use c r True in simp_all)
  qed
qed simp

lemma length_put_size_u32: "length (put_size [] v) \<le> 5"
proof -
  have "unat v < 2 ^ 32" using unsigned_less [of v, where ?'a = nat] by simp
  also have "(2 :: nat) ^ 32 \<le> 128 ^ 5" by simp
  finally show ?thesis by (rule length_put_size) simp
qed

lemma git_delta_create_from_index_spec:
  assumes idx: "index_ok index" and src: "length (di_src_buf index) \<le> UINT_MAX"
    and trg: "trg \<noteq> []" "length trg \<le> 2 ^ 28"
  shows "\<exists>r. git_delta_create_from_index can_alloc index trg max_size = Some r \<and>
    (case r of
      Inl e \<Rightarrow> e = GIT_ERROR \<and> ((\<exists>n. \<not> can_alloc n) \<or> UINT_MAX - 35 < max_size) \<or> e = GIT_EBUFS \<and> max_size \<noteq> 0
    | Inr d \<Rightarrow> (\<exists>delta. d = Some delta \<and> (max_size = 0 \<or> length delta \<le> max_size) \<and>
        git_delta_apply (\<lambda>_. True) (di_src_buf index) delta = Some (Inr trg)))"
proof (cases "max_size \<le> UINT_MAX - 35")
  case False
  then show ?thesis using trg by (auto simp: git_delta_create_from_index_def MAX_OP_SIZE_unat)
next
  case max: True
  let ?src = "di_src_buf index"
  define hdr where "hdr = put_size [] (of_nat (length ?src)) @ put_size [] (of_nat (length trg))"
  define st where "st = delta_start index trg max_size"
  have ok: "\<not> (length ?src > UINT_MAX \<or> length trg > UINT_MAX \<or> max_size > UINT_MAX - unat MAX_OP_SIZE - 1)"
    using src trg max by (simp add: UINT_MAX_def MAX_OP_SIZE_unat)
  have hdr: "length hdr \<le> 10"
    using length_put_size_u32 [of "of_nat (length ?src)"] length_put_size_u32 [of "of_nat (length trg)"]
    by (simp add: hdr_def)
  have start: "ds_buf st = hdr @ [0] @ take 16 trg" "ds_data st = length (take 16 trg)"
    "ds_inscnt st = int (length (take 16 trg))" "ds_moff st = 0" "ds_msize st = 0"
    "ds_bufsize st = first_size max_size 8192"
    unfolding st_def delta_start_def Let_def hdr_def
    by (simp_all add: put_size_start [of "put_size [] (of_nat (length ?src))"] RABIN_WINDOW_def)
  have size: "unat (ds_bufsize st) = (if max_size \<noteq> 0 \<and> 8192 \<ge> max_size then max_size + 35 else 8192)"
    using first_size_unat [OF max, of 8192] start(6) by simp
  have l27: "length (ds_buf st) \<le> 27" using hdr start(1) by simp
  then have fits: "length (ds_buf st) \<le> unat (ds_bufsize st)" unfolding size by simp
  have sinv: "size_inv max_size (length trg) st"
    unfolding size_inv_def Let_def size using l27 by auto
  have cinv: "content_inv hdr ?src trg st"
    unfolding content_inv_def
    by (intro conjI, rule exI [of _ "[]"], rule exI [of _ "[]"], rule exI [of _ "take 16 trg"],
        rule exI [of _ "0 :: u8"])
      (use trg(1) start in \<open>auto simp: pending_def matches_def RABIN_WINDOW_def decodes_Nil min_def\<close>)
  have fuel: "length trg - ds_data st < Suc (length trg)" by simp
  obtain r where loop: "delta_loop can_alloc index trg max_size (Suc (length trg)) st = Some r" and
    r: "case r of Inl e \<Rightarrow> e = GIT_ERROR \<and> (\<exists>n. \<not> can_alloc n)
       | Inr st' \<Rightarrow> content_inv hdr ?src trg st' \<and>
           (ds_data st' = length trg \<or> max_size \<noteq> 0 \<and> max_size < length (ds_buf st'))"
    using delta_loop_spec [OF idx src trg(2) max hdr cinv sinv fuel, of can_alloc] by blast
  show ?thesis
  proof (cases "can_alloc (unat (ds_bufsize st))")
    case False
    then show ?thesis using ok trg(1) by (auto simp: git_delta_create_from_index_def st_def [symmetric] Let_def)
  next
    case ca: True
    show ?thesis
    proof (cases r)
      case (Inl e)
      then show ?thesis using ok trg(1) ca fits loop r
        by (simp add: git_delta_create_from_index_def st_def [symmetric] Let_def)
    next
      case (Inr st1)
      define st2 where "st2 = (if ds_inscnt st1 \<noteq> 0 then set_count st1 else st1)"
      have run: "git_delta_create_from_index can_alloc index trg max_size =
          (if max_size \<noteq> 0 \<and> length (ds_buf st2) > max_size then Some (Inl GIT_EBUFS) else Some (Inr (Some (ds_buf st2))))"
        using ok trg(1) ca fits loop Inr
        by (simp add: git_delta_create_from_index_def st_def [symmetric] Let_def st2_def)
      have len2: "length (ds_buf st2) = length (ds_buf st1)" by (simp add: st2_def set_count_def)
      show ?thesis
      proof (cases "max_size \<noteq> 0 \<and> length (ds_buf st2) > max_size")
        case False
        then have c1: "content_inv hdr ?src trg st1" "ds_data st1 = length trg" using r Inr len2 by auto
        then obtain ops t lit slot where a: "ds_buf st1 = hdr @ ops @ pending slot lit" "ds_inscnt st1 = int (length lit)"
          "length lit < 127" "trg = t @ lit" "decodes ?src ops t"
          by (auto simp: content_inv_def)
        have "\<exists>ops'. ds_buf st2 = hdr @ ops' \<and> decodes ?src ops' trg"
        proof (cases "lit = []")
          case True
          then show ?thesis using a by (auto simp: st2_def pending_def)
        next
          case ne: False
          then have "ds_buf st2 = hdr @ ops @ of_nat (length lit) # lit"
            using set_count_pending [OF a(1,2) ne] a(2) by (simp add: st2_def)
          then show ?thesis using decodes_append [OF a(5) decodes_literal [OF ne, of ?src]] a(3,4) by auto
        qed
        then obtain ops' where o: "ds_buf st2 = hdr @ ops'" "decodes ?src ops' trg" by blast
        have n: "unat (ucast (of_nat (length ?src) :: u32) :: size_t) = length ?src"
          "unat (ucast (of_nat (length trg) :: u32) :: size_t) = length trg"
          using src trg(2) by (simp_all add: unat_ucast_u32_u64 unat_of_nat UINT_MAX_def)
        have "git_delta_apply (\<lambda>_. True) ?src (ds_buf st2) = Some (Inr trg)"
          using n apply_decodes [OF o(2)] trg(2) unfolding o(1) hdr_def
          by (simp add: git_delta_apply_def hdr_sz_put_size SIZE_MAX_def)
        then show ?thesis using run False by (simp add: not_less)
      qed (use run in auto)
    qed
  qed
qed

subsection \<open>The fingerprint\<close>

lemma top_bit: "bit (w :: u32) 31 \<longleftrightarrow> 0x80000000 \<le> w"
proof
  assume "bit w 31"
  then have "\<not> unat w < 2 ^ 31" using bit_bound [of w 31 31] by blast
  then show "0x80000000 \<le> w" by (simp add: word_le_nat_alt)
next
  assume big: "0x80000000 \<le> w"
  show "bit w 31"
  proof (rule ccontr)
    assume no: "\<not> bit w 31"
    have "drop_bit 31 w = 0"
    proof (rule bit_word_eqI)
      fix n
      show "bit (drop_bit 31 w) n = bit 0 n"
        using no bit_imp_le_length [of w "31 + n"] by (cases n) (auto simp: bit_simps)
    qed
    then have "unat w div 2 ^ 31 = 0" by (metis drop_bit_eq_div unat_0 unat_drop_bit_eq)
    then show False using big by (simp add: word_le_nat_alt div_eq_0_iff)
  qed
qed

text \<open>The tables: the top bit of \<open>T[i]\<close> is the lowest bit of \<open>i\<close>, and that of \<open>U[i]\<close> is clear.\<close>

primrec alternate :: "bool \<Rightarrow> u32 list \<Rightarrow> bool" where
  "alternate b [] = True"
| "alternate b (t # ts) = ((0x80000000 \<le> t) = b \<and> alternate (\<not> b) ts)"

lemma alternate_nth: "alternate b ts \<Longrightarrow> i < length ts \<Longrightarrow> (0x80000000 \<le> ts ! i) = (even i = b)"
proof (induction ts arbitrary: b i)
  case (Cons t ts)
  then show ?case by (cases i) auto
qed simp

lemma T_tab_top: "length T_tab = 256 \<and> alternate False T_tab"
  by (simp add: T_tab_def)

lemma U_tab_top: "length U_tab = 256 \<and> list_all (\<lambda>u. u < 0x80000000) U_tab"
  by (simp add: U_tab_def)

lemma rabin_step_top:
  assumes "\<not> bit val 31"
  shows "unat (drop_bit 23 val) < length T_tab \<and> \<not> bit (rabin_step val c) 31"
proof -
  let ?i = "unat (drop_bit 23 val)"
  have "drop_bit 8 (drop_bit 23 val) = 0"
  proof (rule bit_word_eqI)
    fix n assume "n < LENGTH(32)"
    have "bit val (31 + n) \<Longrightarrow> n = 0" using bit_imp_le_length [of val "31 + n"] by simp
    then show "bit (drop_bit 8 (drop_bit 23 val)) n = bit (0 :: u32) n"
      using assms by (cases n) (auto simp: bit_simps)
  qed
  then have "unat (drop_bit 8 (drop_bit 23 val)) = 0" by simp
  then have i: "?i < 256" unfolding unat_drop_bit_eq [of 8] by (simp add: drop_bit_eq_div div_eq_0_iff)
  have "bit (T_tab ! ?i) 31 = odd ?i"
    using alternate_nth [of False T_tab ?i] T_tab_top i unfolding top_bit by simp
  also have "\<dots> = bit (drop_bit 23 val) 0"
    by (simp add: bit_unsigned_iff flip: bit_0)
  also have "\<dots> = bit val 23" by (simp add: bit_simps)
  finally have "\<not> bit (rabin_step val c) 31"
    using bit_imp_le_length [of c 31] by (auto simp: rabin_step_def bit_simps)
  then show ?thesis using i T_tab_top by simp
qed

lemma rabin_shift_out_top: "\<not> bit val 31 \<Longrightarrow> unat c < length U_tab \<and> \<not> bit (rabin_shift_out val c) 31"
proof -
  assume v: "\<not> bit val 31"
  have "unat c < length U_tab" using unsigned_less [of c, where ?'a = nat] U_tab_top by simp
  moreover from this have "\<not> bit (U_tab ! unat c) 31"
    using U_tab_top unfolding list_all_length top_bit not_le by blast
  ultimately show ?thesis using v by (simp add: rabin_shift_out_def bit_simps)
qed

lemma fold_rabin_top: "\<not> bit val 31 \<Longrightarrow> \<not> bit (foldl rabin_step val bs) 31"
  by (induction bs arbitrary: val) (use rabin_step_top in simp_all)

subsection \<open>The index\<close>

lemma skip_entries_set: "set (skip_entries k es) \<subseteq> set es"
  by (induction k es rule: skip_entries.induct) auto

lemma cull_bucket_set: "set (cull_bucket cnt es) \<subseteq> set es"
proof (induction cnt es rule: cull_bucket.induct)
  case (2 cnt e es)
  then show ?case using skip_entries_set [of _ "e # es"] by (simp del: skip_entries.simps) blast
qed simp

lemma skip_entries_negative: "k \<le> 0 \<Longrightarrow> skip_entries k es = []"
  by (induction k es rule: skip_entries.induct) auto

text \<open>A bucket of 64 to 127 entries loses all entries but the first: the skip is zero.\<close>

lemma cull_bucket_keeps_first: "cnt < 128 \<Longrightarrow> cull_bucket cnt (e # es) = [e]"
proof -
  assume "cnt < 128"
  then have "cnt div HASH_LIMIT div 2 = 0" by (simp add: HASH_LIMIT_def div_mult2_eq [symmetric])
  then show ?thesis by (simp add: skip_entries_negative del: skip_entries.simps)
qed

lemma hash_bits_bounds: "4 \<le> i \<Longrightarrow> i \<le> 31 \<Longrightarrow> 4 \<le> hash_bits h i \<and> hash_bits h i \<le> 31"
proof (induction h i rule: hash_bits.induct)
  case (1 h i)
  then show ?case by (subst (1 2) hash_bits.simps) auto
qed

lemma index_entries_bound: "0 < n \<Longrightarrow> RABIN_WINDOW * index_entries n \<le> n - 1"
proof -
  assume "0 < n"
  show ?thesis
  proof (cases "n \<ge> 0xffffffff")
    case False
    then have "unat (of_nat (n - 1) :: u32) = n - 1" by (simp add: unat_of_nat)
    then show ?thesis using False by (simp add: index_entries_def RABIN_WINDOW_def)
  qed (simp add: index_entries_def RABIN_WINDOW_def)
qed

lemma index_entries_small: "index_entries n \<le> 2 ^ 32"
proof -
  have "unat (of_nat (n - 1) :: u32) < 2 ^ 32" using unsigned_less [of "of_nat (n - 1) :: u32", where ?'a = nat] by simp
  then have "unat (of_nat (n - 1) :: u32) div 16 \<le> 2 ^ 32"
    using div_le_dividend [of "unat (of_nat (n - 1) :: u32)" 16] by linarith
  then show ?thesis unfolding index_entries_def RABIN_WINDOW_def by simp
qed

definition index_inv :: "u8 list \<Rightarrow> u32 \<Rightarrow> nat \<Rightarrow> index_state \<Rightarrow> bool" where
  "index_inv buf hmask hsize s \<longleftrightarrow>
     (case s of (prev_val, hash, hash_count) \<Rightarrow>
        length hash = hsize \<and> length hash_count = hsize \<and>
        (bit prev_val 31 \<or> hash ! unat (prev_val AND hmask) \<noteq> []) \<and>
        (\<forall>es\<in>set hash. \<forall>e\<in>set es. e_ptr e \<le> length buf))"

lemma index_block_inv:
  assumes inv: "index_inv buf hmask hsize s" and m: "unat hmask < hsize" and d: "data + RABIN_WINDOW \<le> length buf"
  shows "\<exists>s'. index_block buf hmask data s = Some s' \<and> index_inv buf hmask hsize s'"
proof -
  obtain prev_val hash hash_count where s: "s = (prev_val, hash, hash_count)" by (cases s)
  define val where "val = foldl rabin_step 0 (seg buf (data + 1) RABIN_WINDOW)"
  define i where "i = unat (val AND hmask)"
  have top: "\<not> bit val 31" unfolding val_def by (rule fold_rabin_top) simp
  have "val AND hmask \<le> hmask" by (rule word_and_le1)
  then have i: "i < hsize" using m by (simp add: i_def word_le_nat_alt)
  have h: "length hash = hsize" "length hash_count = hsize"
    "bit prev_val 31 \<or> hash ! unat (prev_val AND hmask) \<noteq> []"
    "\<forall>es\<in>set hash. \<forall>e\<in>set es. e_ptr e \<le> length buf"
    using inv s by (simp_all add: index_inv_def)
  have "hash ! i \<in> set hash" using i h(1) by simp
  then have bucket: "\<forall>e\<in>set (hash ! i). e_ptr e \<le> length buf" using h(4) by blast
  have upd: "\<forall>es\<in>set (hash[i := b]). \<forall>e\<in>set es. e_ptr e \<le> length buf"
    if "\<forall>e\<in>set b. e_ptr e \<le> length buf" for b
    using that h(4) set_update_subset_insert [of hash i b] by blast
  show ?thesis
  proof (cases "val = prev_val")
    case True
    then obtain e es where e: "hash ! i = e # es" using h(3) top by (cases "hash ! i") (auto simp: i_def)
    have ii: "unat (prev_val AND hmask) = i" using True by (simp add: i_def)
    let ?b = "e\<lparr>e_ptr := data + RABIN_WINDOW\<rparr> # es"
    have "index_block buf hmask data s = Some (prev_val, hash[i := ?b], hash_count)"
      unfolding s index_block_def prod.case Let_def val_def [symmetric] i_def [symmetric]
      using True e by simp
    moreover have "\<forall>e\<in>set ?b. e_ptr e \<le> length buf" using bucket d e by auto
    then have "index_inv buf hmask hsize (prev_val, hash[i := ?b], hash_count)"
      unfolding index_inv_def prod.case ii by (intro conjI upd) (use h(1,2) i in simp_all)
    ultimately show ?thesis by blast
  next
    case False
    let ?b = "\<lparr>e_ptr = data + RABIN_WINDOW, e_val = val\<rparr> # hash ! i"
    have "index_block buf hmask data s = Some (val, hash[i := ?b], hash_count[i := hash_count ! i + 1])"
      unfolding s index_block_def prod.case Let_def val_def [symmetric] i_def [symmetric]
      using False by simp
    moreover have "\<forall>e\<in>set ?b. e_ptr e \<le> length buf" using bucket d by simp
    then have "index_inv buf hmask hsize (val, hash[i := ?b], hash_count[i := hash_count ! i + 1])"
      unfolding index_inv_def prod.case i_def [symmetric] by (intro conjI upd) (use h(1,2) i in simp_all)
    ultimately show ?thesis by blast
  qed
qed

lemma index_blocks_inv:
  "index_inv buf hmask hsize s \<Longrightarrow> unat hmask < hsize \<Longrightarrow> RABIN_WINDOW * k \<le> length buf \<Longrightarrow>
   \<exists>s'. index_blocks buf hmask k s = Some s' \<and> index_inv buf hmask hsize s'"
proof (induction k arbitrary: s)
  case (Suc k)
  obtain s1 where "index_block buf hmask (RABIN_WINDOW * k) s = Some s1" "index_inv buf hmask hsize s1"
    using index_block_inv [OF Suc.prems(1,2), of "RABIN_WINDOW * k"] Suc.prems(3) by auto
  then show ?case using Suc.IH [of s1] Suc.prems by simp
qed simp

lemma git_delta_index_init_spec:
  assumes "buf \<noteq> []"
  shows "(\<exists>index. git_delta_index_init can_alloc (Some buf) = Some (Inr (Some index)) \<and>
      di_src_buf index = buf \<and> index_ok index) \<or>
    git_delta_index_init can_alloc (Some buf) = Some (Inl GIT_ERROR) \<and>
      (\<exists>n. \<not> can_alloc n)"
proof -
  define entries where "entries = index_entries (length buf)"
  define b where "b = hash_bits (entries div 4) 4"
  define hmask where "hmask = (of_nat (2 ^ b) - 1 :: u32)"
  have b: "4 \<le> b" "b \<le> 31" using hash_bits_bounds [of 4 "entries div 4"] by (simp_all add: b_def)
  have "(2 :: nat) ^ b \<le> 2 ^ 31" using b(2) by (intro power_increasing) simp_all
  moreover have "hmask = of_nat (2 ^ b - 1)" by (simp add: hmask_def of_nat_diff)
  ultimately have hm: "unat hmask = 2 ^ b - 1" by (simp only: unat_of_nat) simp
  have inv0: "index_inv buf hmask (2 ^ b) (NOT 0, replicate (2 ^ b) [], replicate (2 ^ b) 0)"
    by (simp add: index_inv_def bit_simps)
  have e16: "RABIN_WINDOW * entries \<le> length buf"
    using index_entries_bound [of "length buf"] assms by (simp add: entries_def)
  obtain pv hash hc where run: "index_blocks buf hmask entries (NOT 0, replicate (2 ^ b) [], replicate (2 ^ b) 0) = Some (pv, hash, hc)"
    and inv: "index_inv buf hmask (2 ^ b) (pv, hash, hc)"
    using index_blocks_inv [OF inv0 _ e16] hm by (metis diff_less less_numeral_extra(1) prod_cases3 zero_less_power zero_less_numeral)
  have ok: "index_ok \<lparr>di_memsize = m, di_src_buf = buf, di_hash_mask = hmask, di_hash = cull_hash hc hash\<rparr>" for m
  proof -
    have "\<forall>e\<in>set es. e_ptr e \<le> length buf" if es: "es \<in> set (cull_hash hc hash)" for es
    proof -
      obtain p where z: "p \<in> set (zip hc hash)"
        "es = (case p of (cnt, bucket) \<Rightarrow> if cnt < HASH_LIMIT then bucket else cull_bucket cnt bucket)"
        using es unfolding cull_hash_def set_map by blast
      obtain cnt bucket where cb: "p = (cnt, bucket)" by (cases p)
      then have p: "(cnt, bucket) \<in> set (zip hc hash)"
        and "es = (if cnt < HASH_LIMIT then bucket else cull_bucket cnt bucket)" using z by simp_all
      moreover from p have "bucket \<in> set hash" by (rule set_zip_rightD)
      ultimately show ?thesis using inv cull_bucket_set [of cnt bucket] by (auto simp: index_inv_def split: if_splits)
    qed
    moreover have "length (cull_hash hc hash) = Suc (unat hmask)"
      using inv hm by (simp add: cull_hash_def index_inv_def)
    ultimately show ?thesis by (simp add: index_ok_def)
  qed
  have init: "git_delta_index_init can_alloc (Some buf) =
      (case lookup_index_alloc can_alloc entries (2 ^ b) of
         Inl e \<Rightarrow> Some (Inl GIT_ERROR)
       | Inr memsize \<Rightarrow>
           (if \<not> can_alloc (2 ^ b * 4) then Some (Inl GIT_ERROR)
            else Some (Inr (Some \<lparr>di_memsize = memsize, di_src_buf = buf, di_hash_mask = hmask,
              di_hash = cull_hash hc hash\<rparr>))))"
    unfolding git_delta_index_init_def option.case Let_def entries_def [symmetric] b_def [symmetric]
      hmask_def [symmetric] run using assms by (auto split: sum.split)
  show ?thesis
  proof (cases "lookup_index_alloc can_alloc entries (2 ^ b)")
    case (Inl e)
    have small: "entries \<le> 2 ^ 32" unfolding entries_def by (rule index_entries_small)
    have "(2 :: nat) ^ b \<le> 2 ^ 31" using b(2) by (intro power_increasing) simp_all
    then have "\<exists>n. \<not> can_alloc n"
      using Inl small by (auto simp: lookup_index_alloc_def Let_def SIZE_MAX_def split: if_splits)
    then show ?thesis using Inl init by simp
  next
    case (Inr memsize)
    then show ?thesis using init ok by (cases "can_alloc (2 ^ b * 4)") auto
  qed
qed

subsection \<open>Applying\<close>

lemma apply_loop_length:
  "apply_loop base delta res_dp res_sz = Inr out \<Longrightarrow> length out = length res_dp + res_sz"
proof (induction base delta res_dp res_sz rule: apply_loop.induct)
  case (2 base cmd delta res_dp res_sz)
  show ?case
  proof (cases "cmd AND 0x80 \<noteq> 0")
    case True
    then obtain off len delta1 where a: "copy_args cmd delta = Some (off, len, delta1)"
      "unat off + unat len \<le> SIZE_MAX" "unat off + unat len \<le> length base" "unat len \<le> res_sz"
      "apply_loop base delta1 (res_dp @ seg base (unat off) (unat len)) (res_sz - unat len) = Inr out"
      using "2.prems" by (auto simp: apply_loop.simps(2) Let_def not_less split: option.splits if_splits)
    then show ?thesis using "2.IH"(1) [OF True a(1) refl refl refl _ a(5)] by (auto simp: length_seg)
  next
    case False
    then have a: "cmd \<noteq> 0" "unat cmd \<le> length delta" "unat cmd \<le> res_sz"
      "apply_loop base (drop (unat cmd) delta) (res_dp @ take (unat cmd) delta) (res_sz - unat cmd) = Inr out"
      using "2.prems" by (auto simp: apply_loop.simps(2) not_less split: if_splits)
    then show ?thesis using "2.IH"(2) [OF _ a(1)] False by auto
  qed
qed (auto split: if_splits)

subsection \<open>Properties\<close>

text \<open>
  C3. A delta from a source to a target, applied to the source, gives the target.
\<close>

theorem git_delta_roundtrip:
  assumes "src \<noteq> []" "trg \<noteq> []" "length src \<le> UINT_MAX" "length trg \<le> 2 ^ 28" "\<forall>n. can_alloc n"
  shows "\<exists>delta. git_delta can_alloc src trg 0 = Some (Inr (Some delta)) \<and>
    git_delta_apply (\<lambda>_. True) src delta = Some (Inr trg)"
proof -
  obtain index where i: "git_delta_index_init can_alloc (Some src) = Some (Inr (Some index))"
    "di_src_buf index = src" "index_ok index"
    using git_delta_index_init_spec [OF assms(1)] assms(5) by blast
  obtain r where r: "git_delta_create_from_index can_alloc index trg 0 = Some r"
    "case r of Inl e \<Rightarrow> e = GIT_ERROR \<and> ((\<exists>n. \<not> can_alloc n) \<or> UINT_MAX - 35 < 0) \<or> e = GIT_EBUFS \<and> (0 :: nat) \<noteq> 0
     | Inr d \<Rightarrow> (\<exists>delta. d = Some delta \<and> ((0 :: nat) = 0 \<or> length delta \<le> 0) \<and>
         git_delta_apply (\<lambda>_. True) (di_src_buf index) delta = Some (Inr trg))"
    using git_delta_create_from_index_spec [OF i(3) _ assms(2,4)] i(2) assms(3) by blast
  then show ?thesis using i assms(5) by (cases r) (auto simp: git_delta_def)
qed

theorem git_delta_roundtrip_witness:
  "\<exists>delta. git_delta (\<lambda>_. True) [1, 2, 3] [4, 1, 2, 3, 5] 0 = Some (Inr (Some delta)) \<and>
    git_delta_apply (\<lambda>_. True) [1, 2, 3] delta = Some (Inr [4, 1, 2, 3, 5])"
  by (rule git_delta_roundtrip) (simp_all add: UINT_MAX_def)



text \<open>
  C5. When \<open>git_delta_apply\<close> succeeds, the header's sizes are those of the base and of the result.
\<close>

theorem git_delta_apply_sizes:
  assumes "git_delta_apply can_alloc base delta = Some (Inr out)"
  shows "\<exists>base_sz res_sz. git_delta_read_header delta = Some (Inr (base_sz, res_sz)) \<and>
    unat base_sz = length base \<and> unat res_sz = length out"
proof -
  obtain base_sz d1 res_sz d2 where h: "hdr_sz delta = Some (Inr (base_sz, d1))" "unat base_sz = length base"
    "hdr_sz d1 = Some (Inr (res_sz, d2))" "apply_loop base d2 [] (unat res_sz) = Inr out"
    using assms by (auto simp: git_delta_apply_def split: option.splits sum.splits if_splits)
  then show ?thesis using apply_loop_length [OF h(4)] by (simp add: git_delta_read_header_def)
qed

theorem git_delta_apply_sizes_witness:
  "git_delta_read_header [2, 3, 0x90, 2, 1, 9] = Some (Inr (2, 3))"
  using git_delta_apply_sizes [of "\<lambda>_. True" "[7, 8]" "[2, 3, 0x90, 2, 1, 9]" "[7, 8, 9]"]
  by (simp add: git_delta_apply_def git_delta_read_header_def hdr_sz_def Let_def apply_loop.simps(2)
      copy_args_def add_delta_def seg_def SIZE_MAX_def)

text \<open>
  C6. The fingerprint of any window indexes both tables in range, after a byte was shifted out
  too, and is never the value that marks the first block of the index.
\<close>

theorem rabin_fingerprint_in_bounds:
  "let val = foldl rabin_step 0 window; val' = rabin_shift_out val c in
   unat (drop_bit 23 val) < length T_tab \<and> unat c < length U_tab \<and> unat (drop_bit 23 val') < length T_tab \<and>
   val \<noteq> NOT 0"
proof -
  let ?v = "foldl rabin_step 0 window"
  have "\<not> bit ?v 31" by (rule fold_rabin_top) simp
  moreover have "bit (NOT 0 :: u32) 31" by (simp add: bit_simps)
  ultimately show ?thesis
    using rabin_step_top rabin_shift_out_top [of ?v c] by (auto simp: Let_def)
qed

text \<open>
  A buffer of 1.5 GB that is full is "grown" to 256 MB, since \<open>bufsize * 3\<close> wraps: the 34 bytes of
  slack and more are then written outside of it. The bound of \<open>2 ^ 28\<close> above excludes this.
\<close>

lemma grow_buf_wraps:
  assumes "ds_bufsize st = 0x60000000" "length (ds_buf st) = 0x60000000 - 34"
  shows "\<exists>st'. grow_buf (\<lambda>_. True) 0 st = Continue st' \<and> unat (ds_bufsize st') < length (ds_buf st')"
  unfolding grow_buf_def assms by (simp add: first_size_def MAX_OP_SIZE_def RABIN_WINDOW_def assms Let_def)

text \<open>
  Two inputs that the code does not handle. A header of more than five continuation bytes shifts
  a 32-bit value by 35. An error of the stream, -1, wraps the length of the buffer.
\<close>

lemma hdr_sz_long_undefined: "hdr_sz [0x80, 0x80, 0x80, 0x80, 0x80, 0x80, 0x01] = None"
  by (simp add: hdr_sz_def Let_def)

lemma fromstream_error_undefined:
  "git_delta_read_header_fromstream (\<lambda>s n. (-1, [], s)) (Suc (Suc fuel)) s = None"
  by (simp add: git_delta_read_header_fromstream_def DELTA_HEADER_BUFFER_LEN_def)

end
