(* ===== verification/Util.thy ===== *)
theory Util
  imports Compare
begin

text \<open>
  The string helpers of \<open>util.c\<close> and \<open>util.h\<close>.

  A NUL-terminated string is a list of characters without NUL, a counted buffer any list; a
  pointer into it is the suffix that is left, and reading the terminator gives NUL. A \<open>char\<close> is
  compared by its code, \<open>ord\<close>, where the code casts to \<open>unsigned char\<close>. The locale is "C", so that \<open>tolower\<close> changes the letters A to Z only.
\<close>

subsection \<open>Characters\<close>

definition ord :: "char \<Rightarrow> int" where "ord c = of_char c"

text \<open>A \<open>char\<close> that is not cast to \<open>unsigned char\<close> is signed.\<close>

definition schar :: "char \<Rightarrow> int" where "schar c = (if ord c < 128 then ord c else ord c - 256)"

definition NUL :: char where "NUL = CHR 0x00"

text \<open>\<open>*s\<close> of a NUL-terminated string.\<close>

definition deref :: "string \<Rightarrow> char" where
  "deref s = (case s of [] \<Rightarrow> NUL | c # cs \<Rightarrow> c)"

definition from_hex :: "int list" where
  "from_hex =
    replicate 48 (-1) @ [0, 1, 2, 3, 4, 5, 6, 7, 8, 9, -1, -1, -1, -1, -1, -1] @
    [-1, 10, 11, 12, 13, 14, 15, -1, -1, -1, -1, -1, -1, -1, -1, -1] @
    replicate 16 (-1) @
    [-1, 10, 11, 12, 13, 14, 15, -1, -1, -1, -1, -1, -1, -1, -1, -1] @
    replicate 144 (-1)"

definition git__fromhex :: "char \<Rightarrow> int" where
  "git__fromhex h = from_hex ! of_char h"

fun git__ishex :: "string \<Rightarrow> bool" where
  "git__ishex [] = True"
| "git__ishex (c # cs) = (if git__fromhex c < 0 then False else git__ishex cs)"

definition git__isupper :: "char \<Rightarrow> bool" where
  "git__isupper c \<longleftrightarrow> ord c \<ge> ord CHR ''A'' \<and> ord c \<le> ord CHR ''Z''"

definition git__isalpha :: "char \<Rightarrow> bool" where
  "git__isalpha c \<longleftrightarrow> ord c \<ge> ord CHR ''A'' \<and> ord c \<le> ord CHR ''Z'' \<or>
     ord c \<ge> ord CHR ''a'' \<and> ord c \<le> ord CHR ''z''"

definition git__isdigit :: "char \<Rightarrow> bool" where
  "git__isdigit c \<longleftrightarrow> ord c \<ge> ord CHR ''0'' \<and> ord c \<le> ord CHR ''9''"

definition git__isspace :: "char \<Rightarrow> bool" where
  "git__isspace c \<longleftrightarrow> c = CHR '' '' \<or> c = CHR 0x09 \<or> c = CHR 0x0A \<or> c = CHR 0x0C \<or> c = CHR 0x0D \<or> c = CHR 0x0B"

definition git__isspace_nonlf :: "char \<Rightarrow> bool" where
  "git__isspace_nonlf c \<longleftrightarrow> c = CHR '' '' \<or> c = CHR 0x09 \<or> c = CHR 0x0C \<or> c = CHR 0x0D \<or> c = CHR 0x0B"

definition git__iswildcard :: "char \<Rightarrow> bool" where
  "git__iswildcard c \<longleftrightarrow> c = CHR ''*'' \<or> c = CHR ''?'' \<or> c = CHR ''[''"

definition git__isxdigit :: "char \<Rightarrow> bool" where
  "git__isxdigit c \<longleftrightarrow> ord c \<ge> ord CHR ''0'' \<and> ord c \<le> ord CHR ''9'' \<or>
     ord c \<ge> ord CHR ''a'' \<and> ord c \<le> ord CHR ''f'' \<or> ord c \<ge> ord CHR ''A'' \<and> ord c \<le> ord CHR ''F''"

definition git__tolower :: "char \<Rightarrow> char" where
  "git__tolower c = (if git__isupper c then char_of (ord c + 32) else c)"

subsection \<open>Numbers\<close>

definition INT64_MAX :: int where "INT64_MAX = 2 ^ 63 - 1"

definition INT64_MIN :: int where "INT64_MIN = - (2 ^ 63)"

definition digit_value :: "int \<Rightarrow> char \<Rightarrow> int" where
  "digit_value base c =
     (if git__isdigit c then ord c - ord CHR ''0''
      else if ord CHR ''a'' \<le> ord c \<and> ord c \<le> ord CHR ''z'' then ord c - ord CHR ''a'' + 10
      else if ord CHR ''A'' \<le> ord c \<and> ord c \<le> ord CHR ''Z'' then ord c - ord CHR ''A'' + 10
      else base)"

text \<open>
  The loop over the digits: value, count of digits, overflow flag, and the rest. The division of
  \<open>INT64_MIN\<close> truncates.
\<close>

fun strntol_digits :: "int \<Rightarrow> bool \<Rightarrow> string \<Rightarrow> int \<Rightarrow> nat \<Rightarrow> bool \<Rightarrow> int \<times> nat \<times> bool \<times> string" where
  "strntol_digits base neg [] n ndig ovfl = (n, ndig, ovfl, [])"
| "strntol_digits base neg (c # p) n ndig ovfl =
     (let v = digit_value base c in
      if v \<ge> base then (n, ndig, ovfl, c # p)
      else (let v1 = (if neg then - v else v) in
        if n > INT64_MAX div base \<or> n < - (- INT64_MIN div base)
        then strntol_digits base neg p n (ndig + 1) True
        else (let nn = n * base in
          if v1 > 0 \<and> nn > INT64_MAX - v1 \<or> v1 < 0 \<and> nn < INT64_MIN - v1
          then strntol_digits base neg p n (ndig + 1) True
          else strntol_digits base neg p (nn + v1) (ndig + 1) ovfl)))"

definition is_x :: "char \<Rightarrow> bool" where "is_x c \<longleftrightarrow> c = CHR ''x'' \<or> c = CHR ''X''"

text \<open>
  \<open>git__strntol64\<close>: the value or -1, and \<open>*endptr\<close> when it is set. \<open>goto Return\<close> before the
  digits is a number without digits.
\<close>

definition git__strntol64 :: "string \<Rightarrow> int \<Rightarrow> int result \<times> string option" where
  "git__strntol64 nptr base0 =
     (let p0 = dropWhile git__isspace nptr in
      if p0 = [] then (Inl GIT_ERROR, None)
      else (let neg = (hd p0 = CHR ''-'');
                p1 = (if hd p0 = CHR ''-'' \<or> hd p0 = CHR ''+'' then tl p0 else p0) in
        if p1 = [] then (Inl GIT_ERROR, None)
        else (let base = (if base0 = 0 then
                            (if hd p1 \<noteq> CHR ''0'' then 10
                             else if length p1 > 2 \<and> is_x (p1 ! 1) then 16 else 8)
                          else base0) in
          if base < 0 \<or> 36 < base then (Inl GIT_ERROR, None)
          else (let p2 = (if base = 16 \<and> length p1 > 2 \<and> p1 ! 0 = CHR ''0'' \<and> is_x (p1 ! 1)
                          then drop 2 p1 else p1) in
            case strntol_digits base neg p2 0 0 False of
              (n, ndig, ovfl, p) \<Rightarrow>
                (if ndig = 0 then (Inl GIT_ERROR, None)
                 else if ovfl then (Inl GIT_ERROR, Some p) else (Inr n, Some p))))))"

definition INT32_MAX :: int where "INT32_MAX = 2 ^ 31 - 1"

text \<open>The conversion \<open>tmp_int = tmp_long & 0xFFFFFFFF\<close> keeps the low 32 bits.\<close>

definition git__strntol32 :: "string \<Rightarrow> int \<Rightarrow> int result \<times> string option" where
  "git__strntol32 nptr base =
     (case git__strntol64 nptr base of
        (Inl e, _) \<Rightarrow> (Inl e, None)
      | (Inr tmp_long, endptr) \<Rightarrow>
          (let tmp_int = sint (word_of_int tmp_long :: u32) in
           if tmp_int \<noteq> tmp_long then (Inl GIT_ERROR, None) else (Inr tmp_int, endptr)))"

subsection \<open>Comparison\<close>

fun git__strcasecmp :: "string \<Rightarrow> string \<Rightarrow> int" where
  "git__strcasecmp (a # as) (b # bs) =
     (if a \<noteq> NUL \<and> b \<noteq> NUL \<and> git__tolower a = git__tolower b then git__strcasecmp as bs
      else ord (git__tolower a) - ord (git__tolower b))"
| "git__strcasecmp as bs = ord (git__tolower (deref as)) - ord (git__tolower (deref bs))"

text \<open>\<open>strcmp\<close> of the C library, by the difference of the first bytes that differ.\<close>

fun strcmp :: "string \<Rightarrow> string \<Rightarrow> int" where
  "strcmp (a # as) (b # bs) = (if a \<noteq> NUL \<and> a = b then strcmp as bs else ord a - ord b)"
| "strcmp as bs = ord (deref as) - ord (deref bs)"

fun strcasesort_loop :: "string \<Rightarrow> string \<Rightarrow> int \<Rightarrow> int" where
  "strcasesort_loop (a # as) (b # bs) cmp =
     (if a = NUL \<or> b = NUL then
        (if a \<noteq> NUL \<or> b \<noteq> NUL then ord (git__tolower a) - ord (git__tolower b) else cmp)
      else if a \<noteq> b then
        (if git__tolower a \<noteq> git__tolower b then ord (git__tolower a) - ord (git__tolower b)
         else strcasesort_loop as bs (if cmp = 0 then ord a - ord b else cmp))
      else strcasesort_loop as bs cmp)"
| "strcasesort_loop as bs cmp =
     (if deref as \<noteq> NUL \<or> deref bs \<noteq> NUL
      then ord (git__tolower (deref as)) - ord (git__tolower (deref bs)) else cmp)"

definition git__strcasesort_cmp :: "string \<Rightarrow> string \<Rightarrow> int" where
  "git__strcasesort_cmp a b = strcasesort_loop a b 0"

text \<open>\<open>sz\<close> is a \<open>size_t\<close>: for 0 the loop runs to the end of the strings.\<close>

fun git__strncasecmp :: "string \<Rightarrow> string \<Rightarrow> size_t \<Rightarrow> int" where
  "git__strncasecmp a b sz =
     (let al = ord (git__tolower (deref a)); bl = ord (git__tolower (deref b)) in
      case (a, b) of
        (x # as, y # bs) \<Rightarrow> (if sz - 1 \<noteq> 0 \<and> al = bl then git__strncasecmp as bs (sz - 1) else al - bl)
      | _ \<Rightarrow> al - bl)"

declare git__strncasecmp.simps [simp del]

definition git__strntolower :: "string \<Rightarrow> nat \<Rightarrow> string" where
  "git__strntolower str len = map git__tolower (take len str) @ drop len str"

definition git__strtolower :: "string \<Rightarrow> string" where
  "git__strtolower str = git__strntolower str (length str)"

text \<open>\<open>str\<close> is the rest of the string with its terminator and what follows; \<open>str_n\<close> counts down.\<close>

fun prefixcmp :: "string \<Rightarrow> nat \<Rightarrow> string \<Rightarrow> bool \<Rightarrow> int" where
  "prefixcmp str 0 pre icase = 0 - schar (deref pre)"
| "prefixcmp str (Suc str_n) [] icase = 0"
| "prefixcmp [] (Suc str_n) (p # pre) icase =
     0 - ord (if icase then git__tolower p else p)"
| "prefixcmp (s # str) (Suc str_n) (p # pre) icase =
     (let s1 = (if icase then git__tolower s else s); p1 = (if icase then git__tolower p else p) in
      if s1 \<noteq> p1 then ord s1 - ord p1 else prefixcmp str str_n pre icase)"

fun git__prefixcmp :: "string \<Rightarrow> string \<Rightarrow> int" where
  "git__prefixcmp str [] = 0"
| "git__prefixcmp [] (p # pre) = 0 - ord p"
| "git__prefixcmp (s # str) (p # pre) = (if s \<noteq> p then ord s - ord p else git__prefixcmp str pre)"

definition git__prefixncmp :: "string \<Rightarrow> nat \<Rightarrow> string \<Rightarrow> int" where
  "git__prefixncmp str str_n pre = prefixcmp str str_n pre False"

definition git__prefixcmp_icase :: "string \<Rightarrow> string \<Rightarrow> int" where
  "git__prefixcmp_icase str pre = prefixcmp str SIZE_MAX pre True"

definition git__prefixncmp_icase :: "string \<Rightarrow> nat \<Rightarrow> string \<Rightarrow> int" where
  "git__prefixncmp_icase str str_n pre = prefixcmp str str_n pre True"

definition git__suffixcmp :: "string \<Rightarrow> string \<Rightarrow> int" where
  "git__suffixcmp str sfx =
     (let a = length str; b = length sfx in
      if a < b then -1 else strcmp (drop (a - b) str) sfx)"

subsection \<open>Scanning\<close>

text \<open>The token and the rest (\<open>*end\<close>); no token leaves \<open>*end\<close>.\<close>

definition git__strtok :: "string \<Rightarrow> string \<Rightarrow> (string \<times> string) option" where
  "git__strtok s sep =
     (case dropWhile (\<lambda>c. c \<in> set sep) s of
        [] \<Rightarrow> None
      | c # cs \<Rightarrow>
          (let rest = dropWhile (\<lambda>c. c \<notin> set sep) cs in
           Some (c # takeWhile (\<lambda>c. c \<notin> set sep) cs, if rest \<noteq> [] then tl rest else [])))"

definition git__strsep :: "string \<Rightarrow> string \<Rightarrow> (string \<times> string) option" where
  "git__strsep s sep =
     (case dropWhile (\<lambda>c. c \<notin> set sep) s of
        [] \<Rightarrow> None
      | c # cs \<Rightarrow> Some (takeWhile (\<lambda>c. c \<notin> set sep) s, cs))"

definition git__linenlen :: "string \<Rightarrow> nat" where
  "git__linenlen buffer =
     (let n = length (takeWhile (\<lambda>c. c \<noteq> CHR 0x0A) buffer) in
      if n < length buffer then n + 1 else length buffer)"

definition git__next_line :: "string \<Rightarrow> string" where
  "git__next_line s =
     dropWhile (\<lambda>c. c = CHR 0x0A \<or> c = CHR 0x0D) (dropWhile (\<lambda>c. c \<noteq> CHR 0x0A) s)"

text \<open>The position of the last byte \<open>c\<close> among the first \<open>n\<close>.\<close>

primrec git__memrchr :: "'a list \<Rightarrow> 'a \<Rightarrow> nat \<Rightarrow> nat option" where
  "git__memrchr s c 0 = None"
| "git__memrchr s c (Suc n) = (if s ! n = c then Some n else git__memrchr s c n)"

function memmem_loop :: "'a list \<Rightarrow> 'a list \<Rightarrow> nat \<Rightarrow> nat \<Rightarrow> nat \<Rightarrow> nat option" where
  "memmem_loop h n k l j =
     (if j \<le> length h - length n \<and> 0 < k \<and> 0 < l then
        (if n ! 1 \<noteq> h ! (j + 1) then memmem_loop h n k l (j + k)
         else if drop 2 n = seg h (j + 2) (length n - 2) \<and> n ! 0 = h ! j then Some j
         else memmem_loop h n k l (j + l))
      else None)"
  by pat_completeness auto
termination
  by (relation "measure (\<lambda>(h, n, k, l, j). Suc (length h - length n) - j)") auto

declare memmem_loop.simps [simp del]

definition memchr :: "'a list \<Rightarrow> 'a \<Rightarrow> nat option" where
  "memchr s c = (let n = length (takeWhile (\<lambda>x. x \<noteq> c) s) in if n < length s then Some n else None)"

definition git__memmem :: "'a list \<Rightarrow> 'a list \<Rightarrow> nat option" where
  "git__memmem h n =
     (if length n > length h \<or> h = [] \<or> n = [] then None
      else if length n = 1 then memchr h (n ! 0)
      else (let (k, l) = (if n ! 0 = n ! 1 then (2, 1) else (1, 2)) in memmem_loop h n k l 0))"

subsection \<open>The hash function\<close>

definition git__rotl :: "u32 \<Rightarrow> nat \<Rightarrow> u32" where
  "git__rotl v s = push_bit s v OR drop_bit (32 - s) v"

text \<open>\<open>h1\<close>, \<open>c1\<close>, \<open>c2\<close> after \<open>MURMUR_BLOCK\<close>.\<close>

definition MURMUR_BLOCK :: "u32 \<Rightarrow> u32 \<times> u32 \<times> u32 \<Rightarrow> u32 \<times> u32 \<times> u32" where
  "MURMUR_BLOCK k1 s =
     (case s of (h1, c1, c2) \<Rightarrow>
        (((h1 XOR (git__rotl (k1 * c1) 11 * c2)) * 3 + 0x52dce729), c1 * 5 + 0x7b7d159c, c2 * 5 + 0x6bce6396))"

text \<open>The words of the buffer in the byte order of a little-endian machine.\<close>

definition le_word :: "u8 list \<Rightarrow> u32" where
  "le_word bs = foldr (\<lambda>b w. push_bit 8 w OR ucast b) bs 0"

primrec hash_blocks :: "u8 list \<Rightarrow> nat \<Rightarrow> nat \<Rightarrow> u32 \<times> u32 \<times> u32 \<Rightarrow> u32 \<times> u32 \<times> u32" where
  "hash_blocks data i 0 s = s"
| "hash_blocks data i (Suc n) s = hash_blocks data (i + 1) n (MURMUR_BLOCK (le_word (seg data (4 * i) 4)) s)"

definition git__hash :: "u8 list \<Rightarrow> u32 \<Rightarrow> u32" where
  "git__hash data seed =
     (let len = length data; nblocks = len div 4; tail = drop (4 * nblocks) data;
          s0 = hash_blocks data 0 nblocks (0x971e137b XOR seed, 0x95543787, 0x2ad7eb25);
          s1 = (if len mod 4 = 0 then s0 else MURMUR_BLOCK (le_word tail) s0);
          h1 = fst s1 XOR of_nat len;
          h2 = (h1 XOR drop_bit 16 h1) * 0x85ebca6b;
          h3 = (h2 XOR drop_bit 13 h2) * 0xc2b2ae35
      in h3 XOR drop_bit 16 h3)"

subsection \<open>Values and escapes\<close>

text \<open>\<open>None\<close> is a missing value.\<close>

definition git__parse_bool :: "string option \<Rightarrow> bool result" where
  "git__parse_bool value' =
     (case value' of
        None \<Rightarrow> Inr True
      | Some v \<Rightarrow>
          (if git__strcasecmp v ''true'' = 0 \<or> git__strcasecmp v ''yes'' = 0 \<or> git__strcasecmp v ''on'' = 0 then Inr True
           else if git__strcasecmp v ''false'' = 0 \<or> git__strcasecmp v ''no'' = 0 \<or> git__strcasecmp v ''off'' = 0 \<or> v = []
           then Inr False else Inl GIT_ERROR))"

fun git__unescape :: "string \<Rightarrow> string" where
  "git__unescape [] = []"
| "git__unescape (c # scan) =
     (if c = CHR 0x5C \<and> scan \<noteq> [] then hd scan # git__unescape (tl scan) else c # git__unescape scan)"

subsection \<open>Insertion sort\<close>

primrec insert_down :: "'a cmp \<Rightarrow> 'a list \<Rightarrow> nat \<Rightarrow> 'a list" where
  "insert_down cmp els 0 = els"
| "insert_down cmp els (Suc j) =
     (if cmp (els ! Suc j) (els ! j) < 0
      then insert_down cmp (els[Suc j := els ! j, j := els ! Suc j]) j else els)"

function insertsort_from :: "'a cmp \<Rightarrow> 'a list \<Rightarrow> nat \<Rightarrow> 'a list" where
  "insertsort_from cmp els i =
     (if i < length els then insertsort_from cmp (insert_down cmp els i) (i + 1) else els)"
  by pat_completeness auto
termination
proof (relation "measure (\<lambda>(cmp, els, i). length els - i)")
  fix cmp :: "'a cmp" and els :: "'a list" and i
  assume i: "i < length els"
  have "length (insert_down cmp els j) = length els" for j
    by (induction j arbitrary: els) auto
  then show "((cmp, insert_down cmp els i, i + 1), (cmp, els, i)) \<in> measure (\<lambda>(cmp, els, i). length els - i)"
    using i by simp
qed simp

declare insertsort_from.simps [simp del]

definition insertsort :: "'a cmp \<Rightarrow> 'a list \<Rightarrow> 'a list" where
  "insertsort cmp els = insertsort_from cmp els 1"

subsection \<open>UTF-8\<close>

definition utf8proc_utf8class :: "nat list" where
  "utf8proc_utf8class =
     replicate 128 1 @ replicate 64 0 @ replicate 32 2 @ replicate 16 3 @ replicate 8 4 @ replicate 8 0"

text \<open>
  \<open>None\<close> is a read past the end of the buffer; \<open>Some (-1)\<close> is the code's -1. A \<open>str_len\<close> of 0 means
  that the length is not known.
\<close>

definition git__utf8_charlen :: "u8 list \<Rightarrow> nat \<Rightarrow> int option" where
  "git__utf8_charlen str str_len =
     (if str = [] then None
      else (let len = utf8proc_utf8class ! unat (hd str) in
        if len = 0 then Some (-1)
        else if str_len > 0 \<and> len > str_len then Some (-1)
        else if list_all (\<lambda>b. b AND 0xC0 = 0x80) (take (len - 1) (tl str))
        then (if len \<le> length str then Some (int len) else None)
        else Some (-1)))"

definition low_bits :: "u8 \<Rightarrow> u8 \<Rightarrow> int" where "low_bits b m = uint (b AND m)"

text \<open>The length and the codepoint. An \<open>int\<close> length of -1 becomes the greatest \<open>size_t\<close>.\<close>

definition git__utf8_iterate :: "u8 list \<Rightarrow> int \<Rightarrow> (int \<times> int) option" where
  "git__utf8_iterate str str_len =
     (case git__utf8_charlen str (unat (of_int str_len :: size_t)) of
        None \<Rightarrow> None
      | Some len \<Rightarrow>
          (if len < 0 then Some (-1, -1)
           else (let uc =
               (if len = 1 then uint (str ! 0)
                else if len = 2 then
                  (let u = low_bits (str ! 0) 0x1F * 2 ^ 6 + low_bits (str ! 1) 0x3F in if u < 0x80 then -1 else u)
                else if len = 3 then
                  (let u = low_bits (str ! 0) 0x0F * 2 ^ 12 + low_bits (str ! 1) 0x3F * 2 ^ 6 + low_bits (str ! 2) 0x3F in
                   if u < 0x800 \<or> u \<ge> 0xD800 \<and> u < 0xE000 \<or> u \<ge> 0xFDD0 \<and> u < 0xFDF0 then -1 else u)
                else if len = 4 then
                  (let u = low_bits (str ! 0) 0x07 * 2 ^ 18 + low_bits (str ! 1) 0x3F * 2 ^ 12 +
                       low_bits (str ! 2) 0x3F * 2 ^ 6 + low_bits (str ! 3) 0x3F in
                   if u < 0x10000 \<or> u \<ge> 0x110000 then -1 else u)
                else -1)
             in if uc < 0 \<or> uc mod 2 ^ 16 \<ge> 0xFFFE then Some (-1, -1) else Some (len, uc))))"

text \<open>The loop over the buffer, by fuel: each turn reads a byte at least.\<close>

primrec utf8_valid_loop :: "nat \<Rightarrow> u8 list \<Rightarrow> nat \<Rightarrow> nat option" where
  "utf8_valid_loop 0 str offset = None"
| "utf8_valid_loop (Suc fuel) str offset =
     (if offset < length str then
        (case git__utf8_charlen (drop offset str) (length str - offset) of
           None \<Rightarrow> None
         | Some len \<Rightarrow> (if len < 0 then Some offset else utf8_valid_loop fuel str (offset + nat len)))
      else Some offset)"

definition git__utf8_valid_buf_length :: "u8 list \<Rightarrow> nat option" where
  "git__utf8_valid_buf_length str = utf8_valid_loop (Suc (length str)) str 0"

end
