(* ===== verification/UtilCorrect.thy ===== *)
theory UtilCorrect
  imports Util
begin

text \<open>
  Properties of the helpers of \<open>util.c\<close>: the numbers parsed, the search for a substring, the
  orders on strings, the insertion sort, and the scan of UTF-8.
\<close>

subsection \<open>Numbers\<close>

abbreviation in_int64 :: "int \<Rightarrow> bool" where "in_int64 n \<equiv> INT64_MIN \<le> n \<and> n \<le> INT64_MAX"

definition signed_number :: "int \<Rightarrow> bool \<Rightarrow> int \<Rightarrow> string \<Rightarrow> int" where
  "signed_number base neg n ds =
     foldl (\<lambda>a c. a * base + (if neg then - digit_value base c else digit_value base c)) n ds"

lemma digit_value_nonneg: "0 \<le> base \<Longrightarrow> 0 \<le> digit_value base c"
  by (simp add: digit_value_def git__isdigit_def)

lemma le_div_iff: "0 < (b :: int) \<Longrightarrow> n \<le> m div b \<longleftrightarrow> n * b \<le> m"
proof
  assume b: "0 < b" and "n \<le> m div b"
  then have "n * b \<le> m div b * b" by (simp add: mult_right_mono)
  also have "\<dots> \<le> m" using b by (simp add: minus_mod_eq_div_mult [symmetric])
  finally show "n * b \<le> m" .
next
  assume b: "0 < b" and "n * b \<le> m"
  then have "n * b div b \<le> m div b" by (intro zdiv_mono1)
  then show "n \<le> m div b" using b by simp
qed

lemma signed_number_grows:
  assumes "1 \<le> base"
  shows "if neg then n \<le> 0 \<longrightarrow> signed_number base neg n ds \<le> n else 0 \<le> n \<longrightarrow> n \<le> signed_number base neg n ds"
proof (induction ds arbitrary: n)
  case (Cons c ds)
  have d: "0 \<le> digit_value base c" using assms by (intro digit_value_nonneg) simp
  show ?case
  proof (cases neg)
    case True
    let ?n = "n * base - digit_value base c"
    have "n \<le> 0 \<Longrightarrow> n * base \<le> n * 1" using assms by (intro mult_left_mono_neg) auto
    then have "n \<le> 0 \<Longrightarrow> ?n \<le> n" using d by simp
    then show ?thesis using Cons.IH [of ?n] True by (auto simp: signed_number_def)
  next
    case False
    let ?n = "n * base + digit_value base c"
    have "0 \<le> n \<Longrightarrow> n * 1 \<le> n * base" using assms by (intro mult_left_mono) auto
    then have "0 \<le> n \<Longrightarrow> n \<le> ?n" using d by simp
    then show ?thesis using Cons.IH [of ?n] False by (auto simp: signed_number_def)
  qed
qed (simp add: signed_number_def)

lemma strntol_digits_overflow:
  assumes "\<forall>c\<in>set ds. digit_value base c < base" "rest = [] \<or> digit_value base (hd rest) \<ge> base"
  shows "\<exists>n'. strntol_digits base neg (ds @ rest) n k True = (n', k + length ds, True, rest)"
  using assms(1)
proof (induction ds arbitrary: n k)
  case Nil
  then show ?case using assms(2) by (cases rest) (auto simp: Let_def)
next
  case (Cons c ds)
  then have d: "digit_value base c < base" by simp
  have "\<exists>n'. strntol_digits base neg (ds @ rest) m (Suc k) True = (n', Suc (k + length ds), True, rest)" for m
    using Cons.IH [of m "Suc k"] Cons.prems by simp
  then show ?case using d by (simp add: Let_def)
qed

lemma strntol_digits_spec:
  assumes base: "1 \<le> base" and ds: "\<forall>c\<in>set ds. digit_value base c < base"
    and rest: "rest = [] \<or> digit_value base (hd rest) \<ge> base"
    and n: "in_int64 n" "if neg then n \<le> 0 else 0 \<le> n"
  shows "\<exists>n' ov. strntol_digits base neg (ds @ rest) n k False = (n', k + length ds, ov, rest) \<and>
    (if in_int64 (signed_number base neg n ds) then \<not> ov \<and> n' = signed_number base neg n ds else ov)"
  using ds n
proof (induction ds arbitrary: n k)
  case Nil
  then show ?case using rest
    by (intro exI [of _ n] exI [of _ False]) (cases rest; simp add: Let_def signed_number_def)
next
  case (Cons c ds)
  define v where "v = digit_value base c"
  define v1 where "v1 = (if neg then - v else v)"
  define nn where "nn = n * base"
  have v: "0 \<le> v" "v < base" using base digit_value_nonneg [of base c] Cons.prems(1) by (auto simp: v_def)
  have big: "n > INT64_MAX div base \<longleftrightarrow> nn > INT64_MAX" using le_div_iff [of base n INT64_MAX] base by (auto simp: nn_def)
  have small: "n < - (- INT64_MIN div base) \<longleftrightarrow> nn < INT64_MIN"
    using le_div_iff [of base "- n" "- INT64_MIN"] base by (auto simp: nn_def)
  have sgn: "if neg then nn \<le> 0 \<and> v1 \<le> 0 else 0 \<le> nn \<and> 0 \<le> v1"
    using Cons.prems(3) base v(1) by (auto simp: nn_def v1_def mult_nonpos_nonneg)
  have exact: "signed_number base neg n (c # ds) = signed_number base neg (nn + v1) ds"
    by (simp add: signed_number_def nn_def v1_def v_def)
  have bounds: "INT64_MIN \<le> 0" "0 \<le> INT64_MAX" by (simp_all add: INT64_MIN_def INT64_MAX_def)
  define over where "over \<longleftrightarrow> nn > INT64_MAX \<or> nn < INT64_MIN \<or> v1 > 0 \<and> nn > INT64_MAX - v1 \<or> v1 < 0 \<and> nn < INT64_MIN - v1"
  have over_iff: "over \<longleftrightarrow> \<not> in_int64 (nn + v1)"
    using sgn bounds unfolding over_def by (auto split: if_splits)
  have step: "strntol_digits base neg ((c # ds) @ rest) n k False =
      (if over then strntol_digits base neg (ds @ rest) n (k + 1) True
       else strntol_digits base neg (ds @ rest) (nn + v1) (k + 1) False)"
    using v(2) big small unfolding over_def
    by (auto simp: Let_def v_def [symmetric] v1_def [symmetric] nn_def [symmetric])
  show ?case
  proof (cases over)
    case True
    have "\<not> in_int64 (signed_number base neg (nn + v1) ds)"
      using True over_iff sgn bounds signed_number_grows [OF base, of neg "nn + v1" ds] by (auto split: if_splits)
    then show ?thesis
      using True step exact strntol_digits_overflow [OF _ rest, of ds neg n "k + 1"] Cons.prems(1) by auto
  next
    case False
    have "in_int64 (nn + v1)" "if neg then nn + v1 \<le> 0 else 0 \<le> nn + v1"
      using False over_iff sgn by (auto split: if_splits)
    from Cons.IH [OF _ this, of "k + 1"] Cons.prems(1) obtain n' ov where
      "strntol_digits base neg (ds @ rest) (nn + v1) (k + 1) False = (n', k + 1 + length ds, ov, rest)"
      "if in_int64 (signed_number base neg (nn + v1) ds)
       then \<not> ov \<and> n' = signed_number base neg (nn + v1) ds else ov" by auto
    then show ?thesis unfolding step exact using False by (intro exI [of _ n'] exI [of _ ov]) simp
  qed
qed

definition number :: "int \<Rightarrow> string \<Rightarrow> int" where
  "number base ds = foldl (\<lambda>a c. a * base + digit_value base c) 0 ds"

lemma signed_number_number: "signed_number base neg 0 ds = (if neg then - number base ds else number base ds)"
proof -
  have "foldl (\<lambda>a c. a * base + - digit_value base c) (- n) ds = - foldl (\<lambda>a c. a * base + digit_value base c) n ds" for n
  proof (induction ds arbitrary: n)
    case (Cons c ds)
    then show ?case using Cons.IH [of "n * base + digit_value base c"] by simp
  qed simp
  from this [of 0] show ?thesis by (simp add: signed_number_def number_def)
qed

text \<open>The characters before the digits are no digits.\<close>

lemma space_no_digit: "git__isspace c \<Longrightarrow> digit_value base c = base"
  by (auto simp: git__isspace_def digit_value_def git__isdigit_def ord_def)

lemma sign_no_digit: "digit_value base CHR ''-'' = base" "digit_value base CHR ''+'' = base"
  "\<not> git__isspace CHR ''-''" "\<not> git__isspace CHR ''+''"
  by (auto simp: git__isspace_def digit_value_def git__isdigit_def ord_def)

lemma dropWhile_spaces: "\<forall>c\<in>set ws. git__isspace c \<Longrightarrow> p \<noteq> [] \<Longrightarrow> \<not> git__isspace (hd p) \<Longrightarrow> dropWhile git__isspace (ws @ p) = p"
  by (induction ws) (cases p, auto)

text \<open>The run of the function: the digits are those of the loop.\<close>

lemma strntol64_reads:
  assumes base: "1 \<le> base" "base \<le> 36" and ws: "\<forall>c\<in>set ws. git__isspace c"
    and sg: "sg \<in> {[], ''-'', ''+''}"
    and ds: "ds \<noteq> []" "\<forall>c\<in>set ds. digit_value base c < base"
    and rest: "rest = [] \<or> digit_value base (hd rest) \<ge> base \<and> \<not> is_x (hd rest)"
  shows "git__strntol64 (ws @ sg @ ds @ rest) base =
    (let n = (if sg = ''-'' then - number base ds else number base ds) in
     if INT64_MIN \<le> n \<and> n \<le> INT64_MAX then (Inr n, Some rest) else (Inl GIT_ERROR, Some rest))"
proof -
  let ?neg = "sg = ''-''"
  obtain d ds' where d: "ds = d # ds'" using ds(1) by (cases ds) auto
  have d1: "digit_value base d \<noteq> base" using ds(2) d by auto
  have first: "\<not> git__isspace d" "d \<noteq> CHR ''-''" "d \<noteq> CHR ''+''"
    using d1 space_no_digit sign_no_digit by metis+
  have dw: "dropWhile git__isspace (ws @ sg @ ds @ rest) = sg @ ds @ rest"
    using dropWhile_spaces [OF ws, of "sg @ ds @ rest"] sg first sign_no_digit by (auto simp: d)
  have hd: "hd (sg @ ds @ rest) = CHR ''-'' \<longleftrightarrow> ?neg" using sg first by (auto simp: d)
  have tl: "(if hd (sg @ ds @ rest) = CHR ''-'' \<or> hd (sg @ ds @ rest) = CHR ''+'' then tl (sg @ ds @ rest)
      else sg @ ds @ rest) = ds @ rest" using sg first by (auto simp: d)
  have x': "\<not> (base = 16 \<and> length (ds @ rest) > 2 \<and> (ds @ rest) ! 0 = CHR ''0'' \<and> is_x ((ds @ rest) ! 1))"
  proof
    assume h: "base = 16 \<and> length (ds @ rest) > 2 \<and> (ds @ rest) ! 0 = CHR ''0'' \<and> is_x ((ds @ rest) ! 1)"
    have x: "\<not> digit_value 16 c < 16" if "is_x c" for c
      using that by (auto simp: is_x_def digit_value_def git__isdigit_def ord_def)
    show False using h x ds(2) rest by (cases ds'; cases rest) (auto simp: d)
  qed
  have x: "(base = 16 \<and> length (ds @ rest) > 2 \<and> (ds @ rest) ! 0 = CHR ''0'' \<and> is_x ((ds @ rest) ! 1)) = False"
    using x' by blast
  have ne: "(sg @ ds @ rest = []) = False" "(ds @ rest = []) = False" "(base = 0) = False" "(base < 0 \<or> 36 < base) = False"
    using base ds(1) by auto
  obtain n' ov where run: "strntol_digits base ?neg (ds @ rest) 0 0 False = (n', length ds, ov, rest)"
    and n': "if in_int64 (signed_number base ?neg 0 ds) then \<not> ov \<and> n' = signed_number base ?neg 0 ds else ov"
    using strntol_digits_spec [OF base(1) ds(2), of rest 0 ?neg 0] rest by (auto simp: INT64_MIN_def INT64_MAX_def)
  have "git__strntol64 (ws @ sg @ ds @ rest) base =
      (if length ds = 0 then (Inl GIT_ERROR, None) else if ov then (Inl GIT_ERROR, Some rest) else (Inr n', Some rest))"
    by (simp only: git__strntol64_def Let_def dw ne if_False hd tl [unfolded hd] x run prod.case)
  then show ?thesis using ds(1) n' unfolding signed_number_number Let_def by (simp split: if_splits)
qed

text \<open>
  C20. \<open>git__strntol64\<close> reads white space, an optional sign and the longest run of digits: it
  returns the number when it fits 64 bits and an error otherwise, and stops behind the digits.
\<close>

theorem git__strntol64_reads_number:
  assumes base: "1 \<le> base" "base \<le> 36" and ws: "\<forall>c\<in>set ws. git__isspace c"
    and sg: "sg \<in> {[], ''-'', ''+''}"
    and ds: "ds \<noteq> []" "\<forall>c\<in>set ds. digit_value base c < base"
    and rest: "rest = [] \<or> digit_value base (hd rest) \<ge> base \<and> \<not> is_x (hd rest)"
  shows "git__strntol64 (ws @ sg @ ds @ rest) base =
    (let n = (if sg = ''-'' then - number base ds else number base ds) in
     if INT64_MIN \<le> n \<and> n \<le> INT64_MAX then (Inr n, Some rest) else (Inl GIT_ERROR, Some rest))"
  using assms by (rule strntol64_reads)

theorem git__strntol64_reads_number_witness:
  "git__strntol64 (''  '' @ ''-'' @ ''12'' @ '' x'') 10 = (Inr (-12), Some '' x'')"
  using git__strntol64_reads_number [of 10 "''  ''" "''-''" "''12''" "'' x''"]
  by (simp add: git__isspace_def digit_value_def git__isdigit_def ord_def number_def is_x_def INT64_MIN_def INT64_MAX_def)

subsection \<open>Substring search\<close>

definition occurs_at :: "'a list \<Rightarrow> 'a list \<Rightarrow> nat \<Rightarrow> bool" where
  "occurs_at h n j \<longleftrightarrow> j + length n \<le> length h \<and> seg h j (length n) = n"

text \<open>The reference: the first of all positions, tried one after the other.\<close>

definition first_occurrence :: "'a list \<Rightarrow> 'a list \<Rightarrow> nat option" where
  "first_occurrence h n = List.find (occurs_at h n) [0..<Suc (length h)]"

lemma occurs_at_two:
  assumes "2 \<le> length n" "j + length n \<le> length h"
  shows "occurs_at h n j \<longleftrightarrow> n ! 0 = h ! j \<and> n ! 1 = h ! (j + 1) \<and> drop 2 n = seg h (j + 2) (length n - 2)"
proof -
  obtain a b n' where n: "n = a # b # n'" using assms(1) by (cases n; cases "tl n") auto
  have "seg h j (length n) = seg h j (2 + length n')" by (simp add: n)
  also have "\<dots> = seg h j 2 @ seg h (j + 2) (length n')" by (rule seg_add)
  also have "seg h j 2 = [h ! j, h ! (j + 1)]"
    using assms(2) seg_Suc [of j 0 h] seg_Suc [of j 1 h] by (simp add: n seg_def numeral_2_eq_2)
  finally show ?thesis using assms(2) by (auto simp: occurs_at_def n)
qed

lemma first_occurrence_Some:
  "first_occurrence h n = Some j \<longleftrightarrow> occurs_at h n j \<and> (\<forall>i<j. \<not> occurs_at h n i)"
proof -
  have "occurs_at h n j \<Longrightarrow> j < Suc (length h)" by (simp add: occurs_at_def)
  then show ?thesis unfolding first_occurrence_def find_Some_iff
    by (auto simp del: upt_Suc)
qed

lemma first_occurrence_None: "first_occurrence h n = None \<longleftrightarrow> (\<forall>i. \<not> occurs_at h n i)"
proof -
  have "occurs_at h n i \<Longrightarrow> i < Suc (length h)" for i by (simp add: occurs_at_def)
  then show ?thesis unfolding first_occurrence_def find_None_iff by (auto simp del: upt_Suc)
qed

lemma memmem_loop_spec:
  assumes "2 \<le> length n" "length n \<le> length h" "(k, l) = (if n ! 0 = n ! 1 then (2, 1) else (1, 2))"
    and "\<forall>i<j. \<not> occurs_at h n i"
  shows "case memmem_loop h n k l j of
      Some i \<Rightarrow> occurs_at h n i \<and> (\<forall>i'<i. \<not> occurs_at h n i')
    | None \<Rightarrow> \<forall>i. \<not> occurs_at h n i"
  using assms
proof (induction h n k l j rule: memmem_loop.induct)
  case (1 h n k l j)
  have kl: "0 < k" "0 < l" using "1.prems"(3) by (auto split: if_splits)
  show ?case
  proof (cases "j \<le> length h - length n")
    case False
    then have "\<not> occurs_at h n i" for i
      using "1.prems"(2,4) by (cases "i < j") (auto simp: occurs_at_def)
    then show ?thesis using False by (simp add: memmem_loop.simps [of h n k l j])
  next
    case True
    then have jn: "j + length n \<le> length h" using "1.prems"(2) by simp
    note two = occurs_at_two [OF "1.prems"(1) jn]
    have next_j: "\<not> occurs_at h n (j + 1)" if "n ! 0 \<noteq> h ! (j + 1)"
      using that occurs_at_two [OF "1.prems"(1), of "j + 1" h] by (auto simp: occurs_at_def)
    show ?thesis
    proof (cases "n ! 1 = h ! (j + 1)")
      case False
      then have "\<not> occurs_at h n j" using two by simp
      moreover have "k = 2 \<Longrightarrow> \<not> occurs_at h n (j + 1)"
        using False next_j "1.prems"(3) by (auto split: if_splits)
      ultimately have "\<forall>i<j + k. \<not> occurs_at h n i"
        using "1.prems"(3,4) by (auto simp: less_Suc_eq numeral_2_eq_2 split: if_splits)
      then show ?thesis using "1.IH"(1) [OF _ _ "1.prems"(1,2,3)] True kl False
        by (simp add: memmem_loop.simps [of h n k l j])
    next
      case eq1: True
      show ?thesis
      proof (cases "drop 2 n = seg h (j + 2) (length n - 2) \<and> n ! 0 = h ! j")
        case occ: True
        then have "occurs_at h n j" using two eq1 by simp
        then show ?thesis using "1.prems"(4) True kl eq1 occ by (simp add: memmem_loop.simps [of h n k l j])
      next
        case False
        then have "\<not> occurs_at h n j" using two by auto
        moreover have "l = 2 \<Longrightarrow> \<not> occurs_at h n (j + 1)"
          using eq1 next_j "1.prems"(3) by (auto split: if_splits)
        ultimately have "\<forall>i<j + l. \<not> occurs_at h n i"
          using "1.prems"(3,4) by (auto simp: less_Suc_eq numeral_2_eq_2 split: if_splits)
        then show ?thesis using "1.IH"(2) [OF _ _ _ "1.prems"(1,2,3)] True kl eq1 False
          by (simp add: memmem_loop.simps [of h n k l j])
      qed
    qed
  qed
qed

lemma occurs_at_one: "occurs_at h [c] j \<longleftrightarrow> j < length h \<and> h ! j = c"
  using seg_Suc [of j 0 h] by (auto simp: occurs_at_def seg_def)

lemma memchr_first: "memchr s c = first_occurrence s [c]"
proof -
  let ?n = "length (takeWhile (\<lambda>x. x \<noteq> c) s)"
  have before: "\<forall>i<?n. \<not> occurs_at s [c] i"
    using set_takeWhileD [of _ "\<lambda>x. x \<noteq> c" s] by (metis nth_mem occurs_at_one takeWhile_nth)
  show ?thesis
  proof (cases "?n < length s")
    case True
    then have "occurs_at s [c] ?n" using nth_length_takeWhile [OF True] by (simp add: occurs_at_one)
    then have "first_occurrence s [c] = Some ?n" using before by (simp add: first_occurrence_Some)
    then show ?thesis using True by (simp add: memchr_def Let_def)
  next
    case False
    then have "\<not> occurs_at s [c] i" for i using before by (auto simp: occurs_at_one)
    then have "first_occurrence s [c] = None" by (simp add: first_occurrence_None)
    then show ?thesis using False by (simp add: memchr_def Let_def)
  qed
qed

text \<open>
  C21. \<open>git__memmem\<close>, which jumps over positions that cannot match, finds the first occurrence of
  the needle; an empty needle is never found.
\<close>

theorem git__memmem_first_occurrence:
  "git__memmem h n = (if n = [] then None else first_occurrence h n)"
proof (cases "n = [] \<or> h = [] \<or> length n > length h")
  case True
  then have "n \<noteq> [] \<Longrightarrow> \<not> occurs_at h n i" for i by (auto simp: occurs_at_def)
  then have "n \<noteq> [] \<Longrightarrow> first_occurrence h n = None" by (simp add: first_occurrence_None)
  then show ?thesis using True by (auto simp: git__memmem_def)
next
  case False
  show ?thesis
  proof (cases "length n = 1")
    case True
    then obtain c where "n = [c]" by (auto simp: length_Suc_conv)
    then show ?thesis using False by (simp add: git__memmem_def memchr_first)
  next
    case long: False
    then have n: "2 \<le> length n" "length n \<le> length h" using False by (cases n; auto simp: not_less Suc_le_eq)+
    obtain k l where kl: "(k, l) = (if n ! 0 = n ! 1 then (2 :: nat, 1 :: nat) else (1, 2))" by (metis surj_pair)
    have "git__memmem h n = memmem_loop h n k l 0"
      using False long kl by (auto simp: git__memmem_def Let_def split: if_splits)
    moreover have "memmem_loop h n k l 0 = first_occurrence h n"
    proof (cases "memmem_loop h n k l 0")
      case None
      then have "first_occurrence h n = None"
        using memmem_loop_spec [OF n kl, of 0] by (simp add: first_occurrence_None)
      then show ?thesis using None by simp
    next
      case (Some i)
      then have "first_occurrence h n = Some i"
        using memmem_loop_spec [OF n kl, of 0] by (simp add: first_occurrence_Some)
      then show ?thesis using Some by simp
    qed
    ultimately show ?thesis using False by simp
  qed
qed

subsection \<open>Orders on strings\<close>

lemma memchr_hit: "c \<notin> set s \<Longrightarrow> memchr (s @ c # rest) c = Some (length s)"
proof -
  assume "c \<notin> set s"
  then have "takeWhile (\<lambda>x. x \<noteq> c) (s @ c # rest) = s @ takeWhile (\<lambda>x. x \<noteq> c) (c # rest)"
    by (intro takeWhile_append2) auto
  then show ?thesis by (simp add: memchr_def Let_def)
qed

lemma ord_inject: "ord a = ord b \<longleftrightarrow> a = b"
  by (simp add: ord_def)

lemma ord_nonneg: "0 \<le> ord a"
  unfolding ord_def by (metis of_nat_0_le_iff of_nat_of_char)

lemma ord_NUL: "ord NUL = 0" and deref_Nil [simp]: "deref [] = NUL" and deref_Cons [simp]: "deref (c # cs) = c"
  by (simp_all add: ord_def NUL_def deref_def)

lemma ord_nat: "ord c = int (of_char c)"
  by (simp only: ord_def of_nat_of_char)

lemma ord_of_char_of: "n < 256 \<Longrightarrow> ord (char_of (n :: nat)) = int n"
  using ord_nat [of "char_of n"] by simp

lemma ord_less: "ord c < 256"
  unfolding ord_nat using nat_of_char_less_256 [of c] by linarith

lemma ord_pos: "a \<noteq> NUL \<longleftrightarrow> 0 < ord a"
  using ord_inject [of a NUL] ord_nonneg [of a] ord_NUL by linarith

lemma strcmp_antisym: "0 < strcmp a b \<longleftrightarrow> strcmp b a < 0"
  by (induction a b rule: strcmp.induct) auto

lemma strcmp_trans: "strcmp a b \<le> 0 \<Longrightarrow> strcmp b c \<le> 0 \<Longrightarrow> strcmp a c \<le> 0"
proof (induction a arbitrary: b c)
  case Nil
  then show ?case by (cases c) (auto simp: ord_NUL ord_nonneg)
next
  case (Cons x a)
  then show ?case
    by (cases b; cases c) (auto simp: ord_NUL ord_inject ord_pos split: if_splits)
qed

interpretation strcmp_order: git_cmp strcmp
  by unfold_locales (rule strcmp_antisym, rule strcmp_trans)

lemma tolower_NUL: "git__tolower c = NUL \<longleftrightarrow> c = NUL"
proof -
  have "git__tolower c = c \<or> git__isupper c \<and> git__tolower c = char_of (ord c + 32)"
    by (simp add: git__tolower_def)
  moreover have "git__isupper c \<Longrightarrow> ord (char_of (ord c + 32)) = ord c + 32"
    by (simp add: git__isupper_def ord_def)
  moreover have "git__isupper c \<Longrightarrow> 0 < ord c" by (simp add: git__isupper_def ord_def)
  ultimately show ?thesis using ord_pos [of "git__tolower c"] ord_pos [of c] by force
qed

lemma deref_tolower: "git__tolower (deref s) = deref (map git__tolower s)"
  using tolower_NUL [of NUL] by (cases s) (simp_all add: deref_def)

lemma strcasecmp_strcmp: "git__strcasecmp a b = strcmp (map git__tolower a) (map git__tolower b)"
proof (induction a b rule: git__strcasecmp.induct)
  case (1 a as b bs)
  then show ?case using tolower_NUL [of a] tolower_NUL [of b] by auto
qed (use tolower_NUL [of NUL] deref_tolower in simp_all)

lemma strcasecmp_trans: "git__strcasecmp a b \<le> 0 \<Longrightarrow> git__strcasecmp b c \<le> 0 \<Longrightarrow> git__strcasecmp a c \<le> 0"
  unfolding strcasecmp_strcmp by (rule strcmp_trans)

lemma strcasecmp_antisym: "0 < git__strcasecmp a b \<longleftrightarrow> git__strcasecmp b a < 0"
  unfolding strcasecmp_strcmp by (rule strcmp_antisym)

interpretation strcasecmp_order: git_cmp git__strcasecmp
  by unfold_locales (rule strcasecmp_antisym, rule strcasecmp_trans)

subsection \<open>Insertion sort\<close>

lemma length_insert_down [simp]: "length (insert_down cmp els j) = length els"
  by (induction j arbitrary: els) auto

context git_cmp begin

lemma insert_down_split:
  "sorted_by cmp xs \<Longrightarrow> \<exists>us vs. xs = us @ vs \<and> insert_down cmp (xs @ y # zs) (length xs) = us @ y # vs @ zs \<and>
    (\<forall>v\<in>set vs. cmp y v < 0) \<and> (\<forall>u\<in>set us. cmp u y \<le> 0)"
proof (induction xs arbitrary: zs rule: rev_induct)
  case (snoc x xs)
  have sx: "sorted_by cmp xs" "\<forall>u\<in>set xs. cmp u x \<le> 0" using snoc.prems by (auto simp: sorted_by_append)
  have n: "(xs @ x # y # zs) ! Suc (length xs) = y" "(xs @ x # y # zs) ! length xs = x"
    by (simp_all add: nth_append)
  show ?case
  proof (cases "cmp y x < 0")
    case True
    have upd: "(xs @ x # y # zs)[Suc (length xs) := x, length xs := y] = xs @ y # x # zs"
      by (simp add: list_update_append)
    obtain us vs where "xs = us @ vs" "insert_down cmp (xs @ y # x # zs) (length xs) = us @ y # vs @ x # zs"
      "\<forall>v\<in>set vs. cmp y v < 0" "\<forall>u\<in>set us. cmp u y \<le> 0"
      using snoc.IH [OF sx(1), of "x # zs"] by auto
    then show ?thesis using True n upd by (intro exI [of _ us] exI [of _ "vs @ [x]"]) simp
  next
    case False
    then have "cmp x y \<le> 0" using cmp_antisym [of x y] by linarith
    then have "\<forall>u\<in>set (xs @ [x]). cmp u y \<le> 0" using sx(2) cmp_trans by auto
    then show ?thesis using False n by (intro exI [of _ "xs @ [x]"] exI [of _ "[]"]) simp
  qed
qed simp

lemma insertsort_from_spec:
  "sorted_by cmp (take i els) \<Longrightarrow> i \<le> length els \<Longrightarrow>
   sorted_by cmp (insertsort_from cmp els i) \<and> stable_perm cmp els (insertsort_from cmp els i)"
proof (induction "length els - i" arbitrary: els i)
  case 0
  then show ?case by (simp add: insertsort_from.simps [of _ els i])
next
  case (Suc n)
  then have i: "i < length els" by simp
  define xs y zs where "xs = take i els" and "y = els ! i" and "zs = drop (Suc i) els"
  have els: "els = xs @ y # zs" "length xs = i" using i by (simp_all add: xs_def y_def zs_def id_take_nth_drop [symmetric])
  have sxs: "sorted_by cmp xs" using Suc.prems(1) by (simp add: xs_def)
  obtain us vs where s: "xs = us @ vs" "insert_down cmp els i = us @ y # vs @ zs"
    "\<forall>v\<in>set vs. cmp y v < 0" "\<forall>u\<in>set us. cmp u y \<le> 0"
    using insert_down_split [OF sxs, of y zs] unfolding els(2) els(1) [symmetric] by blast
  have sx: "sorted_by cmp (us @ vs)" using sxs s(1) by simp
  have "take (i + 1) (us @ y # vs @ zs) = us @ y # vs"
    unfolding els(2) [symmetric] s(1) by simp
  moreover have "sorted_by cmp (us @ y # vs)"
  proof -
    have "\<forall>v\<in>set vs. cmp y v \<le> 0" using s(3) by auto
    then have "sorted_by cmp (y # vs)" using sx by (simp add: sorted_by_append sorted_by_Cons)
    moreover have "\<forall>u\<in>set us. \<forall>v\<in>set (y # vs). cmp u v \<le> 0" using sx s(4) by (simp add: sorted_by_append)
    ultimately show ?thesis using sx by (simp add: sorted_by_append)
  qed
  ultimately have s1: "sorted_by cmp (take (i + 1) (insert_down cmp els i))" using s(2) by simp
  have "stable_perm cmp (vs @ [y]) (y # vs)" using s(3) by (intro stable_perm_move) auto
  from stable_perm_middle [OF this, of us zs] have p: "stable_perm cmp els (insert_down cmp els i)"
    unfolding els(1) s(2) [unfolded els(1)] using s by simp
  have l: "n = length (insert_down cmp els i) - (i + 1)" using Suc.hyps(2) by simp
  have "i + 1 \<le> length (insert_down cmp els i)" using i by simp
  from Suc.hyps(1) [OF l s1 this] show ?case
    using i p stable_perm_trans by (auto simp: insertsort_from.simps [of _ els i])
qed

end

text \<open>
  C22. The insertion sort behind \<open>git__qsort_r\<close> sorts, and keeps the order of equal elements.
\<close>

theorem insertsort_stable:
  assumes "git_cmp cmp"
  shows "sorted_by cmp (insertsort cmp els) \<and> stable_perm cmp els (insertsort cmp els)"
proof (cases "els = []")
  case True
  then show ?thesis by (simp add: insertsort_def insertsort_from.simps)
next
  case False
  then have "sorted_by cmp (take 1 els)" by (cases els) simp_all
  then show ?thesis
    using git_cmp.insertsort_from_spec [OF assms, of 1 els] False by (simp add: insertsort_def Suc_le_eq)
qed

theorem insertsort_stable_witness:
  "sorted_by strcmp (insertsort strcmp [''b'', ''a'', ''b''])"
  using insertsort_stable [OF strcmp_order.git_cmp_axioms] by blast

subsection \<open>UTF-8\<close>

text \<open>The prefixes that consist of sequences that \<open>git__utf8_charlen\<close> accepts.\<close>

inductive utf8_prefix :: "u8 list \<Rightarrow> nat \<Rightarrow> bool" for str where
  utf8_empty: "utf8_prefix str 0"
| utf8_char: "utf8_prefix str n \<Longrightarrow> git__utf8_charlen (drop n str) (length str - n) = Some (int k) \<Longrightarrow> 0 < k \<Longrightarrow>
    utf8_prefix str (n + k)"

lemma charlen_cases:
  assumes "str \<noteq> []"
  shows "git__utf8_charlen str (length str) = Some (-1) \<or>
    (\<exists>k>0. git__utf8_charlen str (length str) = Some (int k) \<and> k \<le> length str)"
  using assms by (auto simp: git__utf8_charlen_def Let_def)

lemma utf8_valid_loop_spec:
  "utf8_prefix str offset \<Longrightarrow> offset \<le> length str \<Longrightarrow> length str - offset < fuel \<Longrightarrow>
   \<exists>n. utf8_valid_loop fuel str offset = Some n \<and> utf8_prefix str n \<and> n \<le> length str \<and>
     (n = length str \<or> git__utf8_charlen (drop n str) (length str - n) = Some (-1))"
proof (induction fuel arbitrary: offset)
  case (Suc fuel)
  show ?case
  proof (cases "offset < length str")
    case True
    then have "drop offset str \<noteq> []" by simp
    from charlen_cases [OF this]
    consider "git__utf8_charlen (drop offset str) (length str - offset) = Some (-1)"
      | k where "0 < k" "git__utf8_charlen (drop offset str) (length str - offset) = Some (int k)" "k \<le> length str - offset"
      by auto
    then show ?thesis
    proof cases
      case 1
      then show ?thesis using True Suc.prems by auto
    next
      case 2
      have "utf8_prefix str (offset + k)" by (rule utf8_char [OF Suc.prems(1) 2(2,1)])
      then show ?thesis using Suc.IH [of "offset + k"] True 2 Suc.prems by simp
    qed
  qed (use Suc.prems in simp)
qed simp


text \<open>
  The sequences are not checked further: an overlong coding of NUL and a surrogate count as valid,
  which \<open>git__utf8_iterate\<close> rejects.
\<close>

lemma utf8_overlong_counts:
  "git__utf8_valid_buf_length [0xC0, 0x80] = Some 2" "git__utf8_iterate [0xC0, 0x80] 2 = Some (-1, -1)"
  by (code_simp, code_simp)

end
