(* ===== verification/Oid.thy ===== *)
theory Oid
  imports UtilCorrect "HOL-Library.List_Lexorder"
begin

text \<open>
  \<open>oid.c\<close>: object ids, their hexadecimal form, their order, and \<open>git_oid_shorten\<close>, the trie that
  finds how many digits tell a set of ids apart.
\<close>

definition GIT_OID_RAWSZ :: nat where "GIT_OID_RAWSZ = 20"

definition GIT_OID_HEXSZ :: nat where "GIT_OID_HEXSZ = 40"

datatype git_oid = GitOid (oid_id: "u8 list")

text \<open>The array \<open>id\<close> has 20 bytes.\<close>

definition oid_ok :: "git_oid \<Rightarrow> bool" where "oid_ok oid \<longleftrightarrow> length (oid_id oid) = GIT_OID_RAWSZ"

subsection \<open>Hexadecimal form\<close>

definition to_hex :: string where "to_hex = ''0123456789abcdef''"

text \<open>The loop of \<open>git_oid_fromstrn\<close> from position \<open>p\<close> on; \<open>None\<close> is an invalid character.\<close>

function fromstrn_loop :: "string \<Rightarrow> nat \<Rightarrow> nat \<Rightarrow> u8 list \<Rightarrow> u8 list option" where
  "fromstrn_loop str len p raw =
     (if p < len then
        (let v = git__fromhex (deref (drop p str)) in
         if v < 0 then None
         else fromstrn_loop str len (p + 1)
                (raw[p div 2 := raw ! (p div 2) OR of_int (push_bit (if p mod 2 \<noteq> 0 then 0 else 4) v)]))
      else Some raw)"
  by pat_completeness auto
termination by (relation "measure (\<lambda>(str, len, p, raw). len - p)") auto

declare fromstrn_loop.simps [simp del]

definition git_oid_fromstrn :: "string \<Rightarrow> nat \<Rightarrow> git_oid result" where
  "git_oid_fromstrn str len =
     (if len = 0 then Inl GIT_ERROR
      else if len > GIT_OID_HEXSZ then Inl GIT_ERROR
      else (case fromstrn_loop str len 0 (replicate GIT_OID_RAWSZ 0) of
              None \<Rightarrow> Inl GIT_ERROR
            | Some raw \<Rightarrow> Inr (GitOid raw)))"

definition git_oid_fromstrp :: "string \<Rightarrow> git_oid result" where
  "git_oid_fromstrp str = git_oid_fromstrn str (length str)"

definition git_oid_fromstr :: "string \<Rightarrow> git_oid result" where
  "git_oid_fromstr str = git_oid_fromstrn str GIT_OID_HEXSZ"

definition fmt_one :: "u8 \<Rightarrow> string" where
  "fmt_one val = [to_hex ! unat (drop_bit 4 val), to_hex ! unat (val AND 0xf)]"

text \<open>The \<open>n\<close> characters written to \<open>str\<close>; a missing oid is \<open>None\<close>.\<close>

definition git_oid_nfmt :: "nat \<Rightarrow> git_oid option \<Rightarrow> string" where
  "git_oid_nfmt n oid =
     (case oid of
        None \<Rightarrow> replicate n NUL
      | Some o' \<Rightarrow>
          (let zeros = (if n > GIT_OID_HEXSZ then replicate (n - GIT_OID_HEXSZ) NUL else []);
               n1 = (if n > GIT_OID_HEXSZ then GIT_OID_HEXSZ else n); max_i = n1 div 2
           in concat (map fmt_one (take max_i (oid_id o'))) @
              (if n1 mod 2 \<noteq> 0 then [to_hex ! unat (drop_bit 4 (oid_id o' ! max_i))] else []) @ zeros))"

definition git_oid_fmt :: "git_oid \<Rightarrow> string" where
  "git_oid_fmt oid = git_oid_nfmt GIT_OID_HEXSZ (Some oid)"

definition git_oid_pathfmt :: "git_oid \<Rightarrow> string" where
  "git_oid_pathfmt oid = fmt_one (oid_id oid ! 0) @ ''/'' @ concat (map fmt_one (drop 1 (oid_id oid)))"

definition git_oid_tostr_s :: "git_oid \<Rightarrow> string" where
  "git_oid_tostr_s oid = git_oid_nfmt (GIT_OID_HEXSZ + 1) (Some oid)"

definition git_oid_allocfmt :: "(nat \<Rightarrow> bool) \<Rightarrow> git_oid \<Rightarrow> string option" where
  "git_oid_allocfmt can_alloc oid =
     (if \<not> can_alloc (GIT_OID_HEXSZ + 1) then None else Some (git_oid_nfmt (GIT_OID_HEXSZ + 1) (Some oid)))"

text \<open>The bytes in \<open>out\<close>, the terminator included; the literal "" is the empty list.\<close>

definition git_oid_tostr :: "bool \<Rightarrow> nat \<Rightarrow> git_oid option \<Rightarrow> string" where
  "git_oid_tostr out_null n oid =
     (if out_null \<or> n = 0 then []
      else (let n1 = (if n > GIT_OID_HEXSZ + 1 then GIT_OID_HEXSZ + 1 else n) in
            git_oid_nfmt (n1 - 1) oid @ [NUL]))"

text \<open>The buffer up to \<open>buffer_end\<close>; the result is the oid and the rest of the buffer.\<close>

definition git_oid__parse :: "string \<Rightarrow> string \<Rightarrow> (git_oid \<times> string) result" where
  "git_oid__parse buffer header =
     (let sha_len = GIT_OID_HEXSZ; header_len = length header in
      if header_len + sha_len + 1 > length buffer then Inl GIT_ERROR
      else if take header_len buffer \<noteq> header then Inl GIT_ERROR
      else if buffer ! (header_len + sha_len) \<noteq> CHR 0x0A then Inl GIT_ERROR
      else (case git_oid_fromstr (drop header_len buffer) of
              Inl e \<Rightarrow> Inl GIT_ERROR
            | Inr oid \<Rightarrow> Inr (oid, drop (header_len + sha_len + 1) buffer)))"

text \<open>The text appended to the buffer.\<close>

definition git_oid__writebuf :: "string \<Rightarrow> git_oid \<Rightarrow> string" where
  "git_oid__writebuf header oid = header @ git_oid_fmt oid @ [CHR 0x0A]"

definition git_oid_fromraw :: "u8 list \<Rightarrow> git_oid" where
  "git_oid_fromraw raw = GitOid (take GIT_OID_RAWSZ raw)"

definition git_oid_cpy :: "git_oid \<Rightarrow> git_oid" where
  "git_oid_cpy src = GitOid (oid_id src)"

subsection \<open>Comparison\<close>

text \<open>\<open>memcmp\<close> of the C library, by the sign of the first difference.\<close>

fun memcmp :: "u8 list \<Rightarrow> u8 list \<Rightarrow> int" where
  "memcmp (a # as) (b # bs) = (if a = b then memcmp as bs else if a < b then -1 else 1)"
| "memcmp [] [] = 0"
| "memcmp [] (b # bs) = -1"
| "memcmp (a # as) [] = 1"

definition git_oid__hashcmp :: "u8 list \<Rightarrow> u8 list \<Rightarrow> int" where
  "git_oid__hashcmp sha1 sha2 = memcmp (take GIT_OID_RAWSZ sha1) (take GIT_OID_RAWSZ sha2)"

definition git_oid__cmp :: "git_oid \<Rightarrow> git_oid \<Rightarrow> int" where
  "git_oid__cmp a b = git_oid__hashcmp (oid_id a) (oid_id b)"

definition git_oid_cmp :: "git_oid \<Rightarrow> git_oid \<Rightarrow> int" where
  "git_oid_cmp a b = git_oid__cmp a b"

definition git_oid_equal :: "git_oid \<Rightarrow> git_oid \<Rightarrow> bool" where
  "git_oid_equal a b \<longleftrightarrow> git_oid__cmp a b = 0"

definition git_oid__cpy_prefix :: "git_oid \<Rightarrow> git_oid \<Rightarrow> nat \<Rightarrow> git_oid" where
  "git_oid__cpy_prefix out oid len =
     (let n = (len + 1) div 2; bytes = take n (oid_id oid) @ drop n (oid_id out) in
      GitOid (if len mod 2 \<noteq> 0 then bytes[len div 2 := bytes ! (len div 2) AND 0xF0] else bytes))"

fun ncmp_loop :: "u8 list \<Rightarrow> u8 list \<Rightarrow> nat \<Rightarrow> int" where
  "ncmp_loop a b len =
     (if len > 1 then
        (if hd a \<noteq> hd b then 1 else ncmp_loop (tl a) (tl b) (len - 2))
      else if len \<noteq> 0 \<and> (hd a XOR hd b) AND 0xf0 \<noteq> 0 then 1 else 0)"

declare ncmp_loop.simps [simp del]

definition git_oid_ncmp :: "git_oid \<Rightarrow> git_oid \<Rightarrow> nat \<Rightarrow> int" where
  "git_oid_ncmp oid_a oid_b len =
     ncmp_loop (oid_id oid_a) (oid_id oid_b) (if len > GIT_OID_HEXSZ then GIT_OID_HEXSZ else len)"

fun oid_strcmp_loop :: "u8 list \<Rightarrow> string \<Rightarrow> int" where
  "oid_strcmp_loop [] str = 0"
| "oid_strcmp_loop (a # as) [] = 0"
| "oid_strcmp_loop (a # as) (c # str) =
     (let hi = git__fromhex c in
      if hi < 0 then -1
      else (case str of
              [] \<Rightarrow> (let strval = of_int (push_bit 4 hi) in if a \<noteq> strval then uint a - uint strval else 0)
            | d # str1 \<Rightarrow>
                (let lo = git__fromhex d in
                 if lo < 0 then -1
                 else (let strval = of_int (push_bit 4 hi) OR of_int lo in
                       if a \<noteq> strval then uint a - uint strval else oid_strcmp_loop as str1))))"

definition git_oid_strcmp :: "git_oid \<Rightarrow> string \<Rightarrow> int" where
  "git_oid_strcmp oid_a str = oid_strcmp_loop (take GIT_OID_RAWSZ (oid_id oid_a)) str"

definition git_oid_streq :: "git_oid \<Rightarrow> string \<Rightarrow> int" where
  "git_oid_streq oid_a str = (if git_oid_strcmp oid_a str = 0 then 0 else -1)"

definition git_oid_is_zero :: "git_oid \<Rightarrow> bool" where
  "git_oid_is_zero oid_a = list_all (\<lambda>b. b = 0) (take GIT_OID_RAWSZ (oid_id oid_a))"

definition git_oid_iszero :: "git_oid \<Rightarrow> bool" where
  "git_oid_iszero oid_a = git_oid_is_zero oid_a"

subsection \<open>Shortening\<close>

text \<open>
  The union \<open>trie_node\<close>: a leaf holds the rest of its id, another node the indexes of its 16
  children. A node index is a \<open>short\<close>, negative for a leaf.
\<close>

datatype trie_node = Tail string | Children "int list"

record git_oid_shorten =
  os_nodes :: "trie_node list"
  os_node_count :: nat
  os_min_length :: int
  os_full :: bool

abbreviation os_size :: "git_oid_shorten \<Rightarrow> nat" where "os_size os \<equiv> length (os_nodes os)"

definition SHRT_MAX :: nat where "SHRT_MAX = 32767"

definition resize_trie :: "(nat \<Rightarrow> bool) \<Rightarrow> git_oid_shorten \<Rightarrow> nat \<Rightarrow> git_oid_shorten result" where
  "resize_trie can_alloc self new_size =
     (if \<not> can_alloc new_size then Inl GIT_ERROR
      else Inr (self\<lparr>os_nodes := take new_size (os_nodes self) @
                      replicate (new_size - os_size self) (Children (replicate 16 0))\<rparr>))"

text \<open>
  The outer \<open>None\<close>: the child slot does not exist, or the parent is a leaf whose union member
  \<open>children\<close> overlays a pointer. \<open>Inl\<close> is a NULL result; the set stays as it is then.
\<close>

definition push_leaf :: "(nat \<Rightarrow> bool) \<Rightarrow> git_oid_shorten \<Rightarrow> nat \<Rightarrow> int \<Rightarrow> string \<Rightarrow>
    (git_oid_shorten + git_oid_shorten) option" where
  "push_leaf can_alloc os idx push_at oid =
     (case (if os_node_count os \<ge> os_size os then resize_trie can_alloc os (os_size os * 2) else Inr os) of
        Inl e \<Rightarrow> Some (Inl os)
      | Inr os1 \<Rightarrow>
          (let idx_leaf = os_node_count os1;
               os2 = os1\<lparr>os_node_count := os_node_count os1 + 1\<rparr> in
           if os_node_count os2 = SHRT_MAX then Some (Inl (os2\<lparr>os_full := True\<rparr>))
           else (case os_nodes os2 ! idx of
                   Tail t \<Rightarrow> None
                 | Children cs \<Rightarrow>
                     (if push_at < 0 then None
                      else Some (Inr (os2\<lparr>os_nodes := (os_nodes os2)[idx := Children (cs[nat push_at := - int idx_leaf]),
                                                                   idx_leaf := Tail oid]\<rparr>))))))"

definition git_oid_shorten_new :: "(nat \<Rightarrow> bool) \<Rightarrow> nat \<Rightarrow> git_oid_shorten option" where
  "git_oid_shorten_new can_alloc min_length =
     (case resize_trie can_alloc \<lparr>os_nodes = [], os_node_count = 0, os_min_length = 0, os_full = False\<rparr> 16 of
        Inl e \<Rightarrow> None
      | Inr os \<Rightarrow> Some (os\<lparr>os_node_count := 1, os_min_length := int min_length\<rparr>))"

text \<open>
  The loop over the digits with \<open>n\<close> turns to go, so that \<open>i = 40 - n\<close>. The result is -1 (\<open>Inl\<close>) or
  the \<open>i\<close> at which the loop ends.
\<close>

primrec shorten_loop :: "(nat \<Rightarrow> bool) \<Rightarrow> string \<Rightarrow> nat \<Rightarrow> nat \<Rightarrow> bool \<Rightarrow> git_oid_shorten \<Rightarrow>
    ((unit + nat) \<times> git_oid_shorten) option" where
  "shorten_loop can_alloc text_oid 0 idx is_leaf os = Some (Inr GIT_OID_HEXSZ, os)"
| "shorten_loop can_alloc text_oid (Suc n) idx is_leaf os =
     (let i = GIT_OID_HEXSZ - Suc n; c = git__fromhex (deref (drop i text_oid)) in
      if c = -1 then Some (Inl (), os)
      else (case
        (if is_leaf then
           (case os_nodes os ! idx of
              Children cs \<Rightarrow> None
            | Tail t \<Rightarrow>
                push_leaf can_alloc (os\<lparr>os_nodes := (os_nodes os)[idx := Children (replicate 16 0)]\<rparr>)
                  idx (git__fromhex (deref t)) (drop 1 t))
         else Some (Inr os)) of
          None \<Rightarrow> None
        | Some (Inl os1) \<Rightarrow> Some (Inl (), os1)
        | Some (Inr os1) \<Rightarrow>
            (case os_nodes os1 ! idx of
               Tail t \<Rightarrow> None
             | Children cs \<Rightarrow>
                 (let child = cs ! nat c in
                  if child = 0 then
                    (case push_leaf can_alloc os1 idx c (drop (i + 1) text_oid) of
                       None \<Rightarrow> None
                     | Some (Inl os2) \<Rightarrow> Some (Inl (), os2)
                     | Some (Inr os2) \<Rightarrow> Some (Inr i, os2))
                  else if child < 0 then
                    shorten_loop can_alloc text_oid n (nat (- child)) True
                      (os1\<lparr>os_nodes := (os_nodes os1)[idx := Children (cs[nat c := - child])]\<rparr>)
                  else shorten_loop can_alloc text_oid n (nat child) False os1))))"

definition git_oid_shorten_add :: "(nat \<Rightarrow> bool) \<Rightarrow> git_oid_shorten \<Rightarrow> string option \<Rightarrow>
    (int \<times> git_oid_shorten) option" where
  "git_oid_shorten_add can_alloc os text_oid =
     (if os_full os then Some (-1, os)
      else (case text_oid of
              None \<Rightarrow> Some (os_min_length os, os)
            | Some text \<Rightarrow>
                (case shorten_loop can_alloc text GIT_OID_HEXSZ 0 False os of
                   None \<Rightarrow> None
                 | Some (Inl _, os1) \<Rightarrow> Some (-1, os1)
                 | Some (Inr i, os1) \<Rightarrow>
                     (let os2 = (if int i + 1 > os_min_length os1 then os1\<lparr>os_min_length := int i + 1\<rparr> else os1) in
                      Some (os_min_length os2, os2)))))"

end
