(* ===== verification/OidCorrect.thy ===== *)
theory OidCorrect
  imports Oid "HOL-Library.Char_ord"
begin

text \<open>
  Properties of \<open>oid.c\<close>: the hexadecimal form is one-to-one, the comparison is the order of the
  bytes, and \<open>git_oid_ncmp\<close> compares prefixes of the hexadecimal form.
\<close>

subsection \<open>Digits\<close>

lemma hex_table: "list_all (\<lambda>n. git__fromhex (to_hex ! n) = int n) [0..<16]"
  by code_simp

lemma fromhex_to_hex: "n < 16 \<Longrightarrow> git__fromhex (to_hex ! n) = int n"
  using hex_table by (simp add: list_all_iff)

lemma nth_from_hex:
  "n < 256 \<Longrightarrow> from_hex ! n =
     (if 48 \<le> n \<and> n < 58 then int n - 48 else if 65 \<le> n \<and> n < 71 then int n - 55
      else if 97 \<le> n \<and> n < 103 then int n - 87 else -1)"
  by (auto simp: from_hex_def nth_append nth_Cons')

lemma hex_digit_cases:
  assumes "0 \<le> git__fromhex c"
  shows "c \<in> set ''0123456789ABCDEFabcdef''"
proof -
  have n: "(of_char c :: nat) < 256" by simp
  have "(of_char c :: nat) \<in> set ([48..<58] @ [65..<71] @ [97..<103])"
    using assms nth_from_hex [OF n] unfolding set_append set_upt git__fromhex_def
    by (auto simp only: Un_iff atLeastLessThan_iff split: if_splits)
  also have "[48..<58] @ [65..<71] @ [97..<103] = (map of_char ''0123456789ABCDEFabcdef'' :: nat list)"
    by (simp add: upt_rec)
  finally obtain d where d: "d \<in> set ''0123456789ABCDEFabcdef''" and "(of_char c :: nat) = of_char d"
    unfolding set_map by blast
  then have "c = d" by simp
  then show ?thesis using d(1) by (simp only:)
qed

lemma fromhex_digits:
  "list_all (\<lambda>c. git__fromhex c < 16 \<and> to_hex ! nat (git__fromhex c) = git__tolower c) ''0123456789ABCDEFabcdef''"
  by code_simp

lemma fromhex_bounds:
  "git__fromhex c < 16" "0 \<le> git__fromhex c \<Longrightarrow> to_hex ! nat (git__fromhex c) = git__tolower c"
proof -
  have *: "0 \<le> git__fromhex c \<Longrightarrow> git__fromhex c < 16 \<and> to_hex ! nat (git__fromhex c) = git__tolower c"
    using fromhex_digits unfolding list_all_iff by (blast dest: hex_digit_cases)
  then show "git__fromhex c < 16" "0 \<le> git__fromhex c \<Longrightarrow> to_hex ! nat (git__fromhex c) = git__tolower c"
    by (cases "0 \<le> git__fromhex c"; simp)+
qed

lemma to_hex_inject: "m < 16 \<Longrightarrow> n < 16 \<Longrightarrow> to_hex ! m = to_hex ! n \<longleftrightarrow> m = n"
  using fromhex_to_hex by (metis of_nat_eq_iff)

definition hex :: "u8 list \<Rightarrow> string" where "hex bs = concat (map fmt_one bs)"

lemma hex_simps [simp]: "hex [] = []" "hex (b # bs) = fmt_one b @ hex bs" "hex (as @ bs) = hex as @ hex bs"
  by (simp_all add: hex_def)

lemma length_fmt_one [simp]: "length (fmt_one b) = 2"
  by (simp add: fmt_one_def)

lemma length_hex [simp]: "length (hex bs) = 2 * length bs"
  by (induction bs) auto

lemma git_oid_fmt_hex: "oid_ok oid \<Longrightarrow> git_oid_fmt oid = hex (oid_id oid)"
  by (simp add: git_oid_fmt_def git_oid_nfmt_def GIT_OID_HEXSZ_def GIT_OID_RAWSZ_def oid_ok_def hex_def)

lemma nibbles: "unat (drop_bit 4 (b :: u8)) < 16" "unat (b AND 0xf) < 16"
proof -
  have "unat (drop_bit 4 b) = unat b div 16" by (simp add: drop_bit_eq_div unat_div)
  then show "unat (drop_bit 4 b) < 16" using unsigned_less [of b, where ?'a = nat] by simp
  have "b AND 0xf \<le> 0xf" by (rule word_and_le1)
  then show "unat (b AND 0xf) < 16" by (simp add: word_le_nat_alt)
qed

lemma mask_15: "(15 :: u8) = mask 4" "(15 :: int) = mask 4"
  by (simp_all add: mask_eq_exp_minus_1)

lemma join_nibbles: "push_bit 4 (drop_bit 4 b) OR (b AND 15) = (b :: u8)"
  unfolding mask_15 by (rule bit_word_eqI) (auto simp: bit_simps)

lemma low_bits: "0 \<le> v \<Longrightarrow> v < 16 \<Longrightarrow> unat (of_int v :: u8) = nat v"
  by (simp add: unsigned_of_int take_bit_int_eq_self)

lemma or_nibble:
  assumes "0 \<le> v" "v < 16"
  shows "drop_bit 4 (b OR of_int (push_bit 4 v)) = drop_bit 4 b OR (of_int v :: u8)"
    and "(b OR of_int (push_bit 4 v)) AND 15 = b AND (15 :: u8)"
    and "drop_bit 4 (b OR of_int v) = drop_bit 4 (b :: u8)"
    and "(b OR of_int v) AND 15 = (b AND 15) OR (of_int v :: u8)"
proof -
  define h where "h = (of_int v :: u8)"
  have bits: "bit h n \<Longrightarrow> n < 4" for n
    using bit_bound [of h 4 n] low_bits [OF assms] assms by (auto simp: h_def)
  have hm: "h AND mask 4 = h" by (rule bit_word_eqI) (auto simp: bit_simps dest: bits)
  have "of_int (push_bit 4 v) = (push_bit 4 h :: u8)"
    by (simp add: h_def push_bit_eq_mult)
  then show "drop_bit 4 (b OR of_int (push_bit 4 v)) = drop_bit 4 b OR (of_int v :: u8)"
    and "(b OR of_int (push_bit 4 v)) AND 15 = b AND (15 :: u8)"
    and "drop_bit 4 (b OR of_int v) = drop_bit 4 (b :: u8)"
    and "(b OR of_int v) AND 15 = (b AND 15) OR (of_int v :: u8)"
    unfolding h_def [symmetric] mask_15
    by ((simp; intro bit_word_eqI; auto simp: bit_simps dest: bits)+)[3]
      (simp add: bit.conj_disj_distrib2 hm)
qed

subsection \<open>Digits of an array of bytes\<close>

definition nib :: "u8 list \<Rightarrow> nat \<Rightarrow> nat" where
  "nib raw i = unat (if i mod 2 = 0 then drop_bit 4 (raw ! (i div 2)) else raw ! (i div 2) AND 15)"

lemma nib_less: "nib raw i < 16"
  by (simp add: nib_def nibbles)

lemma nib_set:
  assumes "p < 2 * length raw" "nib raw p = 0" "0 \<le> v" "v < 16"
  shows "nib (raw[p div 2 := raw ! (p div 2) OR of_int (push_bit (if p mod 2 \<noteq> 0 then 0 else 4) v)]) j =
    (if j = p then nat v else nib raw j)"
proof (cases "j div 2 = p div 2")
  case False
  then show ?thesis by (auto simp: nib_def)
next
  case True
  then have "j = p \<or> j mod 2 \<noteq> p mod 2" using div_mult_mod_eq [of j 2] div_mult_mod_eq [of p 2] by metis
  then show ?thesis
    using assms True or_nibble [OF assms(3,4), of "raw ! (p div 2)"] low_bits [OF assms(3,4)]
    by (auto simp: nib_def unat_eq_0 split: if_splits)
qed

lemma nib_inject:
  assumes "length as = length bs" "\<And>i. i < 2 * length as \<Longrightarrow> nib as i = nib bs i"
  shows "as = bs"
proof (rule nth_equalityI [OF assms(1)])
  fix k assume "k < length as"
  then have "nib as (2 * k) = nib bs (2 * k)" "nib as (2 * k + 1) = nib bs (2 * k + 1)"
    using assms(2) by simp_all
  then have "drop_bit 4 (as ! k) = drop_bit 4 (bs ! k)" "as ! k AND 15 = bs ! k AND 15"
    by (simp_all add: nib_def word_unat_eq_iff)
  then show "as ! k = bs ! k" using join_nibbles by metis
qed

lemma upt_shift_two: "[Suc (Suc 0)..<Suc (Suc n)] = map (\<lambda>i. Suc (Suc i)) [0..<n]"
  by (simp add: map_Suc_upt [symmetric] del: upt_Suc)

lemma hex_nib: "hex bs = map (\<lambda>i. to_hex ! nib bs i) [0..<2 * length bs]"
proof (induction bs)
  case (Cons b bs)
  have "[0..<2 * length (b # bs)] = 0 # 1 # map (\<lambda>i. i + 2) [0..<2 * length bs]"
    by (simp add: upt_conv_Cons upt_shift_two del: upt_Suc)
  then show ?case using Cons by (simp add: fmt_one_def nib_def)
qed simp

subsection \<open>Parsing\<close>

definition hex_digits :: "string \<Rightarrow> bool" where
  "hex_digits s \<longleftrightarrow> list_all (\<lambda>c. 0 \<le> git__fromhex c) s"

lemma fromhex_NUL: "git__fromhex NUL = -1"
  by (simp add: git__fromhex_def NUL_def nth_from_hex)

text \<open>The loop reads all digits, or stops at the first character that is none.\<close>

lemma fromstrn_loop_spec:
  "len \<le> 2 * length raw \<Longrightarrow> p \<le> len \<Longrightarrow> (\<And>j. p \<le> j \<Longrightarrow> j < 2 * length raw \<Longrightarrow> nib raw j = 0) \<Longrightarrow>
   (case fromstrn_loop str len p raw of
      None \<Rightarrow> \<not> (len \<le> length str \<and> hex_digits (take (len - p) (drop p str)))
    | Some raw' \<Rightarrow> length raw' = length raw \<and> (p < len \<longrightarrow> len \<le> length str) \<and>
        hex_digits (take (len - p) (drop p str)) \<and>
        (\<forall>j < 2 * length raw. nib raw' j =
           (if p \<le> j \<and> j < len then nat (git__fromhex (str ! j)) else nib raw j)))"
proof (induction "len - p" arbitrary: p raw)
  case 0
  then show ?case by (simp add: fromstrn_loop.simps hex_digits_def)
next
  case (Suc n)
  then have p: "p < len" by simp
  let ?v = "git__fromhex (deref (drop p str))"
  show ?case
  proof (cases "?v < 0")
    case True
    then show ?thesis using p
      by (cases "p < length str") (auto simp: fromstrn_loop.simps [of str len p] deref_def hex_digits_def
        Cons_nth_drop_Suc [symmetric] Suc_diff_Suc [symmetric] simp del: Suc_diff_Suc)
  next
    case False
    then have str: "p < length str" using fromhex_NUL by (cases "p < length str") (auto simp: deref_def)
    then have d: "drop p str = str ! p # drop (Suc p) str" by (simp add: Cons_nth_drop_Suc)
    then have v: "?v = git__fromhex (str ! p)" by (simp add: deref_def)
    define raw1 where "raw1 = raw[p div 2 := raw ! (p div 2) OR of_int (push_bit (if p mod 2 \<noteq> 0 then 0 else 4) ?v)]"
    have nibs: "nib raw1 j = (if j = p then nat ?v else nib raw j)" for j
      unfolding raw1_def using Suc.prems p False fromhex_bounds(1) by (intro nib_set) auto
    have step: "fromstrn_loop str len p raw = fromstrn_loop str len (Suc p) raw1"
      using p False by (simp add: fromstrn_loop.simps [of str len p] raw1_def Let_def)
    have len1: "length raw1 = length raw" by (simp add: raw1_def)
    have t: "take (len - p) (drop p str) = str ! p # take (len - Suc p) (drop (Suc p) str)"
      using p d by (simp add: take_Cons' )
    have IH: "case fromstrn_loop str len (Suc p) raw1 of
      None \<Rightarrow> \<not> (len \<le> length str \<and> hex_digits (take (len - Suc p) (drop (Suc p) str)))
    | Some raw' \<Rightarrow> length raw' = length raw1 \<and> (Suc p < len \<longrightarrow> len \<le> length str) \<and>
        hex_digits (take (len - Suc p) (drop (Suc p) str)) \<and>
        (\<forall>j < 2 * length raw1. nib raw' j =
           (if Suc p \<le> j \<and> j < len then nat (git__fromhex (str ! j)) else nib raw1 j))"
      using Suc.prems Suc.hyps(2) p by (intro Suc.hyps(1)) (auto simp: nibs len1)
    then show ?thesis
      unfolding step using p str False t v
      by (auto split: option.splits simp: hex_digits_def len1 nibs)
  qed
qed

lemma nib_zeros: "j < 40 \<Longrightarrow> nib (replicate 20 0) j = 0"
  by (simp add: nib_def)

lemma git_oid_fmt_map: "oid_ok oid \<Longrightarrow> git_oid_fmt oid = map (\<lambda>i. to_hex ! nib (oid_id oid) i) [0..<40]"
  by (simp add: git_oid_fmt_hex hex_nib oid_ok_def GIT_OID_RAWSZ_def)

definition readable_oid :: "string \<Rightarrow> nat \<Rightarrow> bool" where
  "readable_oid str len \<longleftrightarrow> 0 < len \<and> len \<le> 40 \<and> len \<le> length str \<and> hex_digits (take len str)"

text \<open>
  C16. \<open>git_oid_fromstrn\<close> accepts the texts of 1 to 40 hexadecimal digits, and the id it reads has the
  digits of the text in lower case, with zeros behind; every other text is an error.
\<close>

theorem git_oid_fromstrn_spec:
  "case git_oid_fromstrn str len of
     Inl e \<Rightarrow> e = GIT_ERROR \<and> \<not> readable_oid str len
   | Inr oid \<Rightarrow> readable_oid str len \<and> oid_ok oid \<and>
       git_oid_fmt oid = map git__tolower (take len str) @ replicate (40 - len) CHR ''0''"
proof (cases "0 < len \<and> len \<le> 40")
  case False
  then show ?thesis by (auto simp: git_oid_fromstrn_def GIT_OID_HEXSZ_def readable_oid_def)
next
  case True
  have spec: "case fromstrn_loop str len 0 (replicate 20 0) of
      None \<Rightarrow> \<not> (len \<le> length str \<and> hex_digits (take len str))
    | Some raw' \<Rightarrow> length raw' = 20 \<and> len \<le> length str \<and> hex_digits (take len str) \<and>
        (\<forall>j < 40. nib raw' j = (if j < len then nat (git__fromhex (str ! j)) else 0))"
    using fromstrn_loop_spec [of len "replicate 20 0" 0 str] True
    by (simp add: nib_zeros split: option.splits)
  show ?thesis
  proof (cases "fromstrn_loop str len 0 (replicate 20 0)")
    case None
    then show ?thesis using spec True
      by (auto simp: git_oid_fromstrn_def GIT_OID_HEXSZ_def GIT_OID_RAWSZ_def readable_oid_def)
  next
    case (Some raw)
    have ok: "oid_ok (GitOid raw)" and r: "readable_oid str len"
      and nibs: "\<And>j. j < 40 \<Longrightarrow> nib raw j = (if j < len then nat (git__fromhex (str ! j)) else 0)"
      using spec Some True by (simp_all add: oid_ok_def GIT_OID_RAWSZ_def readable_oid_def)
    have dig: "to_hex ! nat (git__fromhex (str ! j)) = git__tolower (str ! j)" if "j < len" for j
      using r that fromhex_bounds(2) [of "str ! j"] by (auto simp: readable_oid_def hex_digits_def list_all_length)
    have "git_oid_fmt (GitOid raw) = map git__tolower (take len str) @ replicate (40 - len) CHR ''0''"
      using r dig nibs
      by (intro nth_equalityI)
        (auto simp: git_oid_fmt_map [OF ok] readable_oid_def nth_append to_hex_def [THEN arg_cong [of _ _ "\<lambda>l. l ! 0"], simplified])
    then show ?thesis
      using Some ok r True by (simp add: git_oid_fromstrn_def GIT_OID_HEXSZ_def GIT_OID_RAWSZ_def)
  qed
qed

lemma git_oid_fmt_inject:
  assumes "oid_ok a" "oid_ok b" "git_oid_fmt a = git_oid_fmt b"
  shows "a = b"
proof -
  have "nib (oid_id a) i = nib (oid_id b) i" if "i < 40" for i
    using assms(3) that to_hex_inject [OF nib_less nib_less]
    by (auto simp: git_oid_fmt_map assms(1,2) dest!: map_eq_conv [THEN iffD1])
  then show ?thesis
    using assms(1,2) nib_inject [of "oid_id a" "oid_id b"]
    by (cases a; cases b) (simp add: oid_ok_def GIT_OID_RAWSZ_def)
qed

lemma to_hex_digits: "list_all (\<lambda>n. 0 \<le> git__fromhex (to_hex ! n) \<and> git__tolower (to_hex ! n) = to_hex ! n) [0..<16]"
  by code_simp

lemma fmt_digits:
  assumes "oid_ok oid"
  shows "hex_digits (git_oid_fmt oid)" "map git__tolower (git_oid_fmt oid) = git_oid_fmt oid"
    "length (git_oid_fmt oid) = 40"
  using to_hex_digits nib_less
  by (auto simp: git_oid_fmt_map [OF assms] hex_digits_def list_all_iff)

text \<open>
  C17. The hexadecimal form is one-to-one: reading the digits of an id gives the id, whatever text
  follows, and the header line that \<open>git_oid__writebuf\<close> writes is read back by \<open>git_oid__parse\<close>, which
  stops behind it.
\<close>

theorem git_oid_hex_roundtrip:
  assumes "oid_ok oid"
  shows "git_oid_fromstr (git_oid_fmt oid @ rest) = Inr oid \<and>
    git_oid__parse (git_oid__writebuf header oid @ rest) header = Inr (oid, rest)"
proof -
  have fromstr: "git_oid_fromstr (git_oid_fmt oid @ rest) = Inr oid" for rest
    using git_oid_fromstrn_spec [of "git_oid_fmt oid @ rest" 40] fmt_digits [OF assms] git_oid_fmt_inject [OF _ assms]
    by (auto simp: git_oid_fromstr_def GIT_OID_HEXSZ_def readable_oid_def split: sum.splits)
  then show ?thesis
    using fmt_digits(3) [OF assms]
    by (auto simp: git_oid__parse_def git_oid__writebuf_def GIT_OID_HEXSZ_def nth_append)
qed

definition oid_1 :: git_oid where "oid_1 = GitOid (map of_nat [1..<21])"

theorem git_oid_hex_roundtrip_witness:
  "git_oid_fromstr (git_oid_fmt oid_1 @ ''x'') = Inr oid_1 \<and>
    git_oid__parse (git_oid__writebuf ''tree '' oid_1 @ ''x'') ''tree '' = Inr (oid_1, ''x'')"
  by (rule git_oid_hex_roundtrip) (simp add: oid_1_def oid_ok_def GIT_OID_RAWSZ_def)

subsection \<open>Order\<close>

text \<open>Ids are ordered by their bytes.\<close>

instantiation git_oid :: linorder
begin

definition less_git_oid :: "git_oid \<Rightarrow> git_oid \<Rightarrow> bool" where "less_git_oid a b \<longleftrightarrow> oid_id a < oid_id b"

definition less_eq_git_oid :: "git_oid \<Rightarrow> git_oid \<Rightarrow> bool" where "less_eq_git_oid a b \<longleftrightarrow> oid_id a \<le> oid_id b"

instance
  by standard (auto simp: less_git_oid_def less_eq_git_oid_def intro: git_oid.expand)

end

lemma memcmp_order: "(memcmp as bs < 0 \<longleftrightarrow> as < bs) \<and> (memcmp as bs = 0 \<longleftrightarrow> as = bs)"
  by (induction as bs rule: memcmp.induct) auto

lemma memcmp_values: "memcmp as bs \<in> {-1, 0, 1}"
  by (induction as bs rule: memcmp.induct) auto

interpretation memcmp_order: git_cmp memcmp
proof
  fix a b c :: "u8 list"
  have gt: "0 < memcmp a b \<longleftrightarrow> b < a" for a b
    using memcmp_order [of a b] by (metis less_linear not_less_iff_gr_or_eq)
  show "0 < memcmp a b \<longleftrightarrow> memcmp b a < 0" using gt memcmp_order by simp
  show "memcmp a b \<le> 0 \<Longrightarrow> memcmp b c \<le> 0 \<Longrightarrow> memcmp a c \<le> 0"
    using gt by (simp add: linorder_not_less [symmetric])
qed

interpretation oid_order: git_cmp git_oid_cmp
  by standard (auto simp: git_oid_cmp_def git_oid__cmp_def git_oid__hashcmp_def
      memcmp_order.cmp_antisym intro: memcmp_order.cmp_trans)

lemma to_hex_mono_table: "list_all (\<lambda>n. list_all (\<lambda>m. to_hex ! m < to_hex ! n) [0..<n]) [0..<16]"
  by code_simp

lemma to_hex_mono: "m < n \<Longrightarrow> n < 16 \<Longrightarrow> to_hex ! m < to_hex ! n"
  using to_hex_mono_table by (simp add: list_all_iff)

lemma unat_nibbles: "unat (drop_bit 4 (b :: u8)) = unat b div 16" "unat (b AND 15) = unat b mod 16"
  unfolding mask_15 by (simp_all add: drop_bit_eq_div unat_div take_bit_eq_mask [symmetric] unsigned_take_bit_eq)
    (simp add: take_bit_eq_mod unat_mod)

lemma div_mod_less: "(m :: nat) < n \<Longrightarrow> m div 16 < n div 16 \<or> m div 16 = n div 16 \<and> m mod 16 < n mod 16"
  by (metis div_le_mono div_mult_mod_eq le_neq_implies_less less_imp_le_nat nat_add_left_cancel_less)

lemma fmt_one_less:
  assumes "(a :: u8) < b"
  shows "fmt_one a @ xs < fmt_one b @ ys"
proof -
  have "unat a < unat b" using assms by (simp add: word_less_nat_alt)
  then have "unat a div 16 < unat b div 16 \<or> unat a div 16 = unat b div 16 \<and> unat a mod 16 < unat b mod 16"
    by (rule div_mod_less)
  then show ?thesis
  proof
    assume "unat a div 16 < unat b div 16"
    then have "to_hex ! (unat a div 16) < to_hex ! (unat b div 16)"
      using nibbles(1) [of b] unfolding unat_nibbles by (rule to_hex_mono)
    then show ?thesis unfolding fmt_one_def unat_nibbles by (simp only: append_Cons Cons_less_Cons simp_thms)
  next
    assume eq: "unat a div 16 = unat b div 16 \<and> unat a mod 16 < unat b mod 16"
    then have "to_hex ! (unat a mod 16) < to_hex ! (unat b mod 16)"
      using nibbles(2) [of b] unfolding unat_nibbles by (intro to_hex_mono) simp_all
    then show ?thesis using eq unfolding fmt_one_def unat_nibbles by (simp only: append_Cons Cons_less_Cons simp_thms)
  qed
qed

lemma fmt_one_inject: "fmt_one a = fmt_one b \<longleftrightarrow> a = b"
proof
  assume "fmt_one a = fmt_one b"
  then have "unat (drop_bit 4 a) = unat (drop_bit 4 b)" "unat (a AND 15) = unat (b AND 15)"
    using to_hex_inject [OF nibbles(1) nibbles(1)] to_hex_inject [OF nibbles(2) nibbles(2)]
    unfolding fmt_one_def by simp_all
  then show "a = b" using join_nibbles [of a] join_nibbles [of b] unfolding word_unat_eq_iff [symmetric] by metis
qed simp

lemma hex_less: "length as = length bs \<Longrightarrow> as < bs \<longleftrightarrow> hex as < hex bs"
proof (induction as bs rule: list_induct2)
  case (Cons a as b bs)
  show ?case
  proof (cases a b rule: linorder_cases)
    case equal
    then show ?thesis using Cons by (simp add: fmt_one_def)
  qed (use fmt_one_less [of a b] fmt_one_less [of b a] in \<open>auto dest: order.asym\<close>)
qed simp

lemma git_oid_equal_iff: "oid_ok a \<Longrightarrow> oid_ok b \<Longrightarrow> git_oid_equal a b \<longleftrightarrow> a = b"
  using memcmp_order [of "oid_id a" "oid_id b"]
  by (auto simp: git_oid_equal_def git_oid__cmp_def git_oid__hashcmp_def oid_ok_def intro: git_oid.expand)

text \<open>
  C18. \<open>git_oid_cmp\<close> orders the ids as the sorting of their hexadecimal texts does, with result 0 for
  equal ids only.
\<close>

theorem git_oid_cmp_hex_order:
  assumes "oid_ok a" "oid_ok b"
  shows "(git_oid_cmp a b < 0 \<longleftrightarrow> git_oid_fmt a < git_oid_fmt b) \<and> (git_oid_cmp a b < 0 \<longleftrightarrow> a < b) \<and>
    (git_oid_cmp a b = 0 \<longleftrightarrow> a = b) \<and> (git_oid_equal a b \<longleftrightarrow> a = b)"
  using assms memcmp_order [of "oid_id a" "oid_id b"] hex_less [of "oid_id a" "oid_id b"]
  by (auto simp: git_oid_cmp_def git_oid__cmp_def git_oid__hashcmp_def git_oid_equal_def git_oid_fmt_hex
      oid_ok_def less_git_oid_def intro: git_oid.expand)

definition oid_2 :: git_oid where "oid_2 = GitOid (map of_nat [2..<22])"

theorem git_oid_cmp_hex_order_witness:
  "(git_oid_cmp oid_1 oid_2 < 0 \<longleftrightarrow> git_oid_fmt oid_1 < git_oid_fmt oid_2) \<and> (git_oid_cmp oid_1 oid_2 < 0 \<longleftrightarrow> oid_1 < oid_2) \<and>
    (git_oid_cmp oid_1 oid_2 = 0 \<longleftrightarrow> oid_1 = oid_2) \<and> (git_oid_equal oid_1 oid_2 \<longleftrightarrow> oid_1 = oid_2)"
  by (rule git_oid_cmp_hex_order) (simp_all add: oid_1_def oid_2_def oid_ok_def GIT_OID_RAWSZ_def)

lemma mask_240: "(240 :: u8) = NOT (mask 4)"
  by (simp add: mask_eq_exp_minus_1)

lemma xor_eq_0: "(x :: u8) XOR y = 0 \<longleftrightarrow> x = y"
proof
  assume "x XOR y = 0"
  then have "(x XOR y) XOR y = y" by simp
  then show "x = y" by (simp add: xor.assoc)
qed simp

lemma ncmp_last:
  "(a XOR b) AND 0xf0 \<noteq> 0 \<longleftrightarrow> hd (fmt_one a) \<noteq> hd (fmt_one (b :: u8))"
proof -
  have "(a XOR b) AND 0xf0 = 0 \<longleftrightarrow> drop_bit 4 (a XOR b) = 0"
  proof -
    have "bit (c AND 240) n \<longleftrightarrow> 4 \<le> n \<and> bit c n" for c :: u8 and n
      unfolding mask_240 by (auto simp: bit_simps dest: bit_imp_le_length)
    then have "c AND 240 = 0 \<longleftrightarrow> (\<forall>n \<ge> 4. \<not> bit c n)" for c :: u8
      by (metis bit_eqI bit_0_eq bot_apply bot_bool_def)
    moreover have "drop_bit 4 c = 0 \<longleftrightarrow> (\<forall>n \<ge> 4. \<not> bit c n)" for c :: u8
    proof -
      have "bit (drop_bit 4 c) k \<longleftrightarrow> bit c (4 + k)" for k by (simp add: bit_drop_bit_eq)
      then have "drop_bit 4 c = 0 \<longleftrightarrow> (\<forall>k. \<not> bit c (4 + k))"
        by (metis bit_eqI bit_0_eq bot_apply bot_bool_def)
      then show ?thesis by (metis le_Suc_ex le_add1)
    qed
    ultimately show ?thesis by (simp only:)
  qed
  also have "\<dots> \<longleftrightarrow> drop_bit 4 a = drop_bit 4 b"
    unfolding drop_bit_xor by (rule xor_eq_0)
  finally have "(a XOR b) AND 0xf0 = 0 \<longleftrightarrow> drop_bit 4 a = drop_bit 4 b" .
  then show ?thesis
    using to_hex_inject [of "unat (drop_bit 4 a)" "unat (drop_bit 4 b)"] nibbles
    by (simp add: fmt_one_def word_unat_eq_iff)
qed

lemma ncmp_loop_spec:
  "length as = length bs \<Longrightarrow> len \<le> 2 * length as \<Longrightarrow>
   ncmp_loop as bs len = 0 \<longleftrightarrow> take len (hex as) = take len (hex bs)"
proof (induction as bs len rule: ncmp_loop.induct)
  case (1 as bs len)
  show ?case
  proof (cases "len = 0 \<or> as = []")
    case True
    then show ?thesis using 1(2,3) by (auto simp: ncmp_loop.simps [of as bs len])
  next
    case False
    then obtain a as' b bs' where as: "as = a # as'" and bs: "bs = b # bs'"
      using 1(2) by (cases as; cases bs) auto
    show ?thesis
    proof (cases "len > 1")
      case True
      then have "take len (hex as) = take len (hex bs) \<longleftrightarrow> a = b \<and> take (len - 2) (hex as') = take (len - 2) (hex bs')"
        by (simp add: as bs fmt_one_inject append_eq_append_conv)
      then show ?thesis using 1 True
        by (simp add: ncmp_loop.simps [of as bs len]) (auto simp: as bs)
    next
      case len: False
      then have "len = 1" using False by simp
      then show ?thesis
        using ncmp_last [of a b] by (simp add: ncmp_loop.simps [of "a # as'" "b # bs'"] as bs take_Suc fmt_one_def)
    qed
  qed
qed

text \<open>
  C19. \<open>git_oid_ncmp\<close> tells whether two ids agree in their first \<open>len\<close> hexadecimal digits.
\<close>

theorem git_oid_ncmp_compares_digits:
  assumes "oid_ok a" "oid_ok b"
  shows "git_oid_ncmp a b len = 0 \<longleftrightarrow> take len (git_oid_fmt a) = take len (git_oid_fmt b)"
  using assms ncmp_loop_spec [of "oid_id a" "oid_id b" "if len > 40 then 40 else len"]
  by (auto simp: git_oid_ncmp_def GIT_OID_HEXSZ_def oid_ok_def GIT_OID_RAWSZ_def git_oid_fmt_hex)

theorem git_oid_ncmp_compares_digits_witness:
  "git_oid_ncmp oid_1 oid_2 1 = 0 \<longleftrightarrow> take 1 (git_oid_fmt oid_1) = take 1 (git_oid_fmt oid_2)"
  by (rule git_oid_ncmp_compares_digits) (simp_all add: oid_1_def oid_2_def oid_ok_def GIT_OID_RAWSZ_def)

end
