(* ===== verification/Wildmatch.thy ===== *)
theory Wildmatch
  imports Util
begin

text \<open>
  \<open>wildmatch.c\<close>: shell patterns. A pattern and a text are NUL-terminated, so a pointer is the list
  of the characters left. The character classes are those of the locale "C".
\<close>

subsection \<open>Characters and flags\<close>

definition WM_CASEFOLD :: u32 where "WM_CASEFOLD = 1"

definition WM_PATHNAME :: u32 where "WM_PATHNAME = 2"

definition WM_NOMATCH :: int where "WM_NOMATCH = 1"

definition WM_MATCH :: int where "WM_MATCH = 0"

definition WM_ABORT_ALL :: int where "WM_ABORT_ALL = -1"

definition WM_ABORT_TO_STARSTAR :: int where "WM_ABORT_TO_STARSTAR = -2"

abbreviation casefold :: "u32 \<Rightarrow> bool" where "casefold flags \<equiv> flags AND WM_CASEFOLD \<noteq> 0"

abbreviation pathname :: "u32 \<Rightarrow> bool" where "pathname flags \<equiv> flags AND WM_PATHNAME \<noteq> 0"

text \<open>\<open>GIT_GLOB_SPECIAL\<close> in the table \<open>sane_ctype\<close>: the characters 42, 63, 91 and 92.\<close>

definition is_glob_special :: "char \<Rightarrow> bool" where
  "is_glob_special x \<longleftrightarrow> x = CHR ''*'' \<or> x = CHR ''?'' \<or> x = CHR ''['' \<or> x = CHR 0x5C"

definition ISBLANK :: "char \<Rightarrow> bool" where "ISBLANK c \<longleftrightarrow> c = CHR '' '' \<or> c = CHR 0x09"

definition ISPRINT :: "char \<Rightarrow> bool" where "ISPRINT c \<longleftrightarrow> 32 \<le> ord c \<and> ord c \<le> 126"

definition ISSPACE :: "char \<Rightarrow> bool" where "ISSPACE c \<longleftrightarrow> git__isspace c"

definition ISGRAPH :: "char \<Rightarrow> bool" where "ISGRAPH c \<longleftrightarrow> ISPRINT c \<and> \<not> ISSPACE c"

definition ISDIGIT :: "char \<Rightarrow> bool" where "ISDIGIT c \<longleftrightarrow> git__isdigit c"

definition ISALPHA :: "char \<Rightarrow> bool" where "ISALPHA c \<longleftrightarrow> git__isalpha c"

definition ISALNUM :: "char \<Rightarrow> bool" where "ISALNUM c \<longleftrightarrow> ISALPHA c \<or> ISDIGIT c"

definition ISCNTRL :: "char \<Rightarrow> bool" where "ISCNTRL c \<longleftrightarrow> ord c < 32 \<or> ord c = 127"

definition ISUPPER :: "char \<Rightarrow> bool" where "ISUPPER c \<longleftrightarrow> git__isupper c"

definition ISLOWER :: "char \<Rightarrow> bool" where "ISLOWER c \<longleftrightarrow> ISALPHA c \<and> \<not> ISUPPER c"

definition ISPUNCT :: "char \<Rightarrow> bool" where "ISPUNCT c \<longleftrightarrow> ISGRAPH c \<and> \<not> ISALNUM c"

definition ISXDIGIT :: "char \<Rightarrow> bool" where "ISXDIGIT c \<longleftrightarrow> git__isxdigit c"

definition toupper :: "char \<Rightarrow> char" where
  "toupper c = (if ISLOWER c then char_of (ord c - 32) else c)"

definition fold_case :: "u32 \<Rightarrow> char \<Rightarrow> char" where
  "fold_case flags ch = (if casefold flags \<and> ISUPPER ch then git__tolower ch else ch)"

subsection \<open>Bracket expressions\<close>

text \<open>\<open>[:class:]\<close>; \<open>None\<close> is a malformed class name.\<close>

definition class_matches :: "u32 \<Rightarrow> char \<Rightarrow> string \<Rightarrow> bool option" where
  "class_matches flags t_ch s =
     (if s = ''alnum'' then Some (ISALNUM t_ch)
      else if s = ''alpha'' then Some (ISALPHA t_ch)
      else if s = ''blank'' then Some (ISBLANK t_ch)
      else if s = ''cntrl'' then Some (ISCNTRL t_ch)
      else if s = ''digit'' then Some (ISDIGIT t_ch)
      else if s = ''graph'' then Some (ISGRAPH t_ch)
      else if s = ''lower'' then Some (ISLOWER t_ch)
      else if s = ''print'' then Some (ISPRINT t_ch)
      else if s = ''punct'' then Some (ISPUNCT t_ch)
      else if s = ''space'' then Some (ISSPACE t_ch)
      else if s = ''upper'' then Some (ISUPPER t_ch \<or> casefold flags \<and> ISLOWER t_ch)
      else if s = ''xdigit'' then Some (ISXDIGIT t_ch)
      else None)"

definition range_matches :: "u32 \<Rightarrow> char \<Rightarrow> char \<Rightarrow> char \<Rightarrow> bool" where
  "range_matches flags t_ch prev_ch p_ch =
     (if ord t_ch \<le> ord p_ch \<and> ord t_ch \<ge> ord prev_ch then True
      else if casefold flags \<and> ISLOWER t_ch then
        ord (toupper t_ch) \<le> ord p_ch \<and> ord (toupper t_ch) \<ge> ord prev_ch
      else False)"

text \<open>
  One turn of the do loop with \<open>p_ch = *p\<close>: whether \<open>matched\<close> is set, the \<open>p_ch\<close> at the end of the turn,
  and \<open>p\<close>. \<open>None\<close> is the return of \<open>WM_ABORT_ALL\<close>.
\<close>

definition bracket_step :: "u32 \<Rightarrow> char \<Rightarrow> char \<Rightarrow> string \<Rightarrow> (bool \<times> char \<times> string) option" where
  "bracket_step flags t_ch prev_ch p =
     (let p_ch = deref p; p1 = tl p in
      if p_ch = NUL then None
      else if p_ch = CHR 0x5C then
        (if deref p1 = NUL then None else Some (t_ch = deref p1, deref p1, p1))
      else if p_ch = CHR ''-'' \<and> prev_ch \<noteq> NUL \<and> deref p1 \<noteq> NUL \<and> deref p1 \<noteq> CHR '']'' then
        (if deref p1 = CHR 0x5C then
           (let p2 = tl p1 in
            if deref p2 = NUL then None else Some (range_matches flags t_ch prev_ch (deref p2), NUL, p2))
         else Some (range_matches flags t_ch prev_ch (deref p1), NUL, p1))
      else if p_ch = CHR ''['' \<and> deref p1 = CHR '':'' then
        (let s = tl p1; body = takeWhile (\<lambda>c. c \<noteq> CHR '']'') s; q = dropWhile (\<lambda>c. c \<noteq> CHR '']'') s in
         if q = [] then None
         else if body = [] \<or> last body \<noteq> CHR '':'' then Some (t_ch = CHR ''['', CHR ''['', p)
         else (case class_matches flags t_ch (butlast body) of
                 None \<Rightarrow> None
               | Some m \<Rightarrow> Some (m, NUL, q)))
      else Some (t_ch = p_ch, p_ch, p))"

lemma bracket_step_shorter:
  "bracket_step flags t_ch prev_ch p = Some (m, c, q) \<Longrightarrow> length (tl q) < length p"
proof -
  assume step: "bracket_step flags t_ch prev_ch p = Some (m, c, q)"
  have p: "p \<noteq> []" using step by (auto simp: bracket_step_def deref_def Let_def)
  have "length q \<le> length p" "q \<noteq> []"
    using step
    by (auto simp: bracket_step_def Let_def deref_def split: if_splits option.splits list.splits
        intro: le_trans [OF length_dropWhile_le])
  then show ?thesis using p by (cases q) auto
qed

text \<open>The do loop. The result is \<open>matched\<close> and \<open>p\<close> at the closing bracket.\<close>

function bracket_loop :: "u32 \<Rightarrow> char \<Rightarrow> char \<Rightarrow> bool \<Rightarrow> string \<Rightarrow> (bool \<times> string) option" where
  "bracket_loop flags t_ch prev_ch matched p =
     (case bracket_step flags t_ch prev_ch p of
        None \<Rightarrow> None
      | Some (m, p_ch, q) \<Rightarrow>
          (if deref (tl q) \<noteq> CHR '']'' then bracket_loop flags t_ch p_ch (matched \<or> m) (tl q)
           else Some (matched \<or> m, tl q)))"
  by pat_completeness auto
termination
  by (relation "measure (\<lambda>(flags, t_ch, prev_ch, matched, p). length p)") (auto dest: bracket_step_shorter)

declare bracket_loop.simps [simp del]

text \<open>
  The case \<open>'['\<close> with \<open>p\<close> behind the bracket: whether the character matches, and \<open>p\<close> behind the closing
  bracket.
\<close>

definition bracket :: "u32 \<Rightarrow> char \<Rightarrow> string \<Rightarrow> (bool \<times> string) option" where
  "bracket flags t_ch p =
     (let negated = deref p = CHR ''^'' \<or> deref p = CHR ''!'' in
      case bracket_loop flags t_ch NUL False (if negated then tl p else p) of
        None \<Rightarrow> None
      | Some (matched, q) \<Rightarrow>
          Some (\<not> (matched = negated \<or> pathname flags \<and> t_ch = CHR ''/''), tl q))"

lemma bracket_loop_shorter:
  "bracket_loop flags t_ch prev_ch matched p = Some (m, q) \<Longrightarrow> length q < length p"
proof (induction flags t_ch prev_ch matched p rule: bracket_loop.induct)
  case (1 flags t_ch prev_ch matched p)
  show ?case
    using 1(2) bracket_step_shorter [of flags t_ch prev_ch p] 1(1)
    by (subst (asm) bracket_loop.simps) (fastforce split: option.splits prod.splits if_splits)
qed

lemma bracket_shorter: "bracket flags t_ch p = Some (m, q) \<Longrightarrow> length q \<le> length p"
  using bracket_loop_shorter [of flags t_ch NUL False "if deref p = CHR ''^'' \<or> deref p = CHR ''!'' then tl p else p"]
  by (auto simp: bracket_def Let_def split: option.splits prod.splits if_splits)

subsection \<open>Matching\<close>

text \<open>The inner while loop that skips to the literal behind an asterisk.\<close>

fun skip_to :: "u32 \<Rightarrow> bool \<Rightarrow> char \<Rightarrow> string \<Rightarrow> string" where
  "skip_to flags match_slash p_ch [] = []"
| "skip_to flags match_slash p_ch (c # text) =
     (if \<not> (match_slash \<or> c \<noteq> CHR ''/'') then c # text
      else if fold_case flags c = p_ch then c # text
      else skip_to flags match_slash p_ch text)"

lemma skip_to_shorter: "length (skip_to flags ms c text) \<le> length text"
  by (induction "text") auto

lemma tail_shorter:
  "t \<noteq> [] \<Longrightarrow> Suc (2 * length (tl t)) \<le> 2 * length t"
  "skip_to flags ms c t \<noteq> [] \<Longrightarrow> Suc (2 * length (tl (skip_to flags ms c t))) \<le> 2 * length t"
proof -
  have tail: "Suc (2 * length (tl xs)) \<le> 2 * length xs" if "xs \<noteq> []" for xs :: string
    using that by (cases xs) auto
  then show "t \<noteq> [] \<Longrightarrow> Suc (2 * length (tl t)) \<le> 2 * length t" .
  show "skip_to flags ms c t \<noteq> [] \<Longrightarrow> Suc (2 * length (tl (skip_to flags ms c t))) \<le> 2 * length t"
    using tail [of "skip_to flags ms c t"] skip_to_shorter [of flags ms c t] by linarith
qed

text \<open>
  \<open>p\<close> behind the asterisks and, for two and more of them, whether they may match slashes and whether
  the rest behind a slash is tried on the whole text. \<open>prev\<close> is the character before the asterisks,
  \<open>None\<close> at the start of the pattern of this call.
\<close>

definition double_star :: "u32 \<Rightarrow> char option \<Rightarrow> string \<Rightarrow> bool" where
  "double_star flags prev p \<longleftrightarrow>
     pathname flags \<and> (prev = None \<or> prev = Some CHR ''/'') \<and>
     (p = [] \<or> deref p = CHR ''/'' \<or> deref p = CHR 0x5C \<and> deref (tl p) = CHR ''/'')"

lemma pattern_shorter:
  "p \<noteq> [] \<Longrightarrow> length (tl p) < length p"
  "p \<noteq> [] \<Longrightarrow> length (tl (tl p)) < length p"
  "p \<noteq> [] \<Longrightarrow> length (dropWhile P (tl p)) < length p"
  "p \<noteq> [] \<Longrightarrow> length (tl (dropWhile P (tl p))) < length p"
  "p \<noteq> [] \<Longrightarrow> bracket flags t (tl p) = Some (m, q) \<Longrightarrow> length q < length p"
proof -
  assume p: "p \<noteq> []"
  then have 1: "length (tl p) < length p" by simp
  show "length (tl p) < length p" by (rule 1)
  show "length (tl (tl p)) < length p" using 1 by simp
  show "length (dropWhile P (tl p)) < length p"
    using length_dropWhile_le [of P "tl p"] 1 by linarith
  then show "length (tl (dropWhile P (tl p))) < length p" by simp
  show "bracket flags t (tl p) = Some (m, q) \<Longrightarrow> length q < length p"
    using bracket_shorter [of flags t "tl p" m q] 1 by linarith
qed

lemma bracket_pair:
  "(m, q) = x2 \<Longrightarrow> p \<noteq> [] \<Longrightarrow> bracket flags t (tl p) = Some x2 \<Longrightarrow> length q < length p"
  using pattern_shorter(5) by blast

text \<open>
  \<open>dowild\<close> is the for loop from \<open>p\<close> on, \<open>star_loop\<close> its loop behind an asterisk. In that loop \<open>t_ch\<close> is
  \<open>*text\<close>, or the same in lower case, which makes no difference to its two tests.
\<close>

function dowild :: "u32 \<Rightarrow> char option \<Rightarrow> string \<Rightarrow> string \<Rightarrow> int"
  and star_loop :: "u32 \<Rightarrow> bool \<Rightarrow> string \<Rightarrow> string \<Rightarrow> int" where
  "dowild flags prev p text =
     (if p = [] then (if text \<noteq> [] then WM_NOMATCH else WM_MATCH)
      else if deref text = NUL \<and> deref p \<noteq> CHR ''*'' then WM_ABORT_ALL
      else
        (let t_ch = fold_case flags (deref text); p_ch = fold_case flags (deref p); p1 = tl p in
         if p_ch = CHR ''?'' then
           (if pathname flags \<and> t_ch = CHR ''/'' then WM_NOMATCH else dowild flags (Some (deref p)) p1 (tl text))
         else if p_ch = CHR ''*'' then
           (let stars = (deref p1 = CHR ''*'');
                q = (if stars then dropWhile (\<lambda>c. c = CHR ''*'') p1 else p1);
                double = stars \<and> double_star flags prev q;
                match_slash = (\<not> pathname flags \<or> double)
            in
            if double \<and> deref q = CHR ''/'' \<and> dowild flags None (tl q) text = WM_MATCH then WM_MATCH
            else if q = [] then
              (if \<not> match_slash \<and> CHR ''/'' \<in> set text then WM_NOMATCH else WM_MATCH)
            else if \<not> match_slash \<and> deref q = CHR ''/'' then
              (if CHR ''/'' \<notin> set text then WM_NOMATCH
               else dowild flags (Some CHR ''/'') (tl q) (tl (dropWhile (\<lambda>c. c \<noteq> CHR ''/'') text)))
            else star_loop flags match_slash q text)
         else if p_ch = CHR ''['' then
           (case bracket flags t_ch p1 of
              None \<Rightarrow> WM_ABORT_ALL
            | Some (ok, q) \<Rightarrow> (if \<not> ok then WM_NOMATCH else dowild flags (Some CHR '']'') q (tl text)))
         else if p_ch = CHR 0x5C then
           (if t_ch \<noteq> deref p1 then WM_NOMATCH else dowild flags (Some (deref p1)) (tl p1) (tl text))
         else
           (if t_ch \<noteq> p_ch then WM_NOMATCH else dowild flags (Some (deref p)) p1 (tl text))))"
| "star_loop flags match_slash p text =
     (if text = [] then WM_ABORT_ALL
      else
        (let special = is_glob_special (deref p); p_ch = fold_case flags (deref p);
             text1 = (if special then text else skip_to flags match_slash p_ch text)
         in
         if \<not> special \<and> fold_case flags (deref text1) \<noteq> p_ch then WM_NOMATCH
         else
           (let matched = dowild flags None p text1 in
            if matched \<noteq> WM_NOMATCH \<and> (\<not> match_slash \<or> matched \<noteq> WM_ABORT_TO_STARSTAR) then matched
            else if matched = WM_NOMATCH \<and> \<not> match_slash \<and> deref text1 = CHR ''/'' then WM_ABORT_TO_STARSTAR
            else if text1 = [] then WM_ABORT_ALL
            else star_loop flags match_slash p (tl text1))))"
  by pat_completeness auto
termination
proof (relation "inv_image (less_than <*lex*> less_than)
    (\<lambda>x. case x of Inl (flags, prev, p, text) \<Rightarrow> (length p, 2 * length text)
                 | Inr (flags, ms, p, text) \<Rightarrow> (length p, 2 * length text + 1))", goal_cases)
  case 1
  then show ?case by (intro wf_inv_image wf_lex_prod wf_less_than)
qed (simp_all add: pattern_shorter bracket_pair tail_shorter skip_to_shorter less_Suc_eq_le if_split [of "\<lambda>x. length x < y" for y]
  del: length_tl split: if_splits)

declare dowild.simps [simp del] star_loop.simps [simp del]

definition wildmatch :: "string \<Rightarrow> string \<Rightarrow> u32 \<Rightarrow> int" where
  "wildmatch pattern text flags = dowild flags None pattern text"

end
