(* ===== verification/WildmatchCorrect.thy ===== *)
theory WildmatchCorrect
  imports Wildmatch
begin

text \<open>
  \<open>wildmatch\<close> against a declarative meaning of patterns: the skipping of text and the two abort codes,
  which cut the search short, change no result.
\<close>

subsection \<open>The meaning of a pattern\<close>

text \<open>
  \<open>glob flags prev p text\<close>: the pattern \<open>p\<close>, read behind the character \<open>prev\<close>, matches the text.
  An asterisk matches any text, or any text without a slash where slashes are special; two
  asterisks as a whole path component match slashes too, and \<open>**/\<close> may match nothing.
\<close>

inductive glob :: "u32 \<Rightarrow> char option \<Rightarrow> string \<Rightarrow> string \<Rightarrow> bool" for flags :: u32 where
  glob_end: "glob flags prev [] []"
| glob_char: "\<not> is_glob_special c \<Longrightarrow> fold_case flags t = fold_case flags c \<Longrightarrow>
    glob flags (Some c) q ts \<Longrightarrow> glob flags prev (c # q) (t # ts)"
| glob_escape: "fold_case flags t = d \<Longrightarrow> glob flags (Some d) q ts \<Longrightarrow>
    glob flags prev (CHR 0x5C # d # q) (t # ts)"
| glob_any: "pathname flags \<longrightarrow> t \<noteq> CHR ''/'' \<Longrightarrow> glob flags (Some CHR ''?'') q ts \<Longrightarrow>
    glob flags prev (CHR ''?'' # q) (t # ts)"
| glob_bracket: "bracket flags (fold_case flags t) p1 = Some (True, q) \<Longrightarrow>
    glob flags (Some CHR '']'') q ts \<Longrightarrow> glob flags prev (CHR ''['' # p1) (t # ts)"
| glob_star: "pathname flags \<longrightarrow> CHR ''/'' \<notin> set us \<Longrightarrow> q = [] \<or> hd q \<noteq> CHR ''*'' \<Longrightarrow>
    glob flags (Some CHR ''*'') q ts \<Longrightarrow> glob flags prev (replicate (Suc n) CHR ''*'' @ q) (us @ ts)"
| glob_starstar: "double_star flags prev q \<Longrightarrow> q = [] \<or> hd q \<noteq> CHR ''*'' \<Longrightarrow>
    glob flags (Some CHR ''*'') q ts \<Longrightarrow> glob flags prev (replicate (Suc (Suc n)) CHR ''*'' @ q) (us @ ts)"
| glob_starstar_slash: "double_star flags prev (CHR ''/'' # q) \<Longrightarrow>
    glob flags (Some CHR ''/'') q ts \<Longrightarrow> glob flags prev (replicate (Suc (Suc n)) CHR ''*'' @ CHR ''/'' # q) ts"

inductive_cases glob_NilE: "glob flags prev [] text"
inductive_cases glob_ConsE: "glob flags prev (c # q) text"

inductive_simps glob_Nil [simp]: "glob flags prev [] text"

subsection \<open>Inversion\<close>

lemma replicate_stars_eq:
  assumes "q = [] \<or> hd q \<noteq> CHR ''*''" "q' = [] \<or> hd q' \<noteq> CHR ''*''"
  shows "replicate m CHR ''*'' @ q = replicate n CHR ''*'' @ q' \<longleftrightarrow> m = n \<and> q = q'"
  using assms
proof (induction m arbitrary: n)
  case 0
  then show ?case by (cases n) (auto simp: hd_append)
next
  case (Suc m)
  then show ?case by (cases n) (auto simp: hd_append)
qed

lemma split_stars:
  obtains n q where "p = replicate n CHR ''*'' @ q" "q = [] \<or> hd q \<noteq> CHR ''*''"
    "q = dropWhile (\<lambda>c. c = CHR ''*'') p"
proof -
  have "p = takeWhile (\<lambda>c. c = CHR ''*'') p @ dropWhile (\<lambda>c. c = CHR ''*'') p" by simp
  moreover have "takeWhile (\<lambda>c. c = CHR ''*'') p = replicate (length (takeWhile (\<lambda>c. c = CHR ''*'') p)) CHR ''*''"
    by (rule replicate_eqI) (auto dest: set_takeWhileD)
  moreover have "dropWhile (\<lambda>c. c = CHR ''*'') p = [] \<or> hd (dropWhile (\<lambda>c. c = CHR ''*'') p) \<noteq> CHR ''*''"
    using hd_dropWhile [of "\<lambda>c. c = CHR ''*''" p] by blast
  ultimately show ?thesis using that by metis
qed

lemma glob_stars_iff:
  assumes q: "q = [] \<or> hd q \<noteq> CHR ''*''"
  shows "glob flags prev (replicate (Suc n) CHR ''*'' @ q) text \<longleftrightarrow>
    (\<exists>us ts. text = us @ ts \<and> glob flags (Some CHR ''*'') q ts \<and>
       (pathname flags \<longrightarrow> CHR ''/'' \<notin> set us \<or> n \<noteq> 0 \<and> double_star flags prev q)) \<or>
    (n \<noteq> 0 \<and> double_star flags prev q \<and> q \<noteq> [] \<and> hd q = CHR ''/'' \<and> glob flags (Some CHR ''/'') (tl q) text)"
    (is "?L \<longleftrightarrow> ?R")
proof
  assume ?L
  then show ?R
  proof cases
    case (glob_star us q' ts m)
    then have "q' = q" using replicate_stars_eq [OF q, of q' "Suc n" "Suc m"] by auto
    then show ?thesis using glob_star by blast
  next
    case (glob_starstar q' ts m us)
    then have "q' = q" "n = Suc m" using replicate_stars_eq [OF q, of q' "Suc n" "Suc (Suc m)"] by auto
    then show ?thesis using glob_starstar by blast
  next
    case (glob_starstar_slash q' m)
    then have "CHR ''/'' # q' = q" "n = Suc m"
      using replicate_stars_eq [OF q, of "CHR ''/'' # q'" "Suc n" "Suc (Suc m)"] by auto
    then show ?thesis using glob_starstar_slash by auto
  qed (simp_all add: is_glob_special_def)
next
  assume ?R
  then consider us ts where "text = us @ ts" "glob flags (Some CHR ''*'') q ts" "pathname flags \<longrightarrow> CHR ''/'' \<notin> set us"
    | us ts m where "text = us @ ts" "glob flags (Some CHR ''*'') q ts" "n = Suc m" "double_star flags prev q"
    | m where "n = Suc m" "double_star flags prev q" "q \<noteq> []" "hd q = CHR ''/''" "glob flags (Some CHR ''/'') (tl q) text"
    by (metis not0_implies_Suc)
  then show ?L
  proof cases
    case 1
    then show ?thesis using glob.glob_star [OF _ q] by blast
  next
    case 2
    then show ?thesis using glob.glob_starstar [OF _ q] by blast
  next
    case 3
    then show ?thesis using glob.glob_starstar_slash [of flags prev "tl q" "text" m] by (cases q) auto
  qed
qed

lemma glob_prev_cong:
  assumes "p = [] \<or> hd p \<noteq> CHR ''*'' \<or> ((prev = None \<or> prev = Some CHR ''/'') \<longleftrightarrow> (prev' = None \<or> prev' = Some CHR ''/''))"
  shows "glob flags prev p text \<longleftrightarrow> glob flags prev' p text"
proof -
  have "glob flags b p text" if "glob flags a p text"
    "p = [] \<or> hd p \<noteq> CHR ''*'' \<or> ((a = None \<or> a = Some CHR ''/'') \<longleftrightarrow> (b = None \<or> b = Some CHR ''/''))" for a b
    using that(1)
  proof cases
    case (glob_starstar q ts n us)
    then have "double_star flags b q" using that(2) by (auto simp: double_star_def)
    then show ?thesis unfolding glob_starstar(1,2) using glob_starstar by (intro glob.glob_starstar)
  next
    case (glob_starstar_slash q n)
    then have "double_star flags b (CHR ''/'' # q)" using that(2) by (auto simp: double_star_def)
    then show ?thesis unfolding glob_starstar_slash(1) using glob_starstar_slash by (intro glob.glob_starstar_slash)
  qed (use glob.intros in \<open>metis\<close>)+
  then show ?thesis using assms by blast
qed

subsection \<open>Folding of case\<close>

lemma ord_char_of: "0 \<le> n \<Longrightarrow> n < 256 \<Longrightarrow> ord (char_of n) = n"
  by (simp add: ord_def)

lemma fold_case_eq:
  assumes "\<not> git__isalpha k"
  shows "fold_case flags c = k \<longleftrightarrow> c = k"
proof (cases "casefold flags \<and> ISUPPER c")
  case True
  then have "ord (git__tolower c) = ord c + 32" "65 \<le> ord c" "ord c \<le> 90"
    by (auto simp: git__tolower_def ISUPPER_def git__isupper_def ord_def)
  then have "git__isalpha (git__tolower c)" "git__isalpha c"
    by (auto simp: git__isalpha_def ord_def)
  then show ?thesis using assms True by (auto simp: fold_case_def)
qed (use assms in \<open>auto simp: fold_case_def\<close>)

lemma not_alpha:
  "\<not> git__isalpha CHR ''/''" "\<not> git__isalpha CHR ''*''" "\<not> git__isalpha CHR ''?''"
  "\<not> git__isalpha CHR ''[''" "\<not> git__isalpha CHR 0x5C" "\<not> git__isalpha NUL"
  by (simp_all add: git__isalpha_def ord_def NUL_def)

lemmas fold_case_eqs [simp] = not_alpha [THEN fold_case_eq]

lemma fold_case_eqs' [simp]:
  "CHR ''/'' = fold_case flags c \<longleftrightarrow> c = CHR ''/''"
  using fold_case_eqs(1) by metis

lemma fold_slash: "fold_case flags CHR ''/'' = CHR ''/''"
  by simp

lemma fold_case_special: "is_glob_special c \<Longrightarrow> fold_case flags c = c"
  by (auto simp: is_glob_special_def)

subsection \<open>Brackets\<close>

text \<open>Where a bracket expression ends, and whether it is malformed, does not depend on the text.\<close>

lemma bracket_step_indep:
  "map_option snd (bracket_step flags t c p) = map_option snd (bracket_step flags t' c p)"
proof -
  have "class_matches flags t s = None \<longleftrightarrow> class_matches flags t' s = None" for s
    by (simp add: class_matches_def)
  then have "class_matches flags t s = None \<and> class_matches flags t' s = None \<or>
      (\<exists>m m'. class_matches flags t s = Some m \<and> class_matches flags t' s = Some m')" for s
    by (metis not_Some_eq)
  from this [of "butlast (takeWhile (\<lambda>c. c \<noteq> CHR '']'') (tl (tl p)))"] show ?thesis
    by (elim disjE conjE exE) (auto simp: bracket_step_def Let_def NUL_def)
qed

lemma bracket_loop_indep:
  "map_option snd (bracket_loop flags t c m p) = map_option snd (bracket_loop flags t' c m' p)"
proof (induction flags t c m p arbitrary: m' rule: bracket_loop.induct)
  case (1 flags t c m p)
  have step: "map_option snd (bracket_step flags t c p) = map_option snd (bracket_step flags t' c p)"
    by (rule bracket_step_indep)
  show ?case
  proof (cases "bracket_step flags t c p")
    case None
    then show ?thesis using step
      by (simp add: bracket_loop.simps [of flags t c m p] bracket_loop.simps [of flags t' c m' p])
  next
    case (Some r)
    obtain k d q where r: "r = (k, d, q)" by (cases r) auto
    obtain r' where r': "bracket_step flags t' c p = Some r'"
      using step Some by (cases "bracket_step flags t' c p") simp_all
    then have "snd r' = (d, q)" using step Some r by simp
    then obtain k' where Some': "bracket_step flags t' c p = Some (k', d, q)"
      using r' by (cases r') simp
    have "map_option snd (bracket_loop flags t d (m \<or> k) (tl q)) = map_option snd (bracket_loop flags t' d (m' \<or> k') (tl q))"
      if "deref (tl q) \<noteq> CHR '']''"
      using 1 that Some r by blast
    then show ?thesis
      unfolding bracket_loop.simps [of flags t c m p] bracket_loop.simps [of flags t' c m' p]
      using Some Some' r by simp
  qed
qed

lemma bracket_indep:
  "map_option snd (bracket flags t p) = map_option snd (bracket flags t' p)"
proof -
  let ?p = "if deref p = CHR ''^'' \<or> deref p = CHR ''!'' then tl p else p"
  show ?thesis
    using bracket_loop_indep [of flags t NUL False ?p t' False] unfolding bracket_def Let_def
    by (cases "bracket_loop flags t NUL False ?p"; cases "bracket_loop flags t' NUL False ?p") auto
qed

lemma bracket_no_slash:
  "bracket flags t p = Some (True, q) \<Longrightarrow> pathname flags \<Longrightarrow> t \<noteq> CHR ''/''"
  by (auto simp: bracket_def Let_def split: option.splits prod.splits)

subsection \<open>What the result codes say\<close>

definition allowed :: "char option \<Rightarrow> string \<Rightarrow> string \<Rightarrow> bool" where
  "allowed prev p u \<longleftrightarrow> hd p \<noteq> CHR ''*'' \<or> prev \<noteq> None \<and> (prev = Some CHR ''/'' \<longrightarrow> last u = CHR ''/'')"

text \<open>
  \<open>WM_ABORT_ALL\<close>: no shorter text matches either. \<open>WM_ABORT_TO_STARSTAR\<close>: none that a single asterisk
  in front could leave.
\<close>

definition verdict :: "u32 \<Rightarrow> char option \<Rightarrow> string \<Rightarrow> string \<Rightarrow> int \<Rightarrow> bool" where
  "verdict flags prev p text res \<longleftrightarrow>
     res \<in> {WM_MATCH, WM_NOMATCH, WM_ABORT_ALL, WM_ABORT_TO_STARSTAR} \<and>
     (res = WM_MATCH \<longleftrightarrow> glob flags prev p text) \<and>
     (res = WM_ABORT_ALL \<longrightarrow> (\<forall>u r. text = u @ r \<longrightarrow> u \<noteq> [] \<longrightarrow> allowed prev p u \<longrightarrow> \<not> glob flags prev p r)) \<and>
     (res = WM_ABORT_TO_STARSTAR \<longrightarrow> pathname flags \<and>
        (\<forall>u r. text = u @ r \<longrightarrow> CHR ''/'' \<notin> set u \<longrightarrow> \<not> glob flags prev p r))"

text \<open>The pattern matches behind some text that the asterisk takes.\<close>

definition hits :: "u32 \<Rightarrow> bool \<Rightarrow> string \<Rightarrow> string \<Rightarrow> bool" where
  "hits flags ms q text \<longleftrightarrow> (\<exists>u r. text = u @ r \<and> (ms \<or> CHR ''/'' \<notin> set u) \<and> glob flags None q r)"

definition star_verdict :: "u32 \<Rightarrow> bool \<Rightarrow> string \<Rightarrow> string \<Rightarrow> int \<Rightarrow> bool" where
  "star_verdict flags ms q text res \<longleftrightarrow>
     res \<in> {WM_MATCH, WM_NOMATCH, WM_ABORT_ALL, WM_ABORT_TO_STARSTAR} \<and>
     (res = WM_MATCH \<longleftrightarrow> hits flags ms q text) \<and>
     (res = WM_ABORT_ALL \<longrightarrow> \<not> hits flags True q text) \<and>
     (res = WM_ABORT_TO_STARSTAR \<longrightarrow> \<not> ms)"

lemmas wm_codes = WM_MATCH_def WM_NOMATCH_def WM_ABORT_ALL_def WM_ABORT_TO_STARSTAR_def

text \<open>A pattern that starts with something for a single character.\<close>

definition consumes :: "u32 \<Rightarrow> char option \<Rightarrow> string \<Rightarrow> (char \<Rightarrow> bool) \<Rightarrow> char \<Rightarrow> string \<Rightarrow> bool" where
  "consumes flags prev p ok c q \<longleftrightarrow>
     (\<forall>t ts. glob flags prev p (t # ts) \<longleftrightarrow> ok t \<and> glob flags (Some c) q ts) \<and> \<not> glob flags prev p [] \<and>
     (\<forall>t. ok t \<longrightarrow> c = CHR ''/'' \<longrightarrow> t = CHR ''/'') \<and>
     (pathname flags \<longrightarrow> ok CHR ''/'' \<longrightarrow> (\<forall>t. ok t \<longrightarrow> t = CHR ''/''))"

lemma consumes_verdict:
  assumes "consumes flags prev p ok c q"
  shows "ok t \<Longrightarrow> verdict flags (Some c) q ts res \<Longrightarrow> verdict flags prev p (t # ts) res"
    and "\<not> ok t \<Longrightarrow> verdict flags prev p (t # ts) WM_NOMATCH"
    and "verdict flags prev p [] WM_ABORT_ALL"
proof -
  have glob: "glob flags prev p (t # ts) \<longleftrightarrow> ok t \<and> glob flags (Some c) q ts" for t ts
    using assms by (simp add: consumes_def)
  have nil: "\<not> glob flags prev p []" using assms by (simp add: consumes_def)
  have slash: "ok t \<Longrightarrow> c = CHR ''/'' \<Longrightarrow> t = CHR ''/''"
      "pathname flags \<Longrightarrow> ok CHR ''/'' \<Longrightarrow> ok t \<Longrightarrow> t = CHR ''/''" for t
    using assms by (auto simp: consumes_def)
  show "\<not> ok t \<Longrightarrow> verdict flags prev p (t # ts) WM_NOMATCH" "verdict flags prev p [] WM_ABORT_ALL"
    using glob nil by (simp_all add: verdict_def wm_codes)
  assume ok: "ok t" and v: "verdict flags (Some c) q ts res"
  have "\<not> glob flags prev p r" if "res = WM_ABORT_ALL" and eq: "t # ts = u @ r" "u \<noteq> []" for u r
  proof (cases r)
    case (Cons t' r')
    then obtain u' where "u = t # u'" "ts = (u' @ [t']) @ r'" using eq by (cases u) auto
    then have "allowed (Some c) q (u' @ [t']) \<Longrightarrow> \<not> glob flags (Some c) q r'"
      using v that(1) unfolding verdict_def by blast
    then show ?thesis using glob slash(1) Cons by (auto simp: allowed_def)
  qed (use nil in simp)
  moreover have "\<not> glob flags prev p r"
    if res: "res = WM_ABORT_TO_STARSTAR" and eq: "t # ts = u @ r" and no: "CHR ''/'' \<notin> set u" for u r
  proof (cases r)
    case (Cons t' r')
    have pn: "pathname flags" and *: "\<And>u r. ts = u @ r \<Longrightarrow> CHR ''/'' \<notin> set u \<Longrightarrow> \<not> glob flags (Some c) q r"
      using v res unfolding verdict_def by blast+
    show ?thesis
    proof (cases u)
      case Nil
      then show ?thesis using * [of "[]" ts] eq glob Cons by auto
    next
      case (Cons _ u')
      then have u: "ts = (u' @ [t']) @ r'" "t \<noteq> CHR ''/''" "CHR ''/'' \<notin> set u'"
        using eq \<open>r = t' # r'\<close> no by auto
      show ?thesis
      proof (cases "t' = CHR ''/''")
        case True
        then show ?thesis using slash(2) [OF pn, of t] ok u(2) glob \<open>r = t' # r'\<close> by auto
      next
        case False
        then show ?thesis using * [OF u(1)] u(3) glob \<open>r = t' # r'\<close> by auto
      qed
    qed
  qed (use nil in simp)
  moreover have "res \<in> {WM_MATCH, WM_NOMATCH, WM_ABORT_ALL, WM_ABORT_TO_STARSTAR}"
    "res = WM_MATCH \<longleftrightarrow> glob flags prev p (t # ts)" "res = WM_ABORT_TO_STARSTAR \<longrightarrow> pathname flags"
    using v glob ok unfolding verdict_def by blast+
  ultimately show "verdict flags prev p (t # ts) res"
    unfolding verdict_def by blast
qed

subsection \<open>The characters of the pattern\<close>

lemma consumes_char:
  assumes "\<not> is_glob_special c"
  shows "consumes flags prev (c # q) (\<lambda>t. fold_case flags t = fold_case flags c) c q"
proof -
  have "glob flags prev (c # q) (t # ts) \<longleftrightarrow> fold_case flags t = fold_case flags c \<and> glob flags (Some c) q ts" for t ts
    using assms by (auto elim: glob_ConsE intro: glob.glob_char simp: is_glob_special_def)
  moreover have "\<not> glob flags prev (c # q) []"
    using assms by (auto elim: glob_ConsE simp: is_glob_special_def)
  ultimately show ?thesis unfolding consumes_def by (auto simp: fold_slash)
qed

lemma consumes_escape: "consumes flags prev (CHR 0x5C # d # q) (\<lambda>t. fold_case flags t = d) d q"
proof -
  have "glob flags prev (CHR 0x5C # d # q) (t # ts) \<longleftrightarrow> fold_case flags t = d \<and> glob flags (Some d) q ts" for t ts
    by (auto elim: glob_ConsE intro: glob.glob_escape simp: is_glob_special_def)
  moreover have "\<not> glob flags prev (CHR 0x5C # d # q) []"
    by (auto elim: glob_ConsE simp: is_glob_special_def)
  ultimately show ?thesis unfolding consumes_def by (auto simp: fold_slash)
qed

lemma consumes_any: "consumes flags prev (CHR ''?'' # q) (\<lambda>t. pathname flags \<longrightarrow> t \<noteq> CHR ''/'') CHR ''?'' q"
proof -
  have "glob flags prev (CHR ''?'' # q) (t # ts) \<longleftrightarrow> (pathname flags \<longrightarrow> t \<noteq> CHR ''/'') \<and> glob flags (Some CHR ''?'') q ts" for t ts
    by (auto elim: glob_ConsE intro: glob.glob_any simp: is_glob_special_def)
  moreover have "\<not> glob flags prev (CHR ''?'' # q) []"
    by (auto elim: glob_ConsE simp: is_glob_special_def)
  ultimately show ?thesis unfolding consumes_def by auto
qed

lemma consumes_bracket:
  assumes "bracket flags t0 p1 = Some (m0, q)"
  shows "consumes flags prev (CHR ''['' # p1) (\<lambda>t. bracket flags (fold_case flags t) p1 = Some (True, q)) CHR '']'' q"
proof -
  have rest: "q' = q" if "bracket flags t p1 = Some (m, q')" for t m q'
    using bracket_indep [of flags t p1 t0] assms that by simp
  have "glob flags prev (CHR ''['' # p1) (t # ts) \<longleftrightarrow>
      bracket flags (fold_case flags t) p1 = Some (True, q) \<and> glob flags (Some CHR '']'') q ts" for t ts
    by (auto elim!: glob_ConsE intro: glob.glob_bracket simp: is_glob_special_def dest: rest)
  moreover have "\<not> glob flags prev (CHR ''['' # p1) []"
    by (auto elim: glob_ConsE simp: is_glob_special_def)
  moreover have "pathname flags \<Longrightarrow> bracket flags (fold_case flags CHR ''/'') p1 \<noteq> Some (True, q)"
    using bracket_no_slash [of flags "fold_case flags CHR ''/''"] by auto
  ultimately show ?thesis unfolding consumes_def by auto
qed

lemma glob_bad_bracket:
  assumes "bracket flags t0 p1 = None"
  shows "\<not> glob flags prev (CHR ''['' # p1) text"
proof -
  have "bracket flags t p1 = None" for t
    using bracket_indep [of flags t p1 t0] assms by simp
  then show ?thesis by (auto elim: glob_ConsE simp: is_glob_special_def)
qed

lemma glob_bad_escape: "\<not> glob flags prev [CHR 0x5C] text"
  by (auto elim: glob_ConsE simp: is_glob_special_def)

subsection \<open>The loop behind an asterisk\<close>

lemma skip_to_spec:
  obtains u where "text = u @ skip_to flags ms pc text" "ms \<or> CHR ''/'' \<notin> set u" "\<And>c. c \<in> set u \<Longrightarrow> fold_case flags c \<noteq> pc"
    "skip_to flags ms pc text = [] \<or> fold_case flags (hd (skip_to flags ms pc text)) = pc \<or>
     \<not> ms \<and> hd (skip_to flags ms pc text) = CHR ''/''"
proof (induction "text" arbitrary: thesis)
  case (Cons c ts)
  show ?case
  proof (cases "\<not> (ms \<or> c \<noteq> CHR ''/'') \<or> fold_case flags c = pc")
    case True
    then show ?thesis by (intro Cons.prems [of "[]"]) auto
  next
    case False
    obtain u where u: "ts = u @ skip_to flags ms pc ts" "ms \<or> CHR ''/'' \<notin> set u" "\<And>c. c \<in> set u \<Longrightarrow> fold_case flags c \<noteq> pc"
    "skip_to flags ms pc ts = [] \<or> fold_case flags (hd (skip_to flags ms pc ts)) = pc \<or>
     \<not> ms \<and> hd (skip_to flags ms pc ts) = CHR ''/''"
      using Cons.IH by blast
    show ?thesis using u False by (intro Cons.prems [of "c # u"]) auto
  qed
qed simp

lemma hits_Cons:
  "hits flags ms q (c # ts) \<longleftrightarrow> glob flags None q (c # ts) \<or> (ms \<or> c \<noteq> CHR ''/'') \<and> hits flags ms q ts"
proof
  assume "hits flags ms q (c # ts)"
  then obtain u r where u: "c # ts = u @ r" "ms \<or> CHR ''/'' \<notin> set u" "glob flags None q r" unfolding hits_def by blast
  then show "glob flags None q (c # ts) \<or> (ms \<or> c \<noteq> CHR ''/'') \<and> hits flags ms q ts"
    by (cases u) (auto simp: hits_def)
next
  assume "glob flags None q (c # ts) \<or> (ms \<or> c \<noteq> CHR ''/'') \<and> hits flags ms q ts"
  then show "hits flags ms q (c # ts)"
  proof
    assume "glob flags None q (c # ts)"
    then show ?thesis unfolding hits_def by (intro exI [of _ "[]"] exI [of _ "c # ts"]) auto
  next
    assume "(ms \<or> c \<noteq> CHR ''/'') \<and> hits flags ms q ts"
    then obtain u r where "ts = u @ r" "ms \<or> CHR ''/'' \<notin> set (c # u)" "glob flags None q r"
      unfolding hits_def by auto
    then show ?thesis unfolding hits_def by (intro exI [of _ "c # u"] exI [of _ r]) auto
  qed
qed

lemma hits_skip:
  "ms \<or> CHR ''/'' \<notin> set u \<Longrightarrow> (\<And>c ts. c \<in> set u \<Longrightarrow> \<not> glob flags None q (c # ts)) \<Longrightarrow>
   hits flags ms q (u @ t1) \<longleftrightarrow> hits flags ms q t1"
  by (induction u) (auto simp: hits_Cons)

lemma hits_mono: "hits flags ms q text \<Longrightarrow> hits flags True q text"
  unfolding hits_def by blast

lemma nonstar_nil: "q \<noteq> [] \<Longrightarrow> hd q \<noteq> CHR ''*'' \<Longrightarrow> \<not> glob flags prev q []"
  by (auto elim: glob.cases)

lemma hits_Nil: "q \<noteq> [] \<Longrightarrow> hd q \<noteq> CHR ''*'' \<Longrightarrow> \<not> hits flags ms q []"
  unfolding hits_def using nonstar_nil by auto

lemma literal_head:
  "glob flags prev (c # q) (t # ts) \<Longrightarrow> \<not> is_glob_special c \<Longrightarrow> fold_case flags t = fold_case flags c"
  by (auto elim: glob_ConsE simp: is_glob_special_def)

lemma verdict_hits:
  assumes "verdict flags None q text res" "hd q \<noteq> CHR ''*''"
  shows "res = WM_ABORT_ALL \<Longrightarrow> \<not> hits flags True q text" "res = WM_ABORT_TO_STARSTAR \<Longrightarrow> \<not> hits flags False q text"
proof -
  assume "res = WM_ABORT_ALL"
  then have "\<not> glob flags None q text" "\<And>u r. text = u @ r \<Longrightarrow> u \<noteq> [] \<Longrightarrow> \<not> glob flags None q r"
    using assms unfolding verdict_def allowed_def by (auto simp: wm_codes)
  then show "\<not> hits flags True q text" unfolding hits_def by (metis append_Nil)
next
  assume "res = WM_ABORT_TO_STARSTAR"
  then show "\<not> hits flags False q text" using assms unfolding verdict_def hits_def by blast
qed

lemma star_loop_verdict:
  assumes q: "q \<noteq> []" "hd q \<noteq> CHR ''*''" and ok: "NUL \<notin> set text"
    and dowild: "\<And>t. NUL \<notin> set t \<Longrightarrow> verdict flags None q t (dowild flags None q t)"
  shows "star_verdict flags ms q text (star_loop flags ms q text)"
  using ok
proof (induction "length text" arbitrary: "text" rule: less_induct)
  case less
  show ?case
  proof (cases "text = []")
    case True
    then show ?thesis using hits_Nil [OF q]
      by (simp add: star_loop.simps [of flags ms q "[]"] star_verdict_def wm_codes)
  next
    case False
    define pc where "pc = fold_case flags (deref q)"
    define text1 where "text1 = (if is_glob_special (deref q) then text else skip_to flags ms pc text)"
    define m where "m = dowild flags None q text1"
    have hd_q: "deref q = hd q" using q by (cases q) (auto simp: deref_def)
    obtain u where u: "text = u @ text1" "ms \<or> CHR ''/'' \<notin> set u"
        "\<And>c ts. c \<in> set u \<Longrightarrow> \<not> glob flags None q (c # ts)"
      and stop: "is_glob_special (deref q) \<or> text1 = [] \<or> fold_case flags (hd text1) = pc \<or> \<not> ms \<and> hd text1 = CHR ''/''"
    proof (cases "is_glob_special (deref q)")
      case True
      then show ?thesis using that [of "[]"] by (simp add: text1_def)
    next
      case sp: False
      have lit: "glob flags None q (c # ts) \<Longrightarrow> fold_case flags c = pc" for c ts
        using literal_head [of flags None "hd q" "tl q" c ts] q sp hd_q by (simp add: pc_def)
      from skip_to_spec [of "text" flags ms pc] obtain v where "text = v @ skip_to flags ms pc text"
        "ms \<or> CHR ''/'' \<notin> set v" "\<And>c. c \<in> set v \<Longrightarrow> fold_case flags c \<noteq> pc"
        "skip_to flags ms pc text = [] \<or> fold_case flags (hd (skip_to flags ms pc text)) = pc \<or>
         \<not> ms \<and> hd (skip_to flags ms pc text) = CHR ''/''" by blast
      then show ?thesis using that [of v] lit sp by (simp add: text1_def) blast
    qed
    have hits: "hits flags ms q text \<longleftrightarrow> hits flags ms q text1" "hits flags True q text \<longleftrightarrow> hits flags True q text1"
      using hits_skip [of ms u flags q text1] hits_skip [of True u flags q text1] u by auto
    have star: "star_verdict flags ms q text res \<longleftrightarrow> star_verdict flags ms q text1 res" for res
      by (simp add: star_verdict_def hits)
    have v: "verdict flags None q text1 m" unfolding m_def using less.prems u(1) by (intro dowild) auto
    have loop: "star_loop flags ms q text =
        (if \<not> is_glob_special (deref q) \<and> fold_case flags (deref text1) \<noteq> pc then WM_NOMATCH
         else if m \<noteq> WM_NOMATCH \<and> (\<not> ms \<or> m \<noteq> WM_ABORT_TO_STARSTAR) then m
         else if m = WM_NOMATCH \<and> \<not> ms \<and> deref text1 = CHR ''/'' then WM_ABORT_TO_STARSTAR
         else if text1 = [] then WM_ABORT_ALL
         else star_loop flags ms q (tl text1))"
      unfolding star_loop.simps [of flags ms q "text"] Let_def
      using False by (simp add: m_def text1_def pc_def)
    show ?thesis
    proof (cases text1)
      case Nil
      then show ?thesis
        unfolding star loop using v hits_Nil [OF q] nonstar_nil [OF q]
        by (auto simp: star_verdict_def verdict_def deref_def wm_codes NUL_def)
    next
      case (Cons c ts)
      have "length ts < length text" "NUL \<notin> set ts" using u(1) Cons less.prems by auto
      then have IH: "star_verdict flags ms q ts (star_loop flags ms q ts)" by (rule less.hyps)
      have d: "deref text1 = c" by (simp add: Cons deref_def)
      show ?thesis
      proof (cases "\<not> is_glob_special (deref q) \<and> fold_case flags c \<noteq> pc")
        case True
        then have "\<not> glob flags None q (c # ts)"
          using literal_head [of flags None "hd q" "tl q" c ts] q hd_q by (auto simp: pc_def)
        then show ?thesis unfolding star loop d using True stop
          by (auto simp: star_verdict_def Cons hits_Cons wm_codes)
      next
        case lit: False
        have g: "m = WM_MATCH \<longleftrightarrow> glob flags None q (c # ts)" using v Cons by (simp add: verdict_def)
        have codes: "m \<in> {WM_MATCH, WM_NOMATCH, WM_ABORT_ALL, WM_ABORT_TO_STARSTAR}"
          using v unfolding verdict_def by blast
        have loop1: "star_loop flags ms q text =
            (if m \<noteq> WM_NOMATCH \<and> (\<not> ms \<or> m \<noteq> WM_ABORT_TO_STARSTAR) then m
             else if m = WM_NOMATCH \<and> \<not> ms \<and> c = CHR ''/'' then WM_ABORT_TO_STARSTAR
             else star_loop flags ms q ts)"
          unfolding loop d using lit by (auto simp: Cons)
        from codes consider "m = WM_MATCH" | "m = WM_NOMATCH" | "m = WM_ABORT_ALL" | "m = WM_ABORT_TO_STARSTAR" by blast
        then show ?thesis
        proof cases
          case 1
          then show ?thesis unfolding star loop1 using g by (simp add: star_verdict_def Cons hits_Cons wm_codes)
        next
          case 2
          then have "\<not> glob flags None q (c # ts)" using g by (simp add: wm_codes)
          then show ?thesis unfolding star loop1 using IH 2
            by (cases "\<not> ms \<and> c = CHR ''/''") (auto simp: star_verdict_def Cons hits_Cons wm_codes)
        next
          case 3
          then show ?thesis unfolding star loop1 using verdict_hits(1) [OF v q(2)] hits_mono [of flags ms q text1]
            by (auto simp: star_verdict_def wm_codes)
        next
          case 4
          then have no: "\<not> glob flags None q (c # ts)" "\<not> hits flags False q text1"
            using g verdict_hits(2) [OF v q(2)] by (simp_all add: wm_codes)
          show ?thesis
          proof (cases ms)
            case True
            then show ?thesis unfolding star loop1 using no(1) IH 4
              by (auto simp: star_verdict_def Cons hits_Cons wm_codes)
          next
            case False
            then show ?thesis unfolding star loop1 using no(2) 4 by (simp add: star_verdict_def wm_codes)
          qed
        qed
      qed
    qed
  qed
qed

subsection \<open>Asterisks\<close>

lemma hits_append: "ms \<or> CHR ''/'' \<notin> set u \<Longrightarrow> hits flags ms q r \<Longrightarrow> hits flags ms q (u @ r)"
  by (induction u) (auto simp: hits_Cons)

lemma hits_slash:
  assumes "q \<noteq> []" "hd q = CHR ''/''" "CHR ''/'' \<notin> set v"
  shows "hits flags False q (v @ CHR ''/'' # w) \<longleftrightarrow> glob flags (Some CHR ''/'') (tl q) w"
proof -
  obtain q' where q: "q = CHR ''/'' # q'" using assms by (cases q) auto
  have c: "consumes flags None q (\<lambda>t. fold_case flags t = fold_case flags CHR ''/'') CHR ''/'' q'"
    unfolding q by (rule consumes_char) (simp add: is_glob_special_def)
  have "hits flags False q (v @ CHR ''/'' # w) \<longleftrightarrow> hits flags False q (CHR ''/'' # w)"
    using c assms(3) by (intro hits_skip) (auto simp: consumes_def fold_slash)
  then show ?thesis using c by (simp add: hits_Cons consumes_def fold_slash q)
qed

lemma hits_slash_only:
  assumes "q \<noteq> []" "hd q = CHR ''/''" "hits flags ms q text"
  shows "CHR ''/'' \<in> set text"
proof -
  obtain u r where r: "text = u @ r" "glob flags None q r" using assms(3) unfolding hits_def by blast
  obtain q' where q: "q = CHR ''/'' # q'" using assms(1,2) by (cases q) auto
  have "consumes flags None q (\<lambda>t. fold_case flags t = fold_case flags CHR ''/'') CHR ''/'' q'"
    unfolding q by (rule consumes_char) (simp add: is_glob_special_def)
  then show ?thesis using r by (cases r) (auto simp: consumes_def fold_slash)
qed

lemma split_first_unique:
  "v @ x # w = a @ x # b \<Longrightarrow> x \<notin> set v \<Longrightarrow> x \<notin> set a \<Longrightarrow> v = a \<and> w = b"
proof (induction v arbitrary: a)
  case Nil
  then show ?case by (cases a) auto
next
  case (Cons y v)
  then show ?case by (cases a) auto
qed

definition may_cross :: "u32 \<Rightarrow> char option \<Rightarrow> string \<Rightarrow> bool" where
  "may_cross flags prev p1 \<longleftrightarrow> deref p1 = CHR ''*'' \<and> double_star flags prev (dropWhile (\<lambda>c. c = CHR ''*'') p1)"

lemma glob_star_hits:
  fixes p1
  defines "q \<equiv> dropWhile (\<lambda>c. c = CHR ''*'') p1"
  shows "glob flags prev (CHR ''*'' # p1) text \<longleftrightarrow>
    hits flags (\<not> pathname flags \<or> may_cross flags prev p1) q text \<or>
    may_cross flags prev p1 \<and> q \<noteq> [] \<and> hd q = CHR ''/'' \<and> glob flags None (tl q) text"
proof -
  obtain n where n: "p1 = replicate n CHR ''*'' @ q" "q = [] \<or> hd q \<noteq> CHR ''*''"
    using split_stars [of p1] unfolding q_def by metis
  have "deref p1 = CHR ''*'' \<longleftrightarrow> n \<noteq> 0"
    using n by (cases n; cases q) (auto simp: deref_def NUL_def)
  then have cross: "may_cross flags prev p1 \<longleftrightarrow> n \<noteq> 0 \<and> double_star flags prev q"
    by (simp add: may_cross_def q_def)
  have "glob flags (Some CHR ''*'') q ts \<longleftrightarrow> glob flags None q ts" for ts
    using n(2) by (intro glob_prev_cong) auto
  moreover have "glob flags (Some CHR ''/'') (tl q) ts \<longleftrightarrow> glob flags None (tl q) ts" for ts
    by (intro glob_prev_cong) auto
  moreover have "CHR ''*'' # p1 = replicate (Suc n) CHR ''*'' @ q" using n by simp
  ultimately show ?thesis
    using glob_stars_iff [OF n(2), of flags prev n "text"] unfolding hits_def cross by auto
qed

lemma dowild_star:
  fixes p1
  defines "q \<equiv> dropWhile (\<lambda>c. c = CHR ''*'') p1"
  shows "dowild flags prev (CHR ''*'' # p1) text =
     (if may_cross flags prev p1 \<and> deref q = CHR ''/'' \<and> dowild flags None (tl q) text = WM_MATCH then WM_MATCH
      else if q = [] then
        (if \<not> (\<not> pathname flags \<or> may_cross flags prev p1) \<and> CHR ''/'' \<in> set text then WM_NOMATCH else WM_MATCH)
      else if \<not> (\<not> pathname flags \<or> may_cross flags prev p1) \<and> deref q = CHR ''/'' then
        (if CHR ''/'' \<notin> set text then WM_NOMATCH
         else dowild flags (Some CHR ''/'') (tl q) (tl (dropWhile (\<lambda>c. c \<noteq> CHR ''/'') text)))
      else star_loop flags (\<not> pathname flags \<or> may_cross flags prev p1) q text)"
proof -
  have "deref p1 \<noteq> CHR ''*'' \<Longrightarrow> dropWhile (\<lambda>c. c = CHR ''*'') p1 = p1" by (cases p1) (auto simp: deref_def)
  then have q: "(if deref p1 = CHR ''*'' then dropWhile (\<lambda>c. c = CHR ''*'') p1 else p1) = dropWhile (\<lambda>c. c = CHR ''*'') p1"
    by simp
  have d: "deref (CHR ''*'' # p1) = CHR ''*''" "fold_case flags CHR ''*'' = CHR ''*''" by (simp_all add: deref_def)
  have double: "deref p1 = CHR ''*'' \<and> double_star flags prev (dropWhile (\<lambda>c. c = CHR ''*'') p1) \<longleftrightarrow> may_cross flags prev p1"
    by (simp add: may_cross_def)
  show ?thesis
    unfolding dowild.simps [of flags prev "CHR ''*'' # p1"] d Let_def list.sel q double q_def by simp
qed

lemma star_verdict_main:
  assumes IH: "\<And>p prev t. length p \<le> length p1 \<Longrightarrow> NUL \<notin> set t \<Longrightarrow> verdict flags prev p t (dowild flags prev p t)"
    and ok: "NUL \<notin> set text"
  shows "verdict flags prev (CHR ''*'' # p1) text (dowild flags prev (CHR ''*'' # p1) text)"
proof -
  define q where "q = dropWhile (\<lambda>c. c = CHR ''*'') p1"
  define double where "double = may_cross flags prev p1"
  define ms where "ms = (\<not> pathname flags \<or> double)"
  have len: "length q \<le> length p1" "length (tl q) \<le> length p1"
    using length_dropWhile_le [of _ p1] by (auto simp: q_def intro: le_trans [OF diff_le_self])
  have glob: "glob flags prev (CHR ''*'' # p1) r \<longleftrightarrow> hits flags ms q r \<or>
      double \<and> q \<noteq> [] \<and> hd q = CHR ''/'' \<and> glob flags None (tl q) r" for r
    using glob_star_hits [of flags prev p1] unfolding q_def double_def ms_def .
  have hd_q: "q = [] \<or> hd q \<noteq> CHR ''*''" using hd_dropWhile [of "\<lambda>c. c = CHR ''*''" p1] by (auto simp: q_def)
  have deref_q: "deref q = CHR ''/'' \<longleftrightarrow> q \<noteq> [] \<and> hd q = CHR ''/''" by (cases q) (auto simp: deref_def NUL_def)
  have early: "glob flags None (tl q) text \<longleftrightarrow> dowild flags None (tl q) text = WM_MATCH"
    using IH [OF len(2) ok] by (auto simp: verdict_def)
  have dowild: "dowild flags prev (CHR ''*'' # p1) text =
     (if double \<and> deref q = CHR ''/'' \<and> dowild flags None (tl q) text = WM_MATCH then WM_MATCH
      else if q = [] then (if \<not> ms \<and> CHR ''/'' \<in> set text then WM_NOMATCH else WM_MATCH)
      else if \<not> ms \<and> deref q = CHR ''/'' then
        (if CHR ''/'' \<notin> set text then WM_NOMATCH
         else dowild flags (Some CHR ''/'') (tl q) (tl (dropWhile (\<lambda>c. c \<noteq> CHR ''/'') text)))
      else star_loop flags ms q text)"
    unfolding dowild_star q_def [symmetric] double_def [symmetric] ms_def [symmetric] by (rule refl)
  consider (early) "double" "deref q = CHR ''/''" "dowild flags None (tl q) text = WM_MATCH"
    | (last) "q = []" "\<not> (double \<and> deref q = CHR ''/'' \<and> dowild flags None (tl q) text = WM_MATCH)"
    | (dir) "q \<noteq> []" "\<not> ms" "deref q = CHR ''/''"
    | (loop) "q \<noteq> []" "ms \<or> deref q \<noteq> CHR ''/''" "\<not> (double \<and> deref q = CHR ''/'' \<and> dowild flags None (tl q) text = WM_MATCH)"
    by blast
  then show ?thesis
  proof cases
    case early
    then have "dowild flags prev (CHR ''*'' # p1) text = WM_MATCH"
      by (simp add: dowild)
    then show ?thesis using early glob \<open>glob flags None (tl q) text \<longleftrightarrow> _\<close> deref_q by (simp add: verdict_def wm_codes)
  next
    case last
    then have "dowild flags prev (CHR ''*'' # p1) text = (if \<not> ms \<and> CHR ''/'' \<in> set text then WM_NOMATCH else WM_MATCH)"
      unfolding dowild by auto
    moreover have "hits flags ms [] text \<longleftrightarrow> ms \<or> CHR ''/'' \<notin> set text" by (auto simp: hits_def)
    ultimately show ?thesis using glob last by (simp add: verdict_def wm_codes)
  next
    case dir
    then have dw: "dowild flags prev (CHR ''*'' # p1) text =
        (if CHR ''/'' \<notin> set text then WM_NOMATCH
         else dowild flags (Some CHR ''/'') (tl q) (tl (dropWhile (\<lambda>c. c \<noteq> CHR ''/'') text)))"
      by (simp add: dowild ms_def)
    have hd: "hd q = CHR ''/''" and nd: "\<not> double" and pn: "pathname flags" using dir deref_q by (auto simp: ms_def)
    show ?thesis
    proof (cases "CHR ''/'' \<in> set text")
      case False
      then show ?thesis using dw glob nd hits_slash_only [OF dir(1) hd, of flags ms "text"]
        by (auto simp: verdict_def wm_codes)
    next
      case True
      obtain v w where tw: "text = v @ CHR ''/'' # w" "CHR ''/'' \<notin> set v" using split_list_first [OF True] by blast
      then have "dropWhile (\<lambda>c. c \<noteq> CHR ''/'') text = CHR ''/'' # w" by (simp add: dropWhile_append3 dropWhile_append)
      then have res: "dowild flags prev (CHR ''*'' # p1) text = dowild flags (Some CHR ''/'') (tl q) w" (is "_ = ?res")
        using dw True by simp
      have v: "verdict flags (Some CHR ''/'') (tl q) w ?res" using ok tw by (intro IH len(2)) auto
      have g: "glob flags prev (CHR ''*'' # p1) (u @ CHR ''/'' # r) \<longleftrightarrow> glob flags (Some CHR ''/'') (tl q) r"
        if "CHR ''/'' \<notin> set u" for u r
        using glob nd hits_slash [OF dir(1) hd that] dir(2) by simp
      have "\<not> glob flags prev (CHR ''*'' # p1) r" if "?res = WM_ABORT_ALL" "text = u @ r" for u r
      proof
        assume *: "glob flags prev (CHR ''*'' # p1) r"
        then have "CHR ''/'' \<in> set r" using glob nd hits_slash_only [OF dir(1) hd] by blast
        then obtain v' w' where r: "r = v' @ CHR ''/'' # w'" "CHR ''/'' \<notin> set v'" using split_list_first by metis
        have gw: "glob flags (Some CHR ''/'') (tl q) w'" using * g r by simp
        have eq: "v @ CHR ''/'' # w = (u @ v') @ CHR ''/'' # w'" using tw that(2) r by simp
        show False
        proof (cases "CHR ''/'' \<in> set (u @ v')")
          case False
          then have "w' = w" using split_first_unique [OF eq tw(2)] by simp
          then show False using gw v that(1) by (simp add: verdict_def wm_codes)
        next
          case True
          then obtain a b where ab: "u @ v' = a @ CHR ''/'' # b" "CHR ''/'' \<notin> set a" using split_list_first by metis
          then have "v @ CHR ''/'' # w = a @ CHR ''/'' # (b @ [CHR ''/'']) @ w'" using eq by simp
          then have "w = (b @ [CHR ''/'']) @ w'" using split_first_unique tw(2) ab(2) by metis
          then show False using gw v that(1) unfolding verdict_def allowed_def
            by (metis append_is_Nil_conv last_snoc list.distinct(1) option.distinct(1))
        qed
      qed
      moreover have "\<not> glob flags prev (CHR ''*'' # p1) r" if res: "?res = WM_ABORT_TO_STARSTAR" and ur: "text = u @ r" "CHR ''/'' \<notin> set u" for u r
      proof -
        obtain v' where "r = v' @ CHR ''/'' # w" "CHR ''/'' \<notin> set v'"
          using ur tw by (auto simp: append_eq_append_conv2 append_eq_Cons_conv Cons_eq_append_conv)
        then show ?thesis using g v res by (simp add: verdict_def wm_codes)
      qed
      ultimately show ?thesis
        using v g [OF tw(2), of w] pn unfolding res verdict_def by (simp add: tw(1)) blast
    qed
  next
    case loop
    then have res: "dowild flags prev (CHR ''*'' # p1) text = star_loop flags ms q text" (is "_ = ?res")
      by (auto simp: dowild)
    have sv: "star_verdict flags ms q text ?res"
      using loop hd_q ok IH len(1) by (intro star_loop_verdict) auto
    have g: "glob flags prev (CHR ''*'' # p1) text \<longleftrightarrow> hits flags ms q text"
      using glob loop(3) \<open>glob flags None (tl q) text \<longleftrightarrow> _\<close> deref_q by blast
    have "\<not> glob flags prev (CHR ''*'' # p1) r"
      if "?res = WM_ABORT_ALL" "text = u @ r" "u \<noteq> []" "allowed prev (CHR ''*'' # p1) u" for u r
    proof
      assume "glob flags prev (CHR ''*'' # p1) r"
      then have "hits flags True q text"
      proof (unfold glob, elim disjE conjE)
        assume "hits flags ms q r"
        then show ?thesis using hits_append [of True u flags q r] that(2) by (simp add: hits_mono)
      next
        assume d: "double" "q \<noteq> []" "hd q = CHR ''/''" "glob flags None (tl q) r"
        then have "last u = CHR ''/''"
          using that(4) by (auto simp: allowed_def double_def may_cross_def double_star_def)
        then have t: "text = butlast u @ CHR ''/'' # r" using that(2,3) append_butlast_last_id [of u] by simp
        have "glob flags (Some CHR ''/'') (tl q) r" using d(4) glob_prev_cong [of "tl q" None "Some CHR ''/''"] by simp
        then have "hits flags False q ([] @ CHR ''/'' # r)" using hits_slash [OF d(2,3), of "[]" flags r] by simp
        then show ?thesis unfolding t by (intro hits_append) (simp_all add: hits_mono)
      qed
      then show False using sv that(1) by (simp add: star_verdict_def)
    qed
    moreover have "\<not> glob flags prev (CHR ''*'' # p1) r"
      if "?res = WM_ABORT_TO_STARSTAR" "text = u @ r" "CHR ''/'' \<notin> set u" for u r
      using sv that glob hits_append [of ms u flags q r] by (auto simp: star_verdict_def wm_codes ms_def)
    moreover have "?res = WM_ABORT_TO_STARSTAR \<Longrightarrow> pathname flags" using sv by (simp add: star_verdict_def ms_def)
    ultimately show ?thesis
      using sv g unfolding res verdict_def star_verdict_def by blast
  qed
qed

subsection \<open>Correctness\<close>

lemma dowild_consumes:
  assumes "consumes flags prev p ok c q" "verdict flags (Some c) q ts res"
    "dowild flags prev p (t # ts) = (if ok t then res else WM_NOMATCH)"
  shows "verdict flags prev p (t # ts) (dowild flags prev p (t # ts))"
  using consumes_verdict(1,2) [OF assms(1), of t] assms(2,3) by simp

lemma dowild_verdict:
  "NUL \<notin> set text \<Longrightarrow> verdict flags prev p text (dowild flags prev p text)"
proof (induction "length p" arbitrary: p prev "text" rule: less_induct)
  case less
  have IH: "length q < length p \<Longrightarrow> NUL \<notin> set ts \<Longrightarrow> verdict flags prev q ts (dowild flags prev q ts)" for q prev ts
    using less.hyps by blast
  show ?case
  proof (cases p)
    case Nil
    then show ?thesis by (simp add: dowild.simps [of flags prev "[]"] verdict_def wm_codes)
  next
    case (Cons c p1)
    show ?thesis
    proof (cases "c = CHR ''*''")
      case True
      show ?thesis unfolding Cons True
        using IH less.prems by (intro star_verdict_main) (simp_all add: Cons)
    next
      case star: False
      show ?thesis
      proof (cases "text")
        case Nil
        have "\<not> glob flags prev p []" using star Cons by (intro nonstar_nil) auto
        moreover have "dowild flags prev p [] = WM_ABORT_ALL"
          using star by (simp add: Cons dowild.simps [of flags prev "c # p1"] deref_def)
        ultimately show ?thesis unfolding Nil by (simp add: verdict_def wm_codes)
      next
        case t: (Cons t ts)
        have t0: "t \<noteq> NUL" "NUL \<notin> set ts" using less.prems t by auto
        have dw: "dowild flags prev p (t # ts) =
          (let t_ch = fold_case flags t in
           if c = CHR ''?'' then
             (if pathname flags \<and> t_ch = CHR ''/'' then WM_NOMATCH else dowild flags (Some c) p1 ts)
           else if c = CHR ''['' then
             (case bracket flags t_ch p1 of
                None \<Rightarrow> WM_ABORT_ALL
              | Some (ok, q) \<Rightarrow> (if \<not> ok then WM_NOMATCH else dowild flags (Some CHR '']'') q ts))
           else if c = CHR 0x5C then
             (if t_ch \<noteq> deref p1 then WM_NOMATCH else dowild flags (Some (deref p1)) (tl p1) ts)
           else (if t_ch \<noteq> fold_case flags c then WM_NOMATCH else dowild flags (Some c) p1 ts))"
          unfolding Cons dowild.simps [of flags prev "c # p1" "t # ts"] list.sel
          using star t0 by (simp add: deref_def Let_def)
        have sh: "length p1 < length p" by (simp add: Cons)
        consider (any) "c = CHR ''?''" | (bracket) "c = CHR ''[''" | (escape) "c = CHR 0x5C" | (char) "\<not> is_glob_special c"
          using star by (auto simp: is_glob_special_def)
        then have "verdict flags prev p (t # ts) (dowild flags prev p (t # ts))"
        proof cases
          case any
          show ?thesis
            using consumes_any [of flags prev p1] IH [OF sh t0(2)] unfolding Cons any
            by (rule dowild_consumes) (use dw in \<open>simp add: Cons any Let_def\<close>)
        next
          case bracket
          show ?thesis
          proof (cases "bracket flags (fold_case flags t) p1")
            case None
            then show ?thesis
              using glob_bad_bracket [OF None] dw by (simp add: Cons bracket verdict_def wm_codes Let_def)
          next
            case (Some r)
            obtain ok q where r: "r = (ok, q)" by (cases r)
            have "length q < length p" using bracket_shorter [of flags "fold_case flags t" p1 ok q] Some r Cons by simp
            then have "verdict flags (Some CHR '']'') q ts (dowild flags (Some CHR '']'') q ts)" using t0(2) by (rule IH)
            with consumes_bracket [OF Some [unfolded r]] show ?thesis unfolding Cons bracket
              by (rule dowild_consumes) (use dw Some r in \<open>simp add: Cons bracket Let_def\<close>)
          qed
        next
          case escape
          show ?thesis
          proof (cases p1)
            case Nil
            then show ?thesis
              using glob_bad_escape t0 dw by (simp add: Cons escape verdict_def wm_codes Let_def deref_def)
          next
            case d: (Cons d q)
            have "length q < length p" by (simp add: Cons d)
            then have "verdict flags (Some d) q ts (dowild flags (Some d) q ts)" using t0(2) by (rule IH)
            with consumes_escape [of flags prev d q] show ?thesis unfolding Cons d escape
              by (rule dowild_consumes) (use dw in \<open>simp add: Cons escape d Let_def deref_def\<close>)
          qed
        next
          case char
          show ?thesis
            using consumes_char [OF char] IH [OF sh t0(2)] unfolding Cons
            by (rule dowild_consumes) (use dw char in \<open>auto simp: Cons Let_def is_glob_special_def\<close>)
        qed
        then show ?thesis by (simp add: t)
      qed
    qed
  qed
qed

text \<open>
  C15. \<open>wildmatch\<close> returns \<open>WM_MATCH\<close> exactly for the texts that the pattern matches in the declarative
  sense: neither the search for a literal behind an asterisk nor the abort codes, which cut the
  search off, miss a match or invent one. It returns one of the four codes on every input.
\<close>

theorem wildmatch_correct:
  assumes "NUL \<notin> set text"
  shows "(wildmatch pattern text flags = WM_MATCH \<longleftrightarrow> glob flags None pattern text) \<and>
    wildmatch pattern text flags \<in> {WM_MATCH, WM_NOMATCH, WM_ABORT_ALL, WM_ABORT_TO_STARSTAR}"
  using dowild_verdict [OF assms] unfolding wildmatch_def verdict_def by blast

theorem wildmatch_correct_witness:
  "(wildmatch ''src/**/*.[ch]'' ''src/a/b/tag.c'' WM_PATHNAME = WM_MATCH \<longleftrightarrow>
      glob WM_PATHNAME None ''src/**/*.[ch]'' ''src/a/b/tag.c'') \<and>
    wildmatch ''src/**/*.[ch]'' ''src/a/b/tag.c'' WM_PATHNAME \<in> {WM_MATCH, WM_NOMATCH, WM_ABORT_ALL, WM_ABORT_TO_STARSTAR}"
  by (rule wildmatch_correct) (simp add: NUL_def)

text \<open>
  With \<open>WM_CASEFOLD\<close> the character of the text is in lower case, but a character behind a backslash
  or in a bracket is compared as it stands, so that an upper-case one there never matches.
\<close>

lemma casefold_misses:
  "wildmatch [CHR 0x5C, CHR ''A''] ''A'' WM_CASEFOLD = WM_NOMATCH"
  "wildmatch ''[A]'' ''A'' WM_CASEFOLD = WM_NOMATCH"
  by code_simp+

end
