(* ===== verification/CommitList.thy ===== *)
theory CommitList
  imports Pqueue Oid
begin

text \<open>
  \<open>commit_list.c\<close> and the structures of \<open>commit_list.h\<close> and \<open>revwalk.h\<close>: the commits that a walk has
  met, the lists of commits, and the reading of a commit from the object database.

  The nodes of a walk live in the pool \<open>commit_pool\<close> and are found through the map \<open>commits\<close>; both are
  the list \<open>w_commits\<close>, and a pointer to a node is its index there. A \<open>git_commit_list\<close> is the list of
  the pointers in its cells.
\<close>

subsection \<open>Structures\<close>

type_synonym commit_flags = "4 word"

definition PARENT1 :: commit_flags where "PARENT1 = push_bit 0 1"

definition PARENT2 :: commit_flags where "PARENT2 = push_bit 1 1"

definition RESULT :: commit_flags where "RESULT = push_bit 2 1"

definition STALE :: commit_flags where "STALE = push_bit 3 1"

definition ALL_FLAGS :: commit_flags where "ALL_FLAGS = PARENT1 OR PARENT2 OR STALE OR RESULT"

definition PARENTS_PER_COMMIT :: nat where "PARENTS_PER_COMMIT = 2"

text \<open>\<open>parents\<close> is NULL, here \<open>None\<close>, until the commit is parsed.\<close>

record git_commit_list_node =
  n_oid :: git_oid
  n_time :: int
  n_seen :: bool
  n_uninteresting :: bool
  n_topo_delay :: bool
  n_parsed :: bool
  n_added :: bool
  n_flags :: commit_flags
  n_in_degree :: u16
  n_out_degree :: nat
  n_parents :: "nat list option"

type_synonym git_commit_list = "nat list"

text \<open>The functions that the members \<open>get_next\<close> and \<open>enqueue\<close> point to.\<close>

datatype get_next_fn = revwalk_next_timesort | revwalk_next_unsorted | revwalk_next_toposort | revwalk_next_reverse

datatype enqueue_fn = revwalk_enqueue_timesort | revwalk_enqueue_unsorted

record git_revwalk =
  w_commits :: "git_commit_list_node list"
  w_iterator_topo :: git_commit_list
  w_iterator_rand :: git_commit_list
  w_iterator_reverse :: git_commit_list
  w_iterator_time :: "nat git_pqueue"
  w_get_next :: get_next_fn
  w_enqueue :: enqueue_fn
  w_walking :: bool
  w_first_parent :: bool
  w_did_hide :: bool
  w_did_push :: bool
  w_limited :: bool
  w_sorting :: u32
  w_user_input :: git_commit_list
  w_hide_cb :: "(git_oid \<Rightarrow> bool) option"

text \<open>
  What a walk depends on: the object database, as the outcome of \<open>git_odb_read\<close> and of the parsing of
  the object (an error, an object that is no commit, or the committer's time and the parents), the
  allocations that grow a vector of \<open>n\<close> elements, and whether the smaller allocations succeed.
\<close>

record git_env =
  env_odb :: "git_oid \<Rightarrow> (int \<times> git_oid list) option result"
  env_alloc :: "nat \<Rightarrow> bool"
  env_mem :: bool

text \<open>A cell of a vector is a pointer, so that \<open>SIZE_MAX\<close> cells never fit.\<close>

definition env_can_alloc :: "git_env \<Rightarrow> nat \<Rightarrow> bool" where
  "env_can_alloc env n \<longleftrightarrow> n < SIZE_MAX \<and> env_alloc env n"

type_synonym 'a walk = "(git_revwalk, 'a) eff"

definition node :: "git_revwalk \<Rightarrow> nat \<Rightarrow> git_commit_list_node" where
  "node walk c = w_commits walk ! c"

definition set_node :: "nat \<Rightarrow> (git_commit_list_node \<Rightarrow> git_commit_list_node) \<Rightarrow> git_revwalk \<Rightarrow> git_revwalk" where
  "set_node c f walk = walk\<lparr>w_commits := (w_commits walk)[c := f (node walk c)]\<rparr>"

text \<open>\<open>parents[0..out_degree]\<close>, where the code reads it.\<close>

definition parents_of :: "git_revwalk \<Rightarrow> nat \<Rightarrow> nat list" where
  "parents_of walk c = (case n_parents (node walk c) of None \<Rightarrow> [] | Some ps \<Rightarrow> ps)"

subsection \<open>Lists of commits\<close>

definition git_commit_list_time_cmp :: "git_revwalk \<Rightarrow> nat cmp" where
  "git_commit_list_time_cmp walk a b =
     (let time_a = n_time (node walk a); time_b = n_time (node walk b) in
      if time_a < time_b then 1 else if time_a > time_b then -1 else 0)"

definition git_commit_list_insert :: "git_env \<Rightarrow> nat \<Rightarrow> git_commit_list \<Rightarrow> git_commit_list result" where
  "git_commit_list_insert env item list_p = (if \<not> env_mem env then Inl GIT_ERROR else Inr (item # list_p))"

text \<open>The list behind \<open>pp\<close> at which the loop stops is passed to \<open>git_commit_list_insert\<close>.\<close>

primrec git_commit_list_insert_by_date :: "git_env \<Rightarrow> git_revwalk \<Rightarrow> nat \<Rightarrow> git_commit_list \<Rightarrow> git_commit_list result" where
  "git_commit_list_insert_by_date env walk item [] = git_commit_list_insert env item []"
| "git_commit_list_insert_by_date env walk item (p # ps) =
     (if git_commit_list_time_cmp walk p item > 0 then git_commit_list_insert env item (p # ps)
      else (case git_commit_list_insert_by_date env walk item ps of
              Inl e \<Rightarrow> Inl e
            | Inr ps1 \<Rightarrow> Inr (p # ps1)))"

definition git_commit_list_free :: "git_commit_list \<Rightarrow> git_commit_list" where
  "git_commit_list_free list_p = []"

definition git_commit_list_pop :: "git_commit_list \<Rightarrow> nat option \<times> git_commit_list" where
  "git_commit_list_pop stack = (case stack of [] \<Rightarrow> (None, []) | item # next \<Rightarrow> (Some item, next))"

subsection \<open>Nodes\<close>

text \<open>\<open>git_pool_mallocz\<close> gives a node of zeros.\<close>

definition git_commit_list_alloc_node :: "git_oid \<Rightarrow> git_commit_list_node" where
  "git_commit_list_alloc_node oid =
     \<lparr>n_oid = oid, n_time = 0, n_seen = False, n_uninteresting = False, n_topo_delay = False,
      n_parsed = False, n_added = False, n_flags = 0, n_in_degree = 0, n_out_degree = 0, n_parents = None\<rparr>"

fun oidmap_get :: "git_commit_list_node list \<Rightarrow> git_oid \<Rightarrow> nat option" where
  "oidmap_get [] oid = None"
| "oidmap_get (n # ns) oid = (if n_oid n = oid then Some 0 else map_option Suc (oidmap_get ns oid))"

text \<open>A NULL result is a failed allocation.\<close>

definition git_revwalk__commit_lookup :: "git_env \<Rightarrow> git_oid \<Rightarrow> nat walk" where
  "git_revwalk__commit_lookup env oid walk =
     (case oidmap_get (w_commits walk) oid of
        Some commit \<Rightarrow> ret commit walk
      | None \<Rightarrow>
          (if \<not> env_mem env then fail GIT_ERROR walk
           else ret (length (w_commits walk)) (walk\<lparr>w_commits := w_commits walk @ [git_commit_list_alloc_node oid]\<rparr>)))"

text \<open>Two parents fit into the node itself.\<close>

definition alloc_parents :: "git_env \<Rightarrow> nat \<Rightarrow> bool" where
  "alloc_parents env n \<longleftrightarrow> n \<le> PARENTS_PER_COMMIT \<or> env_can_alloc env n"

primrec lookup_parents :: "git_env \<Rightarrow> git_oid list \<Rightarrow> (nat list) walk" where
  "lookup_parents env [] = ret []"
| "lookup_parents env (oid # oids) =
     bnd (git_revwalk__commit_lookup env oid) (\<lambda>p. bnd (lookup_parents env oids) (\<lambda>ps. ret (p # ps)))"

definition commit_quick_parse :: "git_env \<Rightarrow> nat \<Rightarrow> int \<times> git_oid list \<Rightarrow> unit walk" where
  "commit_quick_parse env c obj =
     (if \<not> env_mem env then fail GIT_ERROR
      else if int (length (snd obj)) \<ge> 65536 then fail GIT_ERROR
      else bnd (update_state (set_node c (\<lambda>n. n\<lparr>n_time := fst obj, n_out_degree := length (snd obj), n_parents := None\<rparr>)))
        (\<lambda>_. if \<not> alloc_parents env (length (snd obj)) then fail GIT_ERROR
          else bnd (lookup_parents env (snd obj))
            (\<lambda>ps. update_state (set_node c (\<lambda>n. n\<lparr>n_parents := Some ps, n_parsed := True\<rparr>)))))"

definition git_commit_list_parse :: "git_env \<Rightarrow> nat \<Rightarrow> unit walk" where
  "git_commit_list_parse env c walk =
     (if n_parsed (node walk c) then ret () walk
      else (case env_odb env (n_oid (node walk c)) of
              Inl e \<Rightarrow> fail e walk
            | Inr None \<Rightarrow> fail GIT_ERROR walk
            | Inr (Some obj) \<Rightarrow> commit_quick_parse env c obj walk))"

end
