(* ===== verification/Revwalk.thy ===== *)
theory Revwalk
  imports CommitList Util
begin

text \<open>
  \<open>revwalk.c\<close>: the walk over the history. The while loops that read commits carry fuel, since how far
  they run depends on the object database.
\<close>

subsection \<open>Sorting modes and options\<close>

definition GIT_SORT_NONE :: u32 where "GIT_SORT_NONE = 0"

definition GIT_SORT_TOPOLOGICAL :: u32 where "GIT_SORT_TOPOLOGICAL = push_bit 0 1"

definition GIT_SORT_TIME :: u32 where "GIT_SORT_TIME = push_bit 1 1"

definition GIT_SORT_REVERSE :: u32 where "GIT_SORT_REVERSE = push_bit 2 1"

record git_revwalk__push_options =
  o_uninteresting :: bool
  o_from_glob :: bool
  o_insert_by_date :: bool

definition GIT_REVWALK__PUSH_OPTIONS_INIT :: git_revwalk__push_options where
  "GIT_REVWALK__PUSH_OPTIONS_INIT = \<lparr>o_uninteresting = False, o_from_glob = False, o_insert_by_date = False\<rparr>"

text \<open>The comparison function of a queue reads the nodes as they are when it is called.\<close>

definition queue_at :: "git_revwalk \<Rightarrow> nat git_pqueue \<Rightarrow> nat git_pqueue" where
  "queue_at walk pq = pq\<lparr>v_cmp := map_option (\<lambda>_. git_commit_list_time_cmp walk) (v_cmp pq)\<rparr>"

text \<open>The outcome of a call that does not change the walk.\<close>

definition lift_result :: "'a result \<Rightarrow> 'a walk" where
  "lift_result r = (case r of Inl e \<Rightarrow> fail e | Inr x \<Rightarrow> ret x)"

subsection \<open>Starting points\<close>

text \<open>
  \<open>peel\<close> is the outcome of \<open>git_object_lookup\<close> and \<open>git_object_peel\<close>: \<open>Inr None\<close> for the errors
  \<open>GIT_ENOTFOUND\<close>, \<open>GIT_EINVALIDSPEC\<close> and \<open>GIT_EPEEL\<close> of the peeling, which mean that the object is no
  committish. With \<open>insert_by_date\<close> the commit goes into the list by its date and then, by the second
  operand of the disjunction, to its front as well.
\<close>

definition git_revwalk__push_commit ::
  "git_env \<Rightarrow> (git_oid \<Rightarrow> git_oid option result) \<Rightarrow> git_oid \<Rightarrow> git_revwalk__push_options \<Rightarrow> unit walk" where
  "git_revwalk__push_commit env peel oid opts =
     bnd (lift_result (peel oid)) (\<lambda>obj.
       case obj of
         None \<Rightarrow> (if o_from_glob opts then ret () else fail GIT_ERROR)
       | Some commit_id \<Rightarrow>
           bnd (git_revwalk__commit_lookup env commit_id) (\<lambda>commit.
             bnd get_state (\<lambda>walk.
               if n_uninteresting (node walk commit) then ret ()
               else bnd (update_state (\<lambda>w. if o_uninteresting opts then w\<lparr>w_limited := True, w_did_hide := True\<rparr>
                                            else w\<lparr>w_did_push := True\<rparr>)) (\<lambda>_.
                 bnd (update_state (set_node commit (\<lambda>n. n\<lparr>n_uninteresting := o_uninteresting opts\<rparr>))) (\<lambda>_.
                   bnd (if o_insert_by_date opts
                        then lift_result (git_commit_list_insert_by_date env walk commit (w_user_input walk))
                        else ret (w_user_input walk)) (\<lambda>list.
                     bnd (lift_result (git_commit_list_insert env commit list)) (\<lambda>list1.
                       update_state (\<lambda>w. w\<lparr>w_user_input := list1\<rparr>))))))))"

definition git_revwalk_push :: "git_env \<Rightarrow> (git_oid \<Rightarrow> git_oid option result) \<Rightarrow> git_oid \<Rightarrow> unit walk" where
  "git_revwalk_push env peel oid = git_revwalk__push_commit env peel oid GIT_REVWALK__PUSH_OPTIONS_INIT"

definition git_revwalk_hide :: "git_env \<Rightarrow> (git_oid \<Rightarrow> git_oid option result) \<Rightarrow> git_oid \<Rightarrow> unit walk" where
  "git_revwalk_hide env peel oid =
     git_revwalk__push_commit env peel oid (GIT_REVWALK__PUSH_OPTIONS_INIT\<lparr>o_uninteresting := True\<rparr>)"

text \<open>\<open>name_to_id\<close> is \<open>git_reference_name_to_id\<close> of the repository.\<close>

definition git_revwalk__push_ref :: "git_env \<Rightarrow> (git_oid \<Rightarrow> git_oid option result) \<Rightarrow>
    (string \<Rightarrow> git_oid result) \<Rightarrow> string \<Rightarrow> git_revwalk__push_options \<Rightarrow> unit walk" where
  "git_revwalk__push_ref env peel name_to_id refname opts =
     (case name_to_id refname of
        Inl _ \<Rightarrow> fail GIT_ERROR
      | Inr oid \<Rightarrow> git_revwalk__push_commit env peel oid opts)"

text \<open>The glob that is passed to the reference iterator.\<close>

definition GIT_REFS_DIR :: string where "GIT_REFS_DIR = ''refs/''"

definition push_glob_pattern :: "string \<Rightarrow> string" where
  "push_glob_pattern glob =
     (let buf = (if git__prefixcmp glob GIT_REFS_DIR \<noteq> 0 then GIT_REFS_DIR @ dropWhile (\<lambda>c. c = CHR ''/'') glob else glob) in
      if list_all (\<lambda>c. c \<notin> set ''?*['') glob then buf @ ''/*'' else buf)"

text \<open>
  \<open>refs_matching\<close> is the outcome of the iterator for a glob: an error when it is made, or the names it
  gives with the error that ends it, \<open>None\<close> for \<open>GIT_ITEROVER\<close>.
\<close>

definition git_revwalk__push_glob :: "git_env \<Rightarrow> (git_oid \<Rightarrow> git_oid option result) \<Rightarrow>
    (string \<Rightarrow> git_oid result) \<Rightarrow> (string \<Rightarrow> (string list \<times> git_error_code option) result) \<Rightarrow> string \<Rightarrow>
    git_revwalk__push_options option \<Rightarrow> unit walk" where
  "git_revwalk__push_glob env peel name_to_id refs_matching glob given_opts =
     (let opts = (case given_opts of None \<Rightarrow> GIT_REVWALK__PUSH_OPTIONS_INIT | Some o' \<Rightarrow> o') in
      bnd (lift_result (refs_matching (push_glob_pattern glob))) (\<lambda>r.
        bnd (for_each (\<lambda>refname. git_revwalk__push_ref env peel name_to_id refname (opts\<lparr>o_from_glob := True\<rparr>)) (fst r))
          (\<lambda>_. case snd r of None \<Rightarrow> ret () | Some e \<Rightarrow> fail e)))"

text \<open>The entry points; \<open>peel\<close>, \<open>name_to_id\<close> and \<open>refs_matching\<close> belong to the repository.\<close>

definition HIDE_OPTIONS :: git_revwalk__push_options where
  "HIDE_OPTIONS = GIT_REVWALK__PUSH_OPTIONS_INIT\<lparr>o_uninteresting := True\<rparr>"

definition git_revwalk_push_glob where
  "git_revwalk_push_glob env peel name_to_id refs_matching glob =
     git_revwalk__push_glob env peel name_to_id refs_matching glob (Some GIT_REVWALK__PUSH_OPTIONS_INIT)"

definition git_revwalk_hide_glob where
  "git_revwalk_hide_glob env peel name_to_id refs_matching glob =
     git_revwalk__push_glob env peel name_to_id refs_matching glob (Some HIDE_OPTIONS)"

definition GIT_HEAD_FILE :: string where "GIT_HEAD_FILE = ''HEAD''"

definition git_revwalk_push_head where
  "git_revwalk_push_head env peel name_to_id =
     git_revwalk__push_ref env peel name_to_id GIT_HEAD_FILE GIT_REVWALK__PUSH_OPTIONS_INIT"

definition git_revwalk_hide_head where
  "git_revwalk_hide_head env peel name_to_id = git_revwalk__push_ref env peel name_to_id GIT_HEAD_FILE HIDE_OPTIONS"

definition git_revwalk_push_ref where
  "git_revwalk_push_ref env peel name_to_id refname =
     git_revwalk__push_ref env peel name_to_id refname GIT_REVWALK__PUSH_OPTIONS_INIT"

definition git_revwalk_hide_ref where
  "git_revwalk_hide_ref env peel name_to_id refname = git_revwalk__push_ref env peel name_to_id refname HIDE_OPTIONS"

text \<open>\<open>revparse\<close> gives the ids of \<open>from\<close> and, if there is one, of \<open>to\<close>, and the flag \<open>GIT_REVPARSE_MERGE_BASE\<close>.\<close>

definition git_revwalk_push_range :: "git_env \<Rightarrow> (git_oid \<Rightarrow> git_oid option result) \<Rightarrow>
    (string \<Rightarrow> (git_oid \<times> git_oid option \<times> bool) result) \<Rightarrow> string \<Rightarrow> unit walk" where
  "git_revwalk_push_range env peel revparse spec =
     bnd (lift_result (revparse spec)) (\<lambda>(from_id, to_id, merge_base).
       case to_id of
         None \<Rightarrow> fail GIT_EINVALIDSPEC
       | Some to_oid \<Rightarrow>
           (if merge_base then fail GIT_EINVALIDSPEC
            else bnd (git_revwalk__push_commit env peel from_id HIDE_OPTIONS)
              (\<lambda>_. git_revwalk__push_commit env peel to_oid GIT_REVWALK__PUSH_OPTIONS_INIT)))"

subsection \<open>Uninteresting ancestors\<close>

text \<open>
  The two nested while loops: \<open>cur\<close> is \<open>commit\<close> in the inner one, \<open>None\<close> between its runs. The value
  \<open>None\<close> is a wild pointer.
\<close>

definition still_clean :: "git_commit_list_node list \<Rightarrow> nat" where
  "still_clean nodes = length (filter (\<lambda>n. \<not> n_uninteresting n) nodes)"

lemma still_clean_mark:
  "c < length nodes \<Longrightarrow> \<not> n_uninteresting (nodes ! c) \<Longrightarrow>
   still_clean (nodes[c := (nodes ! c)\<lparr>n_uninteresting := True\<rparr>]) < still_clean nodes"
proof (induction nodes arbitrary: c)
  case (Cons n ns)
  then show ?case by (cases c) (auto simp: still_clean_def)
qed simp

function mark_uninteresting :: "git_commit_list_node list \<Rightarrow> nat option \<Rightarrow> git_commit_list \<Rightarrow>
    git_commit_list_node list option" where
  "mark_uninteresting nodes cur parents =
     (case cur of
        None \<Rightarrow> (case parents of [] \<Rightarrow> Some nodes | c # rest \<Rightarrow> mark_uninteresting nodes (Some c) rest)
      | Some c \<Rightarrow>
          (if c \<ge> length nodes then None
           else if n_uninteresting (nodes ! c) then mark_uninteresting nodes None parents
           else (let nodes1 = nodes[c := (nodes ! c)\<lparr>n_uninteresting := True\<rparr>] in
             case n_parents (nodes ! c) of
               None \<Rightarrow> mark_uninteresting nodes1 None parents
             | Some ps \<Rightarrow>
                 mark_uninteresting nodes1 (case ps of [] \<Rightarrow> None | p # _ \<Rightarrow> Some p) (rev ps @ parents))))"
  by pat_completeness auto
termination
  by (relation "inv_image (less_than <*lex*> less_than)
      (\<lambda>(nodes, cur, parents). (still_clean nodes, 2 * length parents + (if cur = None then 0 else 1)))")
    (auto simp: still_clean_mark)

declare mark_uninteresting.simps [simp del]

definition mark_parents_uninteresting :: "nat \<Rightarrow> unit walk" where
  "mark_parents_uninteresting commit walk =
     (case mark_uninteresting (w_commits walk) None (rev (parents_of walk commit)) of
        None \<Rightarrow> None
      | Some nodes \<Rightarrow> ret () (walk\<lparr>w_commits := nodes\<rparr>))"

subsection \<open>Parents\<close>

text \<open>A commit goes into the list by date; a failed allocation leaves the list as it is.\<close>

definition insert_by_date :: "git_env \<Rightarrow> git_revwalk \<Rightarrow> nat \<Rightarrow> git_commit_list \<Rightarrow> git_commit_list" where
  "insert_by_date env walk p list =
     (case git_commit_list_insert_by_date env walk p list of Inl _ \<Rightarrow> list | Inr list1 \<Rightarrow> list1)"

primrec add_uninteresting_parents :: "git_env \<Rightarrow> nat list \<Rightarrow> git_commit_list \<Rightarrow> git_commit_list walk" where
  "add_uninteresting_parents env [] list = ret list"
| "add_uninteresting_parents env (p # ps) list =
     bnd (update_state (set_node p (\<lambda>n. n\<lparr>n_uninteresting := True\<rparr>))) (\<lambda>_.
       bnd (git_commit_list_parse env p) (\<lambda>_.
         bnd get_state (\<lambda>walk.
           bnd (if n_parents (node walk p) \<noteq> None then mark_parents_uninteresting p else ret ()) (\<lambda>_.
             bnd (update_state (set_node p (\<lambda>n. n\<lparr>n_seen := True\<rparr>))) (\<lambda>_.
               bnd get_state (\<lambda>walk1.
                 add_uninteresting_parents env ps (insert_by_date env walk1 p list)))))))"

definition hidden :: "git_revwalk \<Rightarrow> nat \<Rightarrow> bool" where
  "hidden walk c = (case w_hide_cb walk of None \<Rightarrow> False | Some hide_cb \<Rightarrow> hide_cb (n_oid (node walk c)))"

primrec add_interesting_parents :: "git_env \<Rightarrow> nat list \<Rightarrow> git_commit_list \<Rightarrow> git_commit_list walk" where
  "add_interesting_parents env [] list = ret list"
| "add_interesting_parents env (p # ps) list =
     bnd (git_commit_list_parse env p) (\<lambda>_.
       bnd get_state (\<lambda>walk.
         if hidden walk p then add_interesting_parents env ps list
         else bnd (if \<not> n_seen (node walk p)
                   then bnd (update_state (set_node p (\<lambda>n. n\<lparr>n_seen := True\<rparr>)))
                          (\<lambda>_. ret (insert_by_date env walk p list))
                   else ret list) (\<lambda>list1.
           if w_first_parent walk then ret list1 else add_interesting_parents env ps list1)))"

definition add_parents_to_list :: "git_env \<Rightarrow> nat \<Rightarrow> git_commit_list \<Rightarrow> git_commit_list walk" where
  "add_parents_to_list env commit list =
     bnd get_state (\<lambda>walk.
       if n_added (node walk commit) then ret list
       else bnd (update_state (set_node commit (\<lambda>n. n\<lparr>n_added := True\<rparr>))) (\<lambda>_.
         if n_uninteresting (node walk commit) then add_uninteresting_parents env (parents_of walk commit) list
         else add_interesting_parents env (parents_of walk commit) list))"

subsection \<open>Limiting\<close>

definition SLOP :: int where "SLOP = 5"

definition still_interesting :: "git_revwalk \<Rightarrow> git_commit_list \<Rightarrow> int \<Rightarrow> int \<Rightarrow> int" where
  "still_interesting walk list time slop =
     (case list of
        [] \<Rightarrow> 0
      | first # _ \<Rightarrow>
          (if time \<le> n_time (node walk first) then SLOP
           else if list_ex (\<lambda>c. \<not> n_uninteresting (node walk c) \<or> n_time (node walk c) > time) list then SLOP
           else slop - 1))"

text \<open>\<open>newlist\<close> is filled at its end, through \<open>p\<close>.\<close>

primrec limit_loop :: "nat \<Rightarrow> git_env \<Rightarrow> int \<Rightarrow> int \<Rightarrow> git_commit_list \<Rightarrow> git_commit_list \<Rightarrow> git_commit_list walk" where
  "limit_loop 0 env slop time list newlist walk = None"
| "limit_loop (Suc fuel) env slop time list newlist walk =
     (case git_commit_list_pop list of
        (None, _) \<Rightarrow> ret newlist walk
      | (Some commit, rest) \<Rightarrow>
          bnd (add_parents_to_list env commit rest) (\<lambda>list1.
            bnd get_state (\<lambda>walk1.
              if n_uninteresting (node walk1 commit) then
                bnd (mark_parents_uninteresting commit) (\<lambda>_.
                  bnd get_state (\<lambda>walk2.
                    (let slop1 = still_interesting walk2 list1 time slop in
                     if slop1 \<noteq> 0 then limit_loop fuel env slop1 time list1 newlist else ret newlist)))
              else if hidden walk1 commit then limit_loop fuel env slop time list1 newlist
              else limit_loop fuel env slop (n_time (node walk1 commit)) list1 (newlist @ [commit]))) walk)"

definition limit_list :: "nat \<Rightarrow> git_env \<Rightarrow> git_commit_list \<Rightarrow> git_commit_list walk" where
  "limit_list fuel env commits = limit_loop fuel env SLOP INT64_MAX commits []"

subsection \<open>Taking commits\<close>

definition get_revision :: "git_env \<Rightarrow> git_commit_list \<Rightarrow> (nat \<times> git_commit_list) walk" where
  "get_revision env list walk =
     (case git_commit_list_pop list of
        (None, _) \<Rightarrow> fail GIT_ITEROVER walk
      | (Some commit, rest) \<Rightarrow>
          (if \<not> w_limited walk
           then bnd (add_parents_to_list env commit rest) (\<lambda>list1. ret (commit, list1)) walk
           else ret (commit, rest) walk))"

text \<open>The loops of the functions \<open>get_next\<close>, which skip the uninteresting commits.\<close>

primrec next_timesort_loop :: "nat \<Rightarrow> nat walk" where
  "next_timesort_loop 0 walk = None"
| "next_timesort_loop (Suc fuel) walk =
     (case git_pqueue_pop (queue_at walk (w_iterator_time walk)) of
        (None, pq) \<Rightarrow> fail GIT_ITEROVER (walk\<lparr>w_iterator_time := pq\<rparr>)
      | (Some c, pq) \<Rightarrow>
          (let walk1 = walk\<lparr>w_iterator_time := pq\<rparr> in
           if \<not> n_uninteresting (node walk1 c) then ret c walk1 else next_timesort_loop fuel walk1))"

primrec next_unsorted_loop :: "nat \<Rightarrow> git_env \<Rightarrow> nat walk" where
  "next_unsorted_loop 0 env walk = None"
| "next_unsorted_loop (Suc fuel) env walk =
     bnd (get_revision env (w_iterator_rand walk)) (\<lambda>(c, list).
       bnd (update_state (\<lambda>w. w\<lparr>w_iterator_rand := list\<rparr>)) (\<lambda>_.
         bnd get_state (\<lambda>walk1.
           if \<not> n_uninteresting (node walk1 c) then ret c else next_unsorted_loop fuel env))) walk"

primrec next_toposort_loop :: "nat \<Rightarrow> git_env \<Rightarrow> nat walk" where
  "next_toposort_loop 0 env walk = None"
| "next_toposort_loop (Suc fuel) env walk =
     bnd (get_revision env (w_iterator_topo walk)) (\<lambda>(c, list).
       bnd (update_state (\<lambda>w. w\<lparr>w_iterator_topo := list\<rparr>)) (\<lambda>_.
         bnd get_state (\<lambda>walk1.
           if \<not> n_uninteresting (node walk1 c) then ret c else next_toposort_loop fuel env))) walk"

definition next_reverse :: "nat walk" where
  "next_reverse walk =
     (case git_commit_list_pop (w_iterator_reverse walk) of
        (None, list) \<Rightarrow> fail GIT_ITEROVER (walk\<lparr>w_iterator_reverse := list\<rparr>)
      | (Some c, list) \<Rightarrow> ret c (walk\<lparr>w_iterator_reverse := list\<rparr>))"

text \<open>The call through \<open>walk->get_next\<close>.\<close>

definition call_get_next :: "nat \<Rightarrow> git_env \<Rightarrow> nat walk" where
  "call_get_next fuel env walk =
     (case w_get_next walk of
        revwalk_next_timesort \<Rightarrow> next_timesort_loop fuel walk
      | revwalk_next_unsorted \<Rightarrow> next_unsorted_loop fuel env walk
      | revwalk_next_toposort \<Rightarrow> next_toposort_loop fuel env walk
      | revwalk_next_reverse \<Rightarrow> next_reverse walk)"

text \<open>The call through \<open>walk->enqueue\<close>.\<close>

definition call_enqueue :: "git_env \<Rightarrow> nat \<Rightarrow> unit walk" where
  "call_enqueue env c walk =
     (case w_enqueue walk of
        revwalk_enqueue_timesort \<Rightarrow>
          (case git_pqueue_insert (env_can_alloc env) (queue_at walk (w_iterator_time walk)) c of
             Inl e \<Rightarrow> fail e walk
           | Inr pq \<Rightarrow> ret () (walk\<lparr>w_iterator_time := pq\<rparr>))
      | revwalk_enqueue_unsorted \<Rightarrow>
          (case git_commit_list_insert env c (w_iterator_rand walk) of
             Inl e \<Rightarrow> fail GIT_ERROR walk
           | Inr list \<Rightarrow> ret () (walk\<lparr>w_iterator_rand := list\<rparr>)))"

subsection \<open>Topological order\<close>

definition set_in_degree :: "nat \<Rightarrow> u16 \<Rightarrow> git_revwalk \<Rightarrow> git_revwalk" where
  "set_in_degree c d = set_node c (\<lambda>n. n\<lparr>n_in_degree := d\<rparr>)"

definition in_degree :: "git_revwalk \<Rightarrow> nat \<Rightarrow> u16" where "in_degree walk c = n_in_degree (node walk c)"

text \<open>The first two loops over the list.\<close>

definition reset_degrees :: "git_commit_list \<Rightarrow> git_revwalk \<Rightarrow> git_revwalk" where
  "reset_degrees list walk = fold (\<lambda>c. set_in_degree c 1) list walk"

definition count_children :: "git_commit_list \<Rightarrow> git_revwalk \<Rightarrow> git_revwalk" where
  "count_children list walk =
     fold (\<lambda>c w. fold (\<lambda>p w1. if in_degree w1 p \<noteq> 0 then set_in_degree p (in_degree w1 p + 1) w1 else w1)
                      (parents_of w c) w) list walk"

primrec insert_tips :: "git_env \<Rightarrow> git_revwalk \<Rightarrow> git_commit_list \<Rightarrow> nat git_pqueue \<Rightarrow> nat git_pqueue result" where
  "insert_tips env walk [] pq = Inr pq"
| "insert_tips env walk (c # cs) pq =
     (if in_degree walk c = 1
      then (case git_pqueue_insert (env_can_alloc env) pq c of Inl e \<Rightarrow> Inl e | Inr pq1 \<Rightarrow> insert_tips env walk cs pq1)
      else insert_tips env walk cs pq)"

primrec release_parents :: "git_env \<Rightarrow> nat list \<Rightarrow> nat git_pqueue \<Rightarrow> (nat git_pqueue) walk" where
  "release_parents env [] pq = ret pq"
| "release_parents env (p # ps) pq =
     bnd get_state (\<lambda>walk.
       if in_degree walk p = 0 then release_parents env ps pq
       else bnd (update_state (set_in_degree p (in_degree walk p - 1))) (\<lambda>_.
         if in_degree walk p - 1 = 1
         then bnd (lift_result (git_pqueue_insert (env_can_alloc env) pq p)) (release_parents env ps)
         else release_parents env ps pq))"

primrec topo_loop :: "nat \<Rightarrow> git_env \<Rightarrow> nat git_pqueue \<Rightarrow> git_commit_list \<Rightarrow> git_commit_list walk" where
  "topo_loop 0 env pq newlist walk = None"
| "topo_loop (Suc fuel) env pq newlist walk =
     (case git_pqueue_pop pq of
        (None, _) \<Rightarrow> ret newlist walk
      | (Some c, pq1) \<Rightarrow>
          bnd (release_parents env (parents_of walk c) pq1) (\<lambda>pq2.
            bnd (update_state (set_in_degree c 0)) (\<lambda>_.
              topo_loop fuel env pq2 (newlist @ [c]))) walk)"

text \<open>The times of the nodes do not change here, so the comparison function is that of the start.\<close>

definition sort_in_topological_order :: "nat \<Rightarrow> git_env \<Rightarrow> git_commit_list \<Rightarrow> git_commit_list walk" where
  "sort_in_topological_order fuel env list walk =
     (let timed = w_sorting walk AND GIT_SORT_TIME \<noteq> 0;
          queue_cmp = (if timed then Some (git_commit_list_time_cmp walk) else None) in
      case git_pqueue_init (env_can_alloc env) 0 8 queue_cmp of
        Inl e \<Rightarrow> fail e walk
      | Inr queue \<Rightarrow>
          (let walk1 = count_children list (reset_degrees list walk) in
           case insert_tips env walk1 list queue of
             Inl e \<Rightarrow> fail e walk1
           | Inr queue1 \<Rightarrow> topo_loop fuel env (if timed then queue1 else git_vector_reverse queue1) [] walk1))"

subsection \<open>The walk\<close>

primrec collect_input :: "git_env \<Rightarrow> git_commit_list \<Rightarrow> git_commit_list \<Rightarrow> git_commit_list walk" where
  "collect_input env [] commits = ret commits"
| "collect_input env (commit # list) commits =
     bnd (git_commit_list_parse env commit) (\<lambda>_.
       bnd get_state (\<lambda>walk.
         bnd (if n_uninteresting (node walk commit) then mark_parents_uninteresting commit else ret ()) (\<lambda>_.
           if \<not> n_seen (node walk commit)
           then bnd (update_state (set_node commit (\<lambda>n. n\<lparr>n_seen := True\<rparr>))) (\<lambda>_.
             collect_input env list (case git_commit_list_insert env commit commits of Inl _ \<Rightarrow> commits | Inr l \<Rightarrow> l))
           else collect_input env list commits)))"

text \<open>The loop that empties the iterator into the reversed list.\<close>

primrec reverse_loop_walk :: "nat \<Rightarrow> nat \<Rightarrow> git_env \<Rightarrow> unit walk" where
  "reverse_loop_walk 0 fuel env walk = None"
| "reverse_loop_walk (Suc n) fuel env walk =
     (case call_get_next fuel env walk of
        None \<Rightarrow> None
      | Some (Inl e, walk1) \<Rightarrow> (if e \<noteq> GIT_ITEROVER then fail e walk1 else ret () walk1)
      | Some (Inr c, walk1) \<Rightarrow>
          (case git_commit_list_insert env c (w_iterator_reverse walk1) of
             Inl e \<Rightarrow> fail GIT_ERROR walk1
           | Inr list \<Rightarrow> reverse_loop_walk n fuel env (walk1\<lparr>w_iterator_reverse := list\<rparr>)))"

definition order_commits :: "nat \<Rightarrow> git_env \<Rightarrow> git_commit_list \<Rightarrow> unit walk" where
  "order_commits fuel env commits walk =
     (if w_sorting walk AND GIT_SORT_TOPOLOGICAL \<noteq> 0 then
        bnd (sort_in_topological_order fuel env commits) (\<lambda>list.
          update_state (\<lambda>w. w\<lparr>w_iterator_topo := list, w_get_next := revwalk_next_toposort\<rparr>)) walk
      else if w_sorting walk AND GIT_SORT_TIME \<noteq> 0 then for_each (call_enqueue env) commits walk
      else ret () (walk\<lparr>w_iterator_rand := commits, w_get_next := revwalk_next_unsorted\<rparr>))"

definition prepare_walk :: "nat \<Rightarrow> git_env \<Rightarrow> unit walk" where
  "prepare_walk fuel env walk =
     (if \<not> w_did_push walk then fail GIT_ITEROVER walk
      else bnd (collect_input env (w_user_input walk) []) (\<lambda>commits.
        bnd (if w_limited walk then limit_list fuel env commits else ret commits) (\<lambda>commits1.
          bnd (order_commits fuel env commits1) (\<lambda>_.
            bnd get_state (\<lambda>walk1.
              bnd (if w_sorting walk1 AND GIT_SORT_REVERSE \<noteq> 0
                   then bnd (reverse_loop_walk fuel fuel env) (\<lambda>_.
                     update_state (\<lambda>w. w\<lparr>w_get_next := revwalk_next_reverse\<rparr>))
                   else ret ()) (\<lambda>_.
                update_state (\<lambda>w. w\<lparr>w_walking := True\<rparr>)))))) walk)"

text \<open>\<open>repo_odb\<close> is the outcome of \<open>git_repository_odb\<close>.\<close>

definition git_revwalk_new :: "git_env \<Rightarrow> unit result \<Rightarrow> git_revwalk result" where
  "git_revwalk_new env repo_odb =
     (if \<not> env_mem env then Inl GIT_ERROR
      else (case git_pqueue_init (env_can_alloc env) 0 8 None of
              Inl e \<Rightarrow> Inl GIT_ERROR
            | Inr pq \<Rightarrow>
                (let walk = \<lparr>w_commits = [], w_iterator_topo = [], w_iterator_rand = [], w_iterator_reverse = [],
                       w_iterator_time = pq, w_get_next = revwalk_next_unsorted, w_enqueue = revwalk_enqueue_unsorted,
                       w_walking = False, w_first_parent = False, w_did_hide = False, w_did_push = False,
                       w_limited = False, w_sorting = GIT_SORT_NONE, w_user_input = [], w_hide_cb = None\<rparr> in
                 case repo_odb of
                   Inl e \<Rightarrow> Inl GIT_ERROR
                 | Inr _ \<Rightarrow> Inr (walk\<lparr>w_iterator_time := pq\<lparr>v_cmp := Some (git_commit_list_time_cmp walk)\<rparr>\<rparr>))))"

definition git_revwalk_reset :: "git_revwalk \<Rightarrow> git_revwalk" where
  "git_revwalk_reset walk = walk\<lparr>
     w_commits := map (\<lambda>n. n\<lparr>n_seen := False, n_in_degree := 0, n_topo_delay := False, n_uninteresting := False,
                              n_added := False, n_flags := 0\<rparr>) (w_commits walk),
     w_iterator_time := git_vector_clear (w_iterator_time walk),
     w_iterator_topo := git_commit_list_free (w_iterator_topo walk),
     w_iterator_rand := git_commit_list_free (w_iterator_rand walk),
     w_iterator_reverse := git_commit_list_free (w_iterator_reverse walk),
     w_user_input := git_commit_list_free (w_user_input walk),
     w_first_parent := False, w_walking := False, w_limited := False,
     w_did_push := False, w_did_hide := False, w_sorting := GIT_SORT_NONE\<rparr>"

definition git_revwalk_sorting :: "u32 \<Rightarrow> git_revwalk \<Rightarrow> git_revwalk" where
  "git_revwalk_sorting sort_mode walk =
     (let walk1 = (if w_walking walk then git_revwalk_reset walk else walk);
          walk2 = walk1\<lparr>w_sorting := sort_mode\<rparr>;
          walk3 = (if w_sorting walk2 AND GIT_SORT_TIME \<noteq> 0
                   then walk2\<lparr>w_get_next := revwalk_next_timesort, w_enqueue := revwalk_enqueue_timesort\<rparr>
                   else walk2\<lparr>w_get_next := revwalk_next_unsorted, w_enqueue := revwalk_enqueue_unsorted\<rparr>) in
      if w_sorting walk3 \<noteq> GIT_SORT_NONE then walk3\<lparr>w_limited := True\<rparr> else walk3)"

definition git_revwalk_simplify_first_parent :: "git_revwalk \<Rightarrow> git_revwalk" where
  "git_revwalk_simplify_first_parent walk = walk\<lparr>w_first_parent := True\<rparr>"

definition git_revwalk_add_hide_cb :: "(git_oid \<Rightarrow> bool) option \<Rightarrow> git_revwalk \<Rightarrow> git_revwalk" where
  "git_revwalk_add_hide_cb hide_cb walk =
     (let walk1 = (if w_walking walk then git_revwalk_reset walk else walk);
          walk2 = walk1\<lparr>w_hide_cb := hide_cb\<rparr> in
      if hide_cb \<noteq> None then walk2\<lparr>w_limited := True\<rparr> else walk2)"

definition git_revwalk_next :: "nat \<Rightarrow> git_env \<Rightarrow> git_oid walk" where
  "git_revwalk_next fuel env walk =
     bnd (if \<not> w_walking walk then prepare_walk fuel env else ret ()) (\<lambda>_ walk1.
       case call_get_next fuel env walk1 of
         None \<Rightarrow> None
       | Some (Inl e, walk2) \<Rightarrow>
           (if e = GIT_ITEROVER then fail GIT_ITEROVER (git_revwalk_reset walk2) else fail e walk2)
       | Some (Inr c, walk2) \<Rightarrow> ret (n_oid (node walk2 c)) walk2) walk"

end
