(* ===== verification/MergeBase.thy ===== *)
theory MergeBase
  imports Revwalk
begin

text \<open>
  The merge bases of \<open>merge.c\<close> and the relation of two histories of \<open>graph.c\<close>: both paint the flags
  of two sets of starting points down the history, newest commits first.
\<close>

definition has :: "commit_flags \<Rightarrow> commit_flags \<Rightarrow> bool" where
  "has flags f \<longleftrightarrow> flags AND f \<noteq> 0"

definition flags_of :: "git_revwalk \<Rightarrow> nat \<Rightarrow> commit_flags" where
  "flags_of walk c = n_flags (node walk c)"

definition add_flags :: "nat \<Rightarrow> commit_flags \<Rightarrow> git_revwalk \<Rightarrow> git_revwalk" where
  "add_flags c f = set_node c (\<lambda>n. n\<lparr>n_flags := n_flags n OR f\<rparr>)"

text \<open>\<open>git_pqueue_insert\<close>; the callers turn any error into -1.\<close>

definition enqueue :: "git_env \<Rightarrow> nat git_pqueue \<Rightarrow> nat \<Rightarrow> (nat git_pqueue) walk" where
  "enqueue env pq c walk =
     (case git_pqueue_insert (env_can_alloc env) (queue_at walk pq) c of
        Inl e \<Rightarrow> fail GIT_ERROR walk
      | Inr pq1 \<Rightarrow> ret pq1 walk)"

subsection \<open>Painting\<close>

definition interesting :: "git_revwalk \<Rightarrow> nat git_pqueue \<Rightarrow> bool" where
  "interesting walk pq = list_ex (\<lambda>c. \<not> has (flags_of walk c) STALE) (v_contents pq)"

text \<open>The flags that go from a popped commit to its parents.\<close>

definition passed_flags :: "commit_flags \<Rightarrow> commit_flags" where
  "passed_flags f =
     (let flags = f AND (PARENT1 OR PARENT2 OR STALE) in
      if flags = PARENT1 OR PARENT2 then flags OR STALE else flags)"

definition is_result :: "commit_flags \<Rightarrow> bool" where
  "is_result f \<longleftrightarrow> f AND (PARENT1 OR PARENT2 OR STALE) = PARENT1 OR PARENT2"

primrec paint_parents :: "git_env \<Rightarrow> commit_flags \<Rightarrow> nat list \<Rightarrow> nat git_pqueue \<Rightarrow> (nat git_pqueue) walk" where
  "paint_parents env flags [] pq = ret pq"
| "paint_parents env flags (p # ps) pq =
     bnd get_state (\<lambda>walk.
       if flags_of walk p AND flags = flags then paint_parents env flags ps pq
       else bnd (git_commit_list_parse env p) (\<lambda>_.
         bnd (update_state (add_flags p flags)) (\<lambda>_.
           bnd (enqueue env pq p) (paint_parents env flags ps))))"

primrec paint_loop :: "nat \<Rightarrow> git_env \<Rightarrow> nat git_pqueue \<Rightarrow> git_commit_list \<Rightarrow> git_commit_list walk" where
  "paint_loop 0 env pq result walk = None"
| "paint_loop (Suc fuel) env pq result walk =
     (if \<not> interesting walk pq then ret result walk
      else (case git_pqueue_pop (queue_at walk pq) of
              (None, _) \<Rightarrow> ret result walk
            | (Some commit, pq1) \<Rightarrow>
                (let f = flags_of walk commit;
                     found = (is_result f \<and> \<not> has f RESULT);
                     walk1 = (if found then add_flags commit RESULT walk else walk) in
                 bnd (if found then lift_result (git_commit_list_insert env commit result) else ret result) (\<lambda>result1.
                   bnd (paint_parents env (passed_flags f) (parents_of walk commit) pq1) (\<lambda>pq2.
                     paint_loop fuel env pq2 result1)) walk1)))"

primrec paint_twos :: "git_env \<Rightarrow> nat list \<Rightarrow> nat git_pqueue \<Rightarrow> (nat git_pqueue) walk" where
  "paint_twos env [] pq = ret pq"
| "paint_twos env (two # twos) pq =
     bnd (git_commit_list_parse env two) (\<lambda>_.
       bnd (update_state (add_flags two PARENT2)) (\<lambda>_.
         bnd (enqueue env pq two) (paint_twos env twos)))"

text \<open>A failure to parse one of \<open>twos\<close> is -1, one of their ancestors the error itself.\<close>

definition minus_one :: "'a walk \<Rightarrow> 'a walk" where
  "minus_one m walk = (case m walk of Some (Inl e, w) \<Rightarrow> Some (Inl GIT_ERROR, w) | r \<Rightarrow> r)"

definition paint_down_to_common :: "nat \<Rightarrow> git_env \<Rightarrow> nat \<Rightarrow> nat list \<Rightarrow> git_commit_list walk" where
  "paint_down_to_common fuel env one twos walk =
     (case git_pqueue_init (env_can_alloc env) 0 (length twos * 2) (Some (git_commit_list_time_cmp walk)) of
        Inl e \<Rightarrow> fail GIT_ERROR walk
      | Inr pq \<Rightarrow>
          bnd (update_state (add_flags one PARENT1)) (\<lambda>_.
            bnd (enqueue env pq one) (\<lambda>pq1.
              bnd (minus_one (paint_twos env twos pq1)) (\<lambda>pq2.
                paint_loop fuel env pq2 []))) walk)"

subsection \<open>Clearing the marks\<close>

text \<open>
  The while loop over the first parents. The number of nodes bounds it where every turn takes a mark
  off; \<open>None\<close> is a cycle of first parents, or a wild pointer.
\<close>

primrec clear_marks_1 :: "nat \<Rightarrow> git_commit_list \<Rightarrow> nat option \<Rightarrow> commit_flags \<Rightarrow> git_revwalk \<Rightarrow>
    (git_commit_list \<times> git_revwalk) option" where
  "clear_marks_1 0 plist commit mark walk = None"
| "clear_marks_1 (Suc fuel) plist commit mark walk =
     (case commit of
        None \<Rightarrow> Some (plist, walk)
      | Some c \<Rightarrow>
          (if \<not> has (flags_of walk c) mark then Some (plist, walk)
           else (let walk1 = set_node c (\<lambda>n. n\<lparr>n_flags := n_flags n AND NOT mark\<rparr>) walk;
                     ps = parents_of walk c in
                 clear_marks_1 fuel (rev (drop 1 ps) @ plist) (case ps of [] \<Rightarrow> None | p # _ \<Rightarrow> Some p) mark walk1)))"

definition clear_commit_marks_1 :: "git_commit_list \<Rightarrow> nat \<Rightarrow> commit_flags \<Rightarrow> git_revwalk \<Rightarrow>
    (git_commit_list \<times> git_revwalk) option" where
  "clear_commit_marks_1 plist commit mark walk =
     clear_marks_1 (length (w_commits walk) + 2) plist (Some commit) mark walk"

primrec clear_list :: "nat \<Rightarrow> git_commit_list \<Rightarrow> commit_flags \<Rightarrow> unit walk" where
  "clear_list 0 list mark walk = None"
| "clear_list (Suc fuel) list mark walk =
     (case git_commit_list_pop list of
        (None, _) \<Rightarrow> ret () walk
      | (Some c, rest) \<Rightarrow>
          (case clear_commit_marks_1 rest c mark walk of
             None \<Rightarrow> None
           | Some (list1, walk1) \<Rightarrow> clear_list fuel list1 mark walk1))"

definition clear_commit_marks_many :: "nat \<Rightarrow> git_env \<Rightarrow> nat list \<Rightarrow> commit_flags \<Rightarrow> unit walk" where
  "clear_commit_marks_many fuel env commits mark =
     (if \<not> env_mem env then fail GIT_ERROR else clear_list fuel (rev commits) mark)"

definition clear_commit_marks :: "nat \<Rightarrow> git_env \<Rightarrow> nat \<Rightarrow> commit_flags \<Rightarrow> unit walk" where
  "clear_commit_marks fuel env commit mark =
     (if \<not> env_mem env then fail GIT_ERROR else clear_list fuel [commit] mark)"

subsection \<open>Redundant merge bases\<close>

text \<open>The indexes whose commits are compared with the one at \<open>i\<close>: the array \<open>filled_index\<close>.\<close>

definition filled_index :: "bool list \<Rightarrow> nat \<Rightarrow> nat list" where
  "filled_index redundant i = filter (\<lambda>j. \<not> (i = j \<or> redundant ! j)) [0..<length redundant]"

primrec fill_work :: "git_env \<Rightarrow> nat list \<Rightarrow> nat list \<Rightarrow> nat git_vector \<Rightarrow> nat git_vector result" where
  "fill_work env commits [] work = Inr work"
| "fill_work env commits (j # js) work =
     (case git_vector_insert (env_can_alloc env) work (commits ! j) of
        Inl e \<Rightarrow> Inl e
      | Inr work1 \<Rightarrow> fill_work env commits js work1)"

definition mark_redundant :: "git_revwalk \<Rightarrow> nat list \<Rightarrow> nat \<Rightarrow> nat list \<Rightarrow> bool list \<Rightarrow> bool list" where
  "mark_redundant walk commits i filled redundant =
     (let r1 = (if has (flags_of walk (commits ! i)) PARENT2 then redundant[i := True] else redundant) in
      fold (\<lambda>j r. if has (flags_of walk (commits ! j)) PARENT1 then r[j := True] else r) filled r1)"

primrec redundant_loop :: "nat \<Rightarrow> git_env \<Rightarrow> nat list \<Rightarrow> nat list \<Rightarrow> nat git_vector \<Rightarrow> bool list \<Rightarrow> (bool list) walk" where
  "redundant_loop fuel env commits [] work redundant = ret redundant"
| "redundant_loop fuel env commits (i # is) work redundant =
     (if redundant ! i then redundant_loop fuel env commits is work redundant
      else (let filled = filled_index redundant i; commit = commits ! i in
        bnd (lift_result (fill_work env commits filled (git_vector_clear work))) (\<lambda>work1.
          bnd (paint_down_to_common fuel env commit (v_contents work1)) (\<lambda>common.
            bnd get_state (\<lambda>walk.
              (let redundant1 = mark_redundant walk commits i filled redundant in
               bnd (clear_commit_marks fuel env commit ALL_FLAGS) (\<lambda>_.
                 bnd (clear_commit_marks_many fuel env (v_contents work1) ALL_FLAGS) (\<lambda>_.
                   redundant_loop fuel env commits is work1 redundant1))))))))"

text \<open>The initial \<open>GIT_VECTOR_INIT\<close>, and the removed entries as \<open>None\<close>.\<close>

definition GIT_VECTOR_INIT :: "nat git_vector" where
  "GIT_VECTOR_INIT = \<lparr>v_alloc_size = 0, v_cmp = None, v_contents = [], v_flags = 0\<rparr>"

definition remove_redundant :: "nat \<Rightarrow> git_env \<Rightarrow> nat list \<Rightarrow> (nat option list) walk" where
  "remove_redundant fuel env commits =
     (if \<not> env_mem env then fail GIT_ERROR
      else bnd (for_each (git_commit_list_parse env) commits) (\<lambda>_.
        bnd (redundant_loop fuel env commits [0..<length commits] GIT_VECTOR_INIT (replicate (length commits) False))
          (\<lambda>redundant. ret (map (\<lambda>i. if redundant ! i then None else Some (commits ! i)) [0..<length commits]))))"

subsection \<open>Merge bases\<close>

text \<open>The loop over the results of the painting: the stale ones go.\<close>

primrec filter_stale :: "git_env \<Rightarrow> git_revwalk \<Rightarrow> git_commit_list \<Rightarrow> git_commit_list \<Rightarrow> git_commit_list result" where
  "filter_stale env walk [] result = Inr result"
| "filter_stale env walk (c # tmp) result =
     (if \<not> has (flags_of walk c) STALE
      then (case git_commit_list_insert_by_date env walk c result of
              Inl e \<Rightarrow> Inl GIT_ERROR
            | Inr result1 \<Rightarrow> filter_stale env walk tmp result1)
      else filter_stale env walk tmp result)"

primrec insert_all_by_date :: "git_env \<Rightarrow> git_revwalk \<Rightarrow> nat option list \<Rightarrow> git_commit_list \<Rightarrow> git_commit_list" where
  "insert_all_by_date env walk [] result = result"
| "insert_all_by_date env walk (two # twos) result =
     insert_all_by_date env walk twos (case two of None \<Rightarrow> result | Some c \<Rightarrow> insert_by_date env walk c result)"

primrec insert_pointers :: "git_env \<Rightarrow> nat list \<Rightarrow> nat git_vector \<Rightarrow> nat git_vector" where
  "insert_pointers env [] v = v"
| "insert_pointers env (c # cs) v =
     insert_pointers env cs (case git_vector_insert (env_can_alloc env) v c of Inl _ \<Rightarrow> v | Inr v1 \<Rightarrow> v1)"

text \<open>
  The vector \<open>redundant\<close> is filled without a look at the return value, so that a failed allocation
  drops a candidate.
\<close>

definition drop_redundant :: "nat \<Rightarrow> git_env \<Rightarrow> nat \<Rightarrow> nat list \<Rightarrow> git_commit_list \<Rightarrow> git_commit_list walk" where
  "drop_redundant fuel env one twos result =
     (if length result \<ge> 2 then
        (let redundant = v_contents (insert_pointers env result GIT_VECTOR_INIT) in
         bnd (clear_commit_marks fuel env one ALL_FLAGS) (\<lambda>_.
           bnd (clear_commit_marks_many fuel env twos ALL_FLAGS) (\<lambda>_.
             bnd (remove_redundant fuel env redundant) (\<lambda>kept.
               bnd get_state (\<lambda>walk1. ret (insert_all_by_date env walk1 kept []))))))
      else ret result)"

definition git_merge__bases_many :: "nat \<Rightarrow> git_env \<Rightarrow> nat \<Rightarrow> nat list \<Rightarrow> git_commit_list walk" where
  "git_merge__bases_many fuel env one twos =
     (if twos = [] then ret []
      else if one \<in> set twos then lift_result (git_commit_list_insert env one [])
      else bnd (minus_one (git_commit_list_parse env one)) (\<lambda>_.
        bnd (paint_down_to_common fuel env one twos) (\<lambda>tmp.
          bnd get_state (\<lambda>walk.
            bnd (lift_result (filter_stale env walk tmp [])) (drop_redundant fuel env one twos)))))"

text \<open>The functions of the public interface: the list of the oids, or the first of them.\<close>

definition oids_of :: "git_revwalk \<Rightarrow> git_commit_list \<Rightarrow> git_oid list" where
  "oids_of walk = map (\<lambda>c. n_oid (node walk c))"

primrec lookup_all :: "git_env \<Rightarrow> git_oid list \<Rightarrow> (nat list) walk" where
  "lookup_all env [] = ret []"
| "lookup_all env (oid # oids) =
     bnd (git_revwalk__commit_lookup env oid) (\<lambda>c. bnd (lookup_all env oids) (\<lambda>cs. ret (c # cs)))"

text \<open>Runs a function on a new walk.\<close>

definition with_walk :: "git_env \<Rightarrow> unit result \<Rightarrow> 'a walk \<Rightarrow> 'a result option" where
  "with_walk env repo_odb m =
     (case git_revwalk_new env repo_odb of
        Inl e \<Rightarrow> Some (Inl GIT_ERROR)
      | Inr walk \<Rightarrow> map_option fst (m walk))"

definition not_found_if_empty :: "git_oid list \<Rightarrow> (git_oid list) walk" where
  "not_found_if_empty oids = (if oids = [] then fail GIT_ENOTFOUND else ret oids)"

definition merge_bases :: "nat \<Rightarrow> git_env \<Rightarrow> unit result \<Rightarrow> git_oid \<Rightarrow> git_oid \<Rightarrow> git_oid list result option" where
  "merge_bases fuel env repo_odb one two =
     with_walk env repo_odb
       (bnd (minus_one
          (bnd (git_revwalk__commit_lookup env two) (\<lambda>c2.
             bnd (git_revwalk__commit_lookup env one) (\<lambda>c1.
               bnd (git_merge__bases_many fuel env c1 [c2]) (\<lambda>result.
                 bnd get_state (\<lambda>walk. ret (oids_of walk result)))))))
          not_found_if_empty)"

definition git_merge_base :: "nat \<Rightarrow> git_env \<Rightarrow> unit result \<Rightarrow> git_oid \<Rightarrow> git_oid \<Rightarrow> git_oid result option" where
  "git_merge_base fuel env repo_odb one two =
     (case merge_bases fuel env repo_odb one two of
        None \<Rightarrow> None
      | Some (Inl e) \<Rightarrow> Some (Inl e)
      | Some (Inr result) \<Rightarrow> Some (Inr (hd result)))"

definition git_merge_bases :: "nat \<Rightarrow> git_env \<Rightarrow> unit result \<Rightarrow> git_oid \<Rightarrow> git_oid \<Rightarrow> git_oid list result option" where
  "git_merge_bases fuel env repo_odb one two =
     (case merge_bases fuel env repo_odb one two of
        Some (Inr result) \<Rightarrow> (if env_mem env then Some (Inr result) else Some (Inl GIT_ERROR))
      | r \<Rightarrow> r)"

definition merge_bases_many :: "nat \<Rightarrow> git_env \<Rightarrow> unit result \<Rightarrow> git_oid list \<Rightarrow> git_oid list result option" where
  "merge_bases_many fuel env repo_odb input_array =
     (if length input_array < 2 then Some (Inl GIT_ERROR)
      else (case git_vector_init (env_can_alloc env) (length input_array - 1) None :: nat git_vector result of
              Inl e \<Rightarrow> Some (Inl GIT_ERROR)
            | Inr list \<Rightarrow>
                with_walk env repo_odb
                  (bnd (minus_one
                     (bnd (lookup_all env (tl input_array)) (\<lambda>cs.
                        bnd (git_revwalk__commit_lookup env (hd input_array)) (\<lambda>c1.
                          bnd (git_merge__bases_many fuel env c1 (v_contents (insert_pointers env cs list))) (\<lambda>result.
                            bnd get_state (\<lambda>walk. ret (oids_of walk result)))))))
                     not_found_if_empty)))"

definition git_merge_base_many :: "nat \<Rightarrow> git_env \<Rightarrow> unit result \<Rightarrow> git_oid list \<Rightarrow> git_oid result option" where
  "git_merge_base_many fuel env repo_odb input_array =
     (case merge_bases_many fuel env repo_odb input_array of
        None \<Rightarrow> None
      | Some (Inl e) \<Rightarrow> Some (Inl e)
      | Some (Inr result) \<Rightarrow> Some (Inr (hd result)))"

definition git_merge_bases_many :: "nat \<Rightarrow> git_env \<Rightarrow> unit result \<Rightarrow> git_oid list \<Rightarrow> git_oid list result option" where
  "git_merge_bases_many fuel env repo_odb input_array =
     (case merge_bases_many fuel env repo_odb input_array of
        Some (Inr result) \<Rightarrow> (if env_mem env then Some (Inr result) else Some (Inl GIT_ERROR))
      | r \<Rightarrow> r)"

primrec octopus_loop :: "nat \<Rightarrow> git_env \<Rightarrow> unit result \<Rightarrow> git_oid list \<Rightarrow> git_oid \<Rightarrow> git_oid result option" where
  "octopus_loop fuel env repo_odb [] result = Some (Inr result)"
| "octopus_loop fuel env repo_odb (oid # oids) result =
     (case git_merge_base fuel env repo_odb result oid of
        None \<Rightarrow> None
      | Some (Inl e) \<Rightarrow> Some (Inl e)
      | Some (Inr result1) \<Rightarrow> octopus_loop fuel env repo_odb oids result1)"

definition git_merge_base_octopus :: "nat \<Rightarrow> git_env \<Rightarrow> unit result \<Rightarrow> git_oid list \<Rightarrow> git_oid result option" where
  "git_merge_base_octopus fuel env repo_odb input_array =
     (if length input_array < 2 then Some (Inl GIT_ERROR)
      else octopus_loop fuel env repo_odb (tl input_array) (hd input_array))"

subsection \<open>Ahead and behind\<close>

text \<open>\<open>interesting\<close> of \<open>graph.c\<close> looks at the roots, too.\<close>

definition interesting_roots :: "git_revwalk \<Rightarrow> nat git_pqueue \<Rightarrow> git_commit_list \<Rightarrow> bool" where
  "interesting_roots walk pq roots =
     (interesting walk pq \<or> list_ex (\<lambda>c. \<not> has (flags_of walk c) STALE) roots)"

primrec mark_loop :: "nat \<Rightarrow> git_env \<Rightarrow> nat git_pqueue \<Rightarrow> git_commit_list \<Rightarrow> unit walk" where
  "mark_loop 0 env pq roots walk = None"
| "mark_loop (Suc fuel) env pq roots walk =
     (if \<not> interesting_roots walk pq roots then ret () walk
      else (case git_pqueue_pop (queue_at walk pq) of
              (None, _) \<Rightarrow> ret () walk
            | (Some commit, pq1) \<Rightarrow>
                (let f = flags_of walk commit;
                     walk1 = (if is_result f \<and> \<not> has f RESULT then add_flags commit RESULT walk else walk) in
                 bnd (paint_parents env (passed_flags f) (parents_of walk commit) pq1) (\<lambda>pq2.
                   bnd (if parents_of walk commit = [] then lift_result (git_commit_list_insert env commit roots) else ret roots)
                     (\<lambda>roots1. mark_loop fuel env pq2 roots1)) walk1)))"

definition mark_parents :: "nat \<Rightarrow> git_env \<Rightarrow> nat \<Rightarrow> nat \<Rightarrow> unit walk" where
  "mark_parents fuel env one two walk =
     (if one = two then ret () (add_flags one (PARENT1 OR PARENT2 OR RESULT) walk)
      else (case git_pqueue_init (env_can_alloc env) 0 2 (Some (git_commit_list_time_cmp walk)) of
              Inl e \<Rightarrow> fail GIT_ERROR walk
            | Inr pq \<Rightarrow>
                minus_one (bnd (git_commit_list_parse env one) (\<lambda>_.
                  bnd (update_state (add_flags one PARENT1)) (\<lambda>_.
                    bnd (enqueue env pq one) (\<lambda>pq1.
                      bnd (git_commit_list_parse env two) (\<lambda>_.
                        bnd (update_state (add_flags two PARENT2)) (\<lambda>_.
                          bnd (enqueue env pq1 two) (\<lambda>pq2. mark_loop fuel env pq2 []))))))) walk))"

primrec enqueue_all :: "git_env \<Rightarrow> nat list \<Rightarrow> nat git_pqueue \<Rightarrow> (nat git_pqueue) walk" where
  "enqueue_all env [] pq = ret pq"
| "enqueue_all env (c # cs) pq = bnd (enqueue env pq c) (enqueue_all env cs)"

primrec ahead_behind_loop :: "nat \<Rightarrow> git_env \<Rightarrow> nat git_pqueue \<Rightarrow> nat \<Rightarrow> nat \<Rightarrow> (nat \<times> nat) walk" where
  "ahead_behind_loop 0 env pq ahead behind walk = None"
| "ahead_behind_loop (Suc fuel) env pq ahead behind walk =
     (case git_pqueue_pop (queue_at walk pq) of
        (None, _) \<Rightarrow> ret (ahead, behind) walk
      | (Some commit, pq1) \<Rightarrow>
          (let f = flags_of walk commit in
           if has f RESULT \<or> f AND (PARENT1 OR PARENT2) = PARENT1 OR PARENT2
           then ahead_behind_loop fuel env pq1 ahead behind walk
           else (let ahead1 = (if has f PARENT1 then ahead + 1 else ahead);
                     behind1 = (if \<not> has f PARENT1 \<and> has f PARENT2 then behind + 1 else behind) in
                 bnd (enqueue_all env (parents_of walk commit) pq1) (\<lambda>pq2.
                   bnd (update_state (add_flags commit RESULT)) (\<lambda>_.
                     ahead_behind_loop fuel env pq2 ahead1 behind1)) walk)))"

definition ahead_behind :: "nat \<Rightarrow> git_env \<Rightarrow> nat \<Rightarrow> nat \<Rightarrow> (nat \<times> nat) walk" where
  "ahead_behind fuel env one two walk =
     (case git_pqueue_init (env_can_alloc env) 0 2 (Some (git_commit_list_time_cmp walk)) of
        Inl e \<Rightarrow> fail GIT_ERROR walk
      | Inr pq \<Rightarrow>
          bnd (enqueue env pq one) (\<lambda>pq1.
            bnd (enqueue env pq1 two) (\<lambda>pq2. ahead_behind_loop fuel env pq2 0 0)) walk)"

definition git_graph_ahead_behind :: "nat \<Rightarrow> git_env \<Rightarrow> unit result \<Rightarrow> git_oid \<Rightarrow> git_oid \<Rightarrow> (nat \<times> nat) result option" where
  "git_graph_ahead_behind fuel env repo_odb local upstream =
     with_walk env repo_odb
       (minus_one (bnd (git_revwalk__commit_lookup env upstream) (\<lambda>commit_u.
          bnd (git_revwalk__commit_lookup env local) (\<lambda>commit_l.
            bnd (mark_parents fuel env commit_l commit_u) (\<lambda>_.
              ahead_behind fuel env commit_l commit_u)))))"

text \<open>The result 1 is \<open>True\<close>.\<close>

definition git_graph_descendant_of :: "nat \<Rightarrow> git_env \<Rightarrow> unit result \<Rightarrow> git_oid \<Rightarrow> git_oid \<Rightarrow> bool result option" where
  "git_graph_descendant_of fuel env repo_odb commit ancestor =
     (if git_oid_equal commit ancestor then Some (Inr False)
      else (case git_merge_base fuel env repo_odb commit ancestor of
              None \<Rightarrow> None
            | Some (Inl GIT_ENOTFOUND) \<Rightarrow> Some (Inr False)
            | Some (Inl e) \<Rightarrow> Some (Inl e)
            | Some (Inr merge_base) \<Rightarrow> Some (Inr (git_oid_equal merge_base ancestor))))"

end
