(* ===== verification/CommitListCorrect.thy ===== *)
theory CommitListCorrect
  imports CommitList
begin

text \<open>
  The date order of commits as a comparison function and as the order of a priority queue, the lists
  kept by date, and what the reading of a commit does to the nodes of a walk.
\<close>

subsection \<open>Effects\<close>

lemma bnd_Inr [simp]:
  "bnd m k s = Some (Inr y, s2) \<longleftrightarrow> (\<exists>x s1. m s = Some (Inr x, s1) \<and> k x s1 = Some (Inr y, s2))"
  by (auto simp: bnd_def split: option.splits prod.splits sum.splits)

lemma bnd_None [simp]: "bnd m k s = None \<longleftrightarrow> m s = None \<or> (\<exists>x s1. m s = Some (Inr x, s1) \<and> k x s1 = None)"
  by (auto simp: bnd_def split: option.splits prod.splits sum.splits)

lemma eff_simps [simp]:
  "ret x s = Some r \<longleftrightarrow> r = (Inr x, s)" "fail e s = Some r \<longleftrightarrow> r = (Inl e, s)"
  "get_state s = Some q \<longleftrightarrow> q = (Inr s, s)" "update_state f s = Some u \<longleftrightarrow> u = (Inr (), f s)"
  "ret x s \<noteq> None" "fail e s \<noteq> None" "get_state s \<noteq> None" "update_state f s \<noteq> None"
  by (auto simp: ret_def fail_def get_state_def update_state_def)

subsection \<open>Dates\<close>

interpretation time_order: git_cmp "git_commit_list_time_cmp walk" for walk
  by unfold_locales (auto simp: git_commit_list_time_cmp_def Let_def split: if_splits)

interpretation commit_queue: pqueue_client "git_commit_list_time_cmp walk" "env_can_alloc env" for walk env
  by unfold_locales (simp add: env_can_alloc_def)

lemma time_cmp_le: "git_commit_list_time_cmp walk a b \<le> 0 \<longleftrightarrow> n_time (node walk b) \<le> n_time (node walk a)"
  by (simp add: git_commit_list_time_cmp_def Let_def)

lemma insert_by_date_Inr:
  "git_commit_list_insert_by_date env walk item list = Inr list1 \<Longrightarrow> mset list1 = add_mset item (mset list)"
  by (induction list arbitrary: list1)
    (auto simp: git_commit_list_insert_def split: if_splits sum.splits)

lemma insert_by_date_Inl:
  "env_mem env \<Longrightarrow> \<exists>list1. git_commit_list_insert_by_date env walk item list = Inr list1"
  by (induction list) (auto simp: git_commit_list_insert_def split: sum.splits)

text \<open>
  C28. \<open>git_commit_list_insert_by_date\<close> puts a commit into a list that is sorted with the newest first
  and keeps it so: behind all commits that are not older, which keep their order.
\<close>

theorem git_commit_list_insert_by_date_sorts:
  assumes "env_mem env" "sorted_by (git_commit_list_time_cmp walk) list"
  shows "git_commit_list_insert_by_date env walk item list =
      Inr (takeWhile (\<lambda>c. n_time (node walk item) \<le> n_time (node walk c)) list @
        item # dropWhile (\<lambda>c. n_time (node walk item) \<le> n_time (node walk c)) list) \<and>
    sorted_by (git_commit_list_time_cmp walk)
      (takeWhile (\<lambda>c. n_time (node walk item) \<le> n_time (node walk c)) list @
        item # dropWhile (\<lambda>c. n_time (node walk item) \<le> n_time (node walk c)) list)"
  using assms(2)
proof (induction list)
  case Nil
  then show ?case using assms(1) by (simp add: git_commit_list_insert_def)
next
  case (Cons p ps)
  show ?case
  proof (cases "n_time (node walk item) \<le> n_time (node walk p)")
    case True
    then have "\<not> git_commit_list_time_cmp walk p item > 0" using time_cmp_le [of walk p item] by simp
    then show ?thesis using Cons True
      by (auto simp: sorted_by_Cons time_cmp_le dest: set_takeWhileD set_dropWhileD)
  next
    case False
    then have "git_commit_list_time_cmp walk p item > 0" using time_cmp_le [of walk p item] by simp
    then show ?thesis using Cons.prems False assms(1)
      by (auto simp: sorted_by_Cons time_cmp_le git_commit_list_insert_def)
  qed
qed

definition dated_walk :: "int list \<Rightarrow> git_revwalk" where
  "dated_walk ts = \<lparr>w_commits = map (\<lambda>t. (git_commit_list_alloc_node (GitOid []))\<lparr>n_time := t\<rparr>) ts,
     w_iterator_topo = [], w_iterator_rand = [], w_iterator_reverse = [],
     w_iterator_time = \<lparr>v_alloc_size = 0, v_cmp = None, v_contents = [], v_flags = 0\<rparr>,
     w_get_next = revwalk_next_unsorted, w_enqueue = revwalk_enqueue_unsorted, w_walking = False, w_first_parent = False,
     w_did_hide = False, w_did_push = False, w_limited = False, w_sorting = 0, w_user_input = [], w_hide_cb = None\<rparr>"

definition lavish_env :: git_env where
  "lavish_env = \<lparr>env_odb = (\<lambda>_. Inl GIT_ENOTFOUND), env_alloc = (\<lambda>_. True), env_mem = True\<rparr>"

theorem git_commit_list_insert_by_date_sorts_witness:
  "git_commit_list_insert_by_date lavish_env (dated_walk [9, 5, 5, 2]) 1 [0, 2, 3] = Inr [0, 2, 1, 3]"
proof -
  have "sorted_by (git_commit_list_time_cmp (dated_walk [9, 5, 5, 2])) [0, 2, 3]"
    by (simp add: sorted_by_def git_commit_list_time_cmp_def node_def dated_walk_def)
  then show ?thesis
    using git_commit_list_insert_by_date_sorts [of lavish_env "dated_walk [9, 5, 5, 2]" "[0, 2, 3]" 1]
    by (simp add: lavish_env_def node_def dated_walk_def)
qed

text \<open>The history that the object database holds.\<close>

definition history :: "git_env \<Rightarrow> (git_oid \<times> git_oid) set" where
  "history env = {(c, p). \<exists>t ps. env_odb env c = Inr (Some (t, ps)) \<and> p \<in> set ps}"

subsection \<open>Well-formed walks\<close>

definition oid_at :: "git_revwalk \<Rightarrow> nat \<Rightarrow> git_oid" where "oid_at walk c = n_oid (node walk c)"

definition valid :: "git_revwalk \<Rightarrow> nat \<Rightarrow> bool" where "valid walk c \<longleftrightarrow> c < length (w_commits walk)"

text \<open>No two nodes for one commit, and a parsed node says what the object database says.\<close>

definition node_ok :: "git_env \<Rightarrow> git_revwalk \<Rightarrow> nat \<Rightarrow> bool" where
  "node_ok env walk c \<longleftrightarrow>
     (if n_parsed (node walk c)
      then (\<exists>ps. n_parents (node walk c) = Some ps \<and> list_all (valid walk) ps \<and>
              env_odb env (oid_at walk c) = Inr (Some (n_time (node walk c), map (oid_at walk) ps)) \<and>
              n_out_degree (node walk c) = length ps)
      else n_parents (node walk c) = None)"

definition wf_walk :: "git_env \<Rightarrow> git_revwalk \<Rightarrow> bool" where
  "wf_walk env walk \<longleftrightarrow> distinct (map n_oid (w_commits walk)) \<and> (\<forall>c. valid walk c \<longrightarrow> node_ok env walk c)"

text \<open>
  What the reading of commits changes: new nodes, and the contents of nodes not parsed before, but
  never the marks that the walks set.
\<close>

definition marks :: "git_commit_list_node \<Rightarrow> bool \<times> bool \<times> bool \<times> commit_flags \<times> u16" where
  "marks n = (n_seen n, n_uninteresting n, n_added n, n_flags n, n_in_degree n)"

definition grows :: "git_revwalk \<Rightarrow> git_revwalk \<Rightarrow> bool" where
  "grows walk walk1 \<longleftrightarrow>
     length (w_commits walk) \<le> length (w_commits walk1) \<and>
     (\<forall>c. valid walk c \<longrightarrow> oid_at walk1 c = oid_at walk c \<and> marks (node walk1 c) = marks (node walk c) \<and>
        (n_parsed (node walk c) \<longrightarrow> node walk1 c = node walk c)) \<and>
     (\<forall>c. valid walk1 c \<longrightarrow> \<not> valid walk c \<longrightarrow> marks (node walk1 c) = (False, False, False, 0, 0)) \<and>
     walk1 = walk\<lparr>w_commits := w_commits walk1\<rparr>"

lemma grows_refl [simp]: "grows walk walk"
  by (simp add: grows_def)

lemma grows_valid: "grows a b \<Longrightarrow> valid a c \<Longrightarrow> valid b c"
  by (simp add: grows_def valid_def)

lemma grows_node:
  assumes "grows a b" "valid a c"
  shows "oid_at b c = oid_at a c" "marks (node b c) = marks (node a c)" "n_flags (node b c) = n_flags (node a c)"
    "n_parsed (node a c) \<Longrightarrow> node b c = node a c"
  using assms by (auto simp: grows_def marks_def)

lemma grows_new: "grows a b \<Longrightarrow> valid b c \<Longrightarrow> \<not> valid a c \<Longrightarrow> marks (node b c) = (False, False, False, 0, 0)"
  by (simp add: grows_def)

lemma grows_trans [trans]:
  assumes "grows a b" "grows b c"
  shows "grows a c"
proof -
  have "c = a\<lparr>w_commits := w_commits c\<rparr>"
  proof -
    have "b = a\<lparr>w_commits := w_commits b\<rparr>" "c = b\<lparr>w_commits := w_commits c\<rparr>"
      using assms unfolding grows_def by blast+
    then show ?thesis by (cases a; cases b; cases c) simp
  qed
  moreover have "marks (node c i) = (False, False, False, 0, 0)" if "valid c i" "\<not> valid a i" for i
  proof (cases "valid b i")
    case True
    then show ?thesis using grows_node(2) [OF assms(2) True] grows_new [OF assms(1) True that(2)] by simp
  next
    case False
    then show ?thesis using grows_new [OF assms(2) that(1)] by simp
  qed
  moreover have "length (w_commits a) \<le> length (w_commits c)" using assms by (simp add: grows_def)
  moreover have "oid_at c i = oid_at a i \<and> marks (node c i) = marks (node a i) \<and> (n_parsed (node a i) \<longrightarrow> node c i = node a i)"
    if "valid a i" for i
    using grows_node [OF assms(1) that] grows_node [OF assms(2) grows_valid [OF assms(1) that]] by auto
  ultimately show ?thesis unfolding grows_def by blast
qed

lemma wf_walk_distinct: "wf_walk env walk \<Longrightarrow> valid walk c \<Longrightarrow> valid walk d \<Longrightarrow> oid_at walk c = oid_at walk d \<Longrightarrow> c = d"
  by (auto simp: wf_walk_def oid_at_def valid_def node_def distinct_conv_nth)

lemma wf_walk_node: "wf_walk env walk \<Longrightarrow> valid walk c \<Longrightarrow> node_ok env walk c"
  by (simp add: wf_walk_def)

lemma node_ok_grows:
  assumes "grows a b" "valid a c" "node_ok env a c" "node b c = node a c"
  shows "node_ok env b c"
proof (cases "n_parsed (node a c)")
  case True
  then obtain ps where ps: "n_parents (node a c) = Some ps" "list_all (valid a) ps"
      "env_odb env (oid_at a c) = Inr (Some (n_time (node a c), map (oid_at a) ps))" "n_out_degree (node a c) = length ps"
    using assms(3) by (auto simp: node_ok_def)
  have "map (oid_at b) ps = map (oid_at a) ps" "list_all (valid b) ps"
    using ps(2) grows_node(1) [OF assms(1)] grows_valid [OF assms(1)] by (auto simp: list_all_iff)
  then show ?thesis using ps assms(4) True grows_node(1) [OF assms(1,2)] by (simp add: node_ok_def)
next
  case False
  then show ?thesis using assms(3,4) by (simp add: node_ok_def)
qed

subsection \<open>Looking up\<close>

lemma oidmap_get_Some: "oidmap_get ns oid = Some c \<Longrightarrow> c < length ns \<and> n_oid (ns ! c) = oid"
  by (induction ns arbitrary: c) (auto split: if_splits)

lemma oidmap_get_None: "oidmap_get ns oid = None \<longleftrightarrow> oid \<notin> n_oid ` set ns"
  by (induction ns) auto

lemma commit_lookup_spec:
  assumes "git_revwalk__commit_lookup env oid walk = Some (Inr c, walk1)" "wf_walk env walk"
  shows "wf_walk env walk1 \<and> grows walk walk1 \<and> valid walk1 c \<and> oid_at walk1 c = oid \<and>
    (\<forall>d. valid walk d \<longrightarrow> node walk1 d = node walk d)"
proof (cases "oidmap_get (w_commits walk) oid")
  case (Some d)
  then show ?thesis using assms oidmap_get_Some [OF Some]
    by (auto simp: git_revwalk__commit_lookup_def valid_def oid_at_def node_def)
next
  case None
  then have w: "walk1 = walk\<lparr>w_commits := w_commits walk @ [git_commit_list_alloc_node oid]\<rparr>" "c = length (w_commits walk)"
    using assms(1) by (auto simp: git_revwalk__commit_lookup_def split: if_splits)
  have old: "node walk1 d = node walk d" if "valid walk d" for d
    using that by (simp add: w node_def valid_def nth_append)
  have new: "node walk1 c = git_commit_list_alloc_node oid" by (simp add: w node_def)
  have valid: "valid walk1 d \<longleftrightarrow> valid walk d \<or> d = c" for d by (auto simp: w valid_def)
  have g: "grows walk walk1"
    unfolding grows_def using old new valid
    by (auto simp: w(1) oid_at_def valid_def marks_def git_commit_list_alloc_node_def)
  have "node_ok env walk1 d" if "valid walk1 d" for d
  proof (cases "d = c")
    case True
    then show ?thesis by (simp add: node_ok_def new git_commit_list_alloc_node_def)
  next
    case False
    then have "valid walk d" using that valid by blast
    then show ?thesis using node_ok_grows [OF g] old assms(2) by (simp add: wf_walk_def)
  qed
  moreover have "distinct (map n_oid (w_commits walk1))"
    using assms(2) None unfolding oidmap_get_None by (auto simp: w(1) wf_walk_def git_commit_list_alloc_node_def)
  ultimately show ?thesis using g new old valid by (simp add: wf_walk_def oid_at_def git_commit_list_alloc_node_def)
qed

lemma lookup_parents_spec:
  "lookup_parents env oids walk = Some (Inr ps, walk1) \<Longrightarrow> wf_walk env walk \<Longrightarrow>
   wf_walk env walk1 \<and> grows walk walk1 \<and> list_all (valid walk1) ps \<and> map (oid_at walk1) ps = oids \<and>
   (\<forall>d. valid walk d \<longrightarrow> node walk1 d = node walk d)"
proof (induction oids arbitrary: walk ps)
  case (Cons oid oids)
  then obtain p w qs where w: "git_revwalk__commit_lookup env oid walk = Some (Inr p, w)"
      "lookup_parents env oids w = Some (Inr qs, walk1)" "ps = p # qs" by auto
  have 1: "wf_walk env w" "grows walk w" "valid w p" "oid_at w p = oid"
      "\<And>d. valid walk d \<Longrightarrow> node w d = node walk d"
    using commit_lookup_spec [OF w(1) Cons.prems(2)] by auto
  have 2: "wf_walk env walk1" "grows w walk1" "list_all (valid walk1) qs" "map (oid_at walk1) qs = oids"
      "\<And>d. valid w d \<Longrightarrow> node walk1 d = node w d"
    using Cons.IH [OF w(2) 1(1)] by auto
  then show ?case
    using 1 w(3) grows_trans [OF 1(2) 2(2)] grows_valid [OF 2(2) 1(3)] grows_node(1) [OF 2(2) 1(3)]
      grows_valid [OF 1(2)] by simp
qed auto

lemma commit_lookup_total: "git_revwalk__commit_lookup env oid walk \<noteq> None"
  by (auto simp: git_revwalk__commit_lookup_def split: option.splits)

lemma lookup_parents_total: "lookup_parents env oids walk \<noteq> None"
  by (induction oids arbitrary: walk) (auto simp: commit_lookup_total)

lemma parse_total: "git_commit_list_parse env c walk \<noteq> None"
proof
  assume "git_commit_list_parse env c walk = None"
  then show False
    by (auto simp: git_commit_list_parse_def commit_quick_parse_def lookup_parents_total
        simp del: not_None_eq split: option.splits sum.splits if_splits)
qed

subsection \<open>Reading a commit\<close>

lemma node_set_node [simp]:
  "valid walk c \<Longrightarrow> node (set_node c f walk) d = (if d = c then f (node walk c) else node walk d)"
  by (simp add: node_def set_node_def valid_def nth_list_update)

lemma valid_set_node [simp]: "valid (set_node c f walk) d \<longleftrightarrow> valid walk d"
  by (simp add: valid_def set_node_def)

lemma set_node_rest [simp]: "(set_node c f walk)\<lparr>w_commits := x\<rparr> = walk\<lparr>w_commits := x\<rparr>"
  "length (w_commits (set_node c f walk)) = length (w_commits walk)"
  by (simp_all add: set_node_def)

lemma set_node_eq: "set_node c f walk = walk\<lparr>w_commits := w_commits (set_node c f walk)\<rparr>"
  by (simp add: set_node_def)

text \<open>An unparsed node may change anything but its id and its marks.\<close>

lemma grows_set_node:
  assumes "valid walk c" "\<not> n_parsed (node walk c)" "n_oid (f (node walk c)) = n_oid (node walk c)"
    "marks (f (node walk c)) = marks (node walk c)"
  shows "grows walk (set_node c f walk)"
  unfolding grows_def using assms set_node_eq [of c f walk] by (auto simp: oid_at_def)

lemma distinct_set_node:
  assumes "valid walk c" "n_oid (f (node walk c)) = n_oid (node walk c)"
  shows "map n_oid (w_commits (set_node c f walk)) = map n_oid (w_commits walk)"
  using assms by (simp add: set_node_def map_update valid_def node_def list_update_same_conv)

lemma commit_quick_parse_spec:
  assumes p: "commit_quick_parse env c (t, oids) walk = Some (Inr (), walk1)"
    and wf: "wf_walk env walk" and c: "valid walk c" "\<not> n_parsed (node walk c)"
    and db: "env_odb env (oid_at walk c) = Inr (Some (t, oids))"
  shows "wf_walk env walk1 \<and> grows walk walk1 \<and> n_parsed (node walk1 c)"
proof -
  define w1 where "w1 = set_node c (\<lambda>n. n\<lparr>n_time := t, n_out_degree := length oids, n_parents := None\<rparr>) walk"
  obtain ps w2 where w2: "lookup_parents env oids w1 = Some (Inr ps, w2)"
      and w3: "walk1 = set_node c (\<lambda>n. n\<lparr>n_parents := Some ps, n_parsed := True\<rparr>) w2"
    using p by (auto simp: commit_quick_parse_def w1_def split: if_splits)
  have g1: "grows walk w1" unfolding w1_def using c by (intro grows_set_node) (simp_all add: marks_def)
  have wf1: "wf_walk env w1"
    unfolding wf_walk_def
  proof (intro conjI allI impI)
    show "distinct (map n_oid (w_commits w1))"
      using wf c unfolding w1_def by (subst distinct_set_node) (simp_all add: wf_walk_def)
    fix d assume d: "valid w1 d"
    show "node_ok env w1 d"
    proof (cases "d = c")
      case True
      then show ?thesis using c by (simp add: node_ok_def w1_def)
    next
      case False
      then show ?thesis using d wf c by (intro node_ok_grows [OF g1]) (simp_all add: w1_def wf_walk_def)
    qed
  qed
  note 2 = lookup_parents_spec [OF w2 wf1]
  have c1: "valid w1 c" "n_time (node w1 c) = t" "n_out_degree (node w1 c) = length oids" "\<not> n_parsed (node w1 c)"
    using c by (simp_all add: w1_def)
  have c2: "valid w2 c" "oid_at w2 c = oid_at walk c" "node w2 c = node w1 c"
    using 2 c1(1) g1 c(1) by (auto simp: grows_valid grows_node)
  have g2: "grows walk w2" using grows_trans [OF g1] 2 by blast
  have g3: "grows w2 walk1" unfolding w3 using c1 c2 by (intro grows_set_node) (simp_all add: marks_def)
  have same: "oid_at walk1 d = oid_at w2 d" if "valid w2 d" for d using grows_node(1) [OF g3 that] .
  have ps: "list_all (valid walk1) ps" "map (oid_at walk1) ps = oids"
    using 2 same grows_valid [OF g3] by (auto simp: list_all_iff)
  have node_c: "node walk1 c = (node w1 c)\<lparr>n_parents := Some ps, n_parsed := True\<rparr>"
    using c2 by (simp add: w3)
  have "wf_walk env walk1"
    unfolding wf_walk_def
  proof (intro conjI allI impI)
    show "distinct (map n_oid (w_commits walk1))"
      using 2 c2 unfolding w3 by (subst distinct_set_node) (simp_all add: wf_walk_def)
    fix d assume d: "valid walk1 d"
    show "node_ok env walk1 d"
    proof (cases "d = c")
      case True
      have "length oids = length ps" using ps(2) by (metis length_map)
      then show ?thesis using True c1 c2 ps db same [OF c2(1)] node_c by (simp add: node_ok_def)
    next
      case False
      then show ?thesis using d 2 c2 by (intro node_ok_grows [OF g3]) (simp_all add: w3 wf_walk_def)
    qed
  qed
  then show ?thesis using grows_trans [OF g2 g3] node_c by simp
qed

lemma parse_spec:
  assumes "git_commit_list_parse env c walk = Some (Inr (), walk1)" "wf_walk env walk" "valid walk c"
  shows "wf_walk env walk1 \<and> grows walk walk1 \<and> n_parsed (node walk1 c)"
proof (cases "n_parsed (node walk c)")
  case True
  then show ?thesis using assms by (simp add: git_commit_list_parse_def)
next
  case False
  then obtain t oids where db: "env_odb env (oid_at walk c) = Inr (Some (t, oids))"
      and p: "commit_quick_parse env c (t, oids) walk = Some (Inr (), walk1)"
    using assms(1) by (auto simp: git_commit_list_parse_def oid_at_def split: sum.splits option.splits)
  then show ?thesis using commit_quick_parse_spec [OF p assms(2,3) False db] by blast
qed

text \<open>The parents of a parsed node are the history's.\<close>

lemma parents_history:
  assumes "wf_walk env walk" "valid walk c"
  shows "list_all (valid walk) (parents_of walk c)"
    and "n_parsed (node walk c) \<Longrightarrow> (oid_at walk c, a) \<in> history env \<longleftrightarrow> a \<in> oid_at walk ` set (parents_of walk c)"
    and "p \<in> set (parents_of walk c) \<Longrightarrow> (oid_at walk c, oid_at walk p) \<in> history env"
proof -
  note ok = wf_walk_node [OF assms]
  show "list_all (valid walk) (parents_of walk c)"
    using ok by (auto simp: node_ok_def parents_of_def split: if_splits)
  show *: "n_parsed (node walk c) \<Longrightarrow> (oid_at walk c, a) \<in> history env \<longleftrightarrow> a \<in> oid_at walk ` set (parents_of walk c)" for a
    using ok by (auto simp: node_ok_def parents_of_def history_def)
  show "p \<in> set (parents_of walk c) \<Longrightarrow> (oid_at walk c, oid_at walk p) \<in> history env"
    using * ok by (cases "n_parsed (node walk c)") (auto simp: node_ok_def parents_of_def)
qed

end
