(* ===== verification/PaintCorrect.thy ===== *)
theory PaintCorrect
  imports MergeBase CommitListCorrect
begin

text \<open>
  \<open>paint_down_to_common\<close>: which commits carry which flags when the loop ends. No assumption is made
  on the dates of the commits.
\<close>

subsection \<open>Flags\<close>

lemma flags_eq_iff: "(a :: commit_flags) = b \<longleftrightarrow> (\<forall>n. bit a n \<longleftrightarrow> bit b n)"
  by (auto intro: bit_word_eqI)

lemma bit_flag: "bit (push_bit k (1 :: commit_flags)) n \<longleftrightarrow> n = k \<and> k < 4"
  by (simp only: bit_push_bit_iff bit_1_iff possible_bit_word) auto

lemma bit_PARENTS: "bit PARENT1 n \<longleftrightarrow> n = 0" "bit PARENT2 n \<longleftrightarrow> n = 1" "bit RESULT n \<longleftrightarrow> n = 2" "bit STALE n \<longleftrightarrow> n = 3"
  "bit (PARENT1 OR PARENT2) n \<longleftrightarrow> n = 0 \<or> n = 1" "bit (PARENT1 OR PARENT2 OR STALE) n \<longleftrightarrow> n = 0 \<or> n = 1 \<or> n = 3"
  unfolding PARENT1_def PARENT2_def RESULT_def STALE_def bit_or_iff bit_flag by auto

lemma flag_bits:
  "has f PARENT1 \<longleftrightarrow> bit f 0" "has f PARENT2 \<longleftrightarrow> bit f 1" "has f RESULT \<longleftrightarrow> bit f 2" "has f STALE \<longleftrightarrow> bit f 3"
  unfolding has_def flags_eq_iff bit_and_iff bit_PARENTS by auto

lemma is_result_bits: "is_result f \<longleftrightarrow> bit f 0 \<and> bit f 1 \<and> \<not> bit f 3"
proof -
  have "is_result f \<longleftrightarrow> (\<forall>n. bit f n \<and> (n = 0 \<or> n = 1 \<or> n = 3) \<longleftrightarrow> n = 0 \<or> n = 1)" (is "_ \<longleftrightarrow> (\<forall>n. ?P n)")
    unfolding is_result_def flags_eq_iff bit_and_iff bit_PARENTS by (rule refl)
  also have "\<dots> \<longleftrightarrow> bit f 0 \<and> bit f 1 \<and> \<not> bit f 3"
  proof
    assume "\<forall>n. ?P n"
    then have "?P 0" "?P 1" "?P 3" by blast+
    then show "bit f 0 \<and> bit f 1 \<and> \<not> bit f 3" by simp
  qed auto
  finally show ?thesis .
qed

lemma passed_flags_bits:
  "bit (passed_flags f) n \<longleftrightarrow> (n = 0 \<or> n = 1) \<and> bit f n \<or> n = 3 \<and> (bit f 3 \<or> bit f 0 \<and> bit f 1)"
proof -
  have "f AND (PARENT1 OR PARENT2 OR STALE) = PARENT1 OR PARENT2 \<longleftrightarrow> is_result f" by (simp add: is_result_def)
  then show ?thesis unfolding passed_flags_def Let_def is_result_bits
    by (auto simp: bit_and_iff bit_or_iff bit_PARENTS)
qed

definition sub_flags :: "commit_flags \<Rightarrow> commit_flags \<Rightarrow> bool" where
  "sub_flags f g \<longleftrightarrow> (\<forall>n. bit f n \<longrightarrow> bit g n)"

lemma sub_flags_and: "g AND f = f \<longleftrightarrow> sub_flags f g"
  by (auto simp: flags_eq_iff bit_and_iff sub_flags_def)

lemma sub_flags_trans: "sub_flags f g \<Longrightarrow> sub_flags g h \<Longrightarrow> sub_flags f h"
  by (simp add: sub_flags_def)

lemma sub_flags_or [simp]: "sub_flags f (f OR g)" "sub_flags g (f OR g)" "sub_flags f f"
  by (simp_all add: sub_flags_def bit_or_iff)

subsection \<open>The queue\<close>

definition queue_ok :: "git_env \<Rightarrow> git_revwalk \<Rightarrow> nat git_pqueue \<Rightarrow> bool" where
  "queue_ok env walk pq \<longleftrightarrow>
     growing_inv (env_can_alloc env) (git_commit_list_time_cmp walk) (queue_at walk pq) \<and>
     (\<forall>c\<in>#elems pq. valid walk c \<and> n_parsed (node walk c))"

lemma elems_queue_at [simp]: "elems (queue_at walk pq) = elems pq"
  by (simp add: elems_def queue_at_def)

lemma queue_at_twice [simp]: "queue_at walk (queue_at walk1 pq) = queue_at walk pq"
  by (simp add: queue_at_def option.map_comp comp_def)

text \<open>The order of the queue depends on the times of its commits only.\<close>

lemma queue_ok_cong:
  assumes "queue_ok env walk pq" "\<And>c. c \<in># elems pq \<Longrightarrow> valid walk1 c \<and> n_parsed (node walk1 c) \<and> n_time (node walk1 c) = n_time (node walk c)"
  shows "queue_ok env walk1 pq"
proof -
  have "git_commit_list_time_cmp walk1 a b = git_commit_list_time_cmp walk a b"
    if "a \<in># elems pq" "b \<in># elems pq" for a b
    using assms(2) [OF that(1)] assms(2) [OF that(2)] by (simp add: git_commit_list_time_cmp_def)
  moreover have "PQUEUE_PARENT_OF i < length (v_contents pq)" if "i < length (v_contents pq)" for i
    using that by (auto simp: PQUEUE_PARENT_OF_def)
  ultimately have "heap_ordered (git_commit_list_time_cmp walk) (v_contents pq) \<Longrightarrow>
      heap_ordered (git_commit_list_time_cmp walk1) (v_contents pq)"
    by (auto simp: heap_ordered_def elems_def)
  then show ?thesis using assms
    by (auto simp: queue_ok_def growing_inv_def pqueue_inv_def queue_at_def vector_fits_def fixed_size_def)
qed

lemma queue_ok_grows:
  assumes "queue_ok env walk pq" "grows walk walk1"
  shows "queue_ok env walk1 pq"
  using assms(1) by (rule queue_ok_cong) (use assms in \<open>auto simp: queue_ok_def grows_valid grows_node\<close>)

lemma queue_ok_set_flags:
  assumes "queue_ok env walk pq" "valid walk c"
  shows "queue_ok env (set_node c (\<lambda>n. n\<lparr>n_flags := f n\<rparr>) walk) pq"
  using assms(1) by (rule queue_ok_cong) (use assms in \<open>auto simp: queue_ok_def\<close>)

lemma enqueue_spec:
  assumes "enqueue env pq c walk = Some (Inr pq1, walk1)" "queue_ok env walk pq" "valid walk c" "n_parsed (node walk c)"
  shows "walk1 = walk \<and> queue_ok env walk pq1 \<and> elems pq1 = add_mset c (elems pq)"
proof -
  have ins: "git_pqueue_insert (env_can_alloc env) (queue_at walk pq) c = Inr pq1" and w: "walk1 = walk"
    using assms(1) by (auto simp: enqueue_def split: sum.splits)
  have "growing_inv (env_can_alloc env) (git_commit_list_time_cmp walk) pq1 \<and> elems pq1 = add_mset c (elems pq)"
    using commit_queue.insert_law [of env walk "queue_at walk pq" c pq1] ins assms(2) by (simp add: queue_ok_def)
  moreover from this have "queue_at walk pq1 = pq1" by (simp add: growing_inv_def pqueue_inv_def queue_at_def)
  ultimately show ?thesis using w assms(2-4) unfolding queue_ok_def by auto
qed

lemma pop_spec:
  assumes "queue_ok env walk pq"
  shows "case git_pqueue_pop (queue_at walk pq) of
      (None, _) \<Rightarrow> elems pq = {#}
    | (Some c, pq1) \<Rightarrow> queue_ok env walk pq1 \<and> elems pq = add_mset c (elems pq1) \<and> valid walk c \<and> n_parsed (node walk c) \<and>
        (\<forall>d\<in>#elems pq. n_time (node walk d) \<le> n_time (node walk c))"
proof (cases "elems pq = {#}")
  case True
  then show ?thesis using commit_queue.pop_empty_law [of env walk "queue_at walk pq"] assms by (simp add: queue_ok_def)
next
  case False
  obtain c pq1 where r: "git_pqueue_pop (queue_at walk pq) = (Some c, pq1)"
      "growing_inv (env_can_alloc env) (git_commit_list_time_cmp walk) pq1" "elems pq = add_mset c (elems pq1)"
      "\<forall>y\<in>#elems pq. git_commit_list_time_cmp walk c y \<le> 0"
    using commit_queue.pop_law [of env walk "queue_at walk pq"] assms False by (auto simp: queue_ok_def)
  then have "queue_at walk pq1 = pq1" by (simp add: growing_inv_def pqueue_inv_def queue_at_def)
  then show ?thesis using r assms by (simp add: queue_ok_def time_cmp_le)
qed

subsection \<open>The invariant\<close>

definition linked :: "git_revwalk \<Rightarrow> (nat \<times> nat) set" where
  "linked walk = {(a, b). valid walk a \<and> b \<in> set (parents_of walk a) \<and> flags_of walk a \<noteq> 0 \<and> flags_of walk b \<noteq> 0}"

definition closed_at :: "git_revwalk \<Rightarrow> nat \<Rightarrow> bool" where
  "closed_at walk c \<longleftrightarrow>
     (\<forall>p\<in>set (parents_of walk c). sub_flags (passed_flags (flags_of walk c)) (flags_of walk p)) \<and>
     (bit (flags_of walk c) 0 \<and> bit (flags_of walk c) 1 \<longrightarrow> bit (flags_of walk c) 2 \<or> bit (flags_of walk c) 3)"

text \<open>What the flags of a commit mean.\<close>

definition flags_sound :: "git_env \<Rightarrow> nat \<Rightarrow> nat list \<Rightarrow> git_revwalk \<Rightarrow> nat \<Rightarrow> bool" where
  "flags_sound env one twos walk c \<longleftrightarrow>
     (flags_of walk c \<noteq> 0 \<longrightarrow> n_parsed (node walk c) \<and> (\<exists>s\<in>set (one # twos). (s, c) \<in> (linked walk)\<^sup>*)) \<and>
     (bit (flags_of walk c) 0 \<longrightarrow> (oid_at walk one, oid_at walk c) \<in> (history env)\<^sup>*) \<and>
     (bit (flags_of walk c) 1 \<longrightarrow> (\<exists>two\<in>set twos. (oid_at walk two, oid_at walk c) \<in> (history env)\<^sup>*)) \<and>
     (bit (flags_of walk c) 2 \<longrightarrow> bit (flags_of walk c) 0 \<and> bit (flags_of walk c) 1) \<and>
     (bit (flags_of walk c) 3 \<longrightarrow> (\<exists>m. valid walk m \<and> bit (flags_of walk m) 2 \<and> (oid_at walk m, oid_at walk c) \<in> (history env)\<^sup>+))"

text \<open>\<open>X\<close> are the commits whose parents are being painted.\<close>

definition paint_inv :: "git_env \<Rightarrow> nat \<Rightarrow> nat list \<Rightarrow> git_revwalk \<Rightarrow> nat git_pqueue \<Rightarrow> nat set \<Rightarrow> bool" where
  "paint_inv env one twos walk pq X \<longleftrightarrow>
     wf_walk env walk \<and> queue_ok env walk pq \<and> (\<forall>c\<in>#elems pq. flags_of walk c \<noteq> 0) \<and>
     list_all (valid walk) (one # twos) \<and> bit (flags_of walk one) 0 \<and> (\<forall>two\<in>set twos. bit (flags_of walk two) 1) \<and>
     (\<forall>c. valid walk c \<longrightarrow> flags_sound env one twos walk c) \<and>
     (\<forall>c. valid walk c \<longrightarrow> flags_of walk c \<noteq> 0 \<longrightarrow> c \<notin># elems pq \<longrightarrow> c \<notin> X \<longrightarrow> closed_at walk c)"

subsection \<open>Steps that keep the invariant\<close>

lemma rtrancl_linked_mono: "linked a \<subseteq> linked b \<Longrightarrow> (s, c) \<in> (linked a)\<^sup>* \<Longrightarrow> (s, c) \<in> (linked b)\<^sup>*"
  using rtrancl_mono by blast

lemma flags_of_marks: "marks (node walk1 c) = marks (node walk c) \<Longrightarrow> flags_of walk1 c = flags_of walk c"
  by (simp add: marks_def flags_of_def)

lemma flags_of_new: "marks (node walk c) = (False, False, False, 0, 0) \<Longrightarrow> flags_of walk c = 0"
  by (simp add: marks_def flags_of_def)

lemma grows_parents: "grows a b \<Longrightarrow> valid a c \<Longrightarrow> n_parsed (node a c) \<Longrightarrow> parents_of b c = parents_of a c"
  by (simp add: parents_of_def grows_node)

lemma parsed_parents_valid: "wf_walk env walk \<Longrightarrow> valid walk c \<Longrightarrow> p \<in> set (parents_of walk c) \<Longrightarrow> valid walk p"
  using parents_history(1) by (auto simp: list_all_iff)

lemma unparsed_no_parents: "wf_walk env walk \<Longrightarrow> valid walk c \<Longrightarrow> p \<in> set (parents_of walk c) \<Longrightarrow> n_parsed (node walk c)"
  using wf_walk_node [of env walk c] by (cases "n_parsed (node walk c)") (auto simp: node_ok_def parents_of_def)

lemma linked_grows:
  assumes "wf_walk env a" "grows a b"
  shows "linked a \<subseteq> linked b"
proof -
  have "flags_of b c = flags_of a c" if "valid a c" for c
    using grows_node(2) [OF assms(2) that] by (rule flags_of_marks)
  then show ?thesis
    using assms parsed_parents_valid [OF assms(1)] unparsed_no_parents [OF assms(1)] grows_parents [OF assms(2)]
    by (auto simp: linked_def grows_valid) 
qed

lemma paint_inv_grows:
  assumes inv: "paint_inv env one twos a pq X" and g: "grows a b" and wf: "wf_walk env b"
  shows "paint_inv env one twos b pq X"
proof -
  have flags: "flags_of b c = flags_of a c" "oid_at b c = oid_at a c" if "valid a c" for c
    using flags_of_marks [OF grows_node(2) [OF g that]] grows_node(1) [OF g that] by auto
  have new: "flags_of b c = 0" if "valid b c" "\<not> valid a c" for c
    using grows_new [OF g that] by (rule flags_of_new)
  have wfa: "wf_walk env a" and start: "valid a one" "\<And>two. two \<in> set twos \<Longrightarrow> valid a two"
    using inv by (auto simp: paint_inv_def list_all_iff)
  have "flags_sound env one twos b c" if c: "valid b c" for c
  proof (cases "valid a c")
    case True
    have s: "flags_sound env one twos a c" using inv True by (simp add: paint_inv_def)
    have "flags_of b c \<noteq> 0 \<Longrightarrow> n_parsed (node b c)"
      using s True flags grows_node(4) [OF g True] by (simp add: flags_sound_def)
    moreover have "flags_of b c \<noteq> 0 \<Longrightarrow> \<exists>s\<in>set (one # twos). (s, c) \<in> (linked b)\<^sup>*"
      using s True flags rtrancl_linked_mono [OF linked_grows [OF wfa g]] unfolding flags_sound_def by metis
    moreover have "bit (flags_of b c) 3 \<Longrightarrow> \<exists>m. valid b m \<and> bit (flags_of b m) 2 \<and> (oid_at b m, oid_at b c) \<in> (history env)\<^sup>+"
      using s True flags grows_valid [OF g] unfolding flags_sound_def by metis
    ultimately show ?thesis using s True start flags unfolding flags_sound_def by auto
  next
    case False
    then show ?thesis using new [OF c] by (simp add: flags_sound_def)
  qed
  moreover have "closed_at b c" if "valid b c" "flags_of b c \<noteq> 0" "c \<notin># elems pq" "c \<notin> X" for c
  proof -
    have a: "valid a c" using new that by blast
    then have f: "flags_of a c \<noteq> 0" using that flags by simp
    have "closed_at a c" "n_parsed (node a c)"
      using inv a f that by (auto simp: paint_inv_def flags_sound_def)
    then show ?thesis
      using parsed_parents_valid [OF wfa a] grows_parents [OF g a] flags a by (auto simp: closed_at_def)
  qed
  moreover have "queue_ok env b pq" using inv g by (auto simp: paint_inv_def intro: queue_ok_grows)
  moreover have "\<forall>c\<in>#elems pq. flags_of b c \<noteq> 0" using inv flags(1) by (auto simp: paint_inv_def queue_ok_def)
  ultimately show ?thesis using inv wf flags start grows_valid [OF g] by (auto simp: paint_inv_def list_all_iff)
qed

text \<open>What the flags passed to a parent are allowed to say.\<close>

definition justified :: "git_revwalk \<Rightarrow> nat \<Rightarrow> commit_flags \<Rightarrow> bool" where
  "justified walk c g \<longleftrightarrow>
     flags_of walk c \<noteq> 0 \<and> (bit g 0 \<longrightarrow> bit (flags_of walk c) 0) \<and> (bit g 1 \<longrightarrow> bit (flags_of walk c) 1) \<and> \<not> bit g 2 \<and>
     (bit g 3 \<longrightarrow> bit (flags_of walk c) 3 \<or> bit (flags_of walk c) 2)"

lemma add_flags_simps:
  assumes "valid walk p"
  shows "flags_of (add_flags p g walk) c = (if c = p then flags_of walk p OR g else flags_of walk c)"
    "oid_at (add_flags p g walk) c = oid_at walk c" "parents_of (add_flags p g walk) c = parents_of walk c"
    "n_parsed (node (add_flags p g walk) c) = n_parsed (node walk c)" "valid (add_flags p g walk) c = valid walk c"
    "n_time (node (add_flags p g walk) c) = n_time (node walk c)"
  using assms by (simp_all add: add_flags_def flags_of_def oid_at_def parents_of_def)

lemma wf_walk_set_marks:
  assumes "wf_walk env walk" "valid walk p" "\<And>n. n_oid (f n) = n_oid n \<and> n_time (f n) = n_time n \<and>
    n_parsed (f n) = n_parsed n \<and> n_parents (f n) = n_parents n \<and> n_out_degree (f n) = n_out_degree n"
  shows "wf_walk env (set_node p f walk)"
  unfolding wf_walk_def
proof (intro conjI allI impI)
  show "distinct (map n_oid (w_commits (set_node p f walk)))"
    using assms by (subst distinct_set_node) (simp_all add: wf_walk_def)
  fix c assume c: "valid (set_node p f walk) c"
  have "oid_at (set_node p f walk) = oid_at walk" using assms by (auto simp: oid_at_def fun_eq_iff)
  moreover have "valid (set_node p f walk) = valid walk" by auto
  ultimately show "node_ok env (set_node p f walk) c"
    using assms c wf_walk_node [OF assms(1), of c] by (cases "c = p") (simp_all add: node_ok_def)
qed

lemma linked_add_flags: "valid walk p \<Longrightarrow> linked walk \<subseteq> linked (add_flags p g walk)"
  by (auto simp: linked_def add_flags_simps flags_eq_iff bit_or_iff)

lemma paint_inv_add_flags:
  assumes inv: "paint_inv env one twos walk pq X" and c: "valid walk c" "p \<in> set (parents_of walk c)"
    and j: "justified walk c g" and p: "n_parsed (node walk p)"
    and q: "queue_ok env (add_flags p g walk) pq1" "elems pq1 = add_mset p (elems pq)" and g: "g \<noteq> 0"
  shows "paint_inv env one twos (add_flags p g walk) pq1 X"
proof -
  let ?w = "add_flags p g walk"
  have wf: "wf_walk env walk" using inv by (simp add: paint_inv_def)
  have vp: "valid walk p" using parsed_parents_valid [OF wf c] .
  note simps = add_flags_simps [OF vp]
  have edge: "(oid_at walk c, oid_at walk p) \<in> history env" using parents_history(3) [OF wf c] .
  have sc: "flags_sound env one twos walk c" using inv c by (simp add: paint_inv_def)
  have mono: "bit (flags_of walk d) n \<Longrightarrow> bit (flags_of ?w d) n" for d n by (auto simp: simps bit_or_iff)
  have stale: "\<exists>m. valid ?w m \<and> bit (flags_of ?w m) 2 \<and> (oid_at ?w m, x) \<in> (history env)\<^sup>+"
    if "valid walk m" "bit (flags_of walk m) 2" "(oid_at walk m, x) \<in> (history env)\<^sup>+" for m x
    using that mono unfolding simps(2,5) by blast
  have nz: "flags_of walk d \<noteq> 0 \<Longrightarrow> flags_of ?w d \<noteq> 0" for d
    using mono by (auto simp: flags_eq_iff)
  have "flags_sound env one twos ?w d" if d: "valid ?w d" for d
  proof -
    have sd: "flags_sound env one twos walk d" using inv d by (simp add: paint_inv_def simps)
    have lift: "(s, d) \<in> (linked walk)\<^sup>* \<Longrightarrow> (s, d) \<in> (linked ?w)\<^sup>*" for s d
      using rtrancl_linked_mono [OF linked_add_flags [OF vp]] .
    show ?thesis
    proof (cases "d = p")
      case False
      have "bit (flags_of ?w d) 3 \<Longrightarrow> \<exists>m. valid ?w m \<and> bit (flags_of ?w m) 2 \<and> (oid_at ?w m, oid_at ?w d) \<in> (history env)\<^sup>+"
        using sd False stale simps(1,2) unfolding flags_sound_def by metis
      then show ?thesis using sd False lift unfolding flags_sound_def by (auto simp: simps(1-4))
    next
      case True
      have bits: "bit (flags_of ?w p) n \<longleftrightarrow> bit (flags_of walk p) n \<or> bit g n" for n by (simp add: simps bit_or_iff)
      have linked: "\<exists>s\<in>set (one # twos). (s, p) \<in> (linked ?w)\<^sup>*" if "flags_of ?w p \<noteq> 0"
      proof -
        obtain s where s: "s \<in> set (one # twos)" "(s, c) \<in> (linked walk)\<^sup>*"
          using sc j unfolding flags_sound_def justified_def by blast
        moreover have "(c, p) \<in> linked ?w" using c j that nz by (auto simp: linked_def simps justified_def)
        ultimately show ?thesis using lift rtrancl.rtrancl_into_rtrancl by metis
      qed
      have 0: "(oid_at walk one, oid_at walk p) \<in> (history env)\<^sup>*" if "bit (flags_of ?w p) 0"
        using that sc j sd edge True unfolding bits flags_sound_def justified_def by (meson rtrancl.rtrancl_into_rtrancl)
      have 1: "\<exists>two\<in>set twos. (oid_at walk two, oid_at walk p) \<in> (history env)\<^sup>*" if "bit (flags_of ?w p) 1"
        using that sc j sd edge True unfolding bits flags_sound_def justified_def by (meson rtrancl.rtrancl_into_rtrancl)
      have 3: "\<exists>m. valid ?w m \<and> bit (flags_of ?w m) 2 \<and> (oid_at ?w m, oid_at ?w p) \<in> (history env)\<^sup>+" if b: "bit (flags_of ?w p) 3"
      proof (cases "bit (flags_of walk p) 3")
        case True
        then show ?thesis using sd \<open>d = p\<close> stale simps(2) unfolding flags_sound_def by metis
      next
        case False
        then have "bit (flags_of walk c) 3 \<or> bit (flags_of walk c) 2" using b j by (auto simp: bits justified_def)
        then show ?thesis
        proof
          assume "bit (flags_of walk c) 3"
          then obtain m where "valid walk m" "bit (flags_of walk m) 2" "(oid_at walk m, oid_at walk c) \<in> (history env)\<^sup>+"
            using sc unfolding flags_sound_def by blast
          then show ?thesis using edge stale simps(2) trancl.trancl_into_trancl by metis
        next
          assume "bit (flags_of walk c) 2"
          then show ?thesis using edge c(1) stale simps(2) r_into_trancl by metis
        qed
      qed
      have 2: "bit (flags_of ?w p) 2 \<Longrightarrow> bit (flags_of ?w p) 0 \<and> bit (flags_of ?w p) 1"
        using sd j True by (auto simp: bits flags_sound_def justified_def)
      show ?thesis unfolding True flags_sound_def using linked 0 1 2 3 p by (auto simp: simps)
    qed
  qed
  moreover have "closed_at ?w d" if d: "valid ?w d" "flags_of ?w d \<noteq> 0" "d \<notin># elems pq1" "d \<notin> X" for d
  proof -
    have "d \<noteq> p" using d q(2) by auto
    then have "closed_at walk d" using inv d q(2) by (auto simp: paint_inv_def simps)
    then show ?thesis using \<open>d \<noteq> p\<close> sub_flags_trans unfolding closed_at_def by (auto simp: simps)
  qed
  moreover have "wf_walk env ?w" unfolding add_flags_def using wf vp by (rule wf_walk_set_marks) simp
  moreover have "flags_of walk p OR g \<noteq> 0" using g unfolding flags_eq_iff bit_or_iff by auto
  ultimately show ?thesis using inv q mono nz by (simp add: paint_inv_def simps list_all_iff)
qed

subsection \<open>How often a commit is queued\<close>

definition weight :: "commit_flags \<Rightarrow> nat" where "weight f = card {n \<in> {0, 1, 3}. bit f n}"

definition pot :: "git_revwalk \<Rightarrow> nat" where
  "pot walk = (\<Sum>c\<in>{..<length (w_commits walk)}. weight (flags_of walk c))"

lemma weight_zero [simp]: "weight 0 = 0"
  by (simp add: weight_def)

lemma weight_le: "weight f \<le> 3"
proof -
  have "card {n \<in> {0, 1, 3 :: nat}. bit f n} \<le> card {0, 1, 3 :: nat}" by (intro card_mono) auto
  then show ?thesis by (simp add: weight_def)
qed

lemma weight_or: "weight f \<le> weight (f OR g)"
  unfolding weight_def by (intro card_mono) (auto simp: bit_or_iff)

lemma weight_less:
  assumes "\<not> sub_flags g f" "\<not> bit g 2"
  shows "weight f < weight (f OR g)"
proof -
  obtain n where n: "bit g n" "\<not> bit f n" using assms(1) by (auto simp: sub_flags_def)
  then have "n < 4" using bit_imp_le_length [of g n] by simp
  moreover have "n \<noteq> 2" using n(1) assms(2) by (cases "n = 2") auto
  ultimately have "n = 0 \<or> n = 1 \<or> n = 3" by linarith
  then have "n \<in> {0, 1, 3}" by simp
  then have "n \<in> {n \<in> {0, 1, 3}. bit (f OR g) n} - {n \<in> {0, 1, 3}. bit f n}" using n unfolding bit_or_iff by blast
  then have "{n \<in> {0, 1, 3}. bit f n} \<subset> {n \<in> {0, 1, 3}. bit (f OR g) n}" unfolding bit_or_iff by blast
  then show ?thesis unfolding weight_def by (intro psubset_card_mono) auto
qed

lemma pot_grows:
  assumes "grows a b"
  shows "pot b = pot a"
proof -
  have le: "length (w_commits a) \<le> length (w_commits b)" using assms by (simp add: grows_def)
  have "pot b = (\<Sum>c\<in>{..<length (w_commits a)}. weight (flags_of b c))"
    unfolding pot_def
    by (rule sum.mono_neutral_right) (use le grows_new [OF assms] in \<open>auto simp: valid_def flags_of_new\<close>)
  also have "(\<Sum>c\<in>{..<length (w_commits a)}. weight (flags_of b c)) = pot a"
    unfolding pot_def
    by (intro sum.cong refl) (simp add: flags_of_marks [OF grows_node(2) [OF assms]] valid_def)
  finally show ?thesis by simp
qed

lemma pot_add_flags:
  assumes "valid walk p"
  shows "pot walk + (weight (flags_of walk p OR g) - weight (flags_of walk p)) = pot (add_flags p g walk)"
proof -
  let ?A = "{..<length (w_commits walk)}" and ?w = "add_flags p g walk"
  have A: "p \<in> ?A" "finite ?A" "length (w_commits ?w) = length (w_commits walk)"
    using assms by (simp_all add: valid_def add_flags_def)
  have "pot ?w = weight (flags_of ?w p) + (\<Sum>c\<in>?A - {p}. weight (flags_of ?w c))"
    unfolding pot_def A(3) using A by (intro sum.remove)
  also have "(\<Sum>c\<in>?A - {p}. weight (flags_of ?w c)) = (\<Sum>c\<in>?A - {p}. weight (flags_of walk c))"
    by (intro sum.cong refl) (simp add: add_flags_simps(1) [OF assms])
  finally have 1: "pot ?w = weight (flags_of walk p OR g) + (\<Sum>c\<in>?A - {p}. weight (flags_of walk c))"
    by (simp add: add_flags_simps(1) [OF assms])
  have 2: "pot walk = weight (flags_of walk p) + (\<Sum>c\<in>?A - {p}. weight (flags_of walk c))"
    unfolding pot_def using A by (intro sum.remove)
  show ?thesis using 1 2 weight_or [of "flags_of walk p" g] by simp
qed

subsection \<open>The parents of a popped commit\<close>

text \<open>What painting does: flags are added, and every commit whose flags change is in the queue.\<close>

definition painted :: "git_revwalk \<Rightarrow> nat git_pqueue \<Rightarrow> git_revwalk \<Rightarrow> nat git_pqueue \<Rightarrow> bool" where
  "painted walk pq walk1 pq1 \<longleftrightarrow>
     (\<forall>d. valid walk d \<longrightarrow> valid walk1 d \<and> oid_at walk1 d = oid_at walk d \<and>
        sub_flags (flags_of walk d) (flags_of walk1 d) \<and> (n_parsed (node walk d) \<longrightarrow> parents_of walk1 d = parents_of walk d) \<and>
        (flags_of walk1 d = flags_of walk d \<or> d \<in># elems pq1)) \<and>
     (\<forall>d. valid walk1 d \<longrightarrow> bit (flags_of walk1 d) 2 \<longrightarrow> valid walk d \<and> bit (flags_of walk d) 2) \<and>
     elems pq \<subseteq># elems pq1 \<and>
     size (elems pq1) + pot walk \<le> size (elems pq) + pot walk1"

lemma painted_refl: "painted walk pq walk pq"
  by (simp add: painted_def)

lemma painted_trans:
  assumes "painted a p b q" "painted b q c r" "\<And>d. valid a d \<Longrightarrow> n_parsed (node a d) \<Longrightarrow> n_parsed (node b d)"
  shows "painted a p c r"
  unfolding painted_def
proof (intro conjI allI impI)
  fix d assume d: "valid a d"
  have ab: "valid b d" "oid_at b d = oid_at a d" "sub_flags (flags_of a d) (flags_of b d)"
    "n_parsed (node a d) \<longrightarrow> parents_of b d = parents_of a d" "flags_of b d = flags_of a d \<or> d \<in># elems q"
    using assms(1) d by (auto simp: painted_def)
  have bc: "valid c d" "oid_at c d = oid_at b d" "sub_flags (flags_of b d) (flags_of c d)"
    "n_parsed (node b d) \<longrightarrow> parents_of c d = parents_of b d" "flags_of c d = flags_of b d \<or> d \<in># elems r" "elems q \<subseteq># elems r"
    using assms(2) ab(1) by (auto simp: painted_def)
  show "valid c d" "oid_at c d = oid_at a d" using ab bc by simp_all
  show "sub_flags (flags_of a d) (flags_of c d)" using ab bc sub_flags_trans by blast
  show "parents_of c d = parents_of a d" if "n_parsed (node a d)" using ab bc assms(3) [OF d that] that by simp
  show "flags_of c d = flags_of a d \<or> d \<in># elems r" using ab bc by (auto dest: mset_subset_eqD)
next
  fix d assume "valid c d" "bit (flags_of c d) 2"
  then have "valid b d" "bit (flags_of b d) 2" using assms(2) unfolding painted_def by blast+
  then show "valid a d" "bit (flags_of a d) 2" using assms(1) unfolding painted_def by blast+
next
  have "elems p \<subseteq># elems q" "elems q \<subseteq># elems r" using assms(1,2) unfolding painted_def by blast+
  then show "elems p \<subseteq># elems r" by (rule subset_mset.order_trans)
  have "size (elems q) + pot a \<le> size (elems p) + pot b" "size (elems r) + pot b \<le> size (elems q) + pot c"
    using assms(1,2) unfolding painted_def by blast+
  then show "size (elems r) + pot a \<le> size (elems p) + pot c" by linarith
qed

lemma painted_grows:
  assumes "grows a b" "wf_walk env a"
  shows "painted a pq b pq"
  unfolding painted_def
  using grows_valid [OF assms(1)] grows_node(1,2) [OF assms(1)] flags_of_marks grows_parents [OF assms(1)] pot_grows [OF assms(1)]
    grows_new [OF assms(1)] flags_of_new
  by (metis bit_0_eq bot_apply bot_bool_def le_refl sub_flags_or(3) subset_mset.order_refl)

lemma painted_add_flags:
  assumes "valid walk p" "\<not> sub_flags g (flags_of walk p)" "\<not> bit g 2" "elems pq1 = add_mset p (elems pq)"
  shows "painted walk pq (add_flags p g walk) pq1"
proof -
  have "pot walk < pot (add_flags p g walk)"
    using pot_add_flags [OF assms(1), of g] weight_less [OF assms(2,3)] by linarith
  then show ?thesis unfolding painted_def
    using assms(1,3,4) by (auto simp: add_flags_simps bit_or_iff split: if_splits)
qed

lemma justified_painted:
  assumes "justified walk c g" "painted walk pq walk1 pq1" "valid walk c"
  shows "justified walk1 c g"
proof -
  have "sub_flags (flags_of walk c) (flags_of walk1 c)" using assms by (simp add: painted_def)
  then have "bit (flags_of walk c) n \<Longrightarrow> bit (flags_of walk1 c) n" for n by (simp add: sub_flags_def)
  then show ?thesis using assms(1) unfolding justified_def flags_eq_iff by (metis bit_0_eq bot_apply bot_bool_def)
qed

lemma paint_parents_spec:
  "paint_parents env g ps pq walk = Some (Inr pq1, walk1) \<Longrightarrow> paint_inv env one twos walk pq X \<Longrightarrow>
   valid walk c \<Longrightarrow> n_parsed (node walk c) \<Longrightarrow> set ps \<subseteq> set (parents_of walk c) \<Longrightarrow> justified walk c g \<Longrightarrow>
   paint_inv env one twos walk1 pq1 X \<and> painted walk pq walk1 pq1 \<and> (\<forall>p\<in>set ps. sub_flags g (flags_of walk1 p)) \<and>
   (\<forall>d. valid walk d \<longrightarrow> n_parsed (node walk d) \<longrightarrow> n_parsed (node walk1 d))"
proof (induction ps arbitrary: walk pq)
  case Nil
  then show ?case by (auto simp: painted_refl)
next
  case (Cons p ps)
  have wf: "wf_walk env walk" and q: "queue_ok env walk pq" using Cons.prems(2) by (simp_all add: paint_inv_def)
  have p: "p \<in> set (parents_of walk c)" "valid walk p"
    using Cons.prems(5) parsed_parents_valid [OF wf Cons.prems(3)] by auto
  show ?case
  proof (cases "sub_flags g (flags_of walk p)")
    case True
    then have "paint_parents env g ps pq walk = Some (Inr pq1, walk1)"
      using Cons.prems(1) by (auto simp: sub_flags_and)
    from Cons.IH [OF this Cons.prems(2-4) _ Cons.prems(6)] Cons.prems(5)
    have *: "paint_inv env one twos walk1 pq1 X" "painted walk pq walk1 pq1" "\<forall>p\<in>set ps. sub_flags g (flags_of walk1 p)"
      "\<forall>d. valid walk d \<longrightarrow> n_parsed (node walk d) \<longrightarrow> n_parsed (node walk1 d)" by auto
    moreover have "sub_flags g (flags_of walk1 p)"
      using *(2) p(2) True sub_flags_trans unfolding painted_def by blast
    ultimately show ?thesis by simp
  next
    case False
    then obtain w pq2 where w: "git_commit_list_parse env p walk = Some (Inr (), w)"
        and e: "enqueue env pq p (add_flags p g w) = Some (Inr pq2, add_flags p g w)"
        and r: "paint_parents env g ps pq2 (add_flags p g w) = Some (Inr pq1, walk1)"
    proof -
      from Cons.prems(1) False obtain w pq2 w2 where w: "git_commit_list_parse env p walk = Some (Inr (), w)"
        and e: "enqueue env pq p (add_flags p g w) = Some (Inr pq2, w2)"
        and r: "paint_parents env g ps pq2 w2 = Some (Inr pq1, walk1)"
        by (auto simp: sub_flags_and)
      moreover have "w2 = add_flags p g w" using e by (auto simp: enqueue_def split: sum.splits)
      ultimately show ?thesis using that by blast
    qed
    let ?w = "add_flags p g w"
    have ps: "wf_walk env w" "grows walk w" "n_parsed (node w p)" using parse_spec [OF w wf p(2)] by auto
    note 1 = paint_inv_grows [OF Cons.prems(2) ps(2,1)]
    have c: "valid w c" "parents_of w c = parents_of walk c" "n_parsed (node w c)" "valid w p" "flags_of w p = flags_of walk p"
      using grows_valid [OF ps(2)] Cons.prems(3,4) grows_parents [OF ps(2)] grows_node(4) [OF ps(2)] p
        flags_of_marks [OF grows_node(2) [OF ps(2) p(2)]] by auto
    note simps = add_flags_simps [OF c(4)]
    have jw: "justified w c g" using justified_painted [OF Cons.prems(6) painted_grows [OF ps(2) wf] Cons.prems(3)] .
    have qw: "queue_ok env ?w pq" unfolding add_flags_def
      using 1 c(4) by (intro queue_ok_set_flags) (simp_all add: paint_inv_def)
    have q2: "queue_ok env ?w pq2" "elems pq2 = add_mset p (elems pq)"
      using enqueue_spec [OF e qw] c(4) ps(3) by (simp_all add: simps)
    have 2: "paint_inv env one twos ?w pq2 X"
      using 1 c(1) _ jw ps(3) q2 by (rule paint_inv_add_flags) (use c(2) p(1) False in \<open>auto simp: sub_flags_def\<close>)
    have 3: "painted walk pq ?w pq2"
    proof (rule painted_trans [OF painted_grows [OF ps(2) wf]])
      show "painted w pq ?w pq2" using c(4) _ _ q2(2)
        by (rule painted_add_flags) (use False c(5) jw in \<open>simp_all add: justified_def\<close>)
      show "n_parsed (node w d)" if "valid walk d" "n_parsed (node walk d)" for d
        using grows_node(4) [OF ps(2) that(1)] that(2) by simp
    qed
    have j: "justified ?w c g" using Cons.prems(6) 3 Cons.prems(3) by (rule justified_painted)
    from Cons.IH [OF r 2 _ _ _ j] c Cons.prems(5)
    have *: "paint_inv env one twos walk1 pq1 X" "painted ?w pq2 walk1 pq1" "\<forall>p\<in>set ps. sub_flags g (flags_of walk1 p)"
      "\<forall>d. valid ?w d \<longrightarrow> n_parsed (node ?w d) \<longrightarrow> n_parsed (node walk1 d)" by (auto simp: simps)
    have parsed: "n_parsed (node ?w d)" if "valid walk d" "n_parsed (node walk d)" for d
      using grows_node(4) [OF ps(2) that(1)] that(2) by (simp add: simps)
    have "sub_flags g (flags_of walk1 p)"
      using *(2) c(4) sub_flags_trans [of g "flags_of ?w p"] unfolding painted_def by (auto simp: simps)
    moreover have "n_parsed (node walk1 d)" if "valid walk d" "n_parsed (node walk d)" for d
      using *(4) parsed [OF that] grows_valid [OF ps(2) that(1)] by (simp add: simps)
    ultimately show ?thesis using * painted_trans [OF 3 *(2) parsed] by simp
  qed
qed

subsection \<open>The loop\<close>

text \<open>What every step leaves as it is.\<close>

definition keeps :: "git_revwalk \<Rightarrow> git_revwalk \<Rightarrow> bool" where
  "keeps walk walk1 \<longleftrightarrow> (\<forall>d. valid walk d \<longrightarrow> valid walk1 d \<and> oid_at walk1 d = oid_at walk d \<and>
     (n_parsed (node walk d) \<longrightarrow> n_parsed (node walk1 d) \<and> n_time (node walk1 d) = n_time (node walk d) \<and>
        parents_of walk1 d = parents_of walk d))"

lemma keeps_refl [simp]: "keeps walk walk"
  by (simp add: keeps_def)

lemma keeps_trans [trans]: "keeps a b \<Longrightarrow> keeps b c \<Longrightarrow> keeps a c"
  by (simp add: keeps_def)

lemma keeps_grows: "grows a b \<Longrightarrow> keeps a b"
  by (simp add: keeps_def grows_valid grows_node grows_parents)

lemma keeps_set_flags: "valid walk p \<Longrightarrow> keeps walk (set_node p (\<lambda>n. n\<lparr>n_flags := f n\<rparr>) walk)"
  by (auto simp: keeps_def oid_at_def parents_of_def)

lemma keeps_add_flags: "valid walk p \<Longrightarrow> keeps walk (add_flags p g walk)"
  unfolding add_flags_def by (rule keeps_set_flags)

lemma keepsD:
  assumes "keeps a b" "valid a d"
  shows "valid b d" "oid_at b d = oid_at a d" "n_parsed (node a d) \<Longrightarrow> n_parsed (node b d)"
    "n_parsed (node a d) \<Longrightarrow> n_time (node b d) = n_time (node a d)" "n_parsed (node a d) \<Longrightarrow> parents_of b d = parents_of a d"
  using assms by (auto simp: keeps_def)

lemma enqueue_same: "enqueue env pq c walk = Some (r, walk1) \<Longrightarrow> walk1 = walk"
  by (auto simp: enqueue_def split: sum.splits)

lemma keeps_paint_parents:
  "paint_parents env g ps pq walk = Some (Inr pq1, walk1) \<Longrightarrow> wf_walk env walk \<Longrightarrow> list_all (valid walk) ps \<Longrightarrow>
   keeps walk walk1"
proof (induction ps arbitrary: walk pq)
  case (Cons p ps)
  show ?case
  proof (cases "sub_flags g (flags_of walk p)")
    case True
    then show ?thesis using Cons by (auto simp: sub_flags_and)
  next
    case False
    then obtain w pq2 where w: "git_commit_list_parse env p walk = Some (Inr (), w)"
        and r: "paint_parents env g ps pq2 (add_flags p g w) = Some (Inr pq1, walk1)"
      using Cons.prems(1) by (auto simp: sub_flags_and dest: enqueue_same)
    have p: "valid walk p" using Cons.prems(3) by simp
    have ps: "wf_walk env w" "grows walk w" using parse_spec [OF w Cons.prems(2) p] by auto
    then have vp: "valid w p" using p grows_valid by blast
    have wf2: "wf_walk env (add_flags p g w)" unfolding add_flags_def using ps(1) vp by (rule wf_walk_set_marks) simp
    have "list_all (valid (add_flags p g w)) ps"
      using Cons.prems(3) grows_valid [OF ps(2)] by (auto simp: list_all_iff add_flags_simps [OF vp])
    then have "keeps (add_flags p g w) walk1" by (rule Cons.IH [OF r wf2])
    then show ?thesis using keeps_grows [OF ps(2)] keeps_add_flags [OF vp] keeps_trans by blast
  qed
qed simp

lemma paint_parents_total: "paint_parents env g ps pq walk = None \<Longrightarrow> False"
proof (induction ps arbitrary: walk pq)
  case (Cons p ps)
  have "enqueue env pq p w = None \<Longrightarrow> False" for w pq by (auto simp: enqueue_def split: sum.splits)
  then show ?case using Cons parse_total
    by (auto simp del: not_None_eq split: if_splits)
qed simp

lemma passed_result: "passed_flags (f OR RESULT) = passed_flags f"
  unfolding flags_eq_iff passed_flags_bits bit_or_iff bit_PARENTS by auto

lemma paint_inv_set_result:
  assumes inv: "paint_inv env one twos walk pq X" and c: "valid walk c" "bit (flags_of walk c) 0" "bit (flags_of walk c) 1"
  shows "paint_inv env one twos (add_flags c RESULT walk) pq X"
proof -
  let ?w = "add_flags c RESULT walk"
  note simps = add_flags_simps [OF c(1)]
  have bits: "bit (flags_of ?w d) n \<longleftrightarrow> bit (flags_of walk d) n \<or> d = c \<and> n = 2" for d n
    by (auto simp: simps bit_or_iff bit_PARENTS)
  have nz: "flags_of ?w d \<noteq> 0 \<longleftrightarrow> flags_of walk d \<noteq> 0" for d
    unfolding flags_eq_iff bits using c(2) by auto
  have passed: "passed_flags (flags_of ?w d) = passed_flags (flags_of walk d)" for d
    by (simp add: simps passed_result)
  have "flags_sound env one twos ?w d" if d: "valid ?w d" for d
  proof -
    have sd: "flags_sound env one twos walk d" using inv d by (simp add: paint_inv_def simps)
    have linked: "linked ?w = linked walk" unfolding linked_def nz simps(3,5) by (rule refl)
    have "\<exists>m. valid ?w m \<and> bit (flags_of ?w m) 2 \<and> (oid_at ?w m, oid_at ?w d) \<in> (history env)\<^sup>+" if "bit (flags_of walk d) 3"
      using sd that bits unfolding flags_sound_def simps(2,5) by blast
    then show ?thesis using sd c unfolding flags_sound_def linked nz bits simps(2,4,5) by auto
  qed
  moreover have "closed_at ?w d" if "valid ?w d" "flags_of ?w d \<noteq> 0" "d \<notin># elems pq" "d \<notin> X" for d
  proof -
    have "closed_at walk d" using inv that nz by (simp add: paint_inv_def simps(5))
    then show ?thesis unfolding closed_at_def passed simps(3) sub_flags_def bits by auto
  qed
  moreover have "wf_walk env ?w" unfolding add_flags_def
    using inv c(1) by (intro wf_walk_set_marks) (simp_all add: paint_inv_def)
  moreover have "queue_ok env ?w pq" unfolding add_flags_def
    using inv c(1) by (intro queue_ok_set_flags) (simp_all add: paint_inv_def)
  ultimately show ?thesis using inv bits nz by (simp add: paint_inv_def simps(5) list_all_iff)
qed

lemma paint_inv_pop:
  assumes "paint_inv env one twos walk pq {}" "queue_ok env walk pq1" "elems pq = add_mset c (elems pq1)"
  shows "paint_inv env one twos walk pq1 {c}"
  using assms by (auto simp: paint_inv_def)

lemma paint_inv_close:
  assumes "paint_inv env one twos walk pq {c}" "c \<in># elems pq \<or> closed_at walk c"
  shows "paint_inv env one twos walk pq {}"
  using assms by (auto simp: paint_inv_def)

text \<open>One turn of the loop.\<close>

lemma paint_step_start:
  assumes inv: "paint_inv env one twos walk pq {}"
    and pop: "queue_ok env walk pq1" "elems pq = add_mset c (elems pq1)" "valid walk c" "n_parsed (node walk c)"
    and nz: "flags_of walk c \<noteq> 0"
    and found: "found = (is_result (flags_of walk c) \<and> \<not> has (flags_of walk c) RESULT)"
    and walk1: "walk1 = (if found then add_flags c RESULT walk else walk)"
  shows "paint_inv env one twos walk1 pq1 {c}" "justified walk1 c (passed_flags (flags_of walk c))" "keeps walk walk1"
    "valid walk1 c" "n_parsed (node walk1 c)" "parents_of walk1 c = parents_of walk c" "pot walk \<le> pot walk1"
    "passed_flags (flags_of walk1 c) = passed_flags (flags_of walk c)"
    "bit (flags_of walk1 d) n \<longleftrightarrow> bit (flags_of walk d) n \<or> found \<and> d = c \<and> n = 2" "valid walk1 d = valid walk d"
proof -
  let ?f = "flags_of walk c"
  have r: "found \<Longrightarrow> bit ?f 0 \<and> bit ?f 1 \<and> \<not> bit ?f 3 \<and> \<not> bit ?f 2"
    using found by (simp add: is_result_bits flag_bits)
  show "paint_inv env one twos walk1 pq1 {c}"
    using paint_inv_pop [OF inv pop(1,2)] paint_inv_set_result [OF _ pop(3)] r walk1 by (cases found) simp_all
  note simps = add_flags_simps [OF pop(3)]
  show bits1: "bit (flags_of walk1 d) n \<longleftrightarrow> bit (flags_of walk d) n \<or> found \<and> d = c \<and> n = 2" for d n
    unfolding walk1 by (auto simp: simps bit_or_iff bit_PARENTS)
  have nz1: "flags_of walk1 c \<noteq> 0" using nz unfolding flags_eq_iff bits1 by auto
  have res: "bit ?f 0 \<and> bit ?f 1 \<and> \<not> bit ?f 3 \<Longrightarrow> bit (flags_of walk1 c) 2"
    unfolding bits1 found is_result_bits flag_bits by auto
  show "passed_flags (flags_of walk1 c) = passed_flags ?f"
    unfolding flags_eq_iff passed_flags_bits bits1 by auto
  show "justified walk1 c (passed_flags ?f)"
    unfolding justified_def passed_flags_bits using nz1 bits1 res by auto
  show "keeps walk walk1" unfolding walk1 using keeps_add_flags [OF pop(3)] by simp
  show "valid walk1 d = valid walk d" for d unfolding walk1 by (simp add: simps)
  show "valid walk1 c" "n_parsed (node walk1 c)" "parents_of walk1 c = parents_of walk c"
    unfolding walk1 using pop(3,4) by (simp_all add: simps)
  show "pot walk \<le> pot walk1" using pot_add_flags [OF pop(3), of RESULT] by (simp add: walk1)
qed

lemma paint_step:
  assumes inv: "paint_inv env one twos walk pq {}"
    and pop: "queue_ok env walk pq1" "elems pq = add_mset c (elems pq1)" "valid walk c" "n_parsed (node walk c)"
    and nz: "flags_of walk c \<noteq> 0"
    and found: "found = (is_result (flags_of walk c) \<and> \<not> has (flags_of walk c) RESULT)"
    and walk1: "walk1 = (if found then add_flags c RESULT walk else walk)"
    and p: "paint_parents env (passed_flags (flags_of walk c)) (parents_of walk c) pq1 walk1 = Some (Inr pq2, walk2)"
  shows "paint_inv env one twos walk2 pq2 {} \<and> keeps walk walk2 \<and>
    (\<forall>d. valid walk2 d \<and> bit (flags_of walk2 d) 2 \<longleftrightarrow> valid walk d \<and> bit (flags_of walk d) 2 \<or> found \<and> d = c) \<and>
    size (elems pq2) + pot walk < size (elems pq) + pot walk2"
proof -
  let ?f = "flags_of walk c"
  note start = paint_step_start [OF inv pop nz found walk1]
  have pp: "paint_inv env one twos walk2 pq2 {c}" "painted walk1 pq1 walk2 pq2"
      "\<forall>p\<in>set (parents_of walk c). sub_flags (passed_flags ?f) (flags_of walk2 p)"
    using paint_parents_spec [OF p start(1), of c] start(2,4,5,6) by simp_all
  have "wf_walk env walk1" using start(1) by (simp add: paint_inv_def)
  then have "keeps walk1 walk2"
    using keeps_paint_parents [OF p] parents_history(1) [of env walk1 c] start(4,6) by simp
  then have k: "keeps walk walk2" using start(3) keeps_trans by blast
  have "c \<in># elems pq2 \<or> closed_at walk2 c"
  proof (cases "flags_of walk2 c = flags_of walk1 c")
    case True
    have ps: "parents_of walk2 c = parents_of walk c" using keepsD(5) [OF k pop(3,4)] .
    have "bit ?f 0 \<and> bit ?f 1 \<and> \<not> bit ?f 3 \<Longrightarrow> bit (flags_of walk1 c) 2"
      unfolding start(9) found is_result_bits flag_bits by auto
    then have "closed_at walk2 c"
      unfolding closed_at_def True start(8) ps using pp(3) start(9) [of c] by auto
    then show ?thesis ..
  next
    case False
    then show ?thesis using pp(2) start(4) unfolding painted_def by auto
  qed
  then have inv2: "paint_inv env one twos walk2 pq2 {}" by (rule paint_inv_close [OF pp(1)])
  have "valid walk2 d \<and> bit (flags_of walk2 d) 2 \<longleftrightarrow> valid walk1 d \<and> bit (flags_of walk1 d) 2" for d
    using pp(2) unfolding painted_def sub_flags_def by blast
  then have bits2: "valid walk2 d \<and> bit (flags_of walk2 d) 2 \<longleftrightarrow> valid walk d \<and> bit (flags_of walk d) 2 \<or> found \<and> d = c" for d
    using pop(3) by (auto simp: start(9,10))
  have "size (elems pq2) + pot walk1 \<le> size (elems pq1) + pot walk2" using pp(2) by (simp add: painted_def)
  then have "size (elems pq2) + pot walk < size (elems pq) + pot walk2" using pop(2) start(7) by simp
  then show ?thesis using inv2 k bits2 by blast
qed

lemma linked_history:
  assumes "wf_walk env walk" "(s, c) \<in> (linked walk)\<^sup>*"
  shows "(oid_at walk s, oid_at walk c) \<in> (history env)\<^sup>*"
  using assms(2)
proof (induction rule: rtrancl_induct)
  case (step b c)
  then have "(oid_at walk b, oid_at walk c) \<in> history env" using parents_history(3) [OF assms(1)] by (auto simp: linked_def)
  then show ?case using step by auto
qed simp

text \<open>The commits that can be reached from the starting points.\<close>

definition reachable :: "git_env \<Rightarrow> git_oid set \<Rightarrow> git_oid set" where
  "reachable env starts = {a. \<exists>s\<in>starts. (s, a) \<in> (history env)\<^sup>*}"

lemma pot_bound:
  assumes inv: "paint_inv env one twos walk pq X" and fin: "finite (reachable env (oid_at walk ` set (one # twos)))"
  shows "pot walk \<le> 3 * card (reachable env (oid_at walk ` set (one # twos)))"
proof -
  let ?H = "reachable env (oid_at walk ` set (one # twos))"
  let ?F = "{c. valid walk c \<and> flags_of walk c \<noteq> 0}"
  have wf: "wf_walk env walk" using inv by (simp add: paint_inv_def)
  have finF: "finite ?F" by (rule finite_subset [of _ "{..<length (w_commits walk)}"]) (auto simp: valid_def)
  have "oid_at walk ` ?F \<subseteq> ?H"
    using inv linked_history [OF wf] unfolding paint_inv_def flags_sound_def reachable_def by blast
  moreover have "inj_on (oid_at walk) ?F" using wf_walk_distinct [OF wf] by (auto intro: inj_onI)
  ultimately have card: "card ?F \<le> card ?H"
    using card_mono [OF fin, of "oid_at walk ` ?F"] card_image [of "oid_at walk" ?F] by linarith
  have "pot walk = (\<Sum>c\<in>?F. weight (flags_of walk c))"
    unfolding pot_def by (rule sum.mono_neutral_right) (auto simp: valid_def)
  also have "\<dots> \<le> (\<Sum>c\<in>?F. 3)" by (intro sum_mono weight_le)
  also have "\<dots> = 3 * card ?F" by simp
  finally show ?thesis using card by linarith
qed

text \<open>All flags that can be passed have been.\<close>

definition painted_down :: "git_env \<Rightarrow> nat \<Rightarrow> nat list \<Rightarrow> git_revwalk \<Rightarrow> bool" where
  "painted_down env one twos walk \<longleftrightarrow>
     (\<exists>pq. paint_inv env one twos walk pq {} \<and> (\<forall>c\<in>#elems pq. bit (flags_of walk c) 3))"

definition results :: "git_revwalk \<Rightarrow> nat set" where
  "results walk = {c. valid walk c \<and> bit (flags_of walk c) 2}"

lemma paint_loop_spec:
  "paint_loop fuel env pq res walk = Some (Inr out, walk1) \<Longrightarrow> paint_inv env one twos walk pq {} \<Longrightarrow>
   distinct res \<Longrightarrow> set res = results walk \<Longrightarrow>
   painted_down env one twos walk1 \<and> distinct out \<and> set out = results walk1 \<and> keeps walk walk1"
proof (induction fuel arbitrary: pq res walk)
  case (Suc fuel)
  have q: "queue_ok env walk pq" using Suc.prems(2) by (simp add: paint_inv_def)
  note pop = pop_spec [OF q]
  show ?case
  proof (cases "interesting walk pq")
    case False
    then have "\<forall>c\<in>#elems pq. bit (flags_of walk c) 3"
      by (auto simp: interesting_def list_ex_iff elems_def flag_bits)
    then show ?thesis using Suc.prems False by (auto simp: painted_down_def)
  next
    case int: True
    then have "elems pq \<noteq> {#}" by (auto simp: interesting_def elems_def)
    then obtain c pq1 where c: "git_pqueue_pop (queue_at walk pq) = (Some c, pq1)" "queue_ok env walk pq1"
        "elems pq = add_mset c (elems pq1)" "valid walk c" "n_parsed (node walk c)"
      using pop by (auto split: prod.splits option.splits)
    define found where "found = (is_result (flags_of walk c) \<and> \<not> has (flags_of walk c) RESULT)"
    define w where "w = (if found then add_flags c RESULT walk else walk)"
    obtain res1 pq2 walk2 where 1: "res1 = (if found then c # res else res)"
        and 2: "paint_parents env (passed_flags (flags_of walk c)) (parents_of walk c) pq1 w = Some (Inr pq2, walk2)"
        and 3: "paint_loop fuel env pq2 res1 walk2 = Some (Inr out, walk1)"
      using Suc.prems(1) int c(1)
      by (auto simp: Let_def found_def [symmetric] w_def lift_result_def git_commit_list_insert_def split: if_splits)
    have nz: "flags_of walk c \<noteq> 0" using Suc.prems(2) c(3) by (simp add: paint_inv_def)
    note step = paint_step [OF Suc.prems(2) c(2-5) nz found_def w_def 2]
    then have "set res1 = results walk2" using Suc.prems(4) 1 by (auto simp: results_def)
    moreover have "distinct res1" using Suc.prems(3,4) 1 by (auto simp: results_def found_def flag_bits)
    ultimately show ?thesis using Suc.IH [OF 3] step keeps_trans by blast
  qed
qed simp

lemma keeps_reachable:
  "keeps a b \<Longrightarrow> list_all (valid a) cs \<Longrightarrow> reachable env (oid_at b ` set cs) = reachable env (oid_at a ` set cs)"
  using keepsD(2) by (metis (no_types, lifting) image_cong list_all_iff)

lemma paint_loop_terminates:
  "paint_inv env one twos walk pq {} \<Longrightarrow> finite (reachable env (oid_at walk ` set (one # twos))) \<Longrightarrow>
   size (elems pq) + 3 * card (reachable env (oid_at walk ` set (one # twos))) < fuel + pot walk \<Longrightarrow>
   paint_loop fuel env pq res walk \<noteq> None"
proof (induction fuel arbitrary: pq res walk)
  case 0
  then show ?case using pot_bound by fastforce
next
  case (Suc fuel)
  have q: "queue_ok env walk pq" using Suc.prems(1) by (simp add: paint_inv_def)
  have starts: "list_all (valid walk) (one # twos)" using Suc.prems(1) by (simp add: paint_inv_def)
  note pop = pop_spec [OF q]
  show ?case
  proof
    assume none: "paint_loop (Suc fuel) env pq res walk = None"
    then have int: "interesting walk pq" by (auto split: if_splits)
    then have "elems pq \<noteq> {#}" by (auto simp: interesting_def elems_def)
    then obtain c pq1 where c: "git_pqueue_pop (queue_at walk pq) = (Some c, pq1)" "queue_ok env walk pq1"
        "elems pq = add_mset c (elems pq1)" "valid walk c" "n_parsed (node walk c)"
      using pop by (auto split: prod.splits option.splits)
    define found where "found = (is_result (flags_of walk c) \<and> \<not> has (flags_of walk c) RESULT)"
    define w where "w = (if found then add_flags c RESULT walk else walk)"
    obtain res1 pq2 walk2 where 2: "paint_parents env (passed_flags (flags_of walk c)) (parents_of walk c) pq1 w = Some (Inr pq2, walk2)"
        and 3: "paint_loop fuel env pq2 res1 walk2 = None"
      using none int c(1)
      by (auto dest!: paint_parents_total simp: Let_def found_def [symmetric] w_def lift_result_def git_commit_list_insert_def
          simp del: not_None_eq split: if_splits)
    have nz: "flags_of walk c \<noteq> 0" using Suc.prems(1) c(3) by (simp add: paint_inv_def)
    note step = paint_step [OF Suc.prems(1) c(2-5) nz found_def w_def 2]
    then have k: "keeps walk walk2" by blast
    show False
      using Suc.IH [of walk2 pq2 res1] step 3 Suc.prems(2,3) keeps_reachable [OF k starts, of env] by auto
  qed
qed

subsection \<open>What the painting finds\<close>

definition covered :: "git_env \<Rightarrow> git_revwalk \<Rightarrow> git_oid \<Rightarrow> bool" where
  "covered env walk a \<longleftrightarrow> (\<exists>r\<in>results walk. (oid_at walk r, a) \<in> (history env)\<^sup>*)"

text \<open>A flag that a starting point carries reaches all its ancestors but those below a stale commit.\<close>

lemma flag_spreads:
  assumes pd: "painted_down env one twos walk" and k: "k = 0 \<or> k = 1"
    and s: "valid walk s" "bit (flags_of walk s) k" and a: "(oid_at walk s, a) \<in> (history env)\<^sup>*"
  shows "(\<exists>m. valid walk m \<and> bit (flags_of walk m) 2 \<and> (oid_at walk m, a) \<in> (history env)\<^sup>+) \<or>
    (\<exists>c. valid walk c \<and> oid_at walk c = a \<and> bit (flags_of walk c) k)"
  using a
proof (induction rule: rtrancl_induct)
  case base
  then show ?case using s by blast
next
  case (step x y)
  obtain pq where inv: "paint_inv env one twos walk pq {}" and stale: "\<forall>c\<in>#elems pq. bit (flags_of walk c) 3"
    using pd by (auto simp: painted_down_def)
  have wf: "wf_walk env walk" using inv by (simp add: paint_inv_def)
  show ?case
  proof (cases "\<exists>m. valid walk m \<and> bit (flags_of walk m) 2 \<and> (oid_at walk m, x) \<in> (history env)\<^sup>+")
    case True
    then show ?thesis using step(2) by (meson trancl_into_trancl)
  next
    case False
    then obtain c where c: "valid walk c" "oid_at walk c = x" "bit (flags_of walk c) k" using step.IH by blast
    have sc: "flags_sound env one twos walk c" using inv c(1) by (simp add: paint_inv_def)
    have nz: "flags_of walk c \<noteq> 0" using c(3) by auto
    have "c \<notin># elems pq" using stale sc False c(2) unfolding flags_sound_def by blast
    then have cl: "closed_at walk c" using inv c(1) nz by (simp add: paint_inv_def)
    have "n_parsed (node walk c)" using sc nz by (simp add: flags_sound_def)
    then obtain p where p: "p \<in> set (parents_of walk c)" "oid_at walk p = y"
      using parents_history(2) [OF wf c(1), of y] step(2) c(2) by auto
    have "bit (flags_of walk p) k"
      using cl p(1) c(3) k unfolding closed_at_def sub_flags_def passed_flags_bits by auto
    then show ?thesis using p parsed_parents_valid [OF wf c(1)] by blast
  qed
qed

lemma painted_covers:
  assumes pd: "painted_down env one twos walk" and one: "(oid_at walk one, a) \<in> (history env)\<^sup>*"
    and two: "two \<in> set twos" "(oid_at walk two, a) \<in> (history env)\<^sup>*"
  shows "covered env walk a"
proof -
  obtain pq where inv: "paint_inv env one twos walk pq {}" and stale: "\<forall>c\<in>#elems pq. bit (flags_of walk c) 3"
    using pd by (auto simp: painted_down_def)
  have wf: "wf_walk env walk" and v: "valid walk one" "valid walk two" "bit (flags_of walk one) 0" "bit (flags_of walk two) 1"
    using inv two(1) by (auto simp: paint_inv_def list_all_iff)
  have below: "covered env walk a" if "valid walk m" "bit (flags_of walk m) 2" "(oid_at walk m, a) \<in> (history env)\<^sup>+" for m
    using that by (auto simp: covered_def results_def)
  show ?thesis
  proof (cases "\<exists>m. valid walk m \<and> bit (flags_of walk m) 2 \<and> (oid_at walk m, a) \<in> (history env)\<^sup>+")
    case True
    then show ?thesis using below by blast
  next
    case False
    obtain c where c: "valid walk c" "oid_at walk c = a" "bit (flags_of walk c) 0"
      using flag_spreads [OF pd _ v(1,3) one] False by blast
    obtain d where d: "valid walk d" "oid_at walk d = a" "bit (flags_of walk d) 1"
      using flag_spreads [OF pd _ v(2,4) two(2)] False by blast
    have cd: "d = c" using wf_walk_distinct [OF wf d(1) c(1)] c d by simp
    have sc: "flags_sound env one twos walk c" using inv c(1) by (simp add: paint_inv_def)
    then have no3: "\<not> bit (flags_of walk c) 3" using False c(2) unfolding flags_sound_def by blast
    then have "c \<notin># elems pq" using stale by blast
    moreover have "flags_of walk c \<noteq> 0" using c(3) by auto
    ultimately have "closed_at walk c" using inv c(1) by (simp add: paint_inv_def)
    then have "bit (flags_of walk c) 2" using c(3) d(3) no3 unfolding closed_at_def cd by blast
    then have "c \<in> results walk" using c(1) by (simp add: results_def)
    then show ?thesis using c(2) by (auto simp: covered_def)
  qed
qed

lemma results_common:
  assumes "painted_down env one twos walk" "r \<in> results walk"
  shows "(oid_at walk one, oid_at walk r) \<in> (history env)\<^sup>*"
    and "\<exists>two\<in>set twos. (oid_at walk two, oid_at walk r) \<in> (history env)\<^sup>*"
    and "n_parsed (node walk r)"
proof -
  obtain pq where "paint_inv env one twos walk pq {}" using assms(1) by (auto simp: painted_down_def)
  then have s: "flags_sound env one twos walk r" and b: "bit (flags_of walk r) 2"
    using assms(2) by (auto simp: paint_inv_def results_def)
  show "(oid_at walk one, oid_at walk r) \<in> (history env)\<^sup>*" "\<exists>two\<in>set twos. (oid_at walk two, oid_at walk r) \<in> (history env)\<^sup>*"
    using s b unfolding flags_sound_def by blast+
  have "flags_of walk r \<noteq> 0" using b by auto
  then show "n_parsed (node walk r)" using s by (simp add: flags_sound_def)
qed

lemma stale_redundant:
  assumes "painted_down env one twos walk" "valid walk c" "bit (flags_of walk c) 3"
  shows "\<exists>r\<in>results walk. (oid_at walk r, oid_at walk c) \<in> (history env)\<^sup>+"
proof -
  obtain pq where "paint_inv env one twos walk pq {}" using assms(1) by (auto simp: painted_down_def)
  then have "flags_sound env one twos walk c" using assms(2) by (auto simp: paint_inv_def)
  then show ?thesis using assms(3) unfolding flags_sound_def results_def by blast
qed

text \<open>In an acyclic history the first starting point learns whether it is an ancestor of the others.\<close>

lemma parent2_of_one:
  assumes pd: "painted_down env one twos walk" and ac: "acyclic (history env)"
  shows "bit (flags_of walk one) 1 \<longleftrightarrow> (\<exists>two\<in>set twos. (oid_at walk two, oid_at walk one) \<in> (history env)\<^sup>*)"
proof -
  obtain pq where inv: "paint_inv env one twos walk pq {}" using pd by (auto simp: painted_down_def)
  have wf: "wf_walk env walk" and v: "valid walk one" using inv by (auto simp: paint_inv_def)
  have "bit (flags_of walk one) 1" if two: "two \<in> set twos" "(oid_at walk two, oid_at walk one) \<in> (history env)\<^sup>*" for two
  proof -
    have vt: "valid walk two" "bit (flags_of walk two) 1" using inv two(1) by (auto simp: paint_inv_def list_all_iff)
    have "\<not> (oid_at walk m, oid_at walk one) \<in> (history env)\<^sup>+" if "valid walk m" "bit (flags_of walk m) 2" for m
    proof
      assume "(oid_at walk m, oid_at walk one) \<in> (history env)\<^sup>+"
      moreover have "(oid_at walk one, oid_at walk m) \<in> (history env)\<^sup>*"
        using results_common(1) [OF pd, of m] that by (simp add: results_def)
      ultimately have "(oid_at walk one, oid_at walk one) \<in> (history env)\<^sup>+" by (meson rtrancl_trancl_trancl)
      then show False using ac by (simp add: acyclic_def)
    qed
    then obtain c where "valid walk c" "oid_at walk c = oid_at walk one" "bit (flags_of walk c) 1"
      using flag_spreads [OF pd _ vt two(2)] by blast
    then show ?thesis using wf_walk_distinct [OF wf _ v] by metis
  qed
  moreover have "flags_sound env one twos walk one" using inv v by (auto simp: paint_inv_def)
  ultimately show ?thesis unfolding flags_sound_def by blast
qed

lemma parent1_sound:
  assumes "painted_down env one twos walk" "valid walk c" "bit (flags_of walk c) 0"
  shows "(oid_at walk one, oid_at walk c) \<in> (history env)\<^sup>*"
proof -
  obtain pq where "paint_inv env one twos walk pq {}" using assms(1) by (auto simp: painted_down_def)
  then have "flags_sound env one twos walk c" using assms(2) by (auto simp: paint_inv_def)
  then show ?thesis using assms(3) by (simp add: flags_sound_def)
qed

subsection \<open>Starting the painting\<close>

definition clean :: "git_revwalk \<Rightarrow> bool" where
  "clean walk \<longleftrightarrow> (\<forall>c. valid walk c \<longrightarrow> flags_of walk c = 0)"

lemma pqueue_init_ok:
  assumes "git_pqueue_init (env_can_alloc env) 0 n (Some (git_commit_list_time_cmp walk)) = Inr pq"
  shows "queue_ok env walk pq \<and> elems pq = {#}"
proof -
  have "growing_inv (env_can_alloc env) (git_commit_list_time_cmp walk) pq \<and> elems pq = {#}"
    using assms by (rule git_pqueue_init_growing) (simp add: env_can_alloc_def)
  moreover from this have "queue_at walk pq = pq" by (simp add: growing_inv_def pqueue_inv_def queue_at_def)
  ultimately show ?thesis by (simp add: queue_ok_def)
qed

lemma paint_inv_start:
  assumes clean: "clean walk" and wf: "wf_walk env walk" and one: "valid walk one" "n_parsed (node walk one)"
    and q: "queue_ok env (add_flags one PARENT1 walk) pq" "elems pq = {#one#}"
  shows "paint_inv env one [] (add_flags one PARENT1 walk) pq {}"
proof -
  let ?w = "add_flags one PARENT1 walk"
  note simps = add_flags_simps [OF one(1)]
  have bits: "bit (flags_of ?w c) n \<longleftrightarrow> c = one \<and> n = 0" if "valid walk c" for c n
    using clean that one(1) by (auto simp: simps bit_or_iff bit_PARENTS clean_def)
  have nz: "flags_of ?w c \<noteq> 0 \<longleftrightarrow> c = one" if "valid walk c" for c
    unfolding flags_eq_iff bits [OF that] by auto
  have "flags_sound env one [] ?w c" if c: "valid ?w c" for c
    using c one(2) nz [of c] by (simp add: flags_sound_def simps(2-5) bits)
  moreover have "wf_walk env ?w" unfolding add_flags_def using wf one(1) by (rule wf_walk_set_marks) simp
  ultimately show ?thesis using q one(1) nz bits by (simp add: paint_inv_def simps(5))
qed

lemma paint_inv_two:
  assumes inv: "paint_inv env one twos walk pq {}" and two: "valid walk two" "n_parsed (node walk two)"
    and q: "queue_ok env (add_flags two PARENT2 walk) pq1" "elems pq1 = add_mset two (elems pq)"
  shows "paint_inv env one (two # twos) (add_flags two PARENT2 walk) pq1 {}"
proof -
  let ?w = "add_flags two PARENT2 walk"
  note simps = add_flags_simps [OF two(1)]
  have bits: "bit (flags_of ?w c) n \<longleftrightarrow> bit (flags_of walk c) n \<or> c = two \<and> n = 1" for c n
    by (auto simp: simps bit_or_iff bit_PARENTS)
  have nz: "flags_of ?w c \<noteq> 0 \<longleftrightarrow> flags_of walk c \<noteq> 0 \<or> c = two" for c
    unfolding flags_eq_iff bits by auto
  have lift: "(s, d) \<in> (linked walk)\<^sup>* \<Longrightarrow> (s, d) \<in> (linked ?w)\<^sup>*" for s d
    using rtrancl_linked_mono [OF linked_add_flags [OF two(1)]] .
  have "flags_sound env one (two # twos) ?w c" if c: "valid ?w c" for c
  proof -
    have sc: "flags_sound env one twos walk c" using inv c by (simp add: paint_inv_def simps(5))
    have "\<exists>s\<in>set (one # two # twos). (s, c) \<in> (linked ?w)\<^sup>*" if "flags_of ?w c \<noteq> 0"
      using that sc lift unfolding nz flags_sound_def by (cases "c = two") auto
    moreover have "\<exists>m. valid ?w m \<and> bit (flags_of ?w m) 2 \<and> (oid_at ?w m, oid_at ?w c) \<in> (history env)\<^sup>+"
      if "bit (flags_of ?w c) 3"
      using that sc unfolding bits flags_sound_def simps(2,5) by auto
    moreover have "bit (flags_of ?w c) 2 \<longrightarrow> bit (flags_of ?w c) 0 \<and> bit (flags_of ?w c) 1"
      using sc unfolding bits flags_sound_def by auto
    moreover have "bit (flags_of ?w c) 1 \<longrightarrow> (\<exists>t\<in>set (two # twos). (oid_at ?w t, oid_at ?w c) \<in> (history env)\<^sup>*)"
      using sc unfolding bits flags_sound_def simps(2) by auto
    moreover have "flags_of ?w c \<noteq> 0 \<longrightarrow> n_parsed (node ?w c)"
      using sc two(2) unfolding nz flags_sound_def simps(4) by auto
    ultimately show ?thesis using sc unfolding flags_sound_def by (simp add: bits simps(2))
  qed
  moreover have "closed_at ?w c" if "valid ?w c" "flags_of ?w c \<noteq> 0" "c \<notin># elems pq1" for c
  proof -
    have "c \<noteq> two" using that(3) q(2) by auto
    then have "closed_at walk c" using inv that q(2) by (auto simp: paint_inv_def nz simps(5))
    then show ?thesis using \<open>c \<noteq> two\<close> sub_flags_trans unfolding closed_at_def by (auto simp: simps)
  qed
  moreover have "wf_walk env ?w" unfolding add_flags_def
    using inv two(1) by (intro wf_walk_set_marks) (simp_all add: paint_inv_def)
  moreover have "\<forall>c\<in>#elems pq1. flags_of ?w c \<noteq> 0" using inv q(2) by (auto simp: nz paint_inv_def)
  ultimately show ?thesis using inv q two(1) unfolding paint_inv_def by (auto simp: bits simps(5) list_all_iff)
qed

lemma paint_inv_set_cong: "set twos = set twos1 \<Longrightarrow> paint_inv env one twos walk pq X \<longleftrightarrow> paint_inv env one twos1 walk pq X"
  by (simp add: paint_inv_def flags_sound_def list_all_iff)

lemma results_add_flags:
  "valid walk p \<Longrightarrow> \<not> bit g 2 \<Longrightarrow> results (add_flags p g walk) = results walk"
  by (auto simp: results_def add_flags_simps bit_or_iff split: if_splits)

lemma results_grows:
  assumes "grows a b"
  shows "results b = results a"
proof -
  have "flags_of b c = flags_of a c" if "valid a c" for c using flags_of_marks [OF grows_node(2) [OF assms that]] .
  moreover have "flags_of b c = 0" if "valid b c" "\<not> valid a c" for c using flags_of_new [OF grows_new [OF assms that]] .
  ultimately show ?thesis using grows_valid [OF assms] by (fastforce simp: results_def)
qed

lemma paint_twos_spec:
  "paint_twos env twos pq walk = Some (Inr pq1, walk1) \<Longrightarrow> paint_inv env one ready walk pq {} \<Longrightarrow>
   list_all (valid walk) twos \<Longrightarrow>
   paint_inv env one (twos @ ready) walk1 pq1 {} \<and> keeps walk walk1 \<and> results walk1 = results walk \<and>
   size (elems pq1) = size (elems pq) + length twos"
proof (induction twos arbitrary: walk pq ready)
  case (Cons two twos)
  have v: "valid walk two" using Cons.prems(3) by simp
  obtain w w2 pq2 where w: "git_commit_list_parse env two walk = Some (Inr (), w)"
      and e: "enqueue env pq two (add_flags two PARENT2 w) = Some (Inr pq2, w2)"
      and r: "paint_twos env twos pq2 w2 = Some (Inr pq1, walk1)"
    using Cons.prems(1) by auto
  have w2: "w2 = add_flags two PARENT2 w" using enqueue_same [OF e] .
  have wf: "wf_walk env walk" using Cons.prems(2) by (simp add: paint_inv_def)
  have ps: "wf_walk env w" "grows walk w" "n_parsed (node w two)" using parse_spec [OF w wf v] by auto
  have vw: "valid w two" using grows_valid [OF ps(2) v] .
  note simps = add_flags_simps [OF vw]
  have 1: "paint_inv env one ready w pq {}" using paint_inv_grows [OF Cons.prems(2) ps(2,1)] .
  have "queue_ok env (add_flags two PARENT2 w) pq" unfolding add_flags_def
    using 1 vw by (intro queue_ok_set_flags) (simp_all add: paint_inv_def)
  then have q2: "queue_ok env (add_flags two PARENT2 w) pq2" "elems pq2 = add_mset two (elems pq)"
    using enqueue_spec [OF e] vw ps(3) by (simp_all add: simps)
  have 2: "paint_inv env one (two # ready) w2 pq2 {}"
    unfolding w2 by (rule paint_inv_two [OF 1 vw ps(3) q2])
  have k: "keeps walk w2" unfolding w2 using keeps_grows [OF ps(2)] keeps_add_flags [OF vw] keeps_trans by blast
  have "results w2 = results walk" unfolding w2
    using results_add_flags [OF vw, of PARENT2] results_grows [OF ps(2)] by (simp add: bit_PARENTS)
  moreover have "list_all (valid w2) twos" using Cons.prems(3) keepsD(1) [OF k] by (auto simp: list_all_iff)
  ultimately show ?case
    using Cons.IH [OF r 2] k keeps_trans q2(2) paint_inv_set_cong [of "twos @ two # ready" "(two # twos) @ ready"] by auto
qed auto

lemma paint_start:
  assumes p: "git_pqueue_init (env_can_alloc env) 0 n (Some (git_commit_list_time_cmp walk)) = Inr pq"
    and e: "enqueue env pq one (add_flags one PARENT1 walk) = Some (Inr pq1, w1)"
    and t: "paint_twos env twos pq1 w1 = Some (Inr pq2, w2)"
    and wf: "wf_walk env walk" and clean: "clean walk" and one: "valid walk one" "n_parsed (node walk one)"
    and twos: "list_all (valid walk) twos"
  shows "paint_inv env one twos w2 pq2 {} \<and> keeps walk w2 \<and> results w2 = {} \<and> size (elems pq2) = Suc (length twos)"
proof -
  have w1: "w1 = add_flags one PARENT1 walk" using enqueue_same [OF e] .
  have "queue_ok env walk pq" "elems pq = {#}" using pqueue_init_ok [OF p] by auto
  moreover from this(1) have "queue_ok env w1 pq" unfolding w1 add_flags_def using one(1) by (rule queue_ok_set_flags)
  ultimately have q: "queue_ok env w1 pq1" "elems pq1 = {#one#}"
    using enqueue_spec [OF e] one by (simp_all add: w1 add_flags_simps [OF one(1)])
  have 1: "paint_inv env one [] w1 pq1 {}" unfolding w1 using clean wf one q unfolding w1 by (intro paint_inv_start)
  have k: "keeps walk w1" unfolding w1 by (rule keeps_add_flags [OF one(1)])
  have "results walk = {}" using clean by (auto simp: results_def clean_def)
  then have "results w1 = {}" unfolding w1 using results_add_flags [OF one(1), of PARENT1] by (simp add: bit_PARENTS)
  moreover have "list_all (valid w1) twos" using twos keepsD(1) [OF k] by (auto simp: list_all_iff)
  ultimately show ?thesis using paint_twos_spec [OF t 1] k keeps_trans q(2) by auto
qed

lemma minus_one_Inr [simp]: "minus_one m s = Some (Inr x, s1) \<longleftrightarrow> m s = Some (Inr x, s1)"
  by (auto simp: minus_one_def split: option.splits prod.splits sum.splits)

lemma minus_one_None [simp]: "minus_one m s = None \<longleftrightarrow> m s = None"
  by (auto simp: minus_one_def split: option.splits prod.splits sum.splits)

theorem paint_down_to_common_spec:
  assumes "paint_down_to_common fuel env one twos walk = Some (Inr out, walk1)"
    and "wf_walk env walk" "clean walk" "valid walk one" "n_parsed (node walk one)" "list_all (valid walk) twos"
  shows "painted_down env one twos walk1 \<and> distinct out \<and> set out = results walk1 \<and> keeps walk walk1 \<and> wf_walk env walk1"
proof -
  obtain pq pq1 w1 pq2 w2 where p: "git_pqueue_init (env_can_alloc env) 0 (length twos * 2) (Some (git_commit_list_time_cmp walk)) = Inr pq"
    and e: "enqueue env pq one (add_flags one PARENT1 walk) = Some (Inr pq1, w1)"
    and t: "paint_twos env twos pq1 w1 = Some (Inr pq2, w2)" and l: "paint_loop fuel env pq2 [] w2 = Some (Inr out, walk1)"
    using assms(1) unfolding paint_down_to_common_def by (auto split: sum.splits)
  have s: "paint_inv env one twos w2 pq2 {}" "keeps walk w2" "results w2 = {}"
    using paint_start [OF p e t assms(2-6)] by auto
  have "painted_down env one twos walk1 \<and> distinct out \<and> set out = results walk1 \<and> keeps w2 walk1"
    using paint_loop_spec [OF l s(1)] s(3) by simp
  then show ?thesis using s(2) keeps_trans by (auto simp: painted_down_def paint_inv_def)
qed

lemma paint_twos_total: "paint_twos env twos pq walk = None \<Longrightarrow> False"
proof (induction twos arbitrary: walk pq)
  case (Cons p ps)
  have "enqueue env pq p w = None \<Longrightarrow> False" for w pq by (auto simp: enqueue_def split: sum.splits)
  then show ?case using Cons parse_total by (auto simp del: not_None_eq)
qed simp

lemma enqueue_total: "enqueue env pq c walk = None \<Longrightarrow> False"
  by (auto simp: enqueue_def split: sum.splits)

lemma paint_down_to_common_terminates:
  assumes "wf_walk env walk" "clean walk" "valid walk one" "n_parsed (node walk one)" "list_all (valid walk) twos"
    and fin: "finite (reachable env (oid_at walk ` set (one # twos)))"
    and fuel: "Suc (length twos) + 3 * card (reachable env (oid_at walk ` set (one # twos))) < fuel"
  shows "paint_down_to_common fuel env one twos walk \<noteq> None"
proof
  assume none: "paint_down_to_common fuel env one twos walk = None"
  obtain pq pq1 w1 pq2 w2 where p: "git_pqueue_init (env_can_alloc env) 0 (length twos * 2) (Some (git_commit_list_time_cmp walk)) = Inr pq"
    and e: "enqueue env pq one (add_flags one PARENT1 walk) = Some (Inr pq1, w1)"
    and t: "paint_twos env twos pq1 w1 = Some (Inr pq2, w2)" and l: "paint_loop fuel env pq2 [] w2 = None"
    using none unfolding paint_down_to_common_def
    by (auto dest!: paint_twos_total enqueue_total simp del: not_None_eq split: sum.splits)
  have s: "paint_inv env one twos w2 pq2 {}" "keeps walk w2" "size (elems pq2) = Suc (length twos)"
    using paint_start [OF p e t assms(1-5)] by auto
  have "reachable env (oid_at w2 ` set (one # twos)) = reachable env (oid_at walk ` set (one # twos))"
    using assms(3,5) by (intro keeps_reachable [OF s(2)]) simp
  then show False using paint_loop_terminates [OF s(1), of fuel "[]"] fin fuel s(3) l by auto
qed

end
