(* ===== verification/ClearCorrect.thy ===== *)
theory ClearCorrect
  imports PaintCorrect
begin

text \<open>
  \<open>clear_commit_marks\<close>: the flags are taken off all commits that carry any, since each of them is
  reached from a starting point through commits that carry flags.
\<close>

lemma ALL_FLAGS_bits: "has f ALL_FLAGS \<longleftrightarrow> f \<noteq> 0" "f AND NOT ALL_FLAGS = 0"
proof -
  have "bit ALL_FLAGS n \<longleftrightarrow> n < 4" for n
    unfolding ALL_FLAGS_def bit_or_iff bit_PARENTS by auto
  moreover have "bit f n \<Longrightarrow> n < 4" for n using bit_imp_le_length [of f n] by simp
  ultimately show "has f ALL_FLAGS \<longleftrightarrow> f \<noteq> 0" "f AND NOT ALL_FLAGS = 0"
    unfolding has_def flags_eq_iff bit_and_iff bit_not_iff by auto
qed

definition unmark :: "nat \<Rightarrow> git_revwalk \<Rightarrow> git_revwalk" where
  "unmark c = set_node c (\<lambda>n. n\<lparr>n_flags := n_flags n AND NOT ALL_FLAGS\<rparr>)"

lemma unmark_simps:
  assumes "valid walk c"
  shows "flags_of (unmark c walk) d = (if d = c then 0 else flags_of walk d)"
    "oid_at (unmark c walk) d = oid_at walk d" "parents_of (unmark c walk) d = parents_of walk d"
    "valid (unmark c walk) d = valid walk d"
  using assms ALL_FLAGS_bits(2) by (simp_all add: unmark_def flags_of_def oid_at_def parents_of_def)

lemma wf_unmark: "wf_walk env walk \<Longrightarrow> valid walk c \<Longrightarrow> wf_walk env (unmark c walk)"
  unfolding unmark_def by (rule wf_walk_set_marks) simp_all

lemma keeps_unmark: "valid walk c \<Longrightarrow> keeps walk (unmark c walk)"
  unfolding unmark_def by (rule keeps_set_flags)

text \<open>Every marked commit can be reached from the pending ones through marked commits.\<close>

definition reached :: "git_revwalk \<Rightarrow> nat set \<Rightarrow> bool" where
  "reached walk P \<longleftrightarrow> (\<forall>c. valid walk c \<longrightarrow> flags_of walk c \<noteq> 0 \<longrightarrow> (\<exists>s\<in>P. (s, c) \<in> (linked walk)\<^sup>*))"

lemma linked_start: "(s, c) \<in> (linked walk)\<^sup>* \<Longrightarrow> flags_of walk c \<noteq> 0 \<Longrightarrow> flags_of walk s \<noteq> 0"
  by (cases rule: converse_rtranclE) (auto simp: linked_def)

lemma path_avoiding:
  assumes c: "valid walk c"
  shows "(s, d) \<in> (linked walk)\<^sup>* \<Longrightarrow> d \<noteq> c \<Longrightarrow>
    (s, d) \<in> (linked (unmark c walk))\<^sup>* \<and> s \<noteq> c \<or>
    (\<exists>p\<in>set (parents_of walk c). (p, d) \<in> (linked (unmark c walk))\<^sup>*)"
proof (induction rule: rtrancl_induct)
  case base
  then show ?case by simp
next
  case (step y z)
  show ?case
  proof (cases "y = c")
    case True
    then have "z \<in> set (parents_of walk c)" using step(2) by (simp add: linked_def)
    then show ?thesis by blast
  next
    case False
    have "(y, z) \<in> linked (unmark c walk)"
      using step(2) False step.prems by (auto simp: linked_def unmark_simps [OF c])
    then show ?thesis using step.IH [OF False] by (meson rtrancl.rtrancl_into_rtrancl)
  qed
qed

lemma reached_unmark:
  assumes "valid walk c" "reached walk (insert c P)"
  shows "reached (unmark c walk) (set (parents_of walk c) \<union> P)"
  unfolding reached_def
proof (intro allI impI)
  fix d assume d: "valid (unmark c walk) d" "flags_of (unmark c walk) d \<noteq> 0"
  then have "d \<noteq> c" "valid walk d" "flags_of walk d \<noteq> 0" by (auto simp: unmark_simps [OF assms(1)] split: if_splits)
  then obtain s where s: "s \<in> insert c P" "(s, d) \<in> (linked walk)\<^sup>*" using assms(2) unfolding reached_def by blast
  then show "\<exists>s\<in>set (parents_of walk c) \<union> P. (s, d) \<in> (linked (unmark c walk))\<^sup>*"
    using path_avoiding [OF assms(1) s(2) \<open>d \<noteq> c\<close>] by blast
qed

lemma reached_unmarked:
  assumes "reached walk (insert c P)" "flags_of walk c = 0"
  shows "reached walk P"
  using assms linked_start unfolding reached_def by (metis insertE)

text \<open>The work that is left: the pending commits and the marked ones with their parents.\<close>

definition marked :: "git_revwalk \<Rightarrow> nat set" where "marked walk = {c. valid walk c \<and> flags_of walk c \<noteq> 0}"

definition work_left :: "git_revwalk \<Rightarrow> nat" where
  "work_left walk = (\<Sum>c\<in>marked walk. Suc (length (parents_of walk c)))"

lemma finite_marked [simp]: "finite (marked walk)"
  by (rule finite_subset [of _ "{..<length (w_commits walk)}"]) (auto simp: marked_def valid_def)

lemma marked_unmark: "valid walk c \<Longrightarrow> marked (unmark c walk) = marked walk - {c}"
  by (auto simp: marked_def unmark_simps split: if_splits)

lemma work_left_unmark:
  assumes "c \<in> marked walk"
  shows "work_left walk = Suc (length (parents_of walk c)) + work_left (unmark c walk)"
proof -
  have v: "valid walk c" using assms by (simp add: marked_def)
  show ?thesis
    unfolding work_left_def marked_unmark [OF v] unmark_simps(3) [OF v]
    using assms by (simp add: sum.remove)
qed

lemma clear_marks_1_spec:
  "wf_walk env walk \<Longrightarrow> list_all (valid walk) plist \<Longrightarrow> (\<forall>c. commit = Some c \<longrightarrow> valid walk c) \<Longrightarrow>
   card (marked walk) + 2 \<le> fuel \<Longrightarrow> reached walk (set_option commit \<union> set plist \<union> E) \<Longrightarrow>
   \<exists>plist1 walk1. clear_marks_1 fuel plist commit ALL_FLAGS walk = Some (plist1, walk1) \<and>
     wf_walk env walk1 \<and> keeps walk walk1 \<and> list_all (valid walk1) plist1 \<and> reached walk1 (set plist1 \<union> E) \<and>
     length plist1 + work_left walk1 \<le> length plist + work_left walk \<and>
     marked walk1 \<subseteq> marked walk \<and> length (w_commits walk1) = length (w_commits walk)"
proof (induction fuel arbitrary: plist commit walk)
  case (Suc fuel)
  show ?case
  proof (cases commit)
    case None
    then show ?thesis using Suc.prems by simp
  next
    case (Some c)
    have c: "valid walk c" using Suc.prems(3) Some by simp
    show ?thesis
    proof (cases "flags_of walk c = 0")
      case True
      then have "reached walk (set plist \<union> E)"
        using Suc.prems(5) Some reached_unmarked [of walk c "set plist \<union> E"] by simp
      then show ?thesis using Some True Suc.prems by (simp add: ALL_FLAGS_bits)
    next
      case False
      define w where "w = unmark c walk"
      define ps where "ps = parents_of walk c"
      define pl where "pl = rev (drop 1 ps) @ plist"
      define nx where "nx = (case ps of [] \<Rightarrow> None | p # _ \<Rightarrow> Some p)"
      have m: "c \<in> marked walk" using c False by (simp add: marked_def)
      have step: "clear_marks_1 (Suc fuel) plist commit ALL_FLAGS walk = clear_marks_1 fuel pl nx ALL_FLAGS w"
        using Some False by (simp add: ALL_FLAGS_bits w_def unmark_def pl_def ps_def nx_def Let_def)
      have vps: "list_all (valid walk) ps" unfolding ps_def by (rule parents_history(1) [OF Suc.prems(1) c])
      have sets: "set_option nx \<union> set pl \<union> E = set ps \<union> (set plist \<union> E)"
        by (cases ps) (auto simp: nx_def pl_def)
      have vpl: "list_all (valid w) pl" "\<forall>d. nx = Some d \<longrightarrow> valid w d"
        using vps Suc.prems(2) by (auto simp: pl_def nx_def list_all_iff w_def unmark_simps [OF c] split: list.splits dest: in_set_dropD)
      have "card (marked walk) = Suc (card (marked w))"
        unfolding w_def marked_unmark [OF c] by (rule card.remove [OF finite_marked m])
      then have fuel: "card (marked w) + 2 \<le> fuel" using Suc.prems(4) by simp
      have "reached w (set_option nx \<union> set pl \<union> E)"
        unfolding sets using reached_unmark [OF c, of "set plist \<union> E"] Suc.prems(5) Some by (simp add: w_def ps_def)
      from Suc.IH [OF wf_unmark [OF Suc.prems(1) c, folded w_def] vpl fuel this]
      obtain plist1 walk1 where r: "clear_marks_1 fuel pl nx ALL_FLAGS w = Some (plist1, walk1)"
          "wf_walk env walk1" "keeps w walk1" "list_all (valid walk1) plist1" "reached walk1 (set plist1 \<union> E)"
          "length plist1 + work_left walk1 \<le> length pl + work_left w" "marked walk1 \<subseteq> marked w"
          "length (w_commits walk1) = length (w_commits w)" by blast
      have "length pl + work_left w \<le> length plist + work_left walk"
        using work_left_unmark [OF m] by (simp add: pl_def ps_def w_def)
      moreover have "marked w \<subseteq> marked walk" unfolding w_def marked_unmark [OF c] by blast
      moreover have "keeps walk w" unfolding w_def by (rule keeps_unmark [OF c])
      moreover have "length (w_commits w) = length (w_commits walk)" by (simp add: w_def unmark_def)
      ultimately show ?thesis using step r keeps_trans by (intro exI [of _ plist1] exI [of _ walk1]) auto
    qed
  qed
qed simp

lemma clear_list_spec:
  "wf_walk env walk \<Longrightarrow> list_all (valid walk) list \<Longrightarrow> length list + work_left walk < fuel \<Longrightarrow>
   reached walk (set list \<union> E) \<Longrightarrow>
   \<exists>walk1. clear_list fuel list ALL_FLAGS walk = Some (Inr (), walk1) \<and> wf_walk env walk1 \<and> keeps walk walk1 \<and>
     reached walk1 E \<and> work_left walk1 \<le> length list + work_left walk"
proof (induction fuel arbitrary: list walk)
  case (Suc fuel)
  show ?case
  proof (cases list)
    case Nil
    then show ?thesis using Suc.prems by (simp add: git_commit_list_pop_def)
  next
    case (Cons c rest)
    have "card (marked walk) \<le> length (w_commits walk)"
      using card_mono [of "{..<length (w_commits walk)}" "marked walk"] by (auto simp: marked_def valid_def)
    then obtain list1 w where w: "clear_marks_1 (length (w_commits walk) + 2) rest (Some c) ALL_FLAGS walk = Some (list1, w)"
        "wf_walk env w" "keeps walk w" "list_all (valid w) list1" "reached w (set list1 \<union> E)"
        "length list1 + work_left w \<le> length rest + work_left walk"
      using clear_marks_1_spec [OF Suc.prems(1), of rest "Some c" "length (w_commits walk) + 2" E] Suc.prems(2,4) Cons
      by auto
    obtain walk1 where r: "clear_list fuel list1 ALL_FLAGS w = Some (Inr (), walk1)" "wf_walk env walk1" "keeps w walk1"
        "reached walk1 E" "work_left walk1 \<le> length list1 + work_left w"
      using Suc.IH [OF w(2,4) _ w(5)] w(6) Suc.prems(3) Cons by auto
    then show ?thesis using w Cons keeps_trans
      by (intro exI [of _ walk1]) (auto simp: git_commit_list_pop_def clear_commit_marks_1_def)
  qed
qed simp

lemma reached_empty: "reached walk {} \<Longrightarrow> clean walk"
  by (auto simp: reached_def clean_def)

end
