(* ===== verification/MergeBaseCorrect.thy ===== *)
theory MergeBaseCorrect
  imports ClearCorrect
begin

text \<open>
  The merge bases: what \<open>git_merge__bases_many\<close> and the functions built on it return is the set of the
  best common ancestors, whatever the dates of the commits are.
\<close>

subsection \<open>Running\<close>

text \<open>\<open>m\<close> ends, and when it ends without an error then with a value and a state in \<open>Q\<close>.\<close>

definition runs :: "('s, 'a) eff \<Rightarrow> 's \<Rightarrow> ('a \<Rightarrow> 's \<Rightarrow> bool) \<Rightarrow> bool" where
  "runs m s Q \<longleftrightarrow> m s \<noteq> None \<and> (\<forall>x s1. m s = Some (Inr x, s1) \<longrightarrow> Q x s1)"

lemma runs_bnd:
  assumes "runs m s P" "\<And>x s1. m s = Some (Inr x, s1) \<Longrightarrow> P x s1 \<Longrightarrow> runs (k x) s1 Q"
  shows "runs (bnd m k) s Q"
  using assms by (auto simp: runs_def simp del: not_None_eq)

lemma runs_ret [simp]: "runs (ret x) s Q \<longleftrightarrow> Q x s"
  and runs_fail [simp]: "runs (fail e) s Q"
  and runs_get [simp]: "runs get_state s Q' \<longleftrightarrow> Q' s s"
  and runs_update [simp]: "runs (update_state f) s Q'' \<longleftrightarrow> Q'' () (f s)"
  by (auto simp: runs_def)

lemma runs_lift_result: "(\<And>x. r = Inr x \<Longrightarrow> Q x s) \<Longrightarrow> runs (lift_result r) s Q"
  by (auto simp: lift_result_def split: sum.splits)

lemma runs_minus_one [simp]: "runs (minus_one m) s Q \<longleftrightarrow> runs m s Q"
  by (simp add: runs_def del: not_None_eq)

lemma runs_mono: "runs m s P \<Longrightarrow> (\<And>x s1. P x s1 \<Longrightarrow> Q x s1) \<Longrightarrow> runs m s Q"
  by (simp add: runs_def)

subsection \<open>Best commits\<close>

text \<open>The commits of a set that are no ancestors of others in the set.\<close>

definition best_of :: "git_env \<Rightarrow> git_oid set \<Rightarrow> git_oid set" where
  "best_of env A = {a \<in> A. \<forall>b\<in>A. (b, a) \<notin> (history env)\<^sup>+}"

definition common_ancestors :: "git_env \<Rightarrow> git_oid \<Rightarrow> git_oid set \<Rightarrow> git_oid set" where
  "common_ancestors env one twos =
     {a. (one, a) \<in> (history env)\<^sup>* \<and> (\<exists>two\<in>twos. (two, a) \<in> (history env)\<^sup>*)}"

lemma above_best:
  assumes "finite A" "acyclic (history env)" "a \<in> A"
  shows "\<exists>m\<in>best_of env A. (m, a) \<in> (history env)\<^sup>*"
proof -
  let ?r = "(history env)\<^sup>+ \<inter> A \<times> A"
  have "acyclic ?r" using assms(2) by (metis acyclic_def acyclic_subset inf_le1 trancl_id trans_trancl)
  then have "wf ?r" using assms(1) by (intro finite_acyclic_wf) auto
  then obtain z where z: "z \<in> {x \<in> A. (x, a) \<in> (history env)\<^sup>*}" and
    min: "\<And>y. (y, z) \<in> ?r \<Longrightarrow> y \<notin> {x \<in> A. (x, a) \<in> (history env)\<^sup>*}"
    using assms(3) wfE_min [of ?r a "{x \<in> A. (x, a) \<in> (history env)\<^sup>*}"] by auto
  have "(y, z) \<notin> (history env)\<^sup>+" if "y \<in> A" for y
  proof
    assume yz: "(y, z) \<in> (history env)\<^sup>+"
    then have "(y, a) \<in> (history env)\<^sup>*" using z by (metis (no_types, lifting) mem_Collect_eq rtrancl_trans trancl_into_rtrancl)
    then show False using min [of y] yz that z by auto
  qed
  then show ?thesis using z by (auto simp: best_of_def)
qed

lemma best_of_squeeze:
  assumes "finite A" "acyclic (history env)" "S \<subseteq> A" "\<And>a. a \<in> A \<Longrightarrow> a \<notin> S \<Longrightarrow> \<exists>b\<in>A. (b, a) \<in> (history env)\<^sup>+"
    and ends: "\<And>a b. a \<in> S \<Longrightarrow> b \<in> S \<Longrightarrow> (b, a) \<notin> (history env)\<^sup>+"
  shows "S = best_of env A"
proof
  show "best_of env A \<subseteq> S" using assms(4) by (auto simp: best_of_def)
  show "S \<subseteq> best_of env A"
  proof
    fix a assume a: "a \<in> S"
    have "(b, a) \<notin> (history env)\<^sup>+" if b: "b \<in> A" for b
    proof
      assume ba: "(b, a) \<in> (history env)\<^sup>+"
      obtain m where "m \<in> best_of env A" "(m, b) \<in> (history env)\<^sup>*" using above_best [OF assms(1,2) b] by blast
      then have "(m, a) \<in> (history env)\<^sup>+" "m \<in> S" using ba \<open>best_of env A \<subseteq> S\<close> by (auto intro: rtrancl_trancl_trancl)
      then show False using ends [OF a] by blast
    qed
    then show "a \<in> best_of env A" using a assms(3) by (auto simp: best_of_def)
  qed
qed

lemma best_of_covered:
  assumes "acyclic (history env)" "R \<subseteq> A" "\<And>a. a \<in> A \<Longrightarrow> \<exists>r\<in>R. (r, a) \<in> (history env)\<^sup>*"
  shows "best_of env A = best_of env R"
proof
  show "best_of env A \<subseteq> best_of env R"
  proof
    fix a assume a: "a \<in> best_of env A"
    then obtain r where "r \<in> R" "(r, a) \<in> (history env)\<^sup>*" using assms(3) by (auto simp: best_of_def)
    then have "r = a" using a assms(2) by (auto simp: best_of_def rtrancl_eq_or_trancl)
    then show "a \<in> best_of env R" using a assms(2) \<open>r \<in> R\<close> by (auto simp: best_of_def)
  qed
  show "best_of env R \<subseteq> best_of env A"
  proof
    fix r assume r: "r \<in> best_of env R"
    have "(b, r) \<notin> (history env)\<^sup>+" if b: "b \<in> A" for b
    proof
      assume br: "(b, r) \<in> (history env)\<^sup>+"
      obtain c where "c \<in> R" "(c, b) \<in> (history env)\<^sup>*" using assms(3) [OF b] by blast
      then show False using r br by (auto simp: best_of_def dest: rtrancl_trancl_trancl)
    qed
    then show "r \<in> best_of env A" using r assms(2) by (auto simp: best_of_def)
  qed
qed

subsection \<open>Fuel\<close>

definition n_parents_of :: "git_env \<Rightarrow> git_oid \<Rightarrow> nat" where
  "n_parents_of env a = (case env_odb env a of Inr (Some (t, ps)) \<Rightarrow> length ps | _ \<Rightarrow> 0)"

text \<open>The commits and the edges of the history below the starting points.\<close>

definition history_size :: "git_env \<Rightarrow> git_oid set \<Rightarrow> nat" where
  "history_size env starts = (\<Sum>a\<in>reachable env starts. Suc (n_parents_of env a))"

lemma card_reachable_le: "card (reachable env starts) \<le> history_size env starts"
  unfolding history_size_def using sum_mono [of "reachable env starts" "\<lambda>_. 1" "\<lambda>a. Suc (n_parents_of env a)"] by simp

lemma reachable_mono: "(\<And>s. s \<in> A \<Longrightarrow> \<exists>t\<in>B. (t, s) \<in> (history env)\<^sup>*) \<Longrightarrow> reachable env A \<subseteq> reachable env B"
  unfolding reachable_def by (blast intro: rtrancl_trans)

lemma history_size_mono: "finite (reachable env B) \<Longrightarrow> reachable env A \<subseteq> reachable env B \<Longrightarrow> history_size env A \<le> history_size env B"
  unfolding history_size_def by (rule sum_mono2) auto

lemma n_parents_of_node:
  assumes "wf_walk env walk" "valid walk c" "n_parsed (node walk c)"
  shows "n_parents_of env (oid_at walk c) = length (parents_of walk c)"
  using wf_walk_node [OF assms(1,2)] assms(3) by (auto simp: node_ok_def n_parents_of_def parents_of_def)

lemma paint_inv_reached: "paint_inv env one twos walk pq X \<Longrightarrow> reached walk (set (one # twos))"
  by (auto simp: paint_inv_def flags_sound_def reached_def)

lemma work_left_bound:
  assumes inv: "paint_inv env one twos walk pq X" and fin: "finite (reachable env (oid_at walk ` set (one # twos)))"
  shows "work_left walk \<le> history_size env (oid_at walk ` set (one # twos))"
proof -
  let ?H = "reachable env (oid_at walk ` set (one # twos))"
  have wf: "wf_walk env walk" using inv by (simp add: paint_inv_def)
  have inj: "inj_on (oid_at walk) (marked walk)"
    using wf_walk_distinct [OF wf] by (auto simp: inj_on_def marked_def)
  have sub: "oid_at walk ` marked walk \<subseteq> ?H"
  proof
    fix a assume "a \<in> oid_at walk ` marked walk"
    then obtain c where c: "valid walk c" "flags_of walk c \<noteq> 0" "a = oid_at walk c" by (auto simp: marked_def)
    then obtain s where "s \<in> set (one # twos)" "(s, c) \<in> (linked walk)\<^sup>*"
      using paint_inv_reached [OF inv] by (auto simp: reached_def)
    then show "a \<in> ?H" unfolding c(3) reachable_def using linked_history [OF wf] by blast
  qed
  have "work_left walk = (\<Sum>c\<in>marked walk. Suc (n_parents_of env (oid_at walk c)))"
    unfolding work_left_def
  proof (rule sum.cong [OF refl])
    fix c assume "c \<in> marked walk"
    then show "Suc (length (parents_of walk c)) = Suc (n_parents_of env (oid_at walk c))"
      using inv by (subst n_parents_of_node [OF wf]) (auto simp: marked_def paint_inv_def flags_sound_def)
  qed
  also have "\<dots> = (\<Sum>a\<in>oid_at walk ` marked walk. Suc (n_parents_of env a))" by (simp add: sum.reindex [OF inj])
  also have "\<dots> \<le> history_size env (oid_at walk ` set (one # twos))"
    unfolding history_size_def by (rule sum_mono2 [OF fin sub]) simp
  finally show ?thesis .
qed

subsection \<open>Painting and clearing\<close>

lemma runs_paint_down:
  assumes "wf_walk env walk" "clean walk" "valid walk one" "n_parsed (node walk one)" "list_all (valid walk) twos"
    and fin: "finite (reachable env (oid_at walk ` set (one # twos)))"
    and fuel: "Suc (length twos) + 3 * history_size env (oid_at walk ` set (one # twos)) < fuel"
  shows "runs (paint_down_to_common fuel env one twos) walk
    (\<lambda>out walk1. painted_down env one twos walk1 \<and> distinct out \<and> set out = results walk1 \<and> keeps walk walk1)"
proof -
  have "Suc (length twos) + 3 * card (reachable env (oid_at walk ` set (one # twos))) < fuel"
    using card_reachable_le [of env "oid_at walk ` set (one # twos)"] fuel by linarith
  then show ?thesis
    using paint_down_to_common_terminates [OF assms(1-6)] paint_down_to_common_spec [OF _ assms(1-5)] by (simp add: runs_def)
qed

lemma runs_clear_many:
  assumes "wf_walk env walk" "list_all (valid walk) commits" "length commits + work_left walk < fuel"
    and "reached walk (set commits \<union> E)"
  shows "runs (clear_commit_marks_many fuel env commits ALL_FLAGS) walk
    (\<lambda>_ walk1. wf_walk env walk1 \<and> keeps walk walk1 \<and> reached walk1 E \<and> work_left walk1 \<le> length commits + work_left walk)"
  using clear_list_spec [OF assms(1), of "rev commits" fuel E] assms(2-4)
  by (auto simp: clear_commit_marks_many_def runs_def)

lemma runs_clear_one:
  assumes "wf_walk env walk" "valid walk commit" "1 + work_left walk < fuel" "reached walk (insert commit E)"
  shows "runs (clear_commit_marks fuel env commit ALL_FLAGS) walk
    (\<lambda>_ walk1. wf_walk env walk1 \<and> keeps walk walk1 \<and> reached walk1 E \<and> work_left walk1 \<le> 1 + work_left walk)"
  using clear_list_spec [OF assms(1), of "[commit]" fuel E] assms(2-4)
  by (auto simp: clear_commit_marks_def runs_def)

text \<open>Both calls that follow a painting.\<close>

lemma runs_clear_both:
  assumes pd: "painted_down env one twos walk"
    and fin: "finite (reachable env (oid_at walk ` set (one # twos)))"
    and fuel: "1 + length twos + history_size env (oid_at walk ` set (one # twos)) < fuel"
    and k: "\<And>walk1. wf_walk env walk1 \<Longrightarrow> keeps walk walk1 \<Longrightarrow> clean walk1 \<Longrightarrow> runs k walk1 Q"
  shows "runs (bnd (clear_commit_marks fuel env one ALL_FLAGS)
    (\<lambda>_. bnd (clear_commit_marks_many fuel env twos ALL_FLAGS) (\<lambda>_. k))) walk Q"
proof -
  obtain pq where inv: "paint_inv env one twos walk pq {}" using pd by (auto simp: painted_down_def)
  have v: "wf_walk env walk" "valid walk one" "list_all (valid walk) twos" using inv by (auto simp: paint_inv_def)
  have r: "reached walk (insert one (set twos))" using paint_inv_reached [OF inv] by simp
  note bound = work_left_bound [OF inv fin]
  show ?thesis
  proof (rule runs_bnd [OF runs_clear_one [OF v(1,2) _ r]])
    show "1 + work_left walk < fuel" using bound fuel by linarith
  next
    fix x walk1
    assume 1: "wf_walk env walk1 \<and> keeps walk walk1 \<and> reached walk1 (set twos) \<and> work_left walk1 \<le> 1 + work_left walk"
    then have "list_all (valid walk1) twos" using v(3) keepsD(1) by (auto simp: list_all_iff)
    moreover have "length twos + work_left walk1 < fuel" using bound fuel 1 by linarith
    ultimately have "runs (clear_commit_marks_many fuel env twos ALL_FLAGS) walk1
      (\<lambda>_ walk2. wf_walk env walk2 \<and> keeps walk1 walk2 \<and> reached walk2 {} \<and> work_left walk2 \<le> length twos + work_left walk1)"
      using 1 by (intro runs_clear_many) simp_all
    then show "runs (bnd (clear_commit_marks_many fuel env twos ALL_FLAGS) (\<lambda>_. k)) walk1 Q"
    proof (rule runs_bnd)
      fix y walk2
      assume 2: "wf_walk env walk2 \<and> keeps walk1 walk2 \<and> reached walk2 {} \<and> work_left walk2 \<le> length twos + work_left walk1"
      then show "runs k walk2 Q" using 1 keeps_trans reached_empty by (intro k) blast+
    qed
  qed
qed

subsection \<open>Redundant commits\<close>

lemma git_vector_insert_contents: "git_vector_insert ca v x = Inr v1 \<Longrightarrow> v_contents v1 = v_contents v @ [x]"
  by (auto simp: git_vector_insert_def grow_for_insert_def resize_vector_def Let_def git_vector_set_sorted_def
      split: sum.splits if_splits)

lemma fill_work_contents:
  "fill_work env commits js work = Inr work1 \<Longrightarrow> v_contents work1 = v_contents work @ map ((!) commits) js"
  by (induction js arbitrary: work) (auto split: sum.splits dest: git_vector_insert_contents)

lemma git_vector_clear_contents: "v_contents (git_vector_clear v) = []"
  by (simp add: git_vector_clear_def git_vector_set_sorted_def)

lemma nth_update_read: "j < length xs \<Longrightarrow> xs[i := x] ! j = (if i = j then x else xs ! j)"
  by (cases "i = j") simp_all

lemma mark_fold:
  "length (fold (\<lambda>j r. if P j then r[j := True] else r) js r) = length r \<and>
   (i < length r \<longrightarrow> fold (\<lambda>j r. if P j then r[j := True] else r) js r ! i = (r ! i \<or> i \<in> set js \<and> P i))"
  by (induction js arbitrary: r) (auto simp: nth_update_read)

lemma mark_redundant_nth:
  "length (mark_redundant walk cs i filled r) = length r"
  "j < length r \<Longrightarrow> mark_redundant walk cs i filled r ! j \<longleftrightarrow>
     r ! j \<or> j = i \<and> bit (flags_of walk (cs ! i)) 1 \<or> j \<in> set filled \<and> bit (flags_of walk (cs ! j)) 0"
  by (auto simp: mark_redundant_def Let_def flag_bits nth_update_read mark_fold)

lemma filled_index_set: "set (filled_index r i) = {j. j < length r \<and> j \<noteq> i \<and> \<not> r ! j}"
  by (auto simp: filled_index_def)

lemma length_filled_index: "length (filled_index r i) \<le> length r"
  unfolding filled_index_def using length_filter_le [of _ "[0..<length r]"] by simp

text \<open>Every commit that is marked lies below another.\<close>

definition marked_below :: "git_env \<Rightarrow> git_oid list \<Rightarrow> bool list \<Rightarrow> bool" where
  "marked_below env os r \<longleftrightarrow> length r = length os \<and>
     (\<forall>j<length os. r ! j \<longrightarrow> (\<exists>k<length os. (os ! k, os ! j) \<in> (history env)\<^sup>+))"

lemma mark_redundant_sound:
  assumes pd: "painted_down env (cs ! i) (map ((!) cs) (filled_index r i)) walk" and ac: "acyclic (history env)"
    and os: "map (oid_at walk) cs = os" "distinct os" and i: "i < length cs" "\<not> r ! i" and m: "marked_below env os r"
  shows "marked_below env os (mark_redundant walk cs i (filled_index r i) r)"
    and "\<not> mark_redundant walk cs i (filled_index r i) r ! i \<Longrightarrow> j < length cs \<Longrightarrow> \<not> r ! j \<Longrightarrow> (os ! j, os ! i) \<notin> (history env)\<^sup>+"
proof -
  let ?r = "mark_redundant walk cs i (filled_index r i) r"
  have len: "length r = length cs" "length os = length cs" using m os(1) by (auto simp: marked_below_def)
  have at: "oid_at walk (cs ! j) = os ! j" if "j < length cs" for j using that os(1) by (metis nth_map)
  have proper: "(os ! j, os ! k) \<in> (history env)\<^sup>* \<longleftrightarrow> (os ! j, os ! k) \<in> (history env)\<^sup>+"
    if "j < length cs" "k < length cs" "j \<noteq> k" for j k
    using that os(2) len by (auto simp: rtrancl_eq_or_trancl distinct_conv_nth)
  have P2: "bit (flags_of walk (cs ! i)) 1 \<longleftrightarrow> (\<exists>j\<in>set (filled_index r i). (os ! j, os ! i) \<in> (history env)\<^sup>+)"
    using parent2_of_one [OF pd ac] at i(1) proper len by (auto simp: filled_index_set)
  have P1: "(os ! i, os ! j) \<in> (history env)\<^sup>+" if "j \<in> set (filled_index r i)" "bit (flags_of walk (cs ! j)) 0" for j
  proof -
    obtain pq where "paint_inv env (cs ! i) (map ((!) cs) (filled_index r i)) walk pq {}" using pd by (auto simp: painted_down_def)
    then have "valid walk (cs ! j)" using that(1) by (auto simp: paint_inv_def list_all_iff)
    then show ?thesis using parent1_sound [OF pd _ that(2)] at i(1) that(1) proper len by (auto simp: filled_index_set)
  qed
  show "marked_below env os ?r"
    unfolding marked_below_def
  proof (intro conjI allI impI)
    fix j assume j: "j < length os" "?r ! j"
    then consider "r ! j" | "j = i" "bit (flags_of walk (cs ! i)) 1" | "j \<in> set (filled_index r i)" "bit (flags_of walk (cs ! j)) 0"
      using mark_redundant_nth(2) [of j r walk cs i] len by auto
    then show "\<exists>k<length os. (os ! k, os ! j) \<in> (history env)\<^sup>+"
    proof cases
      case 1
      then show ?thesis using m j(1) by (simp add: marked_below_def)
    next
      case 2
      then show ?thesis using P2 len by (auto simp: filled_index_set)
    next
      case 3
      then show ?thesis using P1 i(1) len by auto
    qed
  qed (simp add: mark_redundant_nth len)
  assume "\<not> ?r ! i" "j < length cs" "\<not> r ! j"
  moreover from this(1) have "\<not> bit (flags_of walk (cs ! i)) 1" using mark_redundant_nth(2) i(1) len by simp
  ultimately show "(os ! j, os ! i) \<notin> (history env)\<^sup>+"
    using P2 ac len by (cases "j = i") (auto simp: filled_index_set acyclic_def)
qed

text \<open>No two commits of the list are related that are both left.\<close>

definition apart :: "git_env \<Rightarrow> git_oid list \<Rightarrow> bool list \<Rightarrow> nat \<Rightarrow> bool" where
  "apart env os r i \<longleftrightarrow> (\<not> r ! i \<longrightarrow> (\<forall>j<length os. \<not> r ! j \<longrightarrow> (os ! j, os ! i) \<notin> (history env)\<^sup>+))"

lemma apart_mono: "apart env os r i \<Longrightarrow> i < length os \<Longrightarrow> (\<And>j. j < length os \<Longrightarrow> r ! j \<Longrightarrow> r1 ! j) \<Longrightarrow> apart env os r1 i"
  unfolding apart_def by blast

definition candidates_ok :: "git_env \<Rightarrow> git_revwalk \<Rightarrow> nat list \<Rightarrow> git_oid list \<Rightarrow> bool" where
  "candidates_ok env walk cs os \<longleftrightarrow> wf_walk env walk \<and> list_all (valid walk) cs \<and>
     list_all (\<lambda>c. n_parsed (node walk c)) cs \<and> map (oid_at walk) cs = os"

lemma candidates_ok_keeps:
  assumes "candidates_ok env walk cs os" "keeps walk walk1" "wf_walk env walk1"
  shows "candidates_ok env walk1 cs os"
  using assms keepsD [OF assms(2)] unfolding candidates_ok_def list_all_iff by (metis map_eq_conv)

lemma runs_redundant_loop:
  assumes ac: "acyclic (history env)" and fin: "finite (reachable env (set os))"
    and fuel: "Suc (length os) + 3 * history_size env (set os) < fuel" and dis: "distinct os"
  shows "candidates_ok env walk cs os \<Longrightarrow> clean walk \<Longrightarrow> set is \<subseteq> {..<length cs} \<Longrightarrow> marked_below env os r \<Longrightarrow>
    runs (redundant_loop fuel env cs is work r) walk
      (\<lambda>r1 walk1. wf_walk env walk1 \<and> keeps walk walk1 \<and> clean walk1 \<and> marked_below env os r1 \<and>
         (\<forall>j<length os. r ! j \<longrightarrow> r1 ! j) \<and> (\<forall>i\<in>set is. apart env os r1 i))"
proof (induction "is" arbitrary: walk work r)
  case Nil
  then show ?case by (simp add: candidates_ok_def)
next
  case (Cons i "is")
  have ok: "wf_walk env walk" "list_all (valid walk) cs" "list_all (\<lambda>c. n_parsed (node walk c)) cs" "map (oid_at walk) cs = os"
    using Cons.prems(1) by (auto simp: candidates_ok_def)
  have i: "i < length cs" using Cons.prems(3) by simp
  have len: "length os = length cs" "length r = length cs" using ok(4) Cons.prems(4) by (auto simp: marked_below_def)
  show ?case
  proof (cases "r ! i")
    case True
    have "runs (redundant_loop fuel env cs is work r) walk
      (\<lambda>r1 walk1. wf_walk env walk1 \<and> keeps walk walk1 \<and> clean walk1 \<and> marked_below env os r1 \<and>
         (\<forall>j<length os. r ! j \<longrightarrow> r1 ! j) \<and> (\<forall>i\<in>set is. apart env os r1 i))"
      using Cons by simp
    then have "runs (redundant_loop fuel env cs is work r) walk
      (\<lambda>r1 walk1. wf_walk env walk1 \<and> keeps walk walk1 \<and> clean walk1 \<and> marked_below env os r1 \<and>
         (\<forall>j<length os. r ! j \<longrightarrow> r1 ! j) \<and> (\<forall>i\<in>set (i # is). apart env os r1 i))"
      by (rule runs_mono) (use True i len in \<open>auto simp: apart_def\<close>)
    then show ?thesis using True by simp
  next
    case False
    let ?f = "filled_index r i"
    let ?twos = "map ((!) cs) ?f"
    have one: "valid walk (cs ! i)" "n_parsed (node walk (cs ! i))" using ok i by (auto simp: list_all_length)
    have twos: "list_all (valid walk) ?twos" using ok(2) len by (auto simp: list_all_iff filled_index_set)
    have start: "oid_at walk ` set (cs ! i # ?twos) \<subseteq> set os"
      unfolding ok(4) [symmetric] using i len by (auto simp: filled_index_set)
    then have H: "reachable env (oid_at walk ` set (cs ! i # ?twos)) \<subseteq> reachable env (set os)"
      by (intro reachable_mono) blast
    have fin1: "finite (reachable env (oid_at walk ` set (cs ! i # ?twos)))" using finite_subset [OF H fin] .
    have size: "history_size env (oid_at walk ` set (cs ! i # ?twos)) \<le> history_size env (set os)"
      using history_size_mono [OF fin H] .
    have fuel1: "Suc (length ?twos) + 3 * history_size env (oid_at walk ` set (cs ! i # ?twos)) < fuel"
      using size fuel length_filled_index [of r i] len by simp
    have paint: "runs (paint_down_to_common fuel env (cs ! i) ?twos) walk (\<lambda>out walk1.
        painted_down env (cs ! i) ?twos walk1 \<and> distinct out \<and> set out = results walk1 \<and> keeps walk walk1)"
      by (rule runs_paint_down [OF ok(1) Cons.prems(2) one twos fin1 fuel1])
    let ?Q = "\<lambda>r1 walk1. wf_walk env walk1 \<and> keeps walk walk1 \<and> clean walk1 \<and> marked_below env os r1 \<and>
         (\<forall>j<length os. r ! j \<longrightarrow> r1 ! j) \<and> apart env os r1 i \<and> (\<forall>i\<in>set is. apart env os r1 i)"
    have main: "runs (redundant_loop fuel env cs is work1 (mark_redundant w1 cs i ?f r)) w2 ?Q"
      if w1: "painted_down env (cs ! i) ?twos w1" "keeps walk w1" and w2: "wf_walk env w2" "keeps w1 w2" "clean w2" for w1 w2 work1
    proof -
      have k: "keeps walk w2" using w1(2) w2(2) keeps_trans by blast
      have os1: "map (oid_at w1) cs = os"
        using ok(2,4) keepsD(2) [OF w1(2)] by (auto simp: list_all_iff)
      note sound = mark_redundant_sound [OF w1(1) ac os1 dis i False Cons.prems(4)]
      have "apart env os (mark_redundant w1 cs i ?f r) i"
        using sound(2) mark_redundant_nth(2) len by (auto simp: apart_def)
      moreover have "r ! j \<Longrightarrow> mark_redundant w1 cs i ?f r ! j" if "j < length os" for j
        using that len by (simp add: mark_redundant_nth)
      moreover have "runs (redundant_loop fuel env cs is work1 (mark_redundant w1 cs i ?f r)) w2
        (\<lambda>r1 walk1. wf_walk env walk1 \<and> keeps w2 walk1 \<and> clean walk1 \<and> marked_below env os r1 \<and>
         (\<forall>j<length os. mark_redundant w1 cs i ?f r ! j \<longrightarrow> r1 ! j) \<and> (\<forall>i\<in>set is. apart env os r1 i))"
        using Cons.prems(3) by (intro Cons.IH candidates_ok_keeps [OF Cons.prems(1) k w2(1)] w2(3) sound(1)) simp
      ultimately show ?thesis using k i len by (elim runs_mono) (auto intro: keeps_trans apart_mono)
    qed
    have clear: "runs (bnd (clear_commit_marks fuel env (cs ! i) ALL_FLAGS)
        (\<lambda>_. bnd (clear_commit_marks_many fuel env ?twos ALL_FLAGS)
          (\<lambda>_. redundant_loop fuel env cs is work1 (mark_redundant w1 cs i ?f r)))) w1 ?Q"
      if w1: "painted_down env (cs ! i) ?twos w1" "keeps walk w1" for w1 work1
    proof -
      have same: "oid_at w1 ` set (cs ! i # ?twos) = oid_at walk ` set (cs ! i # ?twos)"
        using keepsD(2) [OF w1(2)] one(1) twos by (intro image_cong refl) (auto simp: list_all_iff)
      show ?thesis
        by (rule runs_clear_both [OF w1(1)]) (use same fin1 fuel1 main [OF w1] in auto)
    qed
    show ?thesis
      using False unfolding redundant_loop.simps Let_def
      by (auto intro!: runs_bnd [OF runs_lift_result, of _ "\<lambda>work1. \<lambda>w. w = walk \<and> v_contents work1 = ?twos"]
          runs_bnd [OF paint] runs_bnd [of get_state _ "\<lambda>x y. x = y"] clear
          dest!: fill_work_contents simp: git_vector_clear_contents)
  qed
qed

lemma for_each_parse_parsed:
  "list_all (\<lambda>c. n_parsed (node walk c)) cs \<Longrightarrow> for_each (git_commit_list_parse env) cs walk = Some (Inr (), walk)"
  by (induction cs) (simp_all add: bnd_def git_commit_list_parse_def ret_def)

lemma runs_remove_redundant:
  assumes ac: "acyclic (history env)" and fin: "finite (reachable env (set os))"
    and fuel: "Suc (length os) + 3 * history_size env (set os) < fuel" and dis: "distinct os"
    and ok: "candidates_ok env walk cs os" "clean walk"
  shows "runs (remove_redundant fuel env cs) walk
    (\<lambda>kept walk1. env_mem env \<and> wf_walk env walk1 \<and> keeps walk walk1 \<and>
       (\<exists>ks. distinct ks \<and> set ks \<subseteq> set cs \<and> mset (List.map_filter id kept) = mset ks \<and> oid_at walk ` set ks = best_of env (set os)))"
proof -
  let ?kept = "\<lambda>r. map (\<lambda>i. if r ! i then None else Some (cs ! i)) [0..<length cs]"
  have os: "map (oid_at walk) cs = os" and parsed: "list_all (\<lambda>c. n_parsed (node walk c)) cs" using ok(1) by (auto simp: candidates_ok_def)
  then have len: "length os = length cs" by auto
  have dcs: "distinct cs" using dis os by (auto simp: distinct_map)
  have at: "oid_at walk (cs ! j) = os ! j" if "j < length cs" for j using that os by (metis nth_map)
  have best: "\<exists>ks. distinct ks \<and> set ks \<subseteq> set cs \<and> mset (List.map_filter id (?kept r)) = mset ks \<and> oid_at walk ` set ks = best_of env (set os)"
    if m: "marked_below env os r" and a: "\<forall>i\<in>{0..<length cs}. apart env os r i" for r
  proof -
    let ?is = "filter (\<lambda>i. \<not> r ! i) [0..<length cs]"
    let ?ks = "map ((!) cs) ?is"
    have "List.map_filter id (?kept r) = ?ks" by (simp add: List.map_filter_def o_def filter_map)
    moreover have "distinct ?ks" using dcs by (auto simp: distinct_map inj_on_def nth_eq_iff_index_eq)
    moreover have "set ?ks \<subseteq> set cs" by auto
    moreover have "oid_at walk ` set ?ks = best_of env (set os)"
    proof (rule best_of_squeeze)
      show "oid_at walk ` set ?ks \<subseteq> set os" using os by auto
      show "\<exists>b\<in>set os. (b, a) \<in> (history env)\<^sup>+" if x: "a \<in> set os" "a \<notin> oid_at walk ` set ?ks" for a
      proof -
        obtain j where j: "j < length cs" "a = os ! j" using x(1) len by (auto simp: in_set_conv_nth)
        then have "r ! j" using x(2) at by force
        then obtain k where "k < length os" "(os ! k, os ! j) \<in> (history env)\<^sup>+" using m j len by (auto simp: marked_below_def)
        then show ?thesis unfolding j(2) by (metis nth_mem)
      qed
      show "(b, a) \<notin> (history env)\<^sup>+" if "a \<in> oid_at walk ` set ?ks" "b \<in> oid_at walk ` set ?ks" for a b
        using that a at len by (auto simp: apart_def)
    qed (use ac in auto)
    ultimately show ?thesis by metis
  qed
  have loop: "runs (redundant_loop fuel env cs [0..<length cs] GIT_VECTOR_INIT (replicate (length cs) False)) walk
      (\<lambda>r1 walk1. wf_walk env walk1 \<and> keeps walk walk1 \<and> clean walk1 \<and> marked_below env os r1 \<and>
         (\<forall>j<length os. replicate (length cs) False ! j \<longrightarrow> r1 ! j) \<and> (\<forall>i\<in>set [0..<length cs]. apart env os r1 i))"
    using ok len by (intro runs_redundant_loop [OF ac fin fuel dis]) (auto simp: marked_below_def)
  show ?thesis
  proof (cases "env_mem env")
    case True
    show ?thesis unfolding remove_redundant_def
      using True for_each_parse_parsed [OF parsed] best
      by (auto intro!: runs_bnd [of _ _ "\<lambda>_ w. w = walk"] runs_bnd [OF loop]) (auto simp: runs_def)
  qed (simp add: remove_redundant_def)
qed

subsection \<open>Stale results and lists by date\<close>

lemma filter_stale_mset:
  "filter_stale env walk tmp result = Inr out \<Longrightarrow>
   mset out = mset (filter (\<lambda>c. \<not> bit (flags_of walk c) 3) tmp) + mset result"
  by (induction tmp arbitrary: result) (auto simp: flag_bits dest!: insert_by_date_Inr split: if_splits sum.splits)

lemma insert_by_date_mset: "env_mem env \<Longrightarrow> mset (insert_by_date env walk c list) = add_mset c (mset list)"
  using insert_by_date_Inl [of env walk c list] by (auto simp: insert_by_date_def dest: insert_by_date_Inr)

lemma insert_all_by_date_mset:
  "env_mem env \<Longrightarrow> mset (insert_all_by_date env walk kept result) = mset (List.map_filter id kept) + mset result"
  by (induction kept arbitrary: result) (auto simp: List.map_filter_simps insert_by_date_mset split: option.splits)

text \<open>Memory for all that a painting of \<open>n\<close> commits allocates.\<close>

definition enough_memory :: "git_env \<Rightarrow> nat \<Rightarrow> bool" where
  "enough_memory env n \<longleftrightarrow> env_mem env \<and> (\<forall>m\<le>max 8 (2 * n). env_can_alloc env m)"

lemma enough_memory_mono: "enough_memory env n \<Longrightarrow> m \<le> n \<Longrightarrow> enough_memory env m"
  by (auto simp: enough_memory_def)

lemma insert_grows:
  assumes "enough_memory env n" "v_length v \<le> n" "vector_fits v"
  shows "\<exists>v1. git_vector_insert (env_can_alloc env) v c = Inr v1 \<and> vector_fits v1"
proof -
  have "2 * n < SIZE_MAX" using assms(1) by (auto simp: enough_memory_def env_can_alloc_def)
  then have "compute_new_size v \<le> max 8 (2 * n)" "v_alloc_size v < compute_new_size v" if "v_length v \<ge> v_alloc_size v"
    using that assms(2,3) by (auto simp: compute_new_size_def MIN_ALLOCSIZE_def Let_def vector_fits_def max_def split: if_splits)
  then have "\<exists>v1. grow_for_insert (env_can_alloc env) v = Inr v1 \<and> v_contents v1 = v_contents v \<and> v_length v < v_alloc_size v1 \<and>
      v_alloc_size v1 \<le> SIZE_MAX"
    using assms(1,3) compute_new_size_bounds by (auto simp: grow_for_insert_def resize_vector_def enough_memory_def vector_fits_def)
  then show ?thesis by (auto simp: git_vector_insert_def vector_fits_def Let_def git_vector_set_sorted_def)
qed

lemma insert_pointers_contents:
  "enough_memory env n \<Longrightarrow> v_length v + length cs \<le> n \<Longrightarrow> vector_fits v \<Longrightarrow>
   v_contents (insert_pointers env cs v) = v_contents v @ cs"
proof (induction cs arbitrary: v)
  case (Cons c cs)
  obtain v1 where v1: "git_vector_insert (env_can_alloc env) v c = Inr v1" "vector_fits v1"
    using insert_grows [OF Cons.prems(1) _ Cons.prems(3)] Cons.prems(2) by auto
  then show ?case using Cons git_vector_insert_contents [OF v1(1)] by simp
qed simp

lemma vector_fits_init: "vector_fits GIT_VECTOR_INIT"
  by (simp add: GIT_VECTOR_INIT_def vector_fits_def)

subsection \<open>All merge bases\<close>

lemma clean_grows:
  assumes "clean a" "grows a b"
  shows "clean b"
  unfolding clean_def
proof (intro allI impI)
  fix c assume c: "valid b c"
  show "flags_of b c = 0"
  proof (cases "valid a c")
    case True
    then show ?thesis using flags_of_marks [OF grows_node(2) [OF assms(2) True]] assms(1) by (simp add: clean_def)
  next
    case False
    then show ?thesis using flags_of_new [OF grows_new [OF assms(2) c False]] by simp
  qed
qed

lemma common_ancestors_reachable: "common_ancestors env one twos \<subseteq> reachable env (insert one twos)"
  by (auto simp: common_ancestors_def reachable_def)

lemma best_of_self:
  assumes "acyclic (history env)" "one \<in> twos"
  shows "best_of env (common_ancestors env one twos) = {one}"
proof -
  have "(one, one) \<notin> (history env)\<^sup>+" using assms(1) by (simp add: acyclic_def)
  then show ?thesis using assms(2)
    by (auto simp: best_of_def common_ancestors_def rtrancl_eq_or_trancl intro: trancl_trans)
qed

text \<open>The results of a painting that are not stale, as a list of commits.\<close>

definition fresh :: "git_revwalk \<Rightarrow> nat list \<Rightarrow> bool" where
  "fresh walk cs \<longleftrightarrow> distinct cs \<and> set cs = {c \<in> results walk. \<not> bit (flags_of walk c) 3}"

lemma painted_best:
  fixes env walk one twos
  defines "A \<equiv> common_ancestors env (oid_at walk one) (oid_at walk ` set twos)"
  assumes pd: "painted_down env one twos walk" and ac: "acyclic (history env)" and fin: "finite A" and f: "fresh walk cs"
  shows "best_of env (oid_at walk ` set cs) = best_of env A"
    and "length cs < 2 \<Longrightarrow> oid_at walk ` set cs = best_of env A"
    and "oid_at walk ` set cs \<subseteq> A"
proof -
  let ?R = "oid_at walk ` results walk"
  let ?S = "oid_at walk ` set cs"
  have SR: "?S \<subseteq> ?R" using f by (auto simp: fresh_def)
  have RA: "?R \<subseteq> A" using results_common(1,2) [OF pd] by (auto simp: A_def common_ancestors_def)
  have up: "\<exists>b\<in>?R. (b, a) \<in> (history env)\<^sup>+" if "a \<in> ?R" "a \<notin> ?S" for a
    using that f stale_redundant [OF pd] by (fastforce simp: fresh_def results_def)
  have finR: "finite ?R" using finite_subset [OF RA fin] .
  have cov: "\<exists>r\<in>?R. (r, a) \<in> (history env)\<^sup>*" if "a \<in> A" for a
    using painted_covers [OF pd] that by (fastforce simp: A_def common_ancestors_def covered_def)
  have "\<exists>m\<in>?S. (m, r) \<in> (history env)\<^sup>*" if r: "r \<in> ?R" for r
  proof -
    obtain m where m: "m \<in> best_of env ?R" "(m, r) \<in> (history env)\<^sup>*" using above_best [OF finR ac r] by blast
    then have "m \<in> ?S" using up [of m] by (auto simp: best_of_def)
    then show ?thesis using m(2) by blast
  qed
  then have "best_of env ?R = best_of env ?S" by (rule best_of_covered [OF ac SR])
  moreover have AR: "best_of env A = best_of env ?R" by (rule best_of_covered [OF ac RA cov])
  ultimately show "best_of env ?S = best_of env A" by simp
  show "?S \<subseteq> A" using SR RA by blast
  assume "length cs < 2"
  then have one: "a = b" if "a \<in> ?S" "b \<in> ?S" for a b using that by (cases cs) (auto simp: less_Suc_eq_le)
  have "(b, a) \<notin> (history env)\<^sup>+" if "a \<in> ?S" "b \<in> ?S" for a b using one [OF that] ac by (auto simp: acyclic_def)
  then have "?S = best_of env ?R" by (intro best_of_squeeze [OF finR ac SR up])
  then show "?S = best_of env A" using AR by simp
qed

lemma length_le_reachable:
  assumes "wf_walk env walk" "list_all (valid walk) cs" "distinct cs" "oid_at walk ` set cs \<subseteq> reachable env X" "finite (reachable env X)"
  shows "length cs \<le> card (reachable env X)" "distinct (map (oid_at walk) cs)"
proof -
  have inj: "inj_on (oid_at walk) (set cs)"
    using wf_walk_distinct [OF assms(1)] assms(2) by (auto simp: inj_on_def list_all_iff)
  then show "distinct (map (oid_at walk) cs)" using assms(3) by (simp add: distinct_map)
  have "length cs = card (oid_at walk ` set cs)" using assms(3) inj by (simp add: card_image distinct_card)
  then show "length cs \<le> card (reachable env X)" using card_mono [OF assms(5,4)] by simp
qed

lemma fresh_parsed:
  assumes "painted_down env one twos walk" "fresh walk cs"
  shows "list_all (valid walk) cs" "list_all (\<lambda>c. n_parsed (node walk c)) cs"
  using assms(2) results_common(3) [OF assms(1)] by (auto simp: fresh_def list_all_iff results_def)

lemma runs_parse:
  assumes "wf_walk env walk" "valid walk c"
  shows "runs (git_commit_list_parse env c) walk (\<lambda>_ w. wf_walk env w \<and> grows walk w \<and> n_parsed (node w c))"
  unfolding runs_def using parse_total parse_spec [OF _ assms] by (auto simp del: not_None_eq)

text \<open>A list of commits whose ids are the best common ancestors, each once.\<close>

definition gives :: "git_env \<Rightarrow> git_oid set \<Rightarrow> git_commit_list \<Rightarrow> git_revwalk \<Rightarrow> bool" where
  "gives env best out walk \<longleftrightarrow> wf_walk env walk \<and> list_all (valid walk) out \<and> distinct out \<and> oid_at walk ` set out = best"

lemma runs_drop_redundant:
  fixes one twos walk env
  defines "starts \<equiv> oid_at walk ` set (one # twos)"
  defines "A \<equiv> common_ancestors env (oid_at walk one) (oid_at walk ` set twos)"
  assumes pd: "painted_down env one twos walk" and f: "fresh walk result"
    and ac: "acyclic (history env)" and fin: "finite (reachable env starts)"
    and fuel: "Suc (length twos) + 4 * history_size env starts < fuel"
    and mem: "enough_memory env (Suc (length twos) + 3 * history_size env starts)"
  shows "runs (drop_redundant fuel env one twos result) walk (gives env (best_of env A))"
proof -
  have wf: "wf_walk env walk" using pd by (auto simp: painted_down_def paint_inv_def)
  have A: "A \<subseteq> reachable env starts" using common_ancestors_reachable by (simp add: A_def starts_def)
  note best = painted_best [OF pd ac _ f, folded A_def, OF finite_subset [OF A fin]]
  note vp = fresh_parsed [OF pd f]
  have sub: "oid_at walk ` set result \<subseteq> reachable env starts" using best(3) A by blast
  have d: "distinct result" using f by (simp add: fresh_def)
  note len = length_le_reachable [OF wf vp(1) d sub fin]
  show ?thesis
  proof (cases "length result \<ge> 2")
    case False
    then show ?thesis using best(2) wf vp(1) d by (simp add: gives_def drop_redundant_def)
  next
    case True
    have le: "length result \<le> history_size env starts" using len(1) card_reachable_le le_trans by blast
    have red: "v_contents (insert_pointers env result GIT_VECTOR_INIT) = result"
      using insert_pointers_contents [OF mem, of GIT_VECTOR_INIT result] le vector_fits_init by (simp add: GIT_VECTOR_INIT_def)
    let ?os = "map (oid_at walk) result"
    have H: "reachable env (set ?os) \<subseteq> reachable env starts"
      using sub by (intro reachable_mono) (auto simp: reachable_def)
    have fuel1: "Suc (length ?os) + 3 * history_size env (set ?os) < fuel"
      using history_size_mono [OF fin H] le fuel by simp
    have ok: "candidates_ok env walk result ?os" using wf vp by (simp add: candidates_ok_def)
    have last: "runs (bnd (remove_redundant fuel env result) (\<lambda>kept.
        bnd get_state (\<lambda>walk1. ret (insert_all_by_date env walk1 kept [])))) w2 (gives env (best_of env A))"
      if w2: "wf_walk env w2" "keeps walk w2" "clean w2" for w2
    proof -
      have ok2: "candidates_ok env w2 result ?os" using candidates_ok_keeps [OF ok w2(2,1)] .
      have best2: "best_of env (set ?os) = best_of env A" using best(1) by simp
      show ?thesis
      proof (rule runs_bnd [OF runs_remove_redundant [OF ac finite_subset [OF H fin] fuel1 len(2) ok2 w2(3)]])
        fix kept w3
        assume "env_mem env \<and> wf_walk env w3 \<and> keeps w2 w3 \<and> (\<exists>ks. distinct ks \<and> set ks \<subseteq> set result \<and>
          mset (List.map_filter id kept) = mset ks \<and> oid_at w2 ` set ks = best_of env (set ?os))"
        then obtain ks where 3: "env_mem env" "wf_walk env w3" "keeps w2 w3" "distinct ks" "set ks \<subseteq> set result"
            "mset (List.map_filter id kept) = mset ks" "oid_at w2 ` set ks = best_of env A"
          unfolding best2 by blast
        have m3: "mset (insert_all_by_date env w3 kept []) = mset ks"
          using insert_all_by_date_mset [OF 3(1)] 3(6) by simp
        have "valid w2 c" if "c \<in> set ks" for c using that ok2 3(5) by (auto simp: list_all_iff candidates_ok_def)
        then have "valid w3 c \<and> oid_at w3 c = oid_at w2 c" if "c \<in> set ks" for c using that keepsD(1,2) [OF 3(3)] by blast
        then show "runs (bnd get_state (\<lambda>walk1. ret (insert_all_by_date env walk1 kept []))) w3 (gives env (best_of env A))"
          using mset_eq_setD [OF m3] mset_eq_imp_distinct_iff [OF m3] 3
          by (auto intro!: runs_bnd [of get_state _ "\<lambda>x y. x = y"] simp: gives_def list_all_iff cong: image_cong)
      qed
    qed
    have fuel2: "1 + length twos + history_size env starts < fuel" using fuel by simp
    show ?thesis unfolding drop_redundant_def
      using True red runs_clear_both [OF pd fin [unfolded starts_def] fuel2 [unfolded starts_def] last] by simp
  qed
qed

lemma runs_bases_many:
  fixes one twos walk env
  defines "starts \<equiv> oid_at walk ` set (one # twos)"
  defines "A \<equiv> common_ancestors env (oid_at walk one) (oid_at walk ` set twos)"
  assumes wf: "wf_walk env walk" "clean walk" and v: "valid walk one" "list_all (valid walk) twos"
    and ac: "acyclic (history env)" and fin: "finite (reachable env starts)"
    and fuel: "Suc (length twos) + 4 * history_size env starts < fuel"
    and mem: "enough_memory env (Suc (length twos) + 3 * history_size env starts)"
  shows "runs (git_merge__bases_many fuel env one twos) walk (gives env (best_of env A))"
proof -
  consider "twos = []" | "twos \<noteq> []" "one \<in> set twos" | "twos \<noteq> []" "one \<notin> set twos" by blast
  then show ?thesis
  proof cases
    case 1
    then show ?thesis using wf by (simp add: git_merge__bases_many_def gives_def best_of_def A_def common_ancestors_def)
  next
    case 2
    have "best_of env A = {oid_at walk one}" unfolding A_def using 2 ac by (intro best_of_self) auto
    then show ?thesis using 2 wf v
      by (auto simp: git_merge__bases_many_def gives_def git_commit_list_insert_def intro!: runs_lift_result split: if_splits)
  next
    case 3
    have parse: "runs (git_commit_list_parse env one) walk
        (\<lambda>_ w. wf_walk env w \<and> keeps walk w \<and> clean w \<and> n_parsed (node w one))"
      using runs_parse [OF wf(1) v(1)] keeps_grows clean_grows [OF wf(2)] by (elim runs_mono) blast
    have at: "oid_at w ` set (one # twos) = starts" "common_ancestors env (oid_at w one) (oid_at w ` set twos) = A"
        "valid w one" "list_all (valid w) twos"
      if "keeps walk w" for w
      using keepsD(1,2) [OF that] v unfolding starts_def A_def by (auto simp: list_all_iff cong: image_cong)
    have finish: "runs (bnd get_state (\<lambda>walk. bnd (lift_result (filter_stale env walk tmp [])) (drop_redundant fuel env one twos)))
        w1 (gives env (best_of env A))"
      if pd: "painted_down env one twos w1" and tmp: "distinct tmp" "set tmp = results w1" and k: "keeps walk w1" for tmp w1
    proof -
      have fr: "fresh w1 result" if r: "filter_stale env w1 tmp [] = Inr result" for result
      proof -
        have m: "mset result = mset (filter (\<lambda>c. \<not> bit (flags_of w1 c) 3) tmp)" using filter_stale_mset [OF r] by simp
        show ?thesis unfolding fresh_def
          using mset_eq_setD [OF m] mset_eq_imp_distinct_iff [OF m] tmp by auto
      qed
      have "runs (drop_redundant fuel env one twos result) w1 (gives env (best_of env A))"
        if "filter_stale env w1 tmp [] = Inr result" for result
        using runs_drop_redundant [OF pd _ ac, of result fuel, unfolded at(1,2) [OF k]] fr [OF that] fin fuel mem by blast
      then show ?thesis
        by (auto intro!: runs_bnd [of get_state _ "\<lambda>x y. x = w1 \<and> y = w1"]
            runs_bnd [OF runs_lift_result, of _ "\<lambda>result w. w = w1 \<and> filter_stale env w1 tmp [] = Inr result"])
    qed
    have paint: "runs (paint_down_to_common fuel env one twos) w (\<lambda>out walk1.
          painted_down env one twos walk1 \<and> distinct out \<and> set out = results walk1 \<and> keeps w walk1)"
      if w: "wf_walk env w" "keeps walk w" "clean w" "n_parsed (node w one)" for w
      using fin fuel by (intro runs_paint_down w(1,3,4) at(3,4) [OF w(2)]) (simp_all only: at(1) [OF w(2)])
    show ?thesis using 3 unfolding git_merge__bases_many_def
      by (auto intro!: runs_bnd [of "minus_one (git_commit_list_parse env one)"] parse runs_bnd [OF paint] finish intro: keeps_trans)
  qed
qed

end
