(* ===== verification/MergeBaseTotal.thy ===== *)
theory MergeBaseTotal
  imports MergeBaseCorrect
begin

text \<open>
  The merge bases are computed without an error when the history is complete and there is memory for
  the queue, and what the functions of the public interface then return.
\<close>

subsection \<open>No errors\<close>

definition no_error :: "('s, 'a) eff \<Rightarrow> 's \<Rightarrow> bool" where
  "no_error m s \<longleftrightarrow> (\<forall>e s1. m s \<noteq> Some (Inl e, s1))"

lemma no_error_bnd:
  assumes "no_error m s" "runs m s P" "\<And>x s1. m s = Some (Inr x, s1) \<Longrightarrow> P x s1 \<Longrightarrow> no_error (k x) s1"
  shows "no_error (bnd m k) s"
  using assms by (auto simp: no_error_def runs_def bnd_def split: option.splits prod.splits sum.splits)

lemma no_error_bnd_plain:
  assumes "no_error m s" "\<And>x s1. m s = Some (Inr x, s1) \<Longrightarrow> no_error (k x) s1"
  shows "no_error (bnd m k) s"
  using assms by (auto simp: no_error_def bnd_def split: option.splits prod.splits sum.splits)

lemma no_error_simps [simp]: "no_error (ret x) s" "no_error get_state s'" "no_error (update_state f) s''"
  by (simp_all add: no_error_def)

lemma no_error_lift_result: "r = Inr x \<Longrightarrow> no_error (lift_result r) s"
  by (simp add: lift_result_def)

lemma no_error_minus_one [simp]: "no_error (minus_one m) s \<longleftrightarrow> no_error m s"
  by (auto simp: no_error_def minus_one_def split: option.splits prod.splits sum.splits)

lemma runs_no_error: "runs m s Q \<Longrightarrow> no_error m s \<Longrightarrow> \<exists>x s1. m s = Some (Inr x, s1) \<and> Q x s1"
  unfolding runs_def no_error_def
  by (metis not_None_eq old.sum.exhaust prod.exhaust)

subsection \<open>A history that can be read\<close>

text \<open>
  Every commit below the starting points is in the object database, has fewer than 65536 parents,
  and there is memory for \<open>n\<close> elements.
\<close>

definition supplied :: "git_env \<Rightarrow> git_oid set \<Rightarrow> nat \<Rightarrow> bool" where
  "supplied env starts n \<longleftrightarrow> finite (reachable env starts) \<and>
     (\<forall>a\<in>reachable env starts. \<exists>t ps. env_odb env a = Inr (Some (t, ps)) \<and> length ps < 65536) \<and>
     history_size env starts \<le> n \<and> enough_memory env n"

lemma supplied_mono:
  assumes "supplied env B n" "reachable env A \<subseteq> reachable env B"
  shows "supplied env A n"
  using assms history_size_mono [of env B A] unfolding supplied_def by (meson finite_subset le_trans subsetD)

lemma supplied_commit:
  assumes "supplied env starts n" "a \<in> reachable env starts"
  obtains t ps where "env_odb env a = Inr (Some (t, ps))" "length ps < 65536" "alloc_parents env (length ps)"
proof -
  obtain t ps where p: "env_odb env a = Inr (Some (t, ps))" "length ps < 65536" using assms by (auto simp: supplied_def)
  have "Suc (n_parents_of env a) \<le> history_size env starts"
    unfolding history_size_def using assms by (intro member_le_sum) (auto simp: supplied_def)
  then have "length ps \<le> n" using assms(1) p by (simp add: n_parents_of_def supplied_def)
  then have "length ps \<le> max 8 (2 * n)" by linarith
  then have "alloc_parents env (length ps)" using assms(1) by (auto simp: alloc_parents_def supplied_def enough_memory_def)
  then show ?thesis using p that by blast
qed

lemma lookup_no_error: "env_mem env \<Longrightarrow> no_error (git_revwalk__commit_lookup env oid) walk"
  by (auto simp: no_error_def git_revwalk__commit_lookup_def split: option.splits)

lemma lookup_parents_no_error: "env_mem env \<Longrightarrow> no_error (lookup_parents env oids) walk"
  by (induction oids arbitrary: walk) (auto intro!: no_error_bnd_plain lookup_no_error)

lemma parse_no_error:
  assumes "supplied env starts n" "oid_at walk c \<in> reachable env starts"
  shows "no_error (git_commit_list_parse env c) walk"
proof (cases "n_parsed (node walk c)")
  case True
  then show ?thesis by (simp add: no_error_def git_commit_list_parse_def)
next
  case False
  have mem: "env_mem env" using assms(1) by (simp add: supplied_def enough_memory_def)
  obtain t ps where p: "env_odb env (oid_at walk c) = Inr (Some (t, ps))" "length ps < 65536" "alloc_parents env (length ps)"
    using supplied_commit [OF assms] by blast
  have "no_error (commit_quick_parse env c (t, ps)) walk"
    unfolding commit_quick_parse_def using mem p
    by (auto intro!: no_error_bnd_plain lookup_parents_no_error)
  moreover have "git_commit_list_parse env c walk = commit_quick_parse env c (t, ps) walk"
    using False p(1) by (simp add: git_commit_list_parse_def oid_at_def)
  ultimately show ?thesis by (simp add: no_error_def)
qed

lemma enqueue_no_error:
  assumes "enough_memory env n" "queue_ok env walk pq" "size (elems pq) \<le> n"
  shows "no_error (enqueue env pq c) walk"
proof -
  have q: "vector_fits (queue_at walk pq)" "\<not> fixed_size (queue_at walk pq)" "v_length (queue_at walk pq) \<le> n"
    using assms(2,3) by (auto simp: queue_ok_def growing_inv_def pqueue_inv_def queue_at_def elems_def)
  obtain v1 where "git_vector_insert (env_can_alloc env) (queue_at walk pq) c = Inr v1"
    using insert_grows [OF assms(1) q(3,1)] by blast
  then have "\<exists>pq1. git_pqueue_insert (env_can_alloc env) (queue_at walk pq) c = Inr pq1"
    using q(2) by (auto simp: git_pqueue_insert_def fixed_size_def Let_def split: option.splits)
  then show ?thesis by (auto simp: no_error_def enqueue_def)
qed

subsection \<open>Painting\<close>

lemma paint_parents_Cons:
  "paint_parents env g (p # ps) pq walk = bnd (paint_parents env g [p] pq) (paint_parents env g ps) walk"
  by (auto simp: bnd_def get_state_def ret_def update_state_def split: option.splits prod.splits sum.splits)

lemma paint_inv_reachable:
  assumes "paint_inv env one twos walk pq X" "valid walk c" "flags_of walk c \<noteq> 0" "p \<in> set (parents_of walk c)"
  shows "oid_at walk p \<in> reachable env (oid_at walk ` set (one # twos))"
proof -
  have wf: "wf_walk env walk" using assms(1) by (simp add: paint_inv_def)
  obtain s where s: "s \<in> set (one # twos)" "(s, c) \<in> (linked walk)\<^sup>*"
    using paint_inv_reached [OF assms(1)] assms(2,3) by (auto simp: reached_def)
  have "(oid_at walk s, oid_at walk p) \<in> (history env)\<^sup>*"
    using linked_history [OF wf s(2)] parents_history(3) [OF wf assms(2,4)] by (rule rtrancl.rtrancl_into_rtrancl)
  then show ?thesis using s(1) by (auto simp: reachable_def)
qed

text \<open>The length of the queue stays below its first length and three times the count of commits.\<close>

definition queue_fits :: "git_env \<Rightarrow> nat \<Rightarrow> nat list \<Rightarrow> git_revwalk \<Rightarrow> nat git_pqueue \<Rightarrow> nat \<Rightarrow> bool" where
  "queue_fits env one twos walk pq n \<longleftrightarrow> supplied env (oid_at walk ` set (one # twos)) n \<and>
     (\<exists>k. size (elems pq) \<le> k + pot walk \<and> k + 3 * history_size env (oid_at walk ` set (one # twos)) \<le> n)"

lemma queue_fits_size:
  assumes "paint_inv env one twos walk pq X" "queue_fits env one twos walk pq n"
  shows "size (elems pq) \<le> n"
proof -
  have "pot walk \<le> 3 * card (reachable env (oid_at walk ` set (one # twos)))"
    using assms(2) by (intro pot_bound [OF assms(1)]) (simp add: queue_fits_def supplied_def)
  also have "\<dots> \<le> 3 * history_size env (oid_at walk ` set (one # twos))"
    using card_reachable_le [of env "oid_at walk ` set (one # twos)"] by simp
  finally show ?thesis using assms(2) by (auto simp: queue_fits_def)
qed

lemma queue_fits_step:
  assumes "queue_fits env one twos walk pq n" "list_all (valid walk) (one # twos)" "\<And>c. valid walk c \<Longrightarrow> oid_at walk1 c = oid_at walk c"
    "size (elems pq1) + pot walk \<le> size (elems pq) + pot walk1"
  shows "queue_fits env one twos walk1 pq1 n"
proof -
  have "oid_at walk1 ` set (one # twos) = oid_at walk ` set (one # twos)"
    using assms(2,3) by (intro image_cong refl) (auto simp: list_all_iff)
  moreover obtain k where "size (elems pq) \<le> k + pot walk" "k + 3 * history_size env (oid_at walk ` set (one # twos)) \<le> n"
    using assms(1) by (auto simp: queue_fits_def)
  moreover from this(1) have "size (elems pq1) \<le> k + pot walk1" using assms(4) by linarith
  ultimately show ?thesis using assms(1) unfolding queue_fits_def by auto
qed

lemma paint_one_no_error:
  assumes inv: "paint_inv env one twos walk pq X" and q: "queue_fits env one twos walk pq n"
    and c: "valid walk c" "flags_of walk c \<noteq> 0" and p: "p \<in> set (parents_of walk c)"
  shows "no_error (paint_parents env g [p] pq) walk"
proof -
  have wf: "wf_walk env walk" and sup: "supplied env (oid_at walk ` set (one # twos)) n"
    using inv q by (simp_all add: paint_inv_def queue_fits_def)
  have vp: "valid walk p" using parsed_parents_valid [OF wf c(1) p] .
  have "no_error (enqueue env pq p) (add_flags p g w)" if w: "git_commit_list_parse env p walk = Some (Inr (), w)" for w
  proof -
    have ps: "wf_walk env w" "grows walk w" using parse_spec [OF w wf vp] by auto
    have "queue_ok env w pq" using paint_inv_grows [OF inv ps(2,1)] by (simp add: paint_inv_def)
    then have "queue_ok env (add_flags p g w) pq"
      unfolding add_flags_def using grows_valid [OF ps(2) vp] by (rule queue_ok_set_flags)
    then show ?thesis using queue_fits_size [OF inv q] sup by (intro enqueue_no_error) (simp_all add: supplied_def)
  qed
  then show ?thesis
    using parse_no_error [OF sup paint_inv_reachable [OF inv c p]]
    by (auto intro!: no_error_bnd_plain)
qed

lemma paint_parents_no_error:
  "paint_inv env one twos walk pq X \<Longrightarrow> queue_fits env one twos walk pq n \<Longrightarrow> valid walk c \<Longrightarrow> n_parsed (node walk c) \<Longrightarrow>
   set ps \<subseteq> set (parents_of walk c) \<Longrightarrow> justified walk c g \<Longrightarrow> no_error (paint_parents env g ps pq) walk"
proof (induction ps arbitrary: walk pq)
  case (Cons p ps)
  have nz: "flags_of walk c \<noteq> 0" using Cons.prems(6) by (simp add: justified_def)
  have p: "p \<in> set (parents_of walk c)" using Cons.prems(5) by simp
  have starts: "list_all (valid walk) (one # twos)" using Cons.prems(1) by (simp add: paint_inv_def)
  have "no_error (paint_parents env g ps pq1) walk1" if s: "paint_parents env g [p] pq walk = Some (Inr pq1, walk1)" for pq1 walk1
  proof -
    have 1: "paint_inv env one twos walk1 pq1 X" "painted walk pq walk1 pq1"
        "\<forall>d. valid walk d \<longrightarrow> n_parsed (node walk d) \<longrightarrow> n_parsed (node walk1 d)"
      using paint_parents_spec [OF s Cons.prems(1,3,4) _ Cons.prems(6)] p by auto
    have same: "oid_at walk1 d = oid_at walk d" "valid walk1 d" "n_parsed (node walk d) \<Longrightarrow> parents_of walk1 d = parents_of walk d"
      if "valid walk d" for d using 1(2) that by (simp_all add: painted_def)
    have "queue_fits env one twos walk1 pq1 n"
      using Cons.prems(2) starts same(1) by (rule queue_fits_step) (use 1(2) in \<open>auto simp: painted_def\<close>)
    then show ?thesis
      using Cons.IH [OF 1(1) _ same(2)] Cons.prems(3-5) same(3) 1(3) justified_painted [OF Cons.prems(6) 1(2)] by auto
  qed
  then have "no_error (bnd (paint_parents env g [p] pq) (paint_parents env g ps)) walk"
    using paint_one_no_error [OF Cons.prems(1,2,3) nz p] by (intro no_error_bnd_plain)
  then show ?case by (simp add: no_error_def paint_parents_Cons [of env g p ps pq walk] del: paint_parents.simps)
qed simp

lemma paint_loop_no_error:
  "paint_inv env one twos walk pq {} \<Longrightarrow> queue_fits env one twos walk pq n \<Longrightarrow> no_error (paint_loop fuel env pq res) walk"
proof (induction fuel arbitrary: pq res walk)
  case 0
  then show ?case by (simp add: no_error_def)
next
  case (Suc fuel)
  have q: "queue_ok env walk pq" using Suc.prems(1) by (simp add: paint_inv_def)
  have starts: "list_all (valid walk) (one # twos)" using Suc.prems(1) by (simp add: paint_inv_def)
  have mem: "env_mem env" using Suc.prems(2) by (simp add: queue_fits_def supplied_def enough_memory_def)
  show ?case
  proof (cases "interesting walk pq")
    case False
    then show ?thesis by (simp add: no_error_def)
  next
    case True
    then have "elems pq \<noteq> {#}" by (auto simp: interesting_def elems_def)
    then obtain c pq1 where c: "git_pqueue_pop (queue_at walk pq) = (Some c, pq1)" "queue_ok env walk pq1"
        "elems pq = add_mset c (elems pq1)" "valid walk c" "n_parsed (node walk c)"
      using pop_spec [OF q] by (auto split: prod.splits option.splits)
    define found where "found = (is_result (flags_of walk c) \<and> \<not> has (flags_of walk c) RESULT)"
    define w where "w = (if found then add_flags c RESULT walk else walk)"
    have nz: "flags_of walk c \<noteq> 0" using Suc.prems(1) c(3) by (simp add: paint_inv_def)
    note start = paint_step_start [OF Suc.prems(1) c(2-5) nz found_def w_def]
    have oids: "oid_at w d = oid_at walk d" if "valid walk d" for d using keepsD(2) [OF start(3) that] .
    have "queue_fits env one twos w pq1 n"
      using Suc.prems(2) starts oids by (rule queue_fits_step) (use c(3) start(7) in auto)
    then have pn: "no_error (paint_parents env (passed_flags (flags_of walk c)) (parents_of walk c) pq1) w"
      using paint_parents_no_error [OF start(1) _ start(4,5) _ start(2)] start(6) by simp
    have loop: "no_error (paint_loop fuel env pq2 res1) walk2"
      if p: "paint_parents env (passed_flags (flags_of walk c)) (parents_of walk c) pq1 w = Some (Inr pq2, walk2)" for pq2 res1 walk2
    proof -
      note step = paint_step [OF Suc.prems(1) c(2-5) nz found_def w_def p]
      then have "queue_fits env one twos walk2 pq2 n"
        using keepsD(2) by (intro queue_fits_step [OF Suc.prems(2) starts]) auto
      then show ?thesis using step by (intro Suc.IH) auto
    qed
    have "no_error (bnd (if found then lift_result (git_commit_list_insert env c res) else ret res) (\<lambda>res1.
        bnd (paint_parents env (passed_flags (flags_of walk c)) (parents_of walk c) pq1) (\<lambda>pq2. paint_loop fuel env pq2 res1))) w"
      using pn loop mem
      by (auto intro!: no_error_bnd_plain simp: lift_result_def git_commit_list_insert_def)
    then show ?thesis using True c(1) by (simp add: no_error_def Let_def found_def [symmetric] w_def)
  qed
qed

lemma reachable_start: "s \<in> A \<Longrightarrow> s \<in> reachable env A"
  by (auto simp: reachable_def)

lemma paint_twos_no_error:
  "paint_inv env one ready walk pq {} \<Longrightarrow> list_all (valid walk) twos \<Longrightarrow> supplied env A n \<Longrightarrow>
   oid_at walk ` set twos \<subseteq> A \<Longrightarrow> size (elems pq) + length twos \<le> n \<Longrightarrow> no_error (paint_twos env twos pq) walk"
proof (induction twos arbitrary: walk pq ready)
  case (Cons two twos)
  have v: "valid walk two" using Cons.prems(2) by simp
  have wf: "wf_walk env walk" using Cons.prems(1) by (simp add: paint_inv_def)
  have mem: "enough_memory env n" using Cons.prems(3) by (simp add: supplied_def)
  have rest: "no_error (bnd (enqueue env pq two) (paint_twos env twos)) (add_flags two PARENT2 w)"
    if w: "git_commit_list_parse env two walk = Some (Inr (), w)" for w
  proof -
    have ps: "wf_walk env w" "grows walk w" "n_parsed (node w two)" using parse_spec [OF w wf v] by auto
    have vw: "valid w two" using grows_valid [OF ps(2) v] .
    note simps = add_flags_simps [OF vw]
    have 1: "paint_inv env one ready w pq {}" using paint_inv_grows [OF Cons.prems(1) ps(2,1)] .
    have q: "queue_ok env (add_flags two PARENT2 w) pq" unfolding add_flags_def
      using 1 vw by (intro queue_ok_set_flags) (simp_all add: paint_inv_def)
    have en: "no_error (enqueue env pq two) (add_flags two PARENT2 w)"
      using Cons.prems(5) by (intro enqueue_no_error [OF mem q]) simp
    have "no_error (paint_twos env twos pq2) w2" if e: "enqueue env pq two (add_flags two PARENT2 w) = Some (Inr pq2, w2)" for pq2 w2
    proof -
      have w2: "w2 = add_flags two PARENT2 w" using enqueue_same [OF e] .
      have q2: "queue_ok env (add_flags two PARENT2 w) pq2" "elems pq2 = add_mset two (elems pq)"
        using enqueue_spec [OF e q] vw ps(3) by (simp_all add: simps)
      have 2: "paint_inv env one (two # ready) w2 pq2 {}"
        unfolding w2 by (rule paint_inv_two [OF 1 vw ps(3) q2])
      have "oid_at w2 c = oid_at walk c \<and> valid w2 c" if "valid walk c" for c
        using grows_node(1) [OF ps(2) that] grows_valid [OF ps(2) that] by (simp add: w2 simps)
      then show ?thesis using Cons.prems(2,4,5) q2(2)
        by (intro Cons.IH [OF 2 _ Cons.prems(3)]) (auto simp: list_all_iff)
    qed
    then show ?thesis using en by (intro no_error_bnd_plain)
  qed
  have p: "no_error (git_commit_list_parse env two) walk"
    using Cons.prems(4) by (intro parse_no_error [OF Cons.prems(3)] reachable_start) simp
  show ?case unfolding paint_twos.simps using rest
    by (intro no_error_bnd_plain [OF p] no_error_bnd_plain [of "update_state (add_flags two PARENT2)"]) auto
qed simp

lemma pqueue_init_no_error:
  assumes "enough_memory env n" "k \<le> n"
  shows "\<exists>pq. git_pqueue_init (env_can_alloc env) 0 (k * 2) cmp = Inr pq"
proof -
  have "max (k * 2) MIN_ALLOCSIZE \<le> max 8 (2 * n)" using assms(2) by (simp add: MIN_ALLOCSIZE_def)
  then have "env_can_alloc env (max (k * 2) MIN_ALLOCSIZE)" using assms(1) unfolding enough_memory_def by blast
  then show ?thesis
    by (auto simp: git_pqueue_init_def git_vector_init_def resize_vector_def MIN_ALLOCSIZE_def Let_def)
qed

lemma paint_down_no_error:
  assumes wf: "wf_walk env walk" "clean walk" "valid walk one" "n_parsed (node walk one)" "list_all (valid walk) twos"
    and sup: "supplied env (oid_at walk ` set (one # twos)) n"
    and n: "Suc (length twos) + 3 * history_size env (oid_at walk ` set (one # twos)) \<le> n"
  shows "no_error (paint_down_to_common fuel env one twos) walk"
proof -
  have mem: "enough_memory env n" using sup by (simp add: supplied_def)
  obtain pq where p: "git_pqueue_init (env_can_alloc env) 0 (length twos * 2) (Some (git_commit_list_time_cmp walk)) = Inr pq"
    using pqueue_init_no_error [OF mem, of "length twos"] n by auto
  have q: "queue_ok env walk pq" "elems pq = {#}" using pqueue_init_ok [OF p] by auto
  then have q1: "queue_ok env (add_flags one PARENT1 walk) pq"
    unfolding add_flags_def using wf(3) by (intro queue_ok_set_flags)
  have en: "no_error (enqueue env pq one) (add_flags one PARENT1 walk)"
    using q(2) by (intro enqueue_no_error [OF mem q1]) simp
  have rest: "no_error (bnd (minus_one (paint_twos env twos pq1)) (\<lambda>pq2. paint_loop fuel env pq2 [])) w1"
    if e: "enqueue env pq one (add_flags one PARENT1 walk) = Some (Inr pq1, w1)" for pq1 w1
  proof -
    have w1: "w1 = add_flags one PARENT1 walk" using enqueue_same [OF e] .
    have q2: "queue_ok env w1 pq1" "elems pq1 = {#one#}"
      using enqueue_spec [OF e q1] wf(3,4) q(2) by (simp_all add: w1 add_flags_simps [OF wf(3)])
    have inv: "paint_inv env one [] w1 pq1 {}" unfolding w1 using wf q2 unfolding w1 by (intro paint_inv_start)
    have same: "oid_at w1 c = oid_at walk c" "valid w1 c = valid walk c" for c by (simp_all add: w1 add_flags_simps [OF wf(3)])
    have tw: "no_error (minus_one (paint_twos env twos pq1)) w1"
      using wf(5) q2(2) n by (auto intro!: paint_twos_no_error [OF inv _ sup] simp: same list_all_iff)
    have "no_error (paint_loop fuel env pq2 []) w2" if t: "paint_twos env twos pq1 w1 = Some (Inr pq2, w2)" for pq2 w2
    proof -
      have s: "paint_inv env one twos w2 pq2 {}" "keeps walk w2" "size (elems pq2) = Suc (length twos)"
        using paint_start [OF p e t wf] by auto
      have "oid_at w2 ` set (one # twos) = oid_at walk ` set (one # twos)"
        using keepsD(2) [OF s(2)] wf(3,5) by (intro image_cong refl) (auto simp: list_all_iff)
      then have "queue_fits env one twos w2 pq2 n" using sup n s(3) unfolding queue_fits_def
        by (intro conjI exI [of _ "Suc (length twos)"]) simp_all
      then show ?thesis by (rule paint_loop_no_error [OF s(1)])
    qed
    then show ?thesis using tw by (intro no_error_bnd_plain) simp_all
  qed
  have "no_error (bnd (update_state (add_flags one PARENT1)) (\<lambda>_.
      bnd (enqueue env pq one) (\<lambda>pq1. bnd (minus_one (paint_twos env twos pq1)) (\<lambda>pq2. paint_loop fuel env pq2 [])))) walk"
    using rest by (intro no_error_bnd_plain [of "update_state (add_flags one PARENT1)"] no_error_bnd_plain [of "enqueue env pq one"])
      (use en in auto)
  then show ?thesis using p by (simp add: no_error_def paint_down_to_common_def)
qed

subsection \<open>Clearing and redundant commits\<close>

lemma clear_list_no_error: "no_error (clear_list fuel list mark) walk"
  by (induction fuel arbitrary: list walk)
    (auto simp: no_error_def git_commit_list_pop_def split: option.splits list.splits)

lemma clear_no_error:
  "env_mem env \<Longrightarrow> no_error (clear_commit_marks fuel env c mark) walk"
  "env_mem env \<Longrightarrow> no_error (clear_commit_marks_many fuel env cs mark) walk"
  by (simp_all add: clear_commit_marks_def clear_commit_marks_many_def clear_list_no_error)

lemma fill_work_grows:
  "enough_memory env n \<Longrightarrow> v_length work + length js \<le> n \<Longrightarrow> vector_fits work \<Longrightarrow>
   \<exists>work1. fill_work env cs js work = Inr work1 \<and> vector_fits work1"
proof (induction js arbitrary: work)
  case (Cons j js)
  obtain v1 where v1: "git_vector_insert (env_can_alloc env) work (cs ! j) = Inr v1" "vector_fits v1"
    using insert_grows [OF Cons.prems(1) _ Cons.prems(3)] Cons.prems(2) by auto
  then show ?case using Cons git_vector_insert_contents [OF v1(1)] by simp
qed simp

lemma bnd_ret_unit: "bnd m (\<lambda>_. ret ()) s = m s"
  by (auto simp: bnd_def ret_def split: option.splits prod.splits sum.splits)

lemma clear_both_no_error:
  assumes mem: "env_mem env" and pd: "painted_down env one twos walk"
    and fin: "finite (reachable env (oid_at walk ` set (one # twos)))"
    and fuel: "1 + length twos + history_size env (oid_at walk ` set (one # twos)) < fuel"
    and k: "\<And>walk1. wf_walk env walk1 \<Longrightarrow> keeps walk walk1 \<Longrightarrow> clean walk1 \<Longrightarrow> no_error k walk1"
  shows "no_error (bnd (clear_commit_marks fuel env one ALL_FLAGS)
    (\<lambda>_. bnd (clear_commit_marks_many fuel env twos ALL_FLAGS) (\<lambda>_. k))) walk"
proof -
  let ?both = "bnd (clear_commit_marks fuel env one ALL_FLAGS) (\<lambda>_. clear_commit_marks_many fuel env twos ALL_FLAGS)"
  have "runs (bnd ?both (\<lambda>_. ret ())) walk (\<lambda>_ w. wf_walk env w \<and> keeps walk w \<and> clean w)"
    unfolding runs_def bnd_assoc using runs_clear_both [OF pd fin fuel, of "ret ()" "\<lambda>_ w. wf_walk env w \<and> keeps walk w \<and> clean w"]
    by (simp add: runs_def del: bnd_Inr bnd_None)
  then have r: "runs ?both walk (\<lambda>_ w. wf_walk env w \<and> keeps walk w \<and> clean w)" unfolding runs_def bnd_ret_unit .
  have "no_error ?both walk" using clear_no_error [OF mem] by (intro no_error_bnd_plain)
  then have "no_error (bnd ?both (\<lambda>_. k)) walk" using r by (rule no_error_bnd) (use k in auto)
  then show ?thesis unfolding no_error_def bnd_assoc .
qed

lemma redundant_loop_no_error:
  assumes fuel: "Suc (length os) + 3 * history_size env (set os) < fuel" and sup: "supplied env (set os) n"
    and n: "Suc (length os) + 3 * history_size env (set os) \<le> n"
  shows "candidates_ok env walk cs os \<Longrightarrow> clean walk \<Longrightarrow> set is \<subseteq> {..<length cs} \<Longrightarrow> length r = length cs \<Longrightarrow>
    vector_fits work \<Longrightarrow> no_error (redundant_loop fuel env cs is work r) walk"
proof (induction "is" arbitrary: walk work r)
  case (Cons i "is")
  have ok: "wf_walk env walk" "list_all (valid walk) cs" "list_all (\<lambda>c. n_parsed (node walk c)) cs" "map (oid_at walk) cs = os"
    using Cons.prems(1) by (auto simp: candidates_ok_def)
  have i: "i < length cs" using Cons.prems(3) by simp
  have len: "length os = length cs" "length r = length cs" using ok(4) Cons.prems(4) by auto
  have mem: "enough_memory env n" "env_mem env" and fin: "finite (reachable env (set os))"
    using sup by (auto simp: supplied_def enough_memory_def)
  show ?case
  proof (cases "r ! i")
    case True
    then show ?thesis using Cons by simp
  next
    case False
    let ?f = "filled_index r i"
    let ?twos = "map ((!) cs) ?f"
    have one: "valid walk (cs ! i)" "n_parsed (node walk (cs ! i))" using ok i by (auto simp: list_all_length)
    have twos: "list_all (valid walk) ?twos" using ok(2) len by (auto simp: list_all_iff filled_index_set)
    have le: "length ?twos \<le> length os" using length_filled_index [of r i] len by simp
    have start: "oid_at walk ` set (cs ! i # ?twos) \<subseteq> set os"
      unfolding ok(4) [symmetric] using i len by (auto simp: filled_index_set)
    then have H: "reachable env (oid_at walk ` set (cs ! i # ?twos)) \<subseteq> reachable env (set os)"
      by (intro reachable_mono) blast
    have fin1: "finite (reachable env (oid_at walk ` set (cs ! i # ?twos)))" using finite_subset [OF H fin] .
    note size = history_size_mono [OF fin H]
    have sup1: "supplied env (oid_at walk ` set (cs ! i # ?twos)) n" using supplied_mono [OF sup H] .
    have fuel1: "Suc (length ?twos) + 3 * history_size env (oid_at walk ` set (cs ! i # ?twos)) < fuel"
      and n1: "Suc (length ?twos) + 3 * history_size env (oid_at walk ` set (cs ! i # ?twos)) \<le> n"
      using size fuel n le by simp_all
    obtain work1 where w1: "fill_work env cs ?f (git_vector_clear work) = Inr work1" "vector_fits work1"
      using fill_work_grows [OF mem(1), of "git_vector_clear work" ?f cs] Cons.prems(5) le n
      by (auto simp: git_vector_clear_contents vector_fits_def git_vector_clear_def git_vector_set_sorted_def)
    have c1: "v_contents work1 = ?twos" using fill_work_contents [OF w1(1)] by (simp add: git_vector_clear_contents)
    note paint = runs_paint_down [OF ok(1) Cons.prems(2) one twos fin1 fuel1]
    have rest: "no_error (bnd (clear_commit_marks fuel env (cs ! i) ALL_FLAGS)
        (\<lambda>_. bnd (clear_commit_marks_many fuel env ?twos ALL_FLAGS)
          (\<lambda>_. redundant_loop fuel env cs is work1 (mark_redundant w cs i ?f r)))) w"
      if pd: "painted_down env (cs ! i) ?twos w" "keeps walk w" for w
    proof (rule clear_both_no_error [OF mem(2) pd(1)])
      have same: "oid_at w ` set (cs ! i # ?twos) = oid_at walk ` set (cs ! i # ?twos)"
        using keepsD(2) [OF pd(2)] one(1) twos by (intro image_cong refl) (auto simp: list_all_iff)
      show "finite (reachable env (oid_at w ` set (cs ! i # ?twos)))" unfolding same by (rule fin1)
      show "1 + length ?twos + history_size env (oid_at w ` set (cs ! i # ?twos)) < fuel" unfolding same using fuel1 by simp
      show "no_error (redundant_loop fuel env cs is work1 (mark_redundant w cs i ?f r)) w2"
        if "wf_walk env w2" "keeps w w2" "clean w2" for w2
        using that keeps_trans [OF pd(2)] Cons.prems(3) len w1(2)
        by (intro Cons.IH candidates_ok_keeps [OF Cons.prems(1)]) (simp_all add: mark_redundant_nth)
    qed
    have "no_error (bnd (paint_down_to_common fuel env (cs ! i) (v_contents work1)) (\<lambda>common.
        bnd get_state (\<lambda>w. bnd (clear_commit_marks fuel env (cs ! i) ALL_FLAGS)
          (\<lambda>_. bnd (clear_commit_marks_many fuel env (v_contents work1) ALL_FLAGS)
            (\<lambda>_. redundant_loop fuel env cs is work1 (mark_redundant w cs i ?f r)))))) walk"
      unfolding c1 using paint_down_no_error [OF ok(1) Cons.prems(2) one twos sup1 n1] paint
      by (rule no_error_bnd) (use rest in \<open>auto intro!: no_error_bnd_plain [of get_state]\<close>)
    then show ?thesis using False w1(1) by (simp add: Let_def lift_result_def no_error_def bnd_def ret_def)
  qed
qed simp

lemma remove_redundant_no_error:
  assumes fuel: "Suc (length os) + 3 * history_size env (set os) < fuel" and sup: "supplied env (set os) n"
    and n: "Suc (length os) + 3 * history_size env (set os) \<le> n" and ok: "candidates_ok env walk cs os" "clean walk"
  shows "no_error (remove_redundant fuel env cs) walk"
proof -
  have mem: "env_mem env" using sup by (simp add: supplied_def enough_memory_def)
  have parsed: "list_all (\<lambda>c. n_parsed (node walk c)) cs" using ok(1) by (auto simp: candidates_ok_def)
  have loop: "no_error (redundant_loop fuel env cs [0..<length cs] GIT_VECTOR_INIT (replicate (length cs) False)) walk"
    by (rule redundant_loop_no_error [OF fuel sup n ok]) (auto simp: vector_fits_init)
  show ?thesis unfolding remove_redundant_def using mem for_each_parse_parsed [OF parsed] loop
    by (auto intro!: no_error_bnd_plain) (simp add: no_error_def)
qed

lemma filter_stale_ok:
  assumes "env_mem env"
  shows "\<exists>out. filter_stale env walk tmp result = Inr out"
proof (induction tmp arbitrary: result)
  case (Cons c tmp)
  obtain r where "git_commit_list_insert_by_date env walk c result = Inr r" using insert_by_date_Inl [OF assms] by blast
  then show ?case using Cons by simp
qed simp

lemma drop_redundant_no_error:
  fixes one twos walk env
  defines "starts \<equiv> oid_at walk ` set (one # twos)"
  assumes pd: "painted_down env one twos walk" and f: "fresh walk result" and ac: "acyclic (history env)"
    and sup: "supplied env starts n" and n: "Suc (length twos) + 4 * history_size env starts \<le> n" "n < fuel"
  shows "no_error (drop_redundant fuel env one twos result) walk"
proof (cases "length result \<ge> 2")
  case False
  then show ?thesis by (simp add: drop_redundant_def)
next
  case True
  have mem: "enough_memory env n" "env_mem env" and fin: "finite (reachable env starts)"
    using sup by (auto simp: supplied_def enough_memory_def)
  have wf: "wf_walk env walk" using pd by (auto simp: painted_down_def paint_inv_def)
  let ?A = "common_ancestors env (oid_at walk one) (oid_at walk ` set twos)"
  have A: "?A \<subseteq> reachable env starts" using common_ancestors_reachable by (simp add: starts_def)
  have "oid_at walk ` set result \<subseteq> ?A" using painted_best(3) [OF pd ac finite_subset [OF A fin] f] .
  then have sub: "oid_at walk ` set result \<subseteq> reachable env starts" using A by blast
  note vp = fresh_parsed [OF pd f]
  have d: "distinct result" using f by (simp add: fresh_def)
  have le: "length result \<le> history_size env starts"
    using length_le_reachable(1) [OF wf vp(1) d sub fin] card_reachable_le le_trans by blast
  have red: "v_contents (insert_pointers env result GIT_VECTOR_INIT) = result"
    using insert_pointers_contents [OF mem(1), of GIT_VECTOR_INIT result] le n vector_fits_init by (simp add: GIT_VECTOR_INIT_def)
  let ?os = "map (oid_at walk) result"
  have H: "reachable env (set ?os) \<subseteq> reachable env starts"
    using sub by (intro reachable_mono) (auto simp: reachable_def)
  have b: "Suc (length ?os) + 3 * history_size env (set ?os) \<le> n" using history_size_mono [OF fin H] le n by simp
  have ok: "candidates_ok env walk result ?os" using wf vp by (simp add: candidates_ok_def)
  have last: "no_error (bnd (remove_redundant fuel env result) (\<lambda>kept.
      bnd get_state (\<lambda>walk1. ret (insert_all_by_date env walk1 kept [])))) w"
    if w: "wf_walk env w" "keeps walk w" "clean w" for w
    by (rule no_error_bnd_plain [OF remove_redundant_no_error [OF le_less_trans [OF b n(2)] supplied_mono [OF sup H] b
          candidates_ok_keeps [OF ok w(2,1)] w(3)]]) (simp add: no_error_bnd_plain)
  have fuel: "1 + length twos + history_size env starts < fuel" using n by simp
  show ?thesis unfolding drop_redundant_def
    using True red clear_both_no_error [OF mem(2) pd fin [unfolded starts_def] fuel [unfolded starts_def] last] by simp
qed

lemma bases_many_no_error:
  fixes one twos walk env
  defines "starts \<equiv> oid_at walk ` set (one # twos)"
  assumes wf: "wf_walk env walk" "clean walk" and v: "valid walk one" "list_all (valid walk) twos" and ac: "acyclic (history env)"
    and sup: "supplied env starts n" and n: "Suc (length twos) + 4 * history_size env starts \<le> n" "n < fuel"
  shows "no_error (git_merge__bases_many fuel env one twos) walk"
proof -
  have mem: "env_mem env" and fin: "finite (reachable env starts)" using sup by (simp_all add: supplied_def enough_memory_def)
  have at: "oid_at w ` set (one # twos) = starts" "valid w one" "list_all (valid w) twos" if "keeps walk w" for w
    using keepsD(1,2) [OF that] v unfolding starts_def by (auto simp: list_all_iff cong: image_cong)
  have parse: "no_error (minus_one (git_commit_list_parse env one)) walk"
    using parse_no_error [OF sup, of walk one] reachable_start by (simp add: starts_def)
  have finish: "no_error (bnd get_state (\<lambda>walk. bnd (lift_result (filter_stale env walk tmp [])) (drop_redundant fuel env one twos))) w1"
    if pd: "painted_down env one twos w1" and tmp: "distinct tmp" "set tmp = results w1" and k: "keeps walk w1" for tmp w1
  proof -
    obtain result where r: "filter_stale env w1 tmp [] = Inr result" using filter_stale_ok [OF mem] by blast
    have m: "mset result = mset (filter (\<lambda>c. \<not> bit (flags_of w1 c) 3) tmp)" using filter_stale_mset [OF r] by simp
    have "fresh w1 result" unfolding fresh_def using mset_eq_setD [OF m] mset_eq_imp_distinct_iff [OF m] tmp by auto
    then have "no_error (drop_redundant fuel env one twos result) w1"
      using drop_redundant_no_error [OF pd _ ac, of result n fuel, unfolded at(1) [OF k]] sup n by blast
    then show ?thesis using r by (simp add: no_error_def bnd_def get_state_def lift_result_def ret_def)
  qed
  have rest: "no_error (bnd (paint_down_to_common fuel env one twos) (\<lambda>tmp.
      bnd get_state (\<lambda>walk. bnd (lift_result (filter_stale env walk tmp [])) (drop_redundant fuel env one twos)))) w"
    if w: "git_commit_list_parse env one walk = Some (Inr (), w)" for w
  proof -
    have p: "wf_walk env w" "keeps walk w" "clean w" "n_parsed (node w one)"
      using parse_spec [OF w wf(1) v(1)] keeps_grows clean_grows [OF wf(2)] by auto
    have paint: "runs (paint_down_to_common fuel env one twos) w (\<lambda>out walk1.
          painted_down env one twos walk1 \<and> distinct out \<and> set out = results walk1 \<and> keeps w walk1)"
      using fin n by (intro runs_paint_down p(1,3,4) at(2,3) [OF p(2)]) (simp_all only: at(1) [OF p(2)])
    have "no_error (paint_down_to_common fuel env one twos) w"
      using sup n by (intro paint_down_no_error [OF p(1,3) at(2) [OF p(2)] p(4) at(3) [OF p(2)], of n]) (simp_all only: at(1) [OF p(2)])
    then show ?thesis using paint by (rule no_error_bnd) (use finish keeps_trans [OF p(2)] in blast)
  qed
  consider "twos = [] \<or> one \<in> set twos" | "twos \<noteq> []" "one \<notin> set twos" by blast
  then show ?thesis
  proof cases
    case 1
    then show ?thesis using mem
      by (auto simp: git_merge__bases_many_def git_commit_list_insert_def intro!: no_error_lift_result)
  next
    case 2
    have "no_error (bnd (minus_one (git_commit_list_parse env one)) (\<lambda>_.
        bnd (paint_down_to_common fuel env one twos) (\<lambda>tmp.
          bnd get_state (\<lambda>walk. bnd (lift_result (filter_stale env walk tmp [])) (drop_redundant fuel env one twos))))) walk"
      using parse rest by (intro no_error_bnd_plain [OF parse]) simp
    then show ?thesis using 2 by (simp add: git_merge__bases_many_def)
  qed
qed

end
