(* ===== verification/MergeBasePublic.thy ===== *)
theory MergeBasePublic
  imports MergeBaseTotal OidCorrect
begin

text \<open>
  The functions of the public interface of \<open>merge.c\<close> and \<open>graph.c\<close> that rest on the merge bases.
\<close>

subsection \<open>A new walk\<close>

lemma lookup_ok:
  assumes "env_mem env" "wf_walk env walk" "clean walk"
  obtains c walk1 where "git_revwalk__commit_lookup env oid walk = Some (Inr c, walk1)" "wf_walk env walk1" "clean walk1"
    "keeps walk walk1" "valid walk1 c" "oid_at walk1 c = oid"
proof -
  obtain c walk1 where l: "git_revwalk__commit_lookup env oid walk = Some (Inr c, walk1)"
    using lookup_no_error [OF assms(1)] commit_lookup_total unfolding no_error_def
    by (metis not_None_eq old.sum.exhaust prod.exhaust)
  note s = commit_lookup_spec [OF l assms(2)]
  have "grows walk walk1" using s by blast
  then show ?thesis using that [OF l] s clean_grows [OF assms(3)] keeps_grows by blast
qed

lemma lookup_all_ok:
  assumes "env_mem env"
  shows "wf_walk env walk \<Longrightarrow> clean walk \<Longrightarrow> \<exists>cs walk1. lookup_all env oids walk = Some (Inr cs, walk1) \<and>
    wf_walk env walk1 \<and> clean walk1 \<and> keeps walk walk1 \<and> list_all (valid walk1) cs \<and> map (oid_at walk1) cs = oids"
proof (induction oids arbitrary: walk)
  case Nil
  then show ?case by simp
next
  case (Cons oid oids)
  obtain c w where c: "git_revwalk__commit_lookup env oid walk = Some (Inr c, w)" "wf_walk env w" "clean w"
      "keeps walk w" "valid w c" "oid_at w c = oid" using lookup_ok [OF assms Cons.prems] .
  obtain cs w1 where cs: "lookup_all env oids w = Some (Inr cs, w1)" "wf_walk env w1" "clean w1" "keeps w w1"
      "list_all (valid w1) cs" "map (oid_at w1) cs = oids" using Cons.IH [OF c(2,3)] by blast
  have "keeps walk w1" using c(4) cs(4) keeps_trans by blast
  then show ?case using c cs keepsD(1,2) [OF cs(4) c(5)] by (intro exI [of _ "c # cs"] exI [of _ w1]) simp
qed

text \<open>The fuel, and the count of elements that there is memory for.\<close>

definition merge_cost :: "git_env \<Rightarrow> git_oid \<Rightarrow> git_oid list \<Rightarrow> nat" where
  "merge_cost env one twos = Suc (length twos) + 4 * history_size env (set (one # twos))"

definition find_bases :: "nat \<Rightarrow> git_env \<Rightarrow> git_oid \<Rightarrow> git_oid list \<Rightarrow> (git_oid list) walk" where
  "find_bases fuel env one twos = bnd (lookup_all env twos) (\<lambda>cs. bnd (git_revwalk__commit_lookup env one) (\<lambda>c1.
     bnd (git_merge__bases_many fuel env c1 cs) (\<lambda>result. bnd get_state (\<lambda>walk. ret (oids_of walk result)))))"

definition supplied_for :: "git_env \<Rightarrow> git_oid \<Rightarrow> git_oid list \<Rightarrow> bool" where
  "supplied_for env one twos \<longleftrightarrow> supplied env (set (one # twos)) (merge_cost env one twos)"

lemma find_bases_ok:
  assumes wf: "wf_walk env walk" "clean walk" and ac: "acyclic (history env)"
    and sup: "supplied_for env one twos" and fuel: "merge_cost env one twos < fuel"
  shows "\<exists>oids walk1. find_bases fuel env one twos walk = Some (Inr oids, walk1) \<and> distinct oids \<and>
    set oids = best_of env (common_ancestors env one (set twos))"
proof -
  have mem: "env_mem env" and m: "enough_memory env (merge_cost env one twos)"
    using sup by (simp_all add: supplied_for_def supplied_def enough_memory_def)
  obtain cs w where cs: "lookup_all env twos walk = Some (Inr cs, w)" "wf_walk env w" "clean w" "keeps walk w"
      "list_all (valid w) cs" "map (oid_at w) cs = twos" using lookup_all_ok [OF mem wf] by blast
  obtain c1 w1 where c1: "git_revwalk__commit_lookup env one w = Some (Inr c1, w1)" "wf_walk env w1" "clean w1"
      "keeps w w1" "valid w1 c1" "oid_at w1 c1 = one" using lookup_ok [OF mem cs(2,3)] .
  have v: "list_all (valid w1) cs" and os: "map (oid_at w1) cs = twos"
    using cs(5,6) keepsD(1,2) [OF c1(4)] by (auto simp: list_all_iff)
  have len: "length cs = length twos" using os by (metis length_map)
  have starts: "oid_at w1 ` set (c1 # cs) = set (one # twos)" "oid_at w1 ` set cs = set twos"
    using os c1(6) by auto
  have n: "Suc (length cs) + 4 * history_size env (oid_at w1 ` set (c1 # cs)) \<le> merge_cost env one twos"
    unfolding merge_cost_def starts len ..
  have mem3: "enough_memory env (Suc (length cs) + 3 * history_size env (oid_at w1 ` set (c1 # cs)))"
    using n by (intro enough_memory_mono [OF m]) simp
  have sup1: "supplied env (oid_at w1 ` set (c1 # cs)) (merge_cost env one twos)"
    using sup unfolding starts supplied_for_def .
  then have fin: "finite (reachable env (oid_at w1 ` set (c1 # cs)))" by (simp add: supplied_def)
  obtain out w2 where out: "git_merge__bases_many fuel env c1 cs w1 = Some (Inr out, w2)"
      and g: "gives env (best_of env (common_ancestors env (oid_at w1 c1) (oid_at w1 ` set cs))) out w2"
    using runs_no_error [OF runs_bases_many [OF c1(2,3,5) v ac fin le_less_trans [OF n fuel] mem3]
        bases_many_no_error [OF c1(2,3,5) v ac sup1 n fuel]] by blast
  have dist: "distinct (map (oid_at w2) out)"
    using g wf_walk_distinct [of env w2] by (auto simp: gives_def distinct_map list_all_iff intro!: inj_onI)
  have "find_bases fuel env one twos walk = Some (Inr (map (oid_at w2) out), w2)"
    unfolding find_bases_def using cs(1) c1(1) out by (auto simp: oids_of_def oid_at_def [abs_def])
  then show ?thesis using dist g unfolding gives_def c1(6) starts by auto
qed

lemma new_walk:
  assumes "enough_memory env n"
  obtains walk where "git_revwalk_new env (Inr ()) = Inr walk" "wf_walk env walk" "clean walk"
proof -
  have "env_can_alloc env (max 8 MIN_ALLOCSIZE)" using assms by (simp add: enough_memory_def MIN_ALLOCSIZE_def)
  then obtain pq :: "nat git_pqueue" where "git_pqueue_init (env_can_alloc env) 0 8 None = Inr pq"
    by (auto simp: git_pqueue_init_def git_vector_init_def resize_vector_def Let_def MIN_ALLOCSIZE_def)
  then show ?thesis using assms
    by (intro that) (auto simp: git_revwalk_new_def enough_memory_def Let_def wf_walk_def valid_def clean_def)
qed

text \<open>What the functions return for a list of merge bases.\<close>

definition bases_result :: "git_env \<Rightarrow> git_oid \<Rightarrow> git_oid list \<Rightarrow> git_oid list result option \<Rightarrow> bool" where
  "bases_result env one twos r \<longleftrightarrow>
     (if best_of env (common_ancestors env one (set twos)) = {} then r = Some (Inl GIT_ENOTFOUND)
      else (\<exists>oids. r = Some (Inr oids) \<and> distinct oids \<and> set oids = best_of env (common_ancestors env one (set twos))))"

lemma with_walk_bases:
  assumes ac: "acyclic (history env)" and sup: "supplied_for env one twos" and fuel: "merge_cost env one twos < fuel"
    and m: "\<And>walk. wf_walk env walk \<Longrightarrow> clean walk \<Longrightarrow> m walk = find_bases fuel env one twos walk"
  shows "bases_result env one twos (with_walk env (Inr ()) (bnd (minus_one m) not_found_if_empty))"
proof -
  have mem: "enough_memory env (merge_cost env one twos)" using sup by (simp add: supplied_for_def supplied_def)
  obtain walk where w: "git_revwalk_new env (Inr ()) = Inr walk" "wf_walk env walk" "clean walk" using new_walk [OF mem] .
  obtain oids walk1 where o: "m walk = Some (Inr oids, walk1)" "distinct oids"
      "set oids = best_of env (common_ancestors env one (set twos))"
    using find_bases_ok [OF w(2,3) ac sup fuel] m [OF w(2,3)] by auto
  have "bnd (minus_one m) not_found_if_empty walk =
      (if oids = [] then Some (Inl GIT_ENOTFOUND, walk1) else Some (Inr oids, walk1))"
    using o(1) by (simp add: bnd_def minus_one_def not_found_if_empty_def fail_def ret_def)
  then have "with_walk env (Inr ()) (bnd (minus_one m) not_found_if_empty) =
      Some (if oids = [] then Inl GIT_ENOTFOUND else Inr oids)"
    using w(1) by (simp add: with_walk_def)
  then show ?thesis using o(2,3) unfolding bases_result_def by (cases oids) auto
qed

lemma bnd_ret: "bnd (ret x) k = k x"
  by (rule ext) (simp add: bnd_def ret_def)

lemma merge_bases_best:
  assumes "acyclic (history env)" "supplied_for env one [two]" "merge_cost env one [two] < fuel"
  shows "bases_result env one [two] (merge_bases fuel env (Inr ()) one two)"
  unfolding merge_bases_def
proof (rule with_walk_bases [OF assms])
  fix walk
  show "bnd (git_revwalk__commit_lookup env two) (\<lambda>c2.
        bnd (git_revwalk__commit_lookup env one) (\<lambda>c1.
          bnd (git_merge__bases_many fuel env c1 [c2]) (\<lambda>result.
            bnd get_state (\<lambda>walk. ret (oids_of walk result))))) walk = find_bases fuel env one [two] walk"
    by (simp add: find_bases_def bnd_assoc bnd_ret)
qed

lemma merge_bases_many_best:
  assumes "acyclic (history env)" "supplied_for env one twos" "merge_cost env one twos < fuel" "twos \<noteq> []"
  shows "bases_result env one twos (merge_bases_many fuel env (Inr ()) (one # twos))"
proof -
  have mem: "enough_memory env (merge_cost env one twos)" "env_mem env"
    using assms(2) by (simp_all add: supplied_for_def supplied_def enough_memory_def)
  have le: "length twos \<le> merge_cost env one twos" by (simp add: merge_cost_def)
  have "max (length twos) MIN_ALLOCSIZE \<le> max 8 (2 * merge_cost env one twos)" using le by (simp add: MIN_ALLOCSIZE_def)
  then have a: "env_can_alloc env (max (length twos) MIN_ALLOCSIZE)" using mem(1) unfolding enough_memory_def by blast
  then obtain v :: "nat git_vector" where v: "git_vector_init (env_can_alloc env) (length twos) None = Inr v" "v_contents v = []"
      "vector_fits v"
    by (auto simp: git_vector_init_def resize_vector_def MIN_ALLOCSIZE_def vector_fits_def env_can_alloc_def)
  have m: "bnd (lookup_all env twos) (\<lambda>cs.
        bnd (git_revwalk__commit_lookup env one) (\<lambda>c1.
          bnd (git_merge__bases_many fuel env c1 (v_contents (insert_pointers env cs v))) (\<lambda>result.
            bnd get_state (\<lambda>walk. ret (oids_of walk result))))) walk = find_bases fuel env one twos walk"
    if wf: "wf_walk env walk" "clean walk" for walk
  proof -
    obtain cs w where cs: "lookup_all env twos walk = Some (Inr cs, w)" "map (oid_at w) cs = twos"
      using lookup_all_ok [OF mem(2) wf] by blast
    then have "v_length v + length cs \<le> merge_cost env one twos" using le v(2) by auto
    then have "v_contents (insert_pointers env cs v) = cs" using insert_pointers_contents [OF mem(1) _ v(3)] v(2) by simp
    then show ?thesis using cs(1) by (simp add: find_bases_def bnd_def)
  qed
  have "\<not> length (one # twos) < 2" using assms(4) by (cases twos) simp_all
  then show ?thesis using v(1) with_walk_bases [OF assms(1-3) m] by (simp add: merge_bases_many_def)
qed

subsection \<open>Properties\<close>

text \<open>A history of a root and two commits on it.\<close>

definition root_id :: git_oid where "root_id = GitOid (replicate 20 0)"

definition left_id :: git_oid where "left_id = GitOid (replicate 20 1)"

definition right_id :: git_oid where "right_id = GitOid (replicate 20 2)"

definition fork_env :: git_env where
  "fork_env = \<lparr>env_odb = (\<lambda>a. if a = left_id \<or> a = right_id then Inr (Some (5, [root_id]))
      else if a = root_id then Inr (Some (3, [])) else Inl GIT_ENOTFOUND),
    env_alloc = (\<lambda>_. True), env_mem = True\<rparr>"

lemma ids_differ [simp]: "root_id \<noteq> left_id" "root_id \<noteq> right_id" "left_id \<noteq> right_id"
  "left_id \<noteq> root_id" "right_id \<noteq> root_id" "right_id \<noteq> left_id"
  by (simp_all add: root_id_def left_id_def right_id_def)

lemma fork_history: "history fork_env = {(left_id, root_id), (right_id, root_id)}"
  using ids_differ by (auto simp: history_def fork_env_def split: if_splits)

lemma fork_rtrancl: "(history fork_env)\<^sup>* = Id \<union> {(left_id, root_id), (right_id, root_id)}"
proof -
  have "(history fork_env)\<^sup>+ = history fork_env"
    using ids_differ by (intro trancl_id) (auto simp: fork_history trans_def)
  then show ?thesis by (simp add: rtrancl_trancl_reflcl fork_history Un_commute)
qed

lemma fork_trancl: "(history fork_env)\<^sup>+ = {(left_id, root_id), (right_id, root_id)}"
  using ids_differ by (subst trancl_id) (auto simp: fork_history trans_def)

lemma fork_acyclic: "acyclic (history fork_env)"
  unfolding acyclic_def fork_trancl using ids_differ by auto

lemma fork_reachable: "reachable fork_env {left_id, right_id} = {root_id, left_id, right_id}"
  by (auto simp: reachable_def fork_rtrancl)

lemma fork_size: "history_size fork_env {left_id, right_id} = 5"
  using ids_differ unfolding history_size_def fork_reachable by (simp add: n_parents_of_def fork_env_def)

lemma fork_cost: "merge_cost fork_env (left_id) [right_id] = 22"
  by (simp add: merge_cost_def fork_size)

lemma fork_supplied: "supplied_for fork_env (left_id) [right_id]"
  using fork_size fork_reachable
  by (auto simp: supplied_for_def fork_cost supplied_def enough_memory_def env_can_alloc_def SIZE_MAX_def) (auto simp: fork_env_def)

lemma fork_best: "best_of fork_env (common_ancestors fork_env (left_id) {right_id}) = {root_id}"
  using ids_differ by (auto simp: best_of_def common_ancestors_def fork_rtrancl fork_trancl)

text \<open>
  C24. \<open>git_merge_bases\<close> of two commits is \<open>GIT_ENOTFOUND\<close> if they have no common ancestor; else it is the
  list of their best common ancestors, those that are no proper ancestors of another common ancestor,
  each once. No order of the dates is assumed, the history is acyclic and can be read, there is memory,
  and the fuel is a linear bound in the commits and edges of the history.
\<close>

theorem git_merge_bases_best:
  assumes "acyclic (history env)" "supplied_for env one [two]" "merge_cost env one [two] < fuel"
  shows "if best_of env (common_ancestors env one {two}) = {}
    then git_merge_bases fuel env (Inr ()) one two = Some (Inl GIT_ENOTFOUND)
    else \<exists>oids. git_merge_bases fuel env (Inr ()) one two = Some (Inr oids) \<and> distinct oids \<and>
      set oids = best_of env (common_ancestors env one {two})"
proof -
  have "env_mem env" using assms(2) by (simp add: supplied_for_def supplied_def enough_memory_def)
  then show ?thesis using merge_bases_best [OF assms] by (auto simp: bases_result_def git_merge_bases_def split: if_splits)
qed

theorem git_merge_bases_best_witness: "git_merge_bases 23 fork_env (Inr ()) (left_id) (right_id) = Some (Inr [root_id])"
proof -
  obtain oids where o: "git_merge_bases 23 fork_env (Inr ()) (left_id) (right_id) = Some (Inr oids)" "distinct oids" "set oids = {root_id}"
    using git_merge_bases_best [OF fork_acyclic fork_supplied, of 23] by (auto simp: fork_cost fork_best)
  then have "length oids = 1" using distinct_card [OF o(2)] by simp
  then have "oids = [root_id]" using o(3) by (cases oids) auto
  then show ?thesis using o(1) by simp
qed

text \<open>
  C25. \<open>git_merge_bases_many\<close> of a list of commits: the best among the commits that are ancestors of the
  first one and of some of the others.
\<close>

theorem git_merge_bases_many_best:
  assumes "acyclic (history env)" "supplied_for env one twos" "merge_cost env one twos < fuel" "twos \<noteq> []"
  shows "if best_of env (common_ancestors env one (set twos)) = {}
    then git_merge_bases_many fuel env (Inr ()) (one # twos) = Some (Inl GIT_ENOTFOUND)
    else \<exists>oids. git_merge_bases_many fuel env (Inr ()) (one # twos) = Some (Inr oids) \<and> distinct oids \<and>
      set oids = best_of env (common_ancestors env one (set twos))"
proof -
  have "env_mem env" using assms(2) by (simp add: supplied_for_def supplied_def enough_memory_def)
  then show ?thesis using merge_bases_many_best [OF assms] by (auto simp: bases_result_def git_merge_bases_many_def split: if_splits)
qed

theorem git_merge_bases_many_best_witness:
  "\<exists>oids. git_merge_bases_many 23 fork_env (Inr ()) [left_id, right_id] = Some (Inr oids) \<and> set oids = {root_id}"
  using git_merge_bases_many_best [OF fork_acyclic fork_supplied, of 23] by (auto simp: fork_cost fork_best)

lemma merge_base_of_ancestor:
  assumes "acyclic (history env)" "(one, two) \<in> (history env)\<^sup>*"
  shows "best_of env (common_ancestors env one {two}) = {two}"
proof -
  have "(two, two) \<notin> (history env)\<^sup>+" using assms(1) by (simp add: acyclic_def)
  then show ?thesis using assms(2)
    by (auto simp: best_of_def common_ancestors_def rtrancl_eq_or_trancl intro: trancl_trans)
qed

text \<open>
  C26. \<open>git_graph_descendant_of\<close> decides whether \<open>ancestor\<close> is a proper ancestor of \<open>commit\<close>, again for
  any dates.
\<close>

theorem git_graph_descendant_of_correct:
  assumes "acyclic (history env)" "supplied_for env commit [ancestor]" "merge_cost env commit [ancestor] < fuel"
    and ids: "\<forall>a\<in>reachable env {commit, ancestor}. oid_ok a"
  shows "git_graph_descendant_of fuel env (Inr ()) commit ancestor = Some (Inr ((commit, ancestor) \<in> (history env)\<^sup>+))"
proof -
  have start: "oid_ok commit" "oid_ok ancestor" using ids by (auto simp: reachable_def)
  have equal: "git_oid_equal commit ancestor \<longleftrightarrow> commit = ancestor" using git_oid_equal_iff [OF start] .
  show ?thesis
  proof (cases "commit = ancestor")
    case True
    then show ?thesis using assms(1) equal by (simp add: git_graph_descendant_of_def acyclic_def)
  next
    case False
    have best: "(commit, ancestor) \<in> (history env)\<^sup>+ \<longleftrightarrow> ancestor \<in> best_of env (common_ancestors env commit {ancestor})"
      using merge_base_of_ancestor [OF assms(1), of commit ancestor] False
      by (auto simp: best_of_def common_ancestors_def rtrancl_eq_or_trancl)
    show ?thesis
    proof (cases "best_of env (common_ancestors env commit {ancestor}) = {}")
      case True
      then have "git_merge_base fuel env (Inr ()) commit ancestor = Some (Inl GIT_ENOTFOUND)"
        using merge_bases_best [OF assms(1-3)] by (simp add: bases_result_def git_merge_base_def)
      then show ?thesis using False best True equal by (simp add: git_graph_descendant_of_def)
    next
      case ne: False
      then obtain oids where o: "merge_bases fuel env (Inr ()) commit ancestor = Some (Inr oids)"
          "set oids = best_of env (common_ancestors env commit {ancestor})"
        using merge_bases_best [OF assms(1-3)] by (auto simp: bases_result_def)
      then have hd: "hd oids \<in> best_of env (common_ancestors env commit {ancestor})" using ne by (cases oids) auto
      have "git_oid_equal (hd oids) ancestor \<longleftrightarrow> hd oids = ancestor"
        using hd ids common_ancestors_reachable [of env commit "{ancestor}"]
        by (intro git_oid_equal_iff start(2)) (auto simp: best_of_def)
      moreover have "hd oids = ancestor \<longleftrightarrow> ancestor \<in> best_of env (common_ancestors env commit {ancestor})"
        using hd merge_base_of_ancestor [OF assms(1), of commit ancestor] best by (auto dest: trancl_into_rtrancl)
      ultimately show ?thesis using False best o(1) equal
        by (simp add: git_graph_descendant_of_def git_merge_base_def)
    qed
  qed
qed

lemma child_reachable: "reachable fork_env {left_id, root_id} = {root_id, left_id}"
  by (auto simp: reachable_def fork_rtrancl)

lemma child_cost: "merge_cost fork_env left_id [root_id] = 14"
  by (simp add: merge_cost_def history_size_def child_reachable) (simp add: n_parents_of_def fork_env_def)

lemma child_supplied: "supplied_for fork_env left_id [root_id]"
  using child_cost child_reachable
  by (auto simp: supplied_for_def merge_cost_def supplied_def enough_memory_def env_can_alloc_def SIZE_MAX_def) (auto simp: fork_env_def)

theorem git_graph_descendant_of_correct_witness:
  "git_graph_descendant_of 15 fork_env (Inr ()) left_id root_id = Some (Inr True)"
proof -
  have "oid_ok root_id" "oid_ok left_id" by (simp_all add: oid_ok_def GIT_OID_RAWSZ_def root_id_def left_id_def)
  then show ?thesis
    using git_graph_descendant_of_correct [OF fork_acyclic child_supplied, of 15] by (simp add: child_cost child_reachable fork_trancl)
qed

text \<open>
  C27. \<open>paint_down_to_common\<close> ends on every finite history, whatever its dates, and also if it has
  cycles. Its results are common ancestors, each once, and every common ancestor is one of them or is
  reached from one of them.
\<close>

theorem paint_down_to_common_covers:
  assumes "wf_walk env walk" "clean walk" "valid walk one" "n_parsed (node walk one)" "list_all (valid walk) twos"
    and "finite (reachable env (oid_at walk ` set (one # twos)))"
    and "Suc (length twos) + 3 * card (reachable env (oid_at walk ` set (one # twos))) < fuel"
  shows "case paint_down_to_common fuel env one twos walk of
      None \<Rightarrow> False
    | Some (Inl e, walk1) \<Rightarrow> True
    | Some (Inr out, walk1) \<Rightarrow> distinct out \<and>
        oid_at walk1 ` set out \<subseteq> common_ancestors env (oid_at walk one) (oid_at walk ` set twos) \<and>
        (\<forall>a\<in>common_ancestors env (oid_at walk one) (oid_at walk ` set twos).
           \<exists>r\<in>set out. (oid_at walk1 r, a) \<in> (history env)\<^sup>*)"
proof -
  have "distinct out \<and> oid_at walk1 ` set out \<subseteq> common_ancestors env (oid_at walk one) (oid_at walk ` set twos) \<and>
      (\<forall>a\<in>common_ancestors env (oid_at walk one) (oid_at walk ` set twos). \<exists>r\<in>set out. (oid_at walk1 r, a) \<in> (history env)\<^sup>*)"
    if p: "paint_down_to_common fuel env one twos walk = Some (Inr out, walk1)" for out walk1
  proof -
    have s: "painted_down env one twos walk1" "distinct out" "set out = results walk1" "keeps walk walk1"
      using paint_down_to_common_spec [OF p assms(1-5)] by auto
    have "oid_at walk1 one = oid_at walk one" "\<And>two. two \<in> set twos \<Longrightarrow> oid_at walk1 two = oid_at walk two"
      using keepsD(2) [OF s(4)] assms(3,5) by (auto simp: list_all_iff)
    then show ?thesis using s(2,3) results_common(1,2) [OF s(1)] painted_covers [OF s(1)]
      by (fastforce simp: common_ancestors_def covered_def)
  qed
  then show ?thesis
    using paint_down_to_common_terminates [OF assms] by (auto split: option.splits prod.splits sum.splits)
qed

definition solo_walk :: git_revwalk where
  "solo_walk = \<lparr>w_commits = [(git_commit_list_alloc_node root_id)\<lparr>n_time := 3, n_parsed := True, n_parents := Some []\<rparr>],
     w_iterator_topo = [], w_iterator_rand = [], w_iterator_reverse = [], w_iterator_time = GIT_VECTOR_INIT,
     w_get_next = revwalk_next_unsorted, w_enqueue = revwalk_enqueue_unsorted, w_walking = False, w_first_parent = False,
     w_did_hide = False, w_did_push = False, w_limited = False, w_sorting = 0, w_user_input = [], w_hide_cb = None\<rparr>"

lemma solo_walk_ok: "wf_walk fork_env solo_walk" "clean solo_walk" "valid solo_walk 0" "n_parsed (node solo_walk 0)"
    "oid_at solo_walk 0 = root_id"
  by (auto simp: wf_walk_def solo_walk_def clean_def valid_def node_def node_ok_def oid_at_def flags_of_def
      git_commit_list_alloc_node_def fork_env_def)

theorem paint_down_to_common_covers_witness: "paint_down_to_common 6 fork_env 0 [0] solo_walk \<noteq> None"
proof
  assume none: "paint_down_to_common 6 fork_env 0 [0] solo_walk = None"
  have "reachable fork_env {root_id} = {root_id}" by (auto simp: reachable_def fork_rtrancl)
  then show False
    using paint_down_to_common_covers [OF solo_walk_ok(1-4), of "[0]" 6] solo_walk_ok(3,5) none by simp
qed

end
