(* ===== verification/TopoCorrect.thy ===== *)
theory TopoCorrect
  imports MergeBasePublic
begin

text \<open>
  \<open>sort_in_topological_order\<close> of \<open>revwalk.c\<close>: no commit comes behind one of its parents, and no commit is
  lost, as long as the 16-bit degrees do not wrap.
\<close>

subsection \<open>The queue of the sort\<close>

text \<open>A queue without a comparison function is a stack.\<close>

definition tips_ok :: "git_env \<Rightarrow> nat cmp \<Rightarrow> nat git_pqueue \<Rightarrow> bool" where
  "tips_ok env cmp pq \<longleftrightarrow> growing_inv (env_can_alloc env) cmp pq \<or> v_cmp pq = None \<and> vector_fits pq \<and> \<not> fixed_size pq"

lemma tips_insert:
  assumes t: "tips_ok env (git_commit_list_time_cmp w) pq" and mem: "enough_memory env n" "size (elems pq) \<le> n"
  obtains pq1 where "git_pqueue_insert (env_can_alloc env) pq c = Inr pq1" "tips_ok env (git_commit_list_time_cmp w) pq1"
    "elems pq1 = add_mset c (elems pq)"
proof -
  have q: "vector_fits pq" "\<not> fixed_size pq" "v_length pq \<le> n"
    using t mem(2) by (auto simp: tips_ok_def growing_inv_def pqueue_inv_def elems_def)
  obtain v1 where v1: "git_vector_insert (env_can_alloc env) pq c = Inr v1" "vector_fits v1"
    using insert_grows [OF mem(1) q(3,1)] by blast
  have cmp: "v_cmp v1 = v_cmp pq" "fixed_size v1 = fixed_size pq"
    using v1(1) by (auto simp: git_vector_insert_def grow_for_insert_def resize_vector_def Let_def fixed_size_def
        set_sorted_keeps_fixed split: sum.splits if_splits)
  show ?thesis
  proof (cases "growing_inv (env_can_alloc env) (git_commit_list_time_cmp w) pq")
    case True
    have "\<exists>pq1. git_pqueue_insert (env_can_alloc env) pq c = Inr pq1"
      using v1(1) q(2) by (auto simp: git_pqueue_insert_def fixed_size_def Let_def split: option.splits)
    then obtain pq1 where p: "git_pqueue_insert (env_can_alloc env) pq c = Inr pq1" by blast
    then show ?thesis using that commit_queue.insert_law [of env w pq c pq1] True by (auto simp: tips_ok_def)
  next
    case False
    then have "v_cmp pq = None" using t by (simp add: tips_ok_def)
    then have "git_pqueue_insert (env_can_alloc env) pq c = Inr v1"
      using v1(1) cmp(1) q(2) by (auto simp: git_pqueue_insert_def fixed_size_def Let_def)
    then show ?thesis using that v1(2) cmp q(2) \<open>v_cmp pq = None\<close> git_vector_insert_contents [OF v1(1)]
      by (auto simp: tips_ok_def elems_def)
  qed
qed

lemma tips_fixed: "tips_ok env cmp pq \<Longrightarrow> \<not> fixed_size pq"
  by (auto simp: tips_ok_def growing_inv_def)

lemma insert_keeps_cmp:
  assumes "git_pqueue_insert ca pq c = Inr pq1" "\<not> fixed_size pq"
  shows "v_cmp pq1 = v_cmp pq"
  using assms
  by (auto simp: git_pqueue_insert_def fixed_size_def git_vector_insert_def grow_for_insert_def resize_vector_def Let_def
      git_vector_set_sorted_def split: sum.splits option.splits if_splits)

lemma tips_reverse:
  assumes "tips_ok env cmp pq" "v_cmp pq = None"
  shows "tips_ok env cmp (git_vector_reverse pq)" "elems (git_vector_reverse pq) = elems pq"
proof -
  have "v_cmp (git_vector_reverse pq) = v_cmp pq" "v_alloc_size (git_vector_reverse pq) = v_alloc_size pq"
      "v_flags (git_vector_reverse pq) = v_flags pq"
    by (simp_all add: git_vector_reverse_def)
  then show "tips_ok env cmp (git_vector_reverse pq)" "elems (git_vector_reverse pq) = elems pq"
    using assms by (auto simp: tips_ok_def growing_inv_def pqueue_inv_def vector_simps vector_fits_def fixed_size_def elems_def)
qed

lemma tips_pop:
  assumes "tips_ok env (git_commit_list_time_cmp w) pq"
  shows "case git_pqueue_pop pq of
      (None, _) \<Rightarrow> elems pq = {#}
    | (Some c, pq1) \<Rightarrow> tips_ok env (git_commit_list_time_cmp w) pq1 \<and> elems pq = add_mset c (elems pq1)"
proof (cases "growing_inv (env_can_alloc env) (git_commit_list_time_cmp w) pq")
  case True
  show ?thesis
  proof (cases "elems pq = {#}")
    case True
    then show ?thesis using commit_queue.pop_empty_law [of env w pq] \<open>growing_inv _ _ pq\<close> by simp
  next
    case False
    then show ?thesis using commit_queue.pop_law [of env w pq] True by (auto simp: tips_ok_def)
  qed
next
  case False
  then have n: "v_cmp pq = None" "vector_fits pq" "\<not> fixed_size pq" using assms by (simp_all add: tips_ok_def)
  show ?thesis
  proof (cases "v_contents pq" rule: rev_cases)
    case Nil
    then show ?thesis using n by (simp add: git_pqueue_pop_def git_vector_last_def elems_def)
  next
    case (snoc xs x)
    then show ?thesis using n
      by (auto simp: git_pqueue_pop_def git_vector_last_def git_vector_get_def git_vector_pop_def tips_ok_def elems_def
          nth_append vector_fits_def fixed_size_def)
  qed
qed

subsection \<open>Degrees\<close>

text \<open>Only the degrees change.\<close>

definition same_but_degrees :: "git_revwalk \<Rightarrow> git_revwalk \<Rightarrow> bool" where
  "same_but_degrees walk w \<longleftrightarrow> (\<forall>p. valid walk p \<longrightarrow> valid w p \<and> parents_of w p = parents_of walk p) \<and> (\<forall>p. valid w p \<longrightarrow> valid walk p)"

lemma same_but_degrees_refl [simp]: "same_but_degrees walk walk"
  by (simp add: same_but_degrees_def)

lemma set_in_degree_simps:
  assumes "valid w c"
  shows "in_degree (set_in_degree c d w) p = (if p = c then d else in_degree w p)"
    "parents_of (set_in_degree c d w) p = parents_of w p" "valid (set_in_degree c d w) p = valid w p"
  using assms by (simp_all add: set_in_degree_def in_degree_def parents_of_def)

lemma same_set_in_degree:
  "same_but_degrees walk w \<Longrightarrow> valid walk c \<Longrightarrow> same_but_degrees walk (set_in_degree c d w)"
  by (simp add: same_but_degrees_def set_in_degree_simps)

lemma unat_Suc: "unat (d :: u16) + 1 < 65536 \<Longrightarrow> unat (d + 1) = Suc (unat d)"
  by (subst unat_add_lem [THEN iffD1]) auto

lemma unat_pred: "(d :: u16) \<noteq> 0 \<Longrightarrow> unat (d - 1) = unat d - 1"
  by (rule unat_minus_one)

lemma unat_zero_iff: "unat (d :: u16) = 0 \<longleftrightarrow> d = 0" "unat d = 1 \<longleftrightarrow> d = 1"
  using word_unat_eq_iff [of d 1] by (simp_all add: unat_eq_0)

lemma reset_degrees_spec:
  "list_all (valid walk) list \<Longrightarrow> same_but_degrees walk w \<Longrightarrow> same_but_degrees walk (reset_degrees list w) \<and>
   (\<forall>p. valid walk p \<longrightarrow> in_degree (reset_degrees list w) p = (if p \<in> set list then 1 else in_degree w p))"
proof (induction list arbitrary: w)
  case Nil
  then show ?case by (simp add: reset_degrees_def)
next
  case (Cons c cs)
  have v: "valid walk c" "valid w c" using Cons.prems by (auto simp: same_but_degrees_def)
  have "same_but_degrees walk (set_in_degree c 1 w)" using same_set_in_degree [OF Cons.prems(2) v(1)] .
  then show ?case using Cons.IH [of "set_in_degree c 1 w"] Cons.prems(1)
    by (auto simp: reset_degrees_def set_in_degree_simps(1) [OF v(2)])
qed

text \<open>The degrees of the commits in \<open>S\<close> are \<open>k\<close> and one, those of the others 0.\<close>

definition counted :: "git_revwalk \<Rightarrow> git_revwalk \<Rightarrow> nat set \<Rightarrow> (nat \<Rightarrow> nat) \<Rightarrow> bool" where
  "counted walk w S k \<longleftrightarrow> same_but_degrees walk w \<and>
     (\<forall>p. valid walk p \<longrightarrow> unat (in_degree w p) = (if p \<in> S then Suc (k p) else 0))"

abbreviation count_parent :: "nat \<Rightarrow> git_revwalk \<Rightarrow> git_revwalk" where
  "count_parent p w1 \<equiv> (if in_degree w1 p \<noteq> 0 then set_in_degree p (in_degree w1 p + 1) w1 else w1)"

lemma counted_parent:
  assumes "counted walk w S k" "valid walk p" "p \<in> S \<Longrightarrow> Suc (k p) + 1 < 65536"
  shows "counted walk (count_parent p w) S (k(p := Suc (k p)))"
proof (cases "p \<in> S")
  case True
  have v: "valid w p" using assms(1,2) by (simp add: counted_def same_but_degrees_def)
  have d: "unat (in_degree w p) = Suc (k p)" using assms(1,2) True by (simp add: counted_def)
  then have nz: "in_degree w p \<noteq> 0" by (auto simp flip: unat_zero_iff(1))
  have "unat (in_degree w p + 1) = Suc (Suc (k p))" using unat_Suc [of "in_degree w p"] d assms(3) True by simp
  then show ?thesis using assms(1,2) True nz same_set_in_degree
    by (auto simp: counted_def set_in_degree_simps [OF v])
next
  case False
  then have "in_degree w p = 0" using assms(1,2) unfolding counted_def by (auto simp flip: unat_zero_iff(1))
  then show ?thesis using assms(1) False by (auto simp: counted_def)
qed

lemma counted_parents:
  "counted walk w S k \<Longrightarrow> list_all (valid walk) ps \<Longrightarrow> (\<forall>p\<in>S. k p + count_list ps p + 1 < 65536) \<Longrightarrow>
   counted walk (fold count_parent ps w) S (\<lambda>p. k p + count_list ps p)"
proof (induction ps arbitrary: w k)
  case (Cons p ps)
  have 1: "counted walk (count_parent p w) S (k(p := Suc (k p)))"
    using Cons.prems by (intro counted_parent) auto
  have vps: "list_all (valid walk) ps" using Cons.prems(2) by simp
  have 2: "\<forall>q\<in>S. (k(p := Suc (k p))) q + count_list ps q + 1 < 65536" using Cons.prems(3) by auto
  note Cons.IH [OF 1 vps 2]
  moreover have "(\<lambda>q. (k(p := Suc (k p))) q + count_list ps q) = (\<lambda>q. k q + count_list (p # ps) q)" by auto
  ultimately show ?case by simp
qed simp

definition child_count :: "git_revwalk \<Rightarrow> nat list \<Rightarrow> nat \<Rightarrow> nat" where
  "child_count walk cs p = (\<Sum>c\<leftarrow>cs. count_list (parents_of walk c) p)"

lemma count_children_spec:
  "counted walk w S k \<Longrightarrow> list_all (valid walk) cs \<Longrightarrow> (\<forall>c\<in>set cs. list_all (valid walk) (parents_of walk c)) \<Longrightarrow>
   (\<forall>p\<in>S. k p + child_count walk cs p + 1 < 65536) \<Longrightarrow> counted walk (count_children cs w) S (\<lambda>p. k p + child_count walk cs p)"
proof (induction cs arbitrary: w k)
  case Nil
  then show ?case by (simp add: count_children_def child_count_def)
next
  case (Cons c cs)
  have ps: "parents_of w c = parents_of walk c" using Cons.prems(1,2) by (simp add: counted_def same_but_degrees_def)
  have "counted walk (fold count_parent (parents_of walk c) w) S (\<lambda>p. k p + count_list (parents_of walk c) p)"
    using Cons.prems by (intro counted_parents) (auto simp: child_count_def)
  then have "counted walk (count_children cs (fold count_parent (parents_of walk c) w)) S
      (\<lambda>p. k p + count_list (parents_of walk c) p + child_count walk cs p)"
    using Cons.prems(2-4) by (intro Cons.IH) (auto simp: child_count_def add.assoc)
  then show ?case by (simp add: count_children_def child_count_def ps add.assoc)
qed

subsection \<open>Releasing the parents of a commit\<close>

lemma release_parents_spec:
  assumes mem: "enough_memory env n"
  shows "counted walk w R (\<lambda>p. k p + count_list rs p) \<Longrightarrow> list_all (valid walk) rs \<Longrightarrow> finite R \<Longrightarrow>
    tips_ok env (git_commit_list_time_cmp v) pq \<Longrightarrow> size (elems pq) + card {p \<in> R. k p = 0 \<and> p \<in> set rs} \<le> n \<Longrightarrow>
    \<exists>pq1 w1. release_parents env rs pq w = Some (Inr pq1, w1) \<and> counted walk w1 R k \<and>
      tips_ok env (git_commit_list_time_cmp v) pq1 \<and> elems pq1 = elems pq + mset_set {p \<in> R. k p = 0 \<and> p \<in> set rs}"
proof (induction rs arbitrary: w pq)
  case Nil
  then show ?case by simp
next
  case (Cons p rs)
  let ?tips = "\<lambda>rs. {p \<in> R. k p = 0 \<and> p \<in> set rs}"
  have v: "valid walk p" "valid w p" using Cons.prems(1,2) by (auto simp: counted_def same_but_degrees_def)
  have d: "unat (in_degree w p) = (if p \<in> R then Suc (k p + Suc (count_list rs p)) else 0)"
    using Cons.prems(1) v(1) by (simp add: counted_def)
  show ?case
  proof (cases "p \<in> R")
    case False
    then have "in_degree w p = 0" using d by (simp flip: unat_zero_iff(1))
    moreover have "counted walk w R (\<lambda>q. k q + count_list rs q)"
      using Cons.prems(1) False unfolding counted_def by auto
    moreover have "?tips (p # rs) = ?tips rs" using False by auto
    ultimately show ?thesis using Cons.IH [of w pq] Cons.prems(2-5) by simp
  next
    case True
    let ?w = "set_in_degree p (in_degree w p - 1) w"
    have nz: "in_degree w p \<noteq> 0" using d True by (auto simp flip: unat_zero_iff(1))
    have d1: "unat (in_degree w p - 1) = Suc (k p + count_list rs p)" using unat_pred [OF nz] d True by simp
    have c1: "counted walk ?w R (\<lambda>q. k q + count_list rs q)"
      using Cons.prems(1) v True d1 same_set_in_degree unfolding counted_def by (auto simp: set_in_degree_simps [OF v(2)])
    have one: "in_degree w p - 1 = 1 \<longleftrightarrow> k p = 0 \<and> p \<notin> set rs"
      unfolding unat_zero_iff(2) [symmetric] d1 by (simp add: count_list_0_iff)
    show ?thesis
    proof (cases "k p = 0 \<and> p \<notin> set rs")
      case False
      then have "?tips (p # rs) = ?tips rs" by auto
      then show ?thesis using Cons.IH [OF c1] Cons.prems(2-5) nz one False
        by (simp add: bnd_def get_state_def update_state_def)
    next
      case push: True
      then have tips: "?tips (p # rs) = insert p (?tips rs)" "p \<notin> ?tips rs" "finite (?tips rs)"
        using True Cons.prems(3) by auto
      then have size: "Suc (size (elems pq) + card (?tips rs)) \<le> n" using Cons.prems(5) by simp
      obtain pq1 where p1: "git_pqueue_insert (env_can_alloc env) pq p = Inr pq1" "tips_ok env (git_commit_list_time_cmp v) pq1"
          "elems pq1 = add_mset p (elems pq)"
        using tips_insert [OF Cons.prems(4) mem] size by (metis Suc_leD add_leD1)
      then show ?thesis using Cons.IH [OF c1 _ Cons.prems(3) p1(2)] Cons.prems(2) size tips nz one push
        by (simp add: bnd_def get_state_def update_state_def lift_result_def ret_def)
    qed
  qed
qed

subsection \<open>The loop\<close>

definition children :: "git_revwalk \<Rightarrow> nat set \<Rightarrow> nat \<Rightarrow> nat" where
  "children walk R p = (\<Sum>c\<in>R. count_list (parents_of walk c) p)"

lemma children_0: "finite R \<Longrightarrow> children walk R p = 0 \<longleftrightarrow> (\<forall>c\<in>R. p \<notin> set (parents_of walk c))"
  by (simp add: children_def count_list_0_iff)

lemma children_remove: "finite R \<Longrightarrow> c \<in> R \<Longrightarrow> children walk R p = children walk (R - {c}) p + count_list (parents_of walk c) p"
  by (simp add: children_def sum.remove)

definition edges :: "git_revwalk \<Rightarrow> (nat \<times> nat) set" where
  "edges walk = {(c, p). valid walk c \<and> p \<in> set (parents_of walk c)}"

lemma edges_acyclic:
  assumes "wf_walk env walk" "acyclic (history env)"
  shows "acyclic (edges walk)"
proof (rule acyclicI, rule allI, rule notI)
  fix c assume c: "(c, c) \<in> (edges walk)\<^sup>+"
  have "(oid_at walk a, oid_at walk b) \<in> (history env)\<^sup>+" if "(a, b) \<in> (edges walk)\<^sup>+" for a b
    using that
  proof (induction rule: trancl_induct)
    case (base b)
    then show ?case using parents_history(3) [OF assms(1)] by (auto simp: edges_def)
  next
    case (step b d)
    have "(oid_at walk b, oid_at walk d) \<in> history env"
      using step.hyps(2) parents_history(3) [OF assms(1)] by (auto simp: edges_def)
    with step.IH show ?case by (rule trancl_into_trancl)
  qed
  then show False using c assms(2) by (auto simp: acyclic_def)
qed

text \<open>There is always a commit without children.\<close>

lemma tip_exists:
  assumes "acyclic (edges walk)" "finite R" "R \<noteq> {}" "\<forall>c\<in>R. valid walk c"
  shows "\<exists>p\<in>R. children walk R p = 0"
proof -
  let ?r = "edges walk \<inter> R \<times> R"
  have "wf ?r" using assms(1,2) by (intro finite_acyclic_wf) (auto intro: acyclic_subset)
  moreover obtain x where "x \<in> R" using assms(3) by blast
  ultimately obtain z where z: "z \<in> R" "\<And>y. (y, z) \<in> ?r \<Longrightarrow> y \<notin> R" using wfE_min [of ?r x R] by metis
  have "z \<notin> set (parents_of walk c)" if c: "c \<in> R" for c
  proof -
    have "(c, z) \<notin> ?r" using z(2) c by blast
    then show ?thesis using z(1) c assms(4) unfolding edges_def by blast
  qed
  then show ?thesis using z(1) children_0 [OF assms(2)] by blast
qed

definition topo_ordered :: "git_revwalk \<Rightarrow> nat list \<Rightarrow> bool" where
  "topo_ordered walk = sorted_wrt (\<lambda>a b. a \<notin> set (parents_of walk b))"

lemma topo_loop_spec:
  assumes mem: "enough_memory env n" and ac: "acyclic (edges walk)"
    and ps: "\<forall>c\<in>S. valid walk c \<and> list_all (valid walk) (parents_of walk c)" and n: "finite S" "card S \<le> n"
  shows "R \<subseteq> S \<Longrightarrow> counted walk w R (children walk R) \<Longrightarrow> tips_ok env (git_commit_list_time_cmp v) pq \<Longrightarrow>
    elems pq = mset_set {p \<in> R. children walk R p = 0} \<Longrightarrow> card R < fuel \<Longrightarrow>
    \<exists>out w1. topo_loop fuel env pq newlist w = Some (Inr (newlist @ out), w1) \<and> distinct out \<and> set out = R \<and>
      topo_ordered walk out"
proof (induction fuel arbitrary: R w pq newlist)
  case (Suc fuel)
  have fin: "finite R" using Suc.prems(1) n(1) finite_subset by blast
  let ?tips = "\<lambda>R. {p \<in> R. children walk R p = 0}"
  have finT: "finite (?tips R)" using fin by simp
  note pop = tips_pop [OF Suc.prems(3)]
  obtain r pq1 where r: "git_pqueue_pop pq = (r, pq1)" by (cases "git_pqueue_pop pq")
  show ?case
  proof (cases r)
    case None
    then have "?tips R = {}" using pop r Suc.prems(4) finT by (auto simp: mset_set_empty_iff)
    then have "R = {}" using tip_exists [OF ac fin] ps Suc.prems(1) by blast
    then show ?thesis using None r by (simp add: topo_ordered_def)
  next
    case (Some c)
    have q: "tips_ok env (git_commit_list_time_cmp v) pq1" "elems pq = add_mset c (elems pq1)" using pop r Some by simp_all
    then have c: "c \<in> ?tips R" using Suc.prems(4) finT by (metis elem_mset_set multi_member_last union_single_eq_member)
    then have cR: "c \<in> R" "\<forall>d\<in>R. c \<notin> set (parents_of walk d)" using fin by (auto simp: children_0)
    have vc: "valid walk c" "list_all (valid walk) (parents_of walk c)" using ps cR Suc.prems(1) by auto
    let ?R = "R - {c}"
    let ?k = "\<lambda>p. if p = c then 0 else children walk ?R p"
    have own: "parents_of w c = parents_of walk c" using Suc.prems(2) vc(1) by (simp add: counted_def same_but_degrees_def)
    have "counted walk w R (\<lambda>p. ?k p + count_list (parents_of walk c) p)"
      using Suc.prems(2) cR c children_remove [OF fin cR(1)] unfolding counted_def by (auto simp: count_list_0_iff)
    note rel = release_parents_spec [OF mem this vc(2) fin q(1)]
    have e1: "elems pq1 = mset_set (?tips R - {c})"
      using q(2) Suc.prems(4) c finT by (simp add: mset_set_Diff)
    have split: "?tips ?R = (?tips R - {c}) \<union> {p \<in> R. ?k p = 0 \<and> p \<in> set (parents_of walk c)}"
        "(?tips R - {c}) \<inter> {p \<in> R. ?k p = 0 \<and> p \<in> set (parents_of walk c)} = {}"
      using children_remove [OF fin cR(1)] cR by (auto simp: count_list_0_iff)
    have sub: "?tips ?R \<subseteq> S" using Suc.prems(1) by blast
    have "size (elems pq1) + card {p \<in> R. ?k p = 0 \<and> p \<in> set (parents_of walk c)} = card (?tips ?R)"
      unfolding e1 split(1) using finT fin split(2) by (subst card_Un_disjoint) auto
    also have "\<dots> \<le> n" using le_trans [OF card_mono [OF n(1) sub] n(2)] .
    finally have le: "size (elems pq1) + card {p \<in> R. ?k p = 0 \<and> p \<in> set (parents_of walk c)} \<le> n" .
    obtain pq2 w2 where 2: "release_parents env (parents_of walk c) pq1 w = Some (Inr pq2, w2)" "counted walk w2 R ?k"
        "tips_ok env (git_commit_list_time_cmp v) pq2"
        "elems pq2 = elems pq1 + mset_set {p \<in> R. ?k p = 0 \<and> p \<in> set (parents_of walk c)}"
      using rel [OF le] by blast
    let ?w = "set_in_degree c 0 w2"
    have vw: "valid w2 c" using 2(2) vc(1) by (simp add: counted_def same_but_degrees_def)
    have c3: "counted walk ?w ?R (children walk ?R)"
      using 2(2) vc(1) cR same_set_in_degree unfolding counted_def by (auto simp: set_in_degree_simps [OF vw])
    have e3: "elems pq2 = mset_set (?tips ?R)"
      unfolding 2(4) e1 split(1) using finT fin split(2) by (subst mset_set_Union) auto
    have "card ?R < fuel" using Suc.prems(5) card_Diff1_less [OF fin cR(1)] by linarith
    moreover have "?R \<subseteq> S" using Suc.prems(1) by blast
    ultimately obtain out w3 where 3: "topo_loop fuel env pq2 (newlist @ [c]) ?w = Some (Inr ((newlist @ [c]) @ out), w3)"
        "distinct out" "set out = ?R" "topo_ordered walk out"
      using Suc.IH [OF _ c3 2(3) e3] by blast
    have "topo_loop (Suc fuel) env pq newlist w = Some (Inr (newlist @ c # out), w3)"
      using r Some 2(1) 3(1) own by (simp add: bnd_def update_state_def)
    then show ?thesis using 3 cR by (intro exI [of _ "c # out"] exI [of _ w3]) (auto simp: topo_ordered_def)
  qed
qed simp

subsection \<open>The sort\<close>

lemma insert_tips_spec:
  assumes mem: "enough_memory env n"
  shows "tips_ok env (git_commit_list_time_cmp v) pq \<Longrightarrow> size (elems pq) + length cs \<le> n \<Longrightarrow>
    \<exists>pq1. insert_tips env w cs pq = Inr pq1 \<and> tips_ok env (git_commit_list_time_cmp v) pq1 \<and> v_cmp pq1 = v_cmp pq \<and>
      elems pq1 = elems pq + mset (filter (\<lambda>c. in_degree w c = 1) cs)"
proof (induction cs arbitrary: pq)
  case (Cons c cs)
  show ?case
  proof (cases "in_degree w c = 1")
    case True
    obtain pq1 where p: "git_pqueue_insert (env_can_alloc env) pq c = Inr pq1" "tips_ok env (git_commit_list_time_cmp v) pq1"
        "elems pq1 = add_mset c (elems pq)"
      using tips_insert [OF Cons.prems(1) mem] Cons.prems(2) by auto
    have "v_cmp pq1 = v_cmp pq" using p(1) tips_fixed [OF Cons.prems(1)] by (rule insert_keeps_cmp)
    then show ?thesis using Cons.IH [OF p(2)] Cons.prems(2) p True by auto
  qed (use Cons in auto)
qed simp

lemma degrees_start:
  assumes v: "list_all (valid walk) list" "distinct list" "\<forall>c\<in>set list. list_all (valid walk) (parents_of walk c)"
    and z: "\<forall>c. valid walk c \<longrightarrow> c \<notin> set list \<longrightarrow> in_degree walk c = 0"
    and bound: "\<forall>p\<in>set list. child_count walk list p + 1 < 65536"
  shows "counted walk (count_children list (reset_degrees list walk)) (set list) (children walk (set list))"
proof -
  have "counted walk (reset_degrees list walk) (set list) (\<lambda>_. 0)"
    using reset_degrees_spec [OF v(1), of walk] z by (auto simp: counted_def)
  then have "counted walk (count_children list (reset_degrees list walk)) (set list) (\<lambda>p. 0 + child_count walk list p)"
    using v bound by (intro count_children_spec) simp_all
  moreover have "child_count walk list = children walk (set list)"
    using v(2) by (auto simp: child_count_def children_def sum_list_distinct_conv_sum_set)
  ultimately show ?thesis by simp
qed

lemma topo_queue_init:
  assumes "enough_memory env n"
  obtains pq where "git_pqueue_init (env_can_alloc env) 0 8 (if timed then Some (git_commit_list_time_cmp walk) else None) = Inr pq"
    "tips_ok env (git_commit_list_time_cmp walk) pq" "elems pq = {#}" "timed \<or> v_cmp pq = None"
proof (cases timed)
  case True
  have a: "env_can_alloc env 8" using assms by (simp add: enough_memory_def)
  then obtain pq where p: "git_pqueue_init (env_can_alloc env) 0 8 (Some (git_commit_list_time_cmp walk)) = Inr pq"
    by (auto simp: git_pqueue_init_def git_vector_init_def resize_vector_def Let_def MIN_ALLOCSIZE_def)
  then have "growing_inv (env_can_alloc env) (git_commit_list_time_cmp walk) pq \<and> elems pq = {#}"
    by (rule git_pqueue_init_growing) (simp add: env_can_alloc_def)
  then show ?thesis using that p True by (simp add: tips_ok_def)
next
  case False
  have "env_can_alloc env 8" using assms by (simp add: enough_memory_def)
  then have "git_pqueue_init (env_can_alloc env) 0 8 None =
      Inr \<lparr>v_alloc_size = 8, v_cmp = None, v_contents = [], v_flags = GIT_VECTOR_SORTED\<rparr>"
    by (simp add: git_pqueue_init_def git_vector_init_def resize_vector_def Let_def MIN_ALLOCSIZE_def)
  then show ?thesis using False
    by (intro that [of "\<lparr>v_alloc_size = 8, v_cmp = None, v_contents = [], v_flags = GIT_VECTOR_SORTED\<rparr>"])
      (simp_all add: tips_ok_def vector_fits_def elems_def fixed_size_def GIT_PQUEUE_FIXED_SIZE_def GIT_VECTOR_FLAG_MAX_def
        GIT_VECTOR_SORTED_def SIZE_MAX_def)
qed

text \<open>
  C29. \<open>sort_in_topological_order\<close> ends with all commits of the list, each once, and no commit in front of
  one of its children. The history is acyclic, the commits that are not in the list have the degree 0
  that a reset leaves, there is memory, and no commit has so many children in the list that its 16-bit
  degree wraps.
\<close>

theorem sort_in_topological_order_correct:
  assumes "wf_walk env walk" "acyclic (history env)" "list_all (valid walk) list" "distinct list"
    and "\<forall>c. valid walk c \<longrightarrow> c \<notin> set list \<longrightarrow> in_degree walk c = 0"
    and "\<forall>p\<in>set list. child_count walk list p + 1 < 65536"
    and "enough_memory env (length list)" "length list < fuel"
  shows "\<exists>out walk1. sort_in_topological_order fuel env list walk = Some (Inr out, walk1) \<and> mset out = mset list \<and>
    sorted_wrt (\<lambda>a b. a \<notin> set (parents_of walk b)) out"
proof -
  define timed where "timed = (w_sorting walk AND GIT_SORT_TIME \<noteq> 0)"
  obtain pq where p: "git_pqueue_init (env_can_alloc env) 0 8 (if timed then Some (git_commit_list_time_cmp walk) else None) = Inr pq"
      "tips_ok env (git_commit_list_time_cmp walk) pq" "elems pq = {#}" "timed \<or> v_cmp pq = None"
    using topo_queue_init [OF assms(7)] .
  have ps: "\<forall>c\<in>set list. valid walk c \<and> list_all (valid walk) (parents_of walk c)"
    using assms(3) parents_history(1) [OF assms(1)] by (auto simp: list_all_iff)
  let ?w = "count_children list (reset_degrees list walk)"
  have deg: "counted walk ?w (set list) (children walk (set list))" using ps assms(3-6) by (intro degrees_start) auto
  obtain pq1 where p1: "insert_tips env ?w list pq = Inr pq1" "tips_ok env (git_commit_list_time_cmp walk) pq1"
      "v_cmp pq1 = v_cmp pq" "elems pq1 = mset (filter (\<lambda>c. in_degree ?w c = 1) list)"
    using insert_tips_spec [OF assms(7) p(2), of list ?w] p(3) by auto
  have "in_degree ?w c = 1 \<longleftrightarrow> children walk (set list) c = 0" if "c \<in> set list" for c
    unfolding unat_zero_iff(2) [symmetric] using deg ps that by (simp add: counted_def)
  then have "filter (\<lambda>c. in_degree ?w c = 1) list = filter (\<lambda>c. children walk (set list) c = 0) list"
    by (intro filter_cong) simp_all
  then have e1: "elems pq1 = mset_set {c \<in> set list. children walk (set list) c = 0}"
    using p1(4) assms(4) mset_set_set [of "filter (\<lambda>c. children walk (set list) c = 0) list"] by simp
  define q where "q = (if timed then pq1 else git_vector_reverse pq1)"
  have q: "tips_ok env (git_commit_list_time_cmp walk) q" "elems q = elems pq1"
    using p1(2,3) p(4) by (auto simp: q_def tips_reverse)
  have "card (set list) < fuel" "card (set list) \<le> length list" using assms(4,8) by (simp_all add: distinct_card)
  then obtain out w1 where out: "topo_loop fuel env q [] ?w = Some (Inr ([] @ out), w1)" "distinct out" "set out = set list"
      "topo_ordered walk out"
    using topo_loop_spec [OF assms(7) edges_acyclic [OF assms(1,2)] ps finite_set \<open>card (set list) \<le> length list\<close>
        subset_refl deg q(1)] q(2) e1 by fastforce
  have "mset out = mset list" using out(2,3) assms(4) by (simp add: set_eq_iff_mset_eq_distinct)
  moreover have "sort_in_topological_order fuel env list walk = Some (Inr out, w1)"
    using p(1) p1(1) out(1) by (simp add: sort_in_topological_order_def timed_def [symmetric] q_def [symmetric] Let_def)
  ultimately show ?thesis using out(4) by (auto simp: topo_ordered_def)
qed

definition chain_walk :: git_revwalk where
  "chain_walk = solo_walk\<lparr>w_commits :=
     [(git_commit_list_alloc_node root_id)\<lparr>n_time := 3, n_parsed := True, n_parents := Some []\<rparr>,
      (git_commit_list_alloc_node left_id)\<lparr>n_time := 5, n_parsed := True, n_out_degree := 1, n_parents := Some [0]\<rparr>],
     w_sorting := GIT_SORT_TOPOLOGICAL\<rparr>"

lemma chain_node: "node chain_walk 0 = (git_commit_list_alloc_node root_id)\<lparr>n_time := 3, n_parsed := True, n_parents := Some []\<rparr>"
    "node chain_walk (Suc 0) = (git_commit_list_alloc_node left_id)\<lparr>n_time := 5, n_parsed := True, n_out_degree := 1, n_parents := Some [0]\<rparr>"
    "valid chain_walk c \<longleftrightarrow> c = 0 \<or> c = Suc 0"
  by (auto simp: chain_walk_def node_def valid_def)

lemma chain_wf: "wf_walk fork_env chain_walk"
  unfolding wf_walk_def
proof (intro conjI allI impI)
  show "distinct (map n_oid (w_commits chain_walk))" by (simp add: chain_walk_def git_commit_list_alloc_node_def)
  fix c assume "valid chain_walk c"
  then show "node_ok fork_env chain_walk c"
    by (auto simp: node_ok_def chain_node oid_at_def git_commit_list_alloc_node_def) (simp_all add: fork_env_def)
qed

lemma fork_memory: "n \<le> 8 \<Longrightarrow> enough_memory fork_env n"
  by (auto simp: enough_memory_def env_can_alloc_def SIZE_MAX_def) (auto simp: fork_env_def)

theorem sort_in_topological_order_correct_witness:
  "\<exists>walk1. sort_in_topological_order 3 fork_env [0, 1] chain_walk = Some (Inr [1, 0], walk1)"
proof -
  have "\<exists>out walk1. sort_in_topological_order 3 fork_env [0, 1] chain_walk = Some (Inr out, walk1) \<and> mset out = mset [0, 1] \<and>
      sorted_wrt (\<lambda>a b. a \<notin> set (parents_of chain_walk b)) out"
    by (rule sort_in_topological_order_correct [OF chain_wf fork_acyclic])
      (auto simp: chain_node child_count_def parents_of_def git_commit_list_alloc_node_def fork_memory)
  then obtain out walk1 where o: "sort_in_topological_order 3 fork_env [0, 1] chain_walk = Some (Inr out, walk1)"
      "mset out = mset [0, 1]" "sorted_wrt (\<lambda>a b. a \<notin> set (parents_of chain_walk b)) out" by blast
  have "length out = 2" using mset_eq_length [OF o(2)] by simp
  then obtain a b where ab: "out = [a, b]" by (auto simp: length_Suc_conv numeral_2_eq_2)
  then have "a = 0 \<and> b = 1 \<or> a = 1 \<and> b = 0" using o(2) by (auto simp: add_eq_conv_ex)
  then have "out = [1, 0]" using o(3) ab by (auto simp: chain_node parents_of_def git_commit_list_alloc_node_def)
  then show ?thesis using o(1) by blast
qed

text \<open>The degree of a commit with 65535 children in the list wraps to 0, so that the commit is taken for hidden.\<close>

lemma in_degree_wraps:
  assumes "valid w p" "in_degree w p = 65535"
  shows "in_degree (count_parent p w) p = 0"
  using assms by (simp add: set_in_degree_simps)

end
