(* ===== verification/HideCorrect.thy ===== *)
theory HideCorrect
  imports TopoCorrect
begin

text \<open>
  \<open>mark_parents_uninteresting\<close> of \<open>revwalk.c\<close>: which commits a walk hides.
\<close>

definition hidden_nodes :: "git_commit_list_node list \<Rightarrow> nat set" where
  "hidden_nodes nodes = {c. c < length nodes \<and> n_uninteresting (nodes ! c)}"

text \<open>Only the mark is set.\<close>

definition only_hides :: "git_commit_list_node list \<Rightarrow> git_commit_list_node list \<Rightarrow> bool" where
  "only_hides nodes nodes1 \<longleftrightarrow> length nodes1 = length nodes \<and>
     (\<forall>c<length nodes. nodes1 ! c = nodes ! c \<or> nodes1 ! c = (nodes ! c)\<lparr>n_uninteresting := True\<rparr>)"

definition node_parents :: "git_commit_list_node list \<Rightarrow> nat \<Rightarrow> nat list" where
  "node_parents nodes c = (case n_parents (nodes ! c) of None \<Rightarrow> [] | Some ps \<Rightarrow> ps)"

definition node_edges :: "git_commit_list_node list \<Rightarrow> (nat \<times> nat) set" where
  "node_edges nodes = {(c, p). c < length nodes \<and> p \<in> set (node_parents nodes c)}"

text \<open>The marked nodes have marked parents, but for those of the pending ones \<open>P\<close>.\<close>

definition hides_closed :: "git_commit_list_node list \<Rightarrow> nat set \<Rightarrow> bool" where
  "hides_closed nodes P \<longleftrightarrow> (\<forall>c\<in>hidden_nodes nodes. \<forall>p\<in>set (node_parents nodes c). p \<in> hidden_nodes nodes \<union> P)"

lemma only_hides_trans: "only_hides a b \<Longrightarrow> only_hides b c \<Longrightarrow> only_hides a c"
  by (fastforce simp: only_hides_def)

lemma only_hides_same: "only_hides a b \<Longrightarrow> node_edges b = node_edges a" "only_hides a b \<Longrightarrow> length b = length a"
  by (auto simp: only_hides_def node_edges_def node_parents_def split: option.splits) (fastforce+)

lemma hide_step:
  assumes c: "c < length nodes" "\<not> n_uninteresting (nodes ! c)"
  defines "nodes1 \<equiv> nodes[c := (nodes ! c)\<lparr>n_uninteresting := True\<rparr>]"
  shows "only_hides nodes nodes1" "hidden_nodes nodes1 = insert c (hidden_nodes nodes)"
    "node_parents nodes1 d = node_parents nodes d"
    "hides_closed nodes (insert c P) \<Longrightarrow> hides_closed nodes1 (set (node_parents nodes c) \<union> P)"
proof -
  show "only_hides nodes nodes1" using c by (auto simp: only_hides_def nodes1_def nth_list_update)
  show h: "hidden_nodes nodes1 = insert c (hidden_nodes nodes)"
    using c by (auto simp: hidden_nodes_def nodes1_def nth_list_update)
  show np: "node_parents nodes1 d = node_parents nodes d" for d
    using c by (cases "d = c") (simp_all add: node_parents_def nodes1_def)
  show "hides_closed nodes (insert c P) \<Longrightarrow> hides_closed nodes1 (set (node_parents nodes c) \<union> P)"
    unfolding hides_closed_def h np by blast
qed

definition pending :: "nat option \<Rightarrow> nat list \<Rightarrow> nat set" where "pending cur parents = set_option cur \<union> set parents"

lemma hides_closed_mono: "hides_closed nodes P \<Longrightarrow> P \<subseteq> Q \<union> hidden_nodes nodes \<Longrightarrow> hides_closed nodes Q"
  unfolding hides_closed_def by blast

text \<open>What the marking has reached at the end.\<close>

definition marks_reached :: "git_commit_list_node list \<Rightarrow> nat set \<Rightarrow> git_commit_list_node list \<Rightarrow> bool" where
  "marks_reached nodes P nodes1 \<longleftrightarrow> only_hides nodes nodes1 \<and> hidden_nodes nodes \<union> P \<subseteq> hidden_nodes nodes1 \<and>
     hides_closed nodes1 {} \<and> hidden_nodes nodes1 \<subseteq> hidden_nodes nodes \<union> (node_edges nodes)\<^sup>* `` P"

lemma marks_reached_mono:
  assumes "marks_reached nodes P nodes1" "Q \<subseteq> P \<union> hidden_nodes nodes" "P \<subseteq> (node_edges nodes)\<^sup>* `` Q"
  shows "marks_reached nodes Q nodes1"
proof -
  have "(node_edges nodes)\<^sup>* `` P \<subseteq> (node_edges nodes)\<^sup>* `` Q" using assms(3) by (auto intro: rtrancl_trans)
  then show ?thesis using assms(1,2) unfolding marks_reached_def by blast
qed

lemma mark_uninteresting_spec:
  "pending cur parents \<subseteq> {..<length nodes} \<Longrightarrow> (\<forall>c<length nodes. set (node_parents nodes c) \<subseteq> {..<length nodes}) \<Longrightarrow>
   hides_closed nodes (pending cur parents) \<Longrightarrow>
   \<exists>nodes1. mark_uninteresting nodes cur parents = Some nodes1 \<and> marks_reached nodes (pending cur parents) nodes1"
proof (induction nodes cur parents rule: mark_uninteresting.induct)
  case (1 nodes cur parents)
  note unf = mark_uninteresting.simps [of nodes cur parents]
  show ?case
  proof (cases cur)
    case None
    then show ?thesis
    proof (cases parents)
      case Nil
      then show ?thesis using None "1.prems"(3) by (subst unf) (simp add: marks_reached_def only_hides_def pending_def)
    next
      case (Cons c rest)
      then have "pending (Some c) rest = pending cur parents" using None by (simp add: pending_def)
      then show ?thesis using 1(1) [OF None Cons] "1.prems"(1-3) None Cons by (subst unf) simp
    qed
  next
    case (Some c)
    have len: "c < length nodes" using "1.prems"(1) Some by (simp add: pending_def)
    show ?thesis
    proof (cases "n_uninteresting (nodes ! c)")
      case True
      then have c: "c \<in> hidden_nodes nodes" using len by (simp add: hidden_nodes_def)
      have "hides_closed nodes (pending None parents)"
        using "1.prems"(3) c Some by (auto intro: hides_closed_mono simp: pending_def)
      then obtain nodes1 where n: "mark_uninteresting nodes None parents = Some nodes1" "marks_reached nodes (pending None parents) nodes1"
        using 1(2) [OF Some] "1.prems"(1,2) len True Some by (auto simp: pending_def)
      have "marks_reached nodes (pending cur parents) nodes1"
        using n(2) c Some by (elim marks_reached_mono) (auto simp: pending_def)
      then show ?thesis using n(1) Some True len by (subst unf) simp
    next
      case False
      let ?n1 = "nodes[c := (nodes ! c)\<lparr>n_uninteresting := True\<rparr>]"
      let ?ps = "node_parents nodes c"
      let ?cur = "case ?ps of [] \<Rightarrow> None | p # _ \<Rightarrow> Some p"
      note st = hide_step [OF len False]
      have rec: "mark_uninteresting nodes cur parents = mark_uninteresting ?n1 (if n_parents (nodes ! c) = None then None else ?cur)
          (rev ?ps @ parents)"
        using Some len False by (subst unf) (auto simp: Let_def node_parents_def split: option.splits)
      have pend: "pending (if n_parents (nodes ! c) = None then None else ?cur) (rev ?ps @ parents) = set ?ps \<union> set parents"
        by (auto simp: pending_def node_parents_def split: option.splits list.splits)
      have closed: "hides_closed ?n1 (set ?ps \<union> set parents)"
        using "1.prems"(3) Some by (intro st(4)) (simp add: pending_def)
      have lens: "set ?ps \<union> set parents \<subseteq> {..<length ?n1}" "\<forall>d<length ?n1. set (node_parents ?n1 d) \<subseteq> {..<length ?n1}"
        using "1.prems"(1,2) len Some by (auto simp: st(3) pending_def)
      have "\<exists>nodes1. mark_uninteresting nodes cur parents = Some nodes1 \<and> marks_reached ?n1 (set ?ps \<union> set parents) nodes1"
        unfolding rec using 1(3,4) [OF Some _ False refl] len lens closed pend
        by (cases "n_parents (nodes ! c)") (auto simp: node_parents_def)
      then obtain nodes1 where n: "mark_uninteresting nodes cur parents = Some nodes1"
          "marks_reached ?n1 (set ?ps \<union> set parents) nodes1" by blast
      have e: "node_edges ?n1 = node_edges nodes" using only_hides_same(1) [OF st(1)] .
      have "set ?ps \<subseteq> (node_edges nodes)\<^sup>* `` {c}" using len by (auto simp: node_edges_def)
      then have "(node_edges nodes)\<^sup>* `` (set ?ps \<union> set parents) \<subseteq> (node_edges nodes)\<^sup>* `` insert c (set parents)"
        by (auto intro: rtrancl_trans)
      then have "marks_reached nodes (insert c (set parents)) nodes1"
        using n(2) only_hides_trans [OF st(1)] unfolding marks_reached_def e st(2) by blast
      then show ?thesis using n(1) Some by (simp add: pending_def)
    qed
  qed
qed



text \<open>A push by date puts the commit into the list by its date, and then to the front as well.\<close>

lemma push_by_date_twice:
  assumes "env_mem env" "peel oid = Inr (Some commit_id)" "oidmap_get (w_commits walk) commit_id = Some c"
    and "\<not> n_uninteresting (node walk c)" "w_user_input walk = []" "o_insert_by_date opts"
  shows "\<exists>walk1. git_revwalk__push_commit env peel oid opts walk = Some (Inr (), walk1) \<and> w_user_input walk1 = [c, c]"
  using assms
  by (simp add: git_revwalk__push_commit_def bnd_def lift_result_def git_revwalk__commit_lookup_def ret_def get_state_def
      update_state_def git_commit_list_insert_def set_node_def)

end
