(* ===== verification/Buffer.thy ===== *)
theory Buffer
  imports Oid
begin

text \<open>
  \<open>buffer.c\<close> and \<open>buffer.h\<close>: the growing byte buffers, with the memory they own.

  Sizes are \<open>size_t\<close>; they are kept as \<open>nat\<close> below \<open>2 ^ 64\<close>, with the overflow checks of \<open>integer.h\<close>
  and the wrap-around of the growth computation written out. A function on a buffer is an effect
  on it; \<open>None\<close> is a read or write outside the allocation or a failed assertion.
\<close>

subsection \<open>The structure\<close>

text \<open>
  What \<open>ptr\<close> points to: nothing, one of the two marker objects, an allocation of \<open>asize\<close> bytes, or bytes
  that belong to somebody else.
\<close>

datatype buf_ptr = NullPtr | git_buf__initbuf | git_buf__oom | Owned string | Borrowed string

record git_buf =
  b_ptr :: buf_ptr
  b_asize :: nat
  b_size :: nat

text \<open>
  The allocator: whether a request for \<open>n\<close> bytes succeeds, and the content of bytes that nothing has
  been written to.
\<close>

record buf_env =
  be_alloc :: "nat \<Rightarrow> bool"
  be_junk :: char

definition GIT_BUF_INIT :: git_buf where
  "GIT_BUF_INIT = \<lparr>b_ptr = git_buf__initbuf, b_asize = 0, b_size = 0\<rparr>"

type_synonym 'a buf = "(git_buf, 'a) eff"

text \<open>The bytes of the object that \<open>ptr\<close> points to; both markers are arrays of one zero.\<close>

definition cells :: "git_buf \<Rightarrow> string" where
  "cells b = (case b_ptr b of
      NullPtr \<Rightarrow> [] | git_buf__initbuf \<Rightarrow> [NUL] | git_buf__oom \<Rightarrow> [NUL] | Owned cs \<Rightarrow> cs | Borrowed cs \<Rightarrow> cs)"

definition contents :: "git_buf \<Rightarrow> string" where "contents b = take (b_size b) (cells b)"

definition git_buf_is_allocated :: "git_buf \<Rightarrow> bool" where
  "git_buf_is_allocated b \<longleftrightarrow> b_ptr b \<noteq> NullPtr \<and> b_asize b > 0"

definition git_buf_oom :: "git_buf \<Rightarrow> bool" where "git_buf_oom b \<longleftrightarrow> b_ptr b = git_buf__oom"

definition git_buf_cstr :: "git_buf \<Rightarrow> string" where "git_buf_cstr b = takeWhile (\<lambda>c. c \<noteq> NUL) (cells b)"

definition git_buf_len :: "git_buf \<Rightarrow> nat" where "git_buf_len b = b_size b"

subsection \<open>Memory\<close>

text \<open>A byte is stored in memory of the buffer only; a store into a marker object is no state of this buffer.\<close>

definition poke :: "nat \<Rightarrow> char \<Rightarrow> unit buf" where
  "poke i c b = (case b_ptr b of
      Owned cs \<Rightarrow> if i < length cs then Some (Inr (), b\<lparr>b_ptr := Owned (cs[i := c])\<rparr>) else None
    | Borrowed cs \<Rightarrow> if i < length cs then Some (Inr (), b\<lparr>b_ptr := Borrowed (cs[i := c])\<rparr>) else None
    | git_buf__oom \<Rightarrow> if i = 0 \<and> c = NUL then Some (Inr (), b) else None
    | git_buf__initbuf \<Rightarrow> if i = 0 \<and> c = NUL then Some (Inr (), b) else None
    | NullPtr \<Rightarrow> None)"

definition peek :: "nat \<Rightarrow> char buf" where
  "peek i b = (if i < length (cells b) then Some (Inr (cells b ! i), b) else None)"

text \<open>\<open>memmove(ptr + i, s, n)\<close> and \<open>memcpy\<close>, with the \<open>n\<close> bytes of the source in \<open>s\<close>.\<close>

definition move_in :: "nat \<Rightarrow> string \<Rightarrow> unit buf" where
  "move_in i s b = (if s = [] then Some (Inr (), b) else (case b_ptr b of
      Owned cs \<Rightarrow> if i + length s \<le> length cs
        then Some (Inr (), b\<lparr>b_ptr := Owned (take i cs @ s @ drop (i + length s) cs)\<rparr>) else None
    | Borrowed cs \<Rightarrow> if i + length s \<le> length cs
        then Some (Inr (), b\<lparr>b_ptr := Borrowed (take i cs @ s @ drop (i + length s) cs)\<rparr>) else None
    | _ \<Rightarrow> None))"

definition set_size :: "nat \<Rightarrow> unit buf" where "set_size n = update_state (\<lambda>b. b\<lparr>b_size := n\<rparr>)"

text \<open>\<open>buf->ptr[buf->size] = '\0'\<close>.\<close>

definition terminate :: "unit buf" where "terminate b = poke (b_size b) NUL b"

text \<open>\<open>buf->ptr[buf->size++] = c\<close>.\<close>

definition emit :: "char \<Rightarrow> unit buf" where
  "emit c b = bnd (poke (b_size b) c) (\<lambda>_. set_size (b_size b + 1)) b"

subsection \<open>Growth\<close>

text \<open>\<open>GIT_ADD_SIZET_OVERFLOW\<close> and \<open>GIT_MULTIPLY_SIZET_OVERFLOW\<close>: the result, if it fits.\<close>

definition add_sizet :: "nat \<Rightarrow> nat \<Rightarrow> (git_buf, nat) eff" where
  "add_sizet a c = (if a + c \<le> SIZE_MAX then ret (a + c) else fail GIT_ERROR)"

definition multiply_sizet :: "nat \<Rightarrow> nat \<Rightarrow> (git_buf, nat) eff" where
  "multiply_sizet a c = (if a * c \<le> SIZE_MAX then ret (a * c) else fail GIT_ERROR)"

definition set_oom :: "bool \<Rightarrow> unit buf" where
  "set_oom mark_oom b = Some (Inl GIT_ERROR, if mark_oom then b\<lparr>b_ptr := git_buf__oom\<rparr> else b)"

text \<open>The new allocation for \<open>target\<close> bytes; the shifts and the rounding are those of a \<open>size_t\<close>.\<close>

definition grown_size :: "nat \<Rightarrow> nat \<Rightarrow> nat" where
  "grown_size asize target =
     (let w = (of_nat asize :: size_t); half_more = unat (push_bit 1 w - drop_bit 1 w);
          new_size = (if asize = 0 \<or> half_more < target then target else half_more)
      in unat ((of_nat new_size + 7 :: size_t) AND NOT 7))"

text \<open>\<open>git__realloc\<close> of the owned bytes, or of NULL.\<close>

definition realloc_cells :: "buf_env \<Rightarrow> git_buf \<Rightarrow> nat \<Rightarrow> string" where
  "realloc_cells env b new_size =
     (let old = (if b_asize b = 0 then [] else cells b) in
      take new_size old @ replicate (new_size - length old) (be_junk env))"

text \<open>An allocation of no bytes has no place for the terminator: the write goes out of bounds.\<close>

definition git_buf_try_grow :: "buf_env \<Rightarrow> nat \<Rightarrow> bool \<Rightarrow> unit buf" where
  "git_buf_try_grow env target0 mark_oom b =
     (if b_ptr b = git_buf__oom then Some (Inl GIT_ERROR, b)
      else if b_asize b = 0 \<and> b_size b \<noteq> 0 then Some (Inl GIT_EINVALID, b)
      else (let target = (if target0 = 0 then b_size b else target0) in
        if target \<le> b_asize b then Some (Inr (), b)
        else (let new_size = grown_size (b_asize b) target in
          if new_size < b_size b then set_oom mark_oom b
          else if \<not> be_alloc env new_size then set_oom mark_oom b
          else if new_size = 0 then None
          else terminate (b\<lparr>b_asize := new_size, b_ptr := Owned (realloc_cells env b new_size),
                 b_size := (if b_size b \<ge> new_size then new_size - 1 else b_size b)\<rparr>))))"

definition git_buf_grow :: "buf_env \<Rightarrow> nat \<Rightarrow> unit buf" where
  "git_buf_grow env target = git_buf_try_grow env target True"

definition git_buf_grow_by :: "buf_env \<Rightarrow> nat \<Rightarrow> unit buf" where
  "git_buf_grow_by env additional_size b =
     (if b_size b + additional_size > SIZE_MAX then set_oom True b
      else git_buf_try_grow env (b_size b + additional_size) True b)"

text \<open>The macro \<open>ENSURE_SIZE\<close>, whose error is always -1.\<close>

definition ENSURE_SIZE :: "buf_env \<Rightarrow> nat \<Rightarrow> unit buf" where
  "ENSURE_SIZE env d b =
     (if b_ptr b = git_buf__oom then Some (Inl GIT_ERROR, b)
      else if d > b_asize b then
        (case git_buf_grow env d b of
           None \<Rightarrow> None
         | Some (Inl e, b1) \<Rightarrow> Some (Inl GIT_ERROR, b1)
         | Some (Inr _, b1) \<Rightarrow> Some (Inr (), b1))
      else Some (Inr (), b))"

definition git_buf_init :: "buf_env \<Rightarrow> nat \<Rightarrow> unit buf" where
  "git_buf_init env initial_size b = ENSURE_SIZE env initial_size GIT_BUF_INIT"

definition git_buf_dispose :: "unit buf" where "git_buf_dispose b = Some (Inr (), GIT_BUF_INIT)"

definition git_buf_sanitize :: "unit buf" where
  "git_buf_sanitize b =
     (if b_ptr b = NullPtr then
        (if b_size b = 0 \<and> b_asize b = 0 then Some (Inr (), b\<lparr>b_ptr := git_buf__initbuf\<rparr>) else None)
      else if b_asize b > b_size b then terminate b
      else Some (Inr (), b))"

definition git_buf_clear :: "unit buf" where
  "git_buf_clear b =
     (let b1 = (if b_ptr b = NullPtr then b\<lparr>b_size := 0, b_ptr := git_buf__initbuf, b_asize := 0\<rparr> else b\<lparr>b_size := 0\<rparr>) in
      if b_asize b1 > 0 then poke 0 NUL b1 else Some (Inr (), b1))"

subsection \<open>Writing\<close>

text \<open>A pointer argument: NULL, other memory with the bytes that follow, or a place in this buffer.\<close>

datatype char_ptr = PNull | POther string | PBuf nat

text \<open>Growing the buffer would leave a pointer into it dangling.\<close>

definition git_buf_set :: "buf_env \<Rightarrow> char_ptr \<Rightarrow> nat \<Rightarrow> unit buf" where
  "git_buf_set env data len b =
     (if len = 0 \<or> data = PNull then git_buf_clear b
      else bnd
        (case data of
           POther s \<Rightarrow> bnd (add_sizet len 1) (\<lambda>alloclen. bnd (ENSURE_SIZE env alloclen) (\<lambda>_. move_in 0 (take len s)))
         | PBuf p \<Rightarrow> if p = 0 then ret ()
             else bnd (add_sizet len 1) (\<lambda>alloclen. if alloclen > b_asize b then (\<lambda>b. None)
               else bnd (ENSURE_SIZE env alloclen) (\<lambda>_. move_in 0 (take len (drop p (cells b)))))
         | PNull \<Rightarrow> ret ())
        (\<lambda>_. bnd (set_size len) (\<lambda>_ b. if b_asize b > b_size b then terminate b else Some (Inr (), b))) b)"

definition git_buf_sets :: "buf_env \<Rightarrow> string option \<Rightarrow> unit buf" where
  "git_buf_sets env s = (case s of None \<Rightarrow> git_buf_set env PNull 0 | Some cs \<Rightarrow> git_buf_set env (POther cs) (length cs))"

definition git_buf_putc :: "buf_env \<Rightarrow> char \<Rightarrow> unit buf" where
  "git_buf_putc env c b =
     bnd (add_sizet (b_size b) 2) (\<lambda>new_size. bnd (ENSURE_SIZE env new_size) (\<lambda>_. bnd (emit c) (\<lambda>_. terminate))) b"

text \<open>Appending \<open>s\<close> in one go: \<open>memmove\<close> or \<open>memset\<close> behind the content, the new size, the terminator.\<close>

definition append_bytes :: "string \<Rightarrow> unit buf" where
  "append_bytes s b = bnd (move_in (b_size b) s) (\<lambda>_. bnd (set_size (b_size b + length s)) (\<lambda>_. terminate)) b"

definition git_buf_putcn :: "buf_env \<Rightarrow> char \<Rightarrow> nat \<Rightarrow> unit buf" where
  "git_buf_putcn env c len b =
     bnd (add_sizet (b_size b) len) (\<lambda>n. bnd (add_sizet n 1) (\<lambda>new_size.
       bnd (ENSURE_SIZE env new_size) (\<lambda>_. append_bytes (replicate len c)))) b"

text \<open>\<open>data\<close> holds the \<open>len\<close> bytes.\<close>

definition git_buf_put :: "buf_env \<Rightarrow> string \<Rightarrow> unit buf" where
  "git_buf_put env data b =
     (if data = [] then Some (Inr (), b)
      else bnd (add_sizet (b_size b) (length data)) (\<lambda>n. bnd (add_sizet n 1) (\<lambda>new_size.
             bnd (ENSURE_SIZE env new_size) (\<lambda>_. append_bytes data))) b)"

definition git_buf_puts :: "buf_env \<Rightarrow> string \<Rightarrow> unit buf" where
  "git_buf_puts env s = git_buf_put env s"

text \<open>
  \<open>p_vsnprintf\<close> into the \<open>n\<close> bytes that are left, for the formatted text \<open>out\<close>: as much of it as fits in
  front of a terminator.
\<close>

definition p_vsnprintf :: "string \<Rightarrow> nat \<Rightarrow> unit buf" where
  "p_vsnprintf out n b =
     (if n = 0 then Some (Inr (), b) else move_in (b_size b) (take (n - 1) out @ [NUL]) b)"

text \<open>The loop has at most two rounds; the fuel counts them. A text of \<open>None\<close> is a format that cannot be printed.\<close>

fun vprintf_loop :: "buf_env \<Rightarrow> nat \<Rightarrow> string option \<Rightarrow> unit buf" where
  "vprintf_loop env 0 out b = None"
| "vprintf_loop env (Suc fuel) None b = Some (Inl GIT_ERROR, b\<lparr>b_ptr := git_buf__oom\<rparr>)"
| "vprintf_loop env (Suc fuel) (Some out) b =
     bnd (p_vsnprintf out (b_asize b - b_size b)) (\<lambda>_.
       if length out + 1 \<le> b_asize b - b_size b then set_size (b_size b + length out)
       else bnd (add_sizet (b_size b) (length out)) (\<lambda>n. bnd (add_sizet n 1) (\<lambda>new_size.
              bnd (ENSURE_SIZE env new_size) (\<lambda>_. vprintf_loop env fuel (Some out))))) b"

definition git_buf_vprintf :: "buf_env \<Rightarrow> nat \<Rightarrow> string option \<Rightarrow> unit buf" where
  "git_buf_vprintf env format_len out b =
     bnd (multiply_sizet format_len 2) (\<lambda>e. bnd (add_sizet e (b_size b)) (\<lambda>expected_size.
       bnd (ENSURE_SIZE env expected_size) (\<lambda>_. vprintf_loop env 2 out))) b"

definition git_buf_printf :: "buf_env \<Rightarrow> nat \<Rightarrow> string option \<Rightarrow> unit buf" where
  "git_buf_printf env format_len out = git_buf_vprintf env format_len out"

subsection \<open>Removing\<close>

definition git_buf_copy_cstr :: "nat \<Rightarrow> git_buf \<Rightarrow> string option" where
  "git_buf_copy_cstr datasize b =
     (if datasize = 0 then None
      else if b_size b = 0 \<or> b_asize b = 0 then Some [NUL]
      else (let copylen = (if b_size b > datasize - 1 then datasize - 1 else b_size b) in
            Some (take copylen (cells b) @ [NUL])))"

text \<open>\<open>end\<close> is given by its distance from \<open>ptr\<close>.\<close>

definition git_buf_consume :: "int \<Rightarrow> unit buf" where
  "git_buf_consume e b =
     (if e > 0 \<and> e \<le> int (b_size b) then
        bnd (move_in 0 (seg (cells b) (nat e) (b_size b - nat e))) (\<lambda>_.
          bnd (set_size (b_size b - nat e)) (\<lambda>_. terminate)) b
      else Some (Inr (), b))"

definition git_buf_truncate :: "nat \<Rightarrow> unit buf" where
  "git_buf_truncate len b =
     (if len \<ge> b_size b then Some (Inr (), b)
      else bnd (set_size len) (\<lambda>_ b. if b_size b < b_asize b then terminate b else Some (Inr (), b)) b)"

definition git_buf_shorten :: "nat \<Rightarrow> unit buf" where
  "git_buf_shorten amount b =
     (if b_size b > amount then git_buf_truncate (b_size b - amount) b else git_buf_clear b)"

text \<open>The searches from the end: the index \<open>idx\<close> is one below the number of bytes left.\<close>

primrec rfind_loop :: "string \<Rightarrow> (char \<Rightarrow> bool) \<Rightarrow> nat \<Rightarrow> nat" where
  "rfind_loop cs skip 0 = 0"
| "rfind_loop cs skip (Suc n) = (if skip (cs ! n) then rfind_loop cs skip n else Suc n)"

definition git_buf_rfind_next :: "git_buf \<Rightarrow> char \<Rightarrow> int" where
  "git_buf_rfind_next b ch =
     (let n = rfind_loop (cells b) (\<lambda>c. c = ch) (b_size b) in
      int (rfind_loop (cells b) (\<lambda>c. c \<noteq> ch) n) - 1)"

definition git_buf_rfind :: "git_buf \<Rightarrow> char \<Rightarrow> int" where
  "git_buf_rfind b ch = int (rfind_loop (cells b) (\<lambda>c. c \<noteq> ch) (b_size b)) - 1"

definition git_buf_find :: "git_buf \<Rightarrow> char \<Rightarrow> int" where
  "git_buf_find b ch =
     (let n = length (takeWhile (\<lambda>c. c \<noteq> ch) (contents b)) in if n < b_size b then int n else -1)"

definition git_buf_rtruncate_at_char :: "char \<Rightarrow> unit buf" where
  "git_buf_rtruncate_at_char separator b =
     (let idx = git_buf_rfind_next b separator in git_buf_truncate (if idx < 0 then 0 else nat idx) b)"

definition git_buf_rtrim :: "unit buf" where
  "git_buf_rtrim b =
     bnd (set_size (rfind_loop (cells b) git__isspace (b_size b)))
       (\<lambda>_ b. if b_asize b > b_size b then terminate b else Some (Inr (), b)) b"

definition git_buf_cmp :: "git_buf \<Rightarrow> git_buf \<Rightarrow> int" where
  "git_buf_cmp a b =
     (let n = min (b_size a) (b_size b);
          result = memcmp (map of_char (take n (cells a))) (map of_char (take n (cells b))) in
      if result \<noteq> 0 then result
      else if b_size a < b_size b then -1 else if b_size a > b_size b then 1 else 0)"

subsection \<open>Ownership\<close>

definition git_buf_swap :: "git_buf \<times> git_buf \<Rightarrow> git_buf \<times> git_buf" where
  "git_buf_swap bs = (snd bs, fst bs)"

text \<open>The bytes handed over, or NULL.\<close>

definition git_buf_detach :: "string option buf" where
  "git_buf_detach b =
     (if b_asize b = 0 \<or> b_ptr b = git_buf__oom then Some (Inr None, b)
      else Some (Inr (Some (cells b)), GIT_BUF_INIT))"

text \<open>\<open>block\<close> is the allocation at \<open>ptr\<close>, which holds a terminated string.\<close>

definition git_buf_attach :: "buf_env \<Rightarrow> string option \<Rightarrow> nat \<Rightarrow> unit buf" where
  "git_buf_attach env block asize b =
     bnd git_buf_dispose (\<lambda>_. bnd
       (case block of
          None \<Rightarrow> ret ()
        | Some cs \<Rightarrow>
            (let n = length (takeWhile (\<lambda>c. c \<noteq> NUL) cs) in
             update_state (\<lambda>b. b\<lparr>b_ptr := Owned cs, b_size := n,
               b_asize := (if asize \<noteq> 0 then (if asize < n then n + 1 else asize) else n + 1)\<rparr>)))
       (\<lambda>_. ENSURE_SIZE env asize)) b"

definition git_buf_attach_notowned :: "string \<Rightarrow> unit buf" where
  "git_buf_attach_notowned s b =
     (if s = [] then Some (Inr (), GIT_BUF_INIT)
      else Some (Inr (), \<lparr>b_ptr = Borrowed s, b_asize = 0, b_size = length s\<rparr>))"

subsection \<open>Joining and splicing\<close>

text \<open>The string at a place in the buffer.\<close>

definition cstr_at :: "git_buf \<Rightarrow> nat \<Rightarrow> string" where
  "cstr_at b p = takeWhile (\<lambda>c. c \<noteq> NUL) (drop p (cells b))"

definition ptr_str :: "git_buf \<Rightarrow> char_ptr \<Rightarrow> string" where
  "ptr_str b p = (case p of PNull \<Rightarrow> [] | POther s \<Rightarrow> s | PBuf i \<Rightarrow> cstr_at b i)"

definition own_ptr :: "char_ptr \<Rightarrow> bool" where "own_ptr p = (case p of PBuf i \<Rightarrow> True | _ \<Rightarrow> False)"

text \<open>The first pass of \<open>git_buf_join_n\<close>: the size that is needed at most.\<close>

fun join_total :: "char \<Rightarrow> char_ptr list \<Rightarrow> nat \<Rightarrow> nat buf" where
  "join_total separator [] need b = Some (Inr need, b)"
| "join_total separator (PNull # segs) need b = join_total separator segs need b"
| "join_total separator (p # segs) need b =
     (let s = ptr_str b p in
      bnd (add_sizet need (length s)) (\<lambda>t.
        bnd (if s = [] \<or> last s \<noteq> separator then add_sizet t 1 else ret t) (\<lambda>t1. join_total separator segs t1)) b)"

text \<open>
  The second pass: \<open>out\<close> is an index. A pointer into the original content is moved along; another
  pointer into the buffer dangles when the buffer was \<open>moved\<close>.
\<close>

definition join_source :: "bool \<Rightarrow> nat \<Rightarrow> char_ptr \<Rightarrow> string buf" where
  "join_source moved original_size p b =
     (case p of
        PNull \<Rightarrow> None
      | POther s \<Rightarrow> Some (Inr s, b)
      | PBuf i \<Rightarrow> if i < original_size then Some (Inr (seg (cells b) i (original_size - i)), b)
                 else if moved then None else Some (Inr (cstr_at b i), b))"

fun join_n_loop :: "char \<Rightarrow> bool \<Rightarrow> nat \<Rightarrow> char_ptr list \<Rightarrow> nat \<Rightarrow> nat buf" where
  "join_n_loop separator moved original_size [] out b = Some (Inr out, b)"
| "join_n_loop separator moved original_size (PNull # segs) out b = join_n_loop separator moved original_size segs out b"
| "join_n_loop separator moved original_size (p # segs) out b =
     bnd (join_source moved original_size p) (\<lambda>s0.
       bnd (if out > 0 then peek (out - 1) else ret NUL) (\<lambda>before.
         let s = (if out > 0 \<and> before = separator then dropWhile (\<lambda>c. c = separator) s0 else s0);
             out1 = out + length s in
         bnd (move_in out s) (\<lambda>_.
           if segs = [] \<or> out1 = 0 then join_n_loop separator moved original_size segs out1
           else bnd (peek (out1 - 1)) (\<lambda>prev.
             if prev \<noteq> separator
             then bnd (poke out1 separator) (\<lambda>_. join_n_loop separator moved original_size segs (out1 + 1))
             else join_n_loop separator moved original_size segs out1)))) b"

definition git_buf_join_n :: "buf_env \<Rightarrow> char \<Rightarrow> char_ptr list \<Rightarrow> unit buf" where
  "git_buf_join_n env separator segs b =
     bnd (if b_size b > 0 then peek (b_size b - 1) else ret separator) (\<lambda>before.
       bnd (join_total separator segs (if before \<noteq> separator then 1 else 0)) (\<lambda>need b1.
         if need = 0 then Some (Inr (), b1)
         else bnd (add_sizet need 1) (\<lambda>total_size.
           bnd (\<lambda>b2. case git_buf_grow_by env total_size b2 of
                  None \<Rightarrow> None
                | Some (Inl e, b3) \<Rightarrow> Some (Inl GIT_ERROR, b3)
                | Some (Inr u, b3) \<Rightarrow> Some (Inr (), b3)) (\<lambda>_.
             bnd (if b_size b > 0 \<and> before \<noteq> separator
                  then bnd (poke (b_size b) separator) (\<lambda>_. ret (b_size b + 1)) else ret (b_size b)) (\<lambda>out b4.
               bnd (join_n_loop separator (b_asize b4 \<noteq> b_asize b) (b_size b) segs out) (\<lambda>out1.
                 bnd (set_size out1) (\<lambda>_. terminate)) b4))) b1)) b"

definition git_buf_join :: "buf_env \<Rightarrow> char \<Rightarrow> char_ptr \<Rightarrow> string \<Rightarrow> unit buf" where
  "git_buf_join env separator str_a str_b b =
     (let a = ptr_str b str_a; strlen_a = length a;
          sep = (separator \<noteq> NUL \<and> strlen_a > 0);
          s = (if sep then dropWhile (\<lambda>c. c = separator) str_b else str_b);
          need_sep = (if sep \<and> last a \<noteq> separator then 1 else 0 :: nat);
          inside = (case str_a of PBuf p \<Rightarrow> p < b_size b | _ \<Rightarrow> False)
      in bnd (add_sizet strlen_a (length s)) (\<lambda>n0. bnd (add_sizet n0 need_sep) (\<lambda>n1. bnd (add_sizet n1 1) (\<lambda>alloc_len.
           bnd (ENSURE_SIZE env alloc_len) (\<lambda>_ b1.
             if \<not> inside \<and> b_asize b1 \<noteq> b_asize b \<and> own_ptr str_a \<and> strlen_a > 0 then None
             else bnd (if str_a = PNull \<or> str_a = PBuf 0 \<and> inside then ret () else move_in 0 a) (\<lambda>_.
               bnd (if need_sep = 1 then poke strlen_a separator else ret ()) (\<lambda>_.
                 bnd (move_in (strlen_a + need_sep) s) (\<lambda>_.
                   bnd (set_size (strlen_a + length s + need_sep)) (\<lambda>_. terminate)))) b1)))) b)"

definition git_buf_join3 :: "buf_env \<Rightarrow> char \<Rightarrow> string \<Rightarrow> string \<Rightarrow> string \<Rightarrow> unit buf" where
  "git_buf_join3 env separator str_a str_b str_c b =
     (let skip = dropWhile (\<lambda>c. c = separator); real = (separator \<noteq> NUL);
          s_b = (if real \<and> str_a \<noteq> [] then skip str_b else str_b);
          sep_a = (if real \<and> str_a \<noteq> [] \<and> last str_a \<noteq> separator then [separator] else []);
          s_c = (if real \<and> (str_a \<noteq> [] \<or> s_b \<noteq> []) then skip str_c else str_c);
          sep_b = (if real \<and> s_b \<noteq> [] \<and> last s_b \<noteq> separator then [separator] else []);
          joined = str_a @ sep_a @ s_b @ sep_b @ s_c
      in bnd (add_sizet (length str_a) (length sep_a)) (\<lambda>n1. bnd (add_sizet n1 (length s_b)) (\<lambda>n2.
           bnd (add_sizet n2 (length sep_b)) (\<lambda>n3. bnd (add_sizet n3 (length s_c)) (\<lambda>n4. bnd (add_sizet n4 1) (\<lambda>len_total.
             bnd (ENSURE_SIZE env len_total) (\<lambda>_. bnd (move_in 0 joined) (\<lambda>_.
               bnd (set_size (length joined)) (\<lambda>_. terminate)))))))) b)"

definition git_buf_splice :: "buf_env \<Rightarrow> nat \<Rightarrow> nat \<Rightarrow> string \<Rightarrow> unit buf" where
  "git_buf_splice env loc nb_to_remove data b =
     (if \<not> (loc \<le> b_size b \<and> nb_to_remove \<le> b_size b - loc) then None
      else bnd (add_sizet (b_size b - nb_to_remove) (length data)) (\<lambda>new_size. bnd (add_sizet new_size 1) (\<lambda>alloc_size.
             bnd (ENSURE_SIZE env alloc_size) (\<lambda>_ b1.
               bnd (move_in (loc + length data)
                      (seg (cells b1) (loc + nb_to_remove) (b_size b - loc - nb_to_remove))) (\<lambda>_.
                 bnd (move_in loc data) (\<lambda>_. bnd (set_size new_size) (\<lambda>_. terminate))) b1))) b)"

text \<open>A call whose result is not looked at.\<close>

definition ignore :: "unit buf \<Rightarrow> unit buf" where
  "ignore m b = (case m b of None \<Rightarrow> None | Some (r, b1) \<Rightarrow> Some (Inr (), b1))"

end
