(* ===== verification/BufCodec.thy ===== *)
theory BufCodec
  imports Buffer
begin

text \<open>
  The codings of \<open>buffer.c\<close>: base 64, base 85, percent, and the quoting of paths.
\<close>

definition byte :: "char \<Rightarrow> u8" where "byte c = of_char c"

definition chr :: "u8 \<Rightarrow> char" where "chr w = char_of (unat w)"

subsection \<open>Base 64\<close>

definition base64_encode :: string where
  "base64_encode = ''ABCDEFGHIJKLMNOPQRSTUVWXYZabcdefghijklmnopqrstuvwxyz0123456789+/''"

definition base64_decode :: "int list" where
  "base64_decode = [
    -1, -1, -1, -1, -1, -1, -1, -1, -1, -1, -1, -1, -1, -1, -1, -1,
    -1, -1, -1, -1, -1, -1, -1, -1, -1, -1, -1, -1, -1, -1, -1, -1,
    -1, -1, -1, -1, -1, -1, -1, -1, -1, -1, -1, 62, -1, -1, -1, 63,
    52, 53, 54, 55, 56, 57, 58, 59, 60, 61, -1, -1, -1, 0, -1, -1,
    -1, 0, 1, 2, 3, 4, 5, 6, 7, 8, 9, 10, 11, 12, 13, 14,
    15, 16, 17, 18, 19, 20, 21, 22, 23, 24, 25, -1, -1, -1, -1, -1,
    -1, 26, 27, 28, 29, 30, 31, 32, 33, 34, 35, 36, 37, 38, 39, 40,
    41, 42, 43, 44, 45, 46, 47, 48, 49, 50, 51, -1, -1, -1, -1, -1] @ replicate 128 (-1)"

definition b64 :: "u8 \<Rightarrow> char" where "b64 v = base64_encode ! unat v"

fun encode_base64_loop :: "string \<Rightarrow> unit buf" where
  "encode_base64_loop [] = ret ()"
| "encode_base64_loop [x] =
     (let a = byte x; b = 0 in
      for_each emit [b64 (drop_bit 2 a), b64 (push_bit 4 (a AND 0x03) OR drop_bit 4 b), CHR ''='', CHR ''=''])"
| "encode_base64_loop [x, y] =
     (let a = byte x; b = byte y in
      for_each emit [b64 (drop_bit 2 a), b64 (push_bit 4 (a AND 0x03) OR drop_bit 4 b),
                     b64 (push_bit 2 (b AND 0x0f)), CHR ''=''])"
| "encode_base64_loop (x # y # z # read) =
     (let a = byte x; b = byte y; c = byte z in
      bnd (for_each emit [b64 (drop_bit 2 a), b64 (push_bit 4 (a AND 0x03) OR drop_bit 4 b),
                          b64 (push_bit 2 (b AND 0x0f) OR drop_bit 6 c), b64 (c AND 0x3f)])
        (\<lambda>_. encode_base64_loop read))"

definition git_buf_encode_base64 :: "buf_env \<Rightarrow> string \<Rightarrow> unit buf" where
  "git_buf_encode_base64 env data b =
     (let len = length data; extra = len mod 3; blocks = len div 3 + (if extra \<noteq> 0 then 1 else 0) in
      bnd (add_sizet blocks 1) (\<lambda>n. bnd (multiply_sizet n 4) (\<lambda>m. bnd (add_sizet m (b_size b)) (\<lambda>alloclen.
        bnd (ENSURE_SIZE env alloclen) (\<lambda>_. bnd (encode_base64_loop data) (\<lambda>_. terminate))))) b)"

text \<open>The return to the size at the start, for input that is invalid.\<close>

definition give_up :: "nat \<Rightarrow> unit buf" where
  "give_up orig_size = bnd (set_size orig_size) (\<lambda>_. bnd terminate (\<lambda>_. fail GIT_ERROR))"

definition from64 :: "char \<Rightarrow> int" where "from64 c = base64_decode ! of_char c"

fun decode_base64_loop :: "nat \<Rightarrow> string \<Rightarrow> unit buf" where
  "decode_base64_loop orig_size (p # q # r # s # base64) =
     (if from64 p < 0 \<or> from64 q < 0 \<or> from64 r < 0 \<or> from64 s < 0 then give_up orig_size
      else (let a = of_int (from64 p) :: u8; b = of_int (from64 q) :: u8;
                c = of_int (from64 r) :: u8; d = of_int (from64 s) :: u8 in
        bnd (for_each emit [chr (push_bit 2 a OR drop_bit 4 (b AND 0x30)),
                            chr (push_bit 4 (b AND 0x0f) OR drop_bit 2 (c AND 0x3c)),
                            chr (push_bit 6 (c AND 0x03) OR (d AND 0x3f))])
          (\<lambda>_. decode_base64_loop orig_size base64)))"
| "decode_base64_loop orig_size base64 = ret ()"

definition git_buf_decode_base64 :: "buf_env \<Rightarrow> string \<Rightarrow> unit buf" where
  "git_buf_decode_base64 env base64 b =
     (let len = length base64 in
      if len mod 4 \<noteq> 0 then Some (Inl GIT_ERROR, b)
      else bnd (add_sizet (len div 4 * 3) (b_size b)) (\<lambda>n. bnd (add_sizet n 1) (\<lambda>new_size.
             bnd (ENSURE_SIZE env new_size) (\<lambda>_. bnd (decode_base64_loop (b_size b) base64) (\<lambda>_. terminate)))) b)"

subsection \<open>Base 85\<close>

definition base85_encode :: string where
  "base85_encode = ''0123456789ABCDEFGHIJKLMNOPQRSTUVWXYZabcdefghijklmnopqrstuvwxyz!#$%&()*+-;<=>?@^_`{|}~''"

definition base85_decode :: "int list" where
  "base85_decode = [
    -1, -1, -1, -1, -1, -1, -1, -1, -1, -1, -1, -1, -1, -1, -1, -1,
    -1, -1, -1, -1, -1, -1, -1, -1, -1, -1, -1, -1, -1, -1, -1, -1,
    -1, 63, -1, 64, 65, 66, 67, -1, 68, 69, 70, 71, -1, 72, -1, -1,
    1, 2, 3, 4, 5, 6, 7, 8, 9, 10, -1, 73, 74, 75, 76, 77,
    78, 11, 12, 13, 14, 15, 16, 17, 18, 19, 20, 21, 22, 23, 24, 25,
    26, 27, 28, 29, 30, 31, 32, 33, 34, 35, 36, -1, -1, -1, 79, 80,
    81, 37, 38, 39, 40, 41, 42, 43, 44, 45, 46, 47, 48, 49, 50, 51,
    52, 53, 54, 55, 56, 57, 58, 59, 60, 61, 62, 82, 83, 84, 85, -1] @ replicate 128 (-1)"

text \<open>Up to four bytes, the first one highest.\<close>

fun base85_acc :: "nat \<Rightarrow> string \<Rightarrow> u32" where
  "base85_acc i [] = 0"
| "base85_acc i (ch # data) = push_bit i (ucast (byte ch)) OR base85_acc (i - 8) data"

text \<open>The five digits, written from the last to the first.\<close>

primrec base85_digits :: "nat \<Rightarrow> u32 \<Rightarrow> string" where
  "base85_digits 0 acc = []"
| "base85_digits (Suc n) acc = base85_digits n (acc div 85) @ [base85_encode ! unat (acc mod 85)]"

function encode_base85_loop :: "string \<Rightarrow> unit buf" where
  "encode_base85_loop data =
     (if data = [] then ret ()
      else bnd (for_each emit (base85_digits 5 (base85_acc 24 (take 4 data))))
             (\<lambda>_. encode_base85_loop (drop 4 data)))"
  by pat_completeness auto
termination by (relation "measure length") auto

declare encode_base85_loop.simps [simp del]

definition git_buf_encode_base85 :: "buf_env \<Rightarrow> string \<Rightarrow> unit buf" where
  "git_buf_encode_base85 env data b =
     (let len = length data; blocks = len div 4 + (if len mod 4 \<noteq> 0 then 1 else 0) in
      bnd (multiply_sizet blocks 5) (\<lambda>n. bnd (add_sizet n (b_size b)) (\<lambda>m. bnd (add_sizet m 1) (\<lambda>alloclen.
        bnd (ENSURE_SIZE env alloclen) (\<lambda>_. bnd (encode_base85_loop data) (\<lambda>_. terminate))))) b)"

definition from85 :: "char \<Rightarrow> int" where "from85 c = base85_decode ! of_char c - 1"

text \<open>The first four digits, none of which can overflow; \<open>None\<close> is an invalid one.\<close>

fun base85_value :: "u32 \<Rightarrow> string \<Rightarrow> u32 option" where
  "base85_value acc [] = Some acc"
| "base85_value acc (ch # cs) =
     (let de = from85 ch in if de < 0 then None else base85_value (acc * 85 + of_int de) cs)"

text \<open>The value of five digits; the last step detects an overflow of 32 bits.\<close>

definition base85_group :: "string \<Rightarrow> u32 option" where
  "base85_group cs = (case base85_value 0 (take 4 cs) of
      None \<Rightarrow> None
    | Some acc \<Rightarrow>
        (let de = from85 (cs ! 4) in
         if de < 0 then None
         else if 0xffffffff div 85 < acc \<or> 0xffffffff - of_int de < acc * 85 then None
         else Some (acc * 85 + of_int de)))"

primrec emit_rotated :: "nat \<Rightarrow> u32 \<Rightarrow> unit buf" where
  "emit_rotated 0 acc = ret ()"
| "emit_rotated (Suc cnt) acc =
     (let acc1 = push_bit 8 acc OR drop_bit 24 acc in
      bnd (emit (chr (ucast acc1))) (\<lambda>_. emit_rotated cnt acc1))"

text \<open>A read behind the input is \<open>None\<close>.\<close>

function decode_base85_loop :: "nat \<Rightarrow> string \<Rightarrow> nat \<Rightarrow> unit buf" where
  "decode_base85_loop orig_size base85 output_len =
     (if output_len = 0 then ret ()
      else if length base85 < 5 then (\<lambda>b. None)
      else (case base85_group (take 5 base85) of
              None \<Rightarrow> give_up orig_size
            | Some acc \<Rightarrow>
                (let cnt = (if output_len < 4 then output_len else 4) in
                 bnd (emit_rotated cnt acc)
                   (\<lambda>_. decode_base85_loop orig_size (drop 5 base85) (output_len - cnt)))))"
  by pat_completeness auto
termination by (relation "measure (\<lambda>(orig_size, base85, output_len). output_len)") auto

declare decode_base85_loop.simps [simp del]

definition git_buf_decode_base85 :: "buf_env \<Rightarrow> string \<Rightarrow> nat \<Rightarrow> unit buf" where
  "git_buf_decode_base85 env base85 output_len b =
     (let base85_len = length base85 in
      if base85_len mod 5 \<noteq> 0 \<or> output_len > base85_len * 4 div 5 then Some (Inl GIT_ERROR, b)
      else bnd (add_sizet output_len (b_size b)) (\<lambda>n. bnd (add_sizet n 1) (\<lambda>new_size.
             bnd (ENSURE_SIZE env new_size) (\<lambda>_.
               bnd (decode_base85_loop (b_size b) base85 output_len) (\<lambda>_. terminate)))) b)"

subsection \<open>Percent coding\<close>

definition HEX_DECODE :: "char \<Rightarrow> int" where
  "HEX_DECODE c = (ord c OR 32) mod 39 - 9"

fun decode_percent_loop :: "string \<Rightarrow> unit buf" where
  "decode_percent_loop [] = ret ()"
| "decode_percent_loop (c # x # y # str) =
     (if c = CHR ''%'' \<and> git__isxdigit x \<and> git__isxdigit y
      then bnd (emit (chr (of_int (push_bit 4 (HEX_DECODE x) + HEX_DECODE y)))) (\<lambda>_. decode_percent_loop str)
      else bnd (emit c) (\<lambda>_. decode_percent_loop (x # y # str)))"
| "decode_percent_loop (c # str) = bnd (emit c) (\<lambda>_. decode_percent_loop str)"

definition git_buf_decode_percent :: "buf_env \<Rightarrow> string \<Rightarrow> unit buf" where
  "git_buf_decode_percent env str b =
     bnd (add_sizet (b_size b) (length str)) (\<lambda>n. bnd (add_sizet n 1) (\<lambda>new_size.
       bnd (ENSURE_SIZE env new_size) (\<lambda>_. bnd (decode_percent_loop str) (\<lambda>_. terminate)))) b"

subsection \<open>Quoting\<close>

definition needs_quote :: "char \<Rightarrow> bool" where
  "needs_quote c \<longleftrightarrow> c = CHR 0x22 \<or> c = CHR 0x5C \<or> schar c < ord CHR '' '' \<or> schar c > ord CHR ''~''"

definition octal :: "char \<Rightarrow> string" where
  "octal c = (let n = of_char c :: nat in
     [char_of (48 + n div 64), char_of (48 + n div 8 mod 8), char_of (48 + n mod 8)])"

definition quote_char :: "buf_env \<Rightarrow> char \<Rightarrow> unit buf" where
  "quote_char env c =
     (if schar c \<ge> 7 \<and> schar c \<le> 13 then
        bnd (ignore (git_buf_putc env CHR 0x5C)) (\<lambda>_. ignore (git_buf_putc env (''abtnvfr'' ! nat (schar c - 7))))
      else if c = CHR 0x22 \<or> c = CHR 0x5C then
        bnd (ignore (git_buf_putc env CHR 0x5C)) (\<lambda>_. ignore (git_buf_putc env c))
      else if c \<noteq> CHR '' '' \<and> (schar c < ord CHR ''!'' \<or> schar c > ord CHR ''~'') then
        ignore (git_buf_printf env 5 (Some (CHR 0x5C # octal c)))
      else ignore (git_buf_putc env c))"

text \<open>
  \<open>i\<close> is where the first loop stops. The buffer \<open>quoted\<close> is built beside \<open>buf\<close>, then the two are
  swapped.
\<close>

definition git_buf_quote :: "buf_env \<Rightarrow> unit buf" where
  "git_buf_quote env b =
     (let s = contents b; bang = (s \<noteq> [] \<and> hd s = CHR ''!'');
          i = (if bang then 0 else length (takeWhile (\<lambda>c. \<not> needs_quote c) s)) in
      if \<not> bang \<and> i = length s then Some (Inr (), b)
      else (case (bnd (ignore (git_buf_putc env CHR 0x22)) (\<lambda>_.
                  bnd (ignore (git_buf_put env (take i s))) (\<lambda>_.
                  bnd (for_each (quote_char env) (drop i s)) (\<lambda>_.
                  ignore (git_buf_putc env CHR 0x22))))) GIT_BUF_INIT of
              None \<Rightarrow> None
            | Some (_, quoted) \<Rightarrow>
                if git_buf_oom quoted then Some (Inl GIT_ERROR, b) else Some (Inr (), quoted)))"

definition unescape_char :: "char \<Rightarrow> char option" where
  "unescape_char ch =
     (if ch = CHR 0x22 \<or> ch = CHR 0x5C then Some ch
      else if ch = CHR ''a'' then Some CHR 0x07
      else if ch = CHR ''b'' then Some CHR 0x08
      else if ch = CHR ''f'' then Some CHR 0x0C
      else if ch = CHR ''n'' then Some CHR 0x0A
      else if ch = CHR ''r'' then Some CHR 0x0D
      else if ch = CHR ''t'' then Some CHR 0x09
      else if ch = CHR ''v'' then Some CHR 0x0B
      else None)"

definition is_octal :: "char \<Rightarrow> bool" where
  "is_octal c \<longleftrightarrow> ord CHR ''0'' \<le> schar c \<and> schar c \<le> ord CHR ''7''"

text \<open>The loop works in place: \<open>i\<close> is where it writes and \<open>j\<close> where it reads. The result is the last \<open>i\<close>.\<close>

function unquote_loop :: "nat \<Rightarrow> nat \<Rightarrow> nat \<Rightarrow> nat buf" where
  "unquote_loop n i j b =
     (if j + 1 < n then
        bnd (peek j) (\<lambda>ch b1.
          if ch = CHR 0x5C then
            (if j + 2 = n then Some (Inl GIT_ERROR, b1)
             else bnd (peek (j + 1)) (\<lambda>ch1 b2.
               (case unescape_char ch1 of
                  Some c \<Rightarrow> bnd (poke i c) (\<lambda>_. unquote_loop n (i + 1) (j + 2)) b2
                | None \<Rightarrow>
                    (if ord CHR ''0'' \<le> schar ch1 \<and> schar ch1 \<le> ord CHR ''3'' then
                       (if j + 4 = n then Some (Inl GIT_ERROR, b2)
                        else bnd (peek (j + 2)) (\<lambda>d1. bnd (peek (j + 3)) (\<lambda>d2 b3.
                          if \<not> is_octal d1 \<or> \<not> is_octal d2 then Some (Inl GIT_ERROR, b3)
                          else bnd (poke i (chr (push_bit 6 (byte ch1 - 48) OR push_bit 3 (byte d1 - 48) OR (byte d2 - 48))))
                                 (\<lambda>_. unquote_loop n (i + 1) (j + 4)) b3)) b2)
                     else Some (Inl GIT_ERROR, b2)))) b1)
          else bnd (poke i ch) (\<lambda>_. unquote_loop n (i + 1) (j + 1)) b1) b
      else Some (Inr i, b))"
  by pat_completeness auto
termination by (relation "measure (\<lambda>(n, i, j, b). n - j)") auto

declare unquote_loop.simps [simp del]

definition git_buf_unquote :: "unit buf" where
  "git_buf_unquote b =
     bnd git_buf_rtrim (\<lambda>_ b1.
       if b_size b1 < 2 \<or> cells b1 ! 0 \<noteq> CHR 0x22 \<or> cells b1 ! (b_size b1 - 1) \<noteq> CHR 0x22
       then Some (Inl GIT_ERROR, b1)
       else bnd (unquote_loop (b_size b1) 0 1) (\<lambda>i. bnd (poke i NUL) (\<lambda>_. set_size i)) b1) b"

end
