(* ===== verification/BufferCorrect.thy ===== *)
theory BufferCorrect
  imports Buffer
begin

text \<open>
  The buffer of \<open>buffer.c\<close> as an implementation of strings: no operation leaves the allocation, and
  each has the effect of an operation on lists or reports that memory has run out.
\<close>

subsection \<open>The invariant\<close>

text \<open>An allocated buffer has a terminator behind its content. No object is larger than half of the address space.\<close>

definition MAX_OBJECT :: nat where "MAX_OBJECT = 2 ^ 63"

definition buf_mem :: "git_buf \<Rightarrow> bool" where
  "buf_mem b \<longleftrightarrow> (case b_ptr b of
      NullPtr \<Rightarrow> False
    | git_buf__initbuf \<Rightarrow> b_asize b = 0 \<and> b_size b = 0
    | git_buf__oom \<Rightarrow> True
    | Owned cs \<Rightarrow> length cs = b_asize b \<and> b_size b < b_asize b \<and> b_asize b < MAX_OBJECT
    | Borrowed cs \<Rightarrow> b_asize b = 0 \<and> b_size b \<le> length cs \<and> length cs < MAX_OBJECT)"

definition buf_ok :: "git_buf \<Rightarrow> bool" where
  "buf_ok b \<longleftrightarrow> buf_mem b \<and> (\<forall>cs. b_ptr b = Owned cs \<longrightarrow> cs ! b_size b = NUL)"

definition env_ok :: "buf_env \<Rightarrow> bool" where
  "env_ok env \<longleftrightarrow> (\<forall>n. be_alloc env n \<longrightarrow> n < MAX_OBJECT)"

lemma buf_ok_init [simp]: "buf_ok GIT_BUF_INIT" "contents GIT_BUF_INIT = []" "\<not> git_buf_oom GIT_BUF_INIT"
  by (simp_all add: buf_ok_def buf_mem_def GIT_BUF_INIT_def contents_def git_buf_oom_def)

lemma buf_ok_mem: "buf_ok b \<Longrightarrow> buf_mem b"
  by (simp add: buf_ok_def)

lemma buf_mem_size: "buf_mem b \<Longrightarrow> \<not> git_buf_oom b \<Longrightarrow> b_size b < MAX_OBJECT \<and> b_size b \<le> length (cells b)"
  by (auto simp: buf_mem_def git_buf_oom_def cells_def MAX_OBJECT_def split: buf_ptr.splits)

lemma oom_ok: "git_buf_oom b \<Longrightarrow> buf_ok b"
  by (simp add: buf_ok_def buf_mem_def git_buf_oom_def)

lemma buf_ok_size: "buf_ok b \<Longrightarrow> \<not> git_buf_oom b \<Longrightarrow> b_size b < MAX_OBJECT \<and> b_size b \<le> length (cells b)"
  using buf_mem_size buf_ok_mem by blast

lemma length_contents: "buf_ok b \<Longrightarrow> \<not> git_buf_oom b \<Longrightarrow> length (contents b) = b_size b"
  using buf_ok_size by (simp add: contents_def)

text \<open>
  What an operation does: it ends inside its memory and has the content \<open>s\<close>; or it fails. It fails
  only when the allocator refuses memory that could exist, and is out of memory then, or when the
  bytes belong to somebody else, and nothing has changed then.
\<close>

definition borrowed :: "git_buf \<Rightarrow> bool" where "borrowed b \<longleftrightarrow> (\<exists>cs. b_ptr b = Borrowed cs) \<and> b_size b \<noteq> 0"

definition refuses :: "buf_env \<Rightarrow> bool" where "refuses env \<longleftrightarrow> (\<exists>m < MAX_OBJECT. \<not> be_alloc env m)"

definition removes :: "git_buf \<Rightarrow> string \<Rightarrow> (unit result \<times> git_buf) option \<Rightarrow> bool" where
  "removes b s r \<longleftrightarrow> (\<exists>b1. r = Some (Inr (), b1) \<and> buf_ok b1 \<and> contents b1 = s \<and> \<not> git_buf_oom b1 \<and>
     (borrowed b1 \<longrightarrow> borrowed b))"

definition yields :: "buf_env \<Rightarrow> git_buf \<Rightarrow> string \<Rightarrow> (unit result \<times> git_buf) option \<Rightarrow> bool" where
  "yields env b s r \<longleftrightarrow> removes b s r \<or>
     (\<exists>b1. r = Some (Inl GIT_ERROR, b1) \<and> (if borrowed b then b1 = b else git_buf_oom b1 \<and> refuses env))"

text \<open>Sizes far below the end of the address space.\<close>

definition SMALL :: nat where "SMALL = 2 ^ 60"

subsection \<open>Growth\<close>

lemma round_up:
  assumes "n + 7 < 2 ^ 64"
  shows "unat ((of_nat n + 7 :: size_t) AND NOT 7) = (n + 7) div 8 * 8"
proof -
  let ?w = "of_nat n + 7 :: size_t"
  have 7: "(7 :: size_t) = mask 3" by (simp add: mask_eq_exp_minus_1)
  have w: "unat ?w = n + 7" using assms by (simp add: unat_word_ariths unat_of_nat)
  have "?w AND NOT 7 = push_bit 3 (drop_bit 3 ?w)" unfolding 7
    by (rule bit_word_eqI) (auto simp: bit_simps)
  also have "unat \<dots> = take_bit 64 (push_bit 3 (drop_bit 3 (unat ?w)))"
    using assms w by (simp add: unsigned_push_bit_eq unsigned_drop_bit_eq take_bit_nat_eq_self)
  also have "\<dots> = (n + 7) div 8 * 8"
    using assms unfolding w by (simp add: push_bit_eq_mult drop_bit_eq_div take_bit_nat_eq_self)
  finally show ?thesis .
qed


text \<open>The allocation is big enough, and not much more than twice what is needed.\<close>

lemma grown_size_bounds:
  assumes "a < d" "d < 4 * SMALL"
  shows "d \<le> grown_size a d \<and> grown_size a d < MAX_OBJECT"
proof -
  have a: "a < 2 ^ 63" using assms by (simp add: SMALL_def)
  have "unat (drop_bit 1 (of_nat a :: size_t)) = a div 2"
    using unat_drop_bit_eq [of 1 "of_nat a :: size_t"] a by (simp add: unat_of_nat drop_bit_eq_div [of 1 a, simplified])
  moreover have "unat (push_bit 1 (of_nat a :: size_t)) = 2 * a"
    using a by (simp add: push_bit_eq_mult unat_word_ariths unat_of_nat mult.commute)
  ultimately have half: "unat (push_bit 1 (of_nat a :: size_t) - drop_bit 1 (of_nat a)) = 2 * a - a div 2"
    by (subst unat_sub) (auto simp: word_le_nat_alt)
  define n where "n = (if a = 0 \<or> 2 * a - a div 2 < d then d else 2 * a - a div 2)"
  have g: "grown_size a d = unat ((of_nat n + 7 :: size_t) AND NOT 7)"
    unfolding grown_size_def half Let_def n_def ..
  have n: "d \<le> n" "n < 8 * SMALL - 16" using assms by (auto simp: n_def SMALL_def)
  then have "n + 7 < 2 ^ 64" by (simp add: SMALL_def)
  then show ?thesis unfolding g round_up [OF \<open>n + 7 < 2 ^ 64\<close>] using n unfolding SMALL_def MAX_OBJECT_def by (intro conjI) (linarith, simp)
qed

lemma take_realloc: "n \<le> length (cells b) \<Longrightarrow> n \<le> m \<Longrightarrow> b_asize b \<noteq> 0 \<or> n = 0 \<Longrightarrow> take n (realloc_cells env b m) = take n (cells b)"
  by (auto simp: realloc_cells_def Let_def take_append min_def)

lemma length_realloc: "length (realloc_cells env b m) = m"
  by (simp add: realloc_cells_def Let_def)

text \<open>\<open>ENSURE_SIZE\<close> succeeds with room for \<open>d\<close> bytes and the same content, or fails.\<close>

lemma ensure_cases:
  assumes ok: "buf_mem b" "env_ok env" and d: "d < 4 * SMALL"
  obtains (fail) b1 where "ENSURE_SIZE env d b = Some (Inl GIT_ERROR, b1)" "if borrowed b then b1 = b else git_buf_oom b1 \<and> (refuses env \<or> git_buf_oom b)"
  | (keep) "ENSURE_SIZE env d b = Some (Inr (), b)" "d \<le> b_asize b" "\<not> git_buf_oom b"
  | (grow) b1 cs where "ENSURE_SIZE env d b = Some (Inr (), b1)" "b_ptr b1 = Owned cs" "buf_ok b1"
      "b_size b1 = b_size b" "contents b1 = contents b" "d \<le> b_asize b1" "d > b_asize b" "\<not> git_buf_oom b" "length cs = b_asize b1" "\<not> borrowed b"
proof -
  show thesis
  proof (cases "git_buf_oom b")
    case True
    then have "ENSURE_SIZE env d b = Some (Inl GIT_ERROR, b)" by (simp add: ENSURE_SIZE_def git_buf_oom_def)
    then show ?thesis using fail [of b] True by (simp add: borrowed_def git_buf_oom_def)
  next
    case noom: False
    then have p: "b_ptr b \<noteq> git_buf__oom" by (simp add: git_buf_oom_def)
    show ?thesis
    proof (cases "d \<le> b_asize b")
      case True
      then have "ENSURE_SIZE env d b = Some (Inr (), b)" using p by (simp add: ENSURE_SIZE_def)
      then show ?thesis using keep True noom by blast
    next
      case big: False
      then have d0: "0 < d" by simp
      let ?oom = "b\<lparr>b_ptr := git_buf__oom\<rparr>"
      define m where "m = grown_size (b_asize b) d"
      define b1 where "b1 = b\<lparr>b_asize := m, b_ptr := Owned (realloc_cells env b m),
                 b_size := (if b_size b \<ge> m then m - 1 else b_size b)\<rparr>"
      define cs where "cs = (realloc_cells env b m)[b_size b1 := NUL]"
      have t: "terminate b1 = Some (Inr (), b1\<lparr>b_ptr := Owned cs\<rparr>)" if "m \<noteq> 0"
        using that by (simp add: terminate_def poke_def b1_def cs_def length_realloc)
      have dd: "(if d = 0 then b_size b else d) = d" using d0 by simp
      have try_grow: "git_buf_try_grow env d True b =
         (if b_asize b = 0 \<and> b_size b \<noteq> 0 then Some (Inl GIT_EINVALID, b)
          else if m < b_size b \<or> \<not> be_alloc env m then Some (Inl GIT_ERROR, ?oom)
          else if m = 0 then None else Some (Inr (), b1\<lparr>b_ptr := Owned cs\<rparr>))"
        unfolding git_buf_try_grow_def Let_def dd m_def [symmetric] b1_def [symmetric] set_oom_def
        using p big t by simp
      have run: "ENSURE_SIZE env d b =
         (if b_asize b = 0 \<and> b_size b \<noteq> 0 then Some (Inl GIT_ERROR, b)
          else if m < b_size b \<or> \<not> be_alloc env m then Some (Inl GIT_ERROR, ?oom)
          else if m = 0 then None else Some (Inr (), b1\<lparr>b_ptr := Owned cs\<rparr>))"
        using p big by (simp add: ENSURE_SIZE_def git_buf_grow_def try_grow)
      show ?thesis
      proof (cases "b_asize b = 0 \<and> b_size b \<noteq> 0 \<or> m < b_size b \<or> \<not> be_alloc env m")
        case True
        have 1: "git_buf_oom ?oom" by (simp add: git_buf_oom_def)
        have 2: "borrowed b" if "b_asize b = 0 \<and> b_size b \<noteq> 0"
          using that ok(1) p by (auto simp: borrowed_def buf_mem_def split: buf_ptr.splits)
        have "d \<le> m" "m < MAX_OBJECT" using grown_size_bounds [of "b_asize b" d] big d by (simp_all add: m_def)
        moreover have "b_asize b = 0 \<and> b_size b \<noteq> 0 \<or> b_size b \<le> b_asize b"
          using ok(1) p by (auto simp: buf_mem_def split: buf_ptr.splits)
        ultimately have 3: "refuses env" if "\<not> (b_asize b = 0 \<and> b_size b \<noteq> 0)"
          using True that big by (auto simp: refuses_def)
        show ?thesis
        proof (cases "b_asize b = 0 \<and> b_size b \<noteq> 0")
          case True
          then show ?thesis using run fail [of b] 2 by simp
        next
          case noborrow: False
          then have "ENSURE_SIZE env d b = Some (Inl GIT_ERROR, ?oom)" using True run by auto
          moreover have "\<not> borrowed b" using ok(1) noborrow by (auto simp: borrowed_def buf_mem_def)
          ultimately show ?thesis using fail [of ?oom] 1 3 [OF noborrow] by simp
        qed
      next
        case False
        have a: "b_asize b < MAX_OBJECT" "b_size b < d \<or> b_size b = 0"
          using ok(1) p big False by (auto simp: buf_mem_def MAX_OBJECT_def split: buf_ptr.splits)
        have mM: "m < MAX_OBJECT" using False ok(2) by (simp add: env_ok_def)
        have md: "d \<le> m" using grown_size_bounds [of "b_asize b" d] big d by (simp add: m_def)
        then have m0: "0 < m" "b_size b < m" using d0 a(2) False by auto
        let ?b = "b1\<lparr>b_ptr := Owned cs\<rparr>"
        have sz: "b_size ?b = b_size b" "b_asize ?b = m" using m0 by (simp_all add: b1_def)
        have lc: "length cs = m" by (simp add: cs_def length_realloc)
        have cs: "cs = (realloc_cells env b m)[b_size b := NUL]" using m0 by (simp add: cs_def b1_def)
        have ok1: "buf_ok ?b" using sz lc m0 mM by (simp add: buf_ok_def buf_mem_def cs length_realloc)
        have "take (b_size b) cs = take (b_size b) (realloc_cells env b m)" by (simp add: cs)
        also have "\<dots> = take (b_size b) (cells b)"
          using buf_mem_size [OF ok(1) noom] m0 False by (intro take_realloc) auto
        finally have c: "contents ?b = contents b" using sz by (simp add: contents_def cells_def)
        have "ENSURE_SIZE env d b = Some (Inr (), ?b)" using run False m0 by auto
        moreover have "\<not> borrowed b" using ok(1) False by (auto simp: borrowed_def buf_mem_def)
        ultimately show ?thesis using grow [of ?b cs] ok1 sz c md big noom lc by auto
      qed
    qed
  qed
qed


definition succeeds :: "string \<Rightarrow> (unit result \<times> git_buf) option \<Rightarrow> bool" where
  "succeeds s r \<longleftrightarrow> (\<exists>b1. r = Some (Inr (), b1) \<and> buf_ok b1 \<and> contents b1 = s \<and> \<not> git_buf_oom b1 \<and> \<not> borrowed b1)"

lemma succeeds_yields: "succeeds s r \<Longrightarrow> yields env b s r"
  by (auto simp: succeeds_def yields_def removes_def)

lemma succeeds_removes: "succeeds s r \<Longrightarrow> removes b s r"
  by (auto simp: succeeds_def removes_def)

lemma removes_yields: "removes b s r \<Longrightarrow> yields env b s r"
  by (simp add: yields_def)

text \<open>A buffer with an allocation of its own that holds \<open>t\<close>, and room for \<open>d\<close> bytes in all.\<close>

definition roomy :: "git_buf \<Rightarrow> string \<Rightarrow> nat \<Rightarrow> bool" where
  "roomy b t d \<longleftrightarrow> (\<exists>cs. b_ptr b = Owned cs \<and> length cs = b_asize b \<and> b_asize b < MAX_OBJECT \<and> d \<le> b_asize b \<and>
     b_size b = length t \<and> length t \<le> b_asize b \<and> take (length t) cs = t)"

lemma bnd_simps [simp]: "bnd (ret x) k = k x" "bnd (fail e) k = fail e"
  by (simp_all add: bnd_def ret_def fail_def fun_eq_iff)

lemma add_sizet_ok: "a + c \<le> SIZE_MAX \<Longrightarrow> add_sizet a c = ret (a + c)"
  by (simp add: add_sizet_def)

lemma multiply_sizet_ok: "a * c \<le> SIZE_MAX \<Longrightarrow> multiply_sizet a c = ret (a * c)"
  by (simp add: multiply_sizet_def)

lemma roomy_owned: "b_ptr b = Owned cs \<Longrightarrow> buf_ok b \<Longrightarrow> d \<le> b_asize b \<Longrightarrow> roomy b (contents b) d"
  by (auto simp: roomy_def buf_ok_def buf_mem_def contents_def cells_def)

lemma yields_ensure:
  assumes ok: "buf_ok b" "env_ok env" "\<not> git_buf_oom b" and d: "0 < d" "d < 4 * SMALL"
    and k: "\<And>b1. roomy b1 (contents b) d \<Longrightarrow> succeeds s (k () b1)"
  shows "yields env b s (bnd (ENSURE_SIZE env d) k b)"
proof (cases rule: ensure_cases [OF buf_ok_mem [OF ok(1)] ok(2) d(2), case_names fail keep grow])
  case (fail b1)
  then show ?thesis using ok(3) by (auto simp: bnd_def yields_def split: if_splits)
next
  case keep
  then obtain cs where "b_ptr b = Owned cs"
    using ok(1) d(1) by (auto simp: buf_ok_def buf_mem_def git_buf_oom_def split: buf_ptr.splits)
  then have "roomy b (contents b) d" using roomy_owned ok(1) keep(2) by blast
  then show ?thesis using keep(1) k succeeds_yields by (simp add: bnd_def)
next
  case (grow b1 cs)
  then have "roomy b1 (contents b) d" using roomy_owned by metis
  then show ?thesis using grow(1) k succeeds_yields by (simp add: bnd_def)
qed

subsection \<open>Writing\<close>

lemma set_size_run: "bnd (set_size n) k b = k () (b\<lparr>b_size := n\<rparr>)"
  by (simp add: set_size_def update_state_def bnd_def)

text \<open>A store that makes the content \<open>t\<close> with a terminator behind it.\<close>

lemma terminate_roomy:
  assumes "roomy b t (length t + 1)"
  shows "succeeds t (terminate b)"
proof -
  obtain cs where cs: "b_ptr b = Owned cs" "length cs = b_asize b" "b_asize b < MAX_OBJECT" "length t + 1 \<le> b_asize b"
    "b_size b = length t" "take (length t) cs = t" using assms by (auto simp: roomy_def)
  then have "terminate b = Some (Inr (), b\<lparr>b_ptr := Owned (cs[length t := NUL])\<rparr>)"
    by (simp add: terminate_def poke_def)
  then show ?thesis using cs by (simp add: succeeds_def buf_ok_def buf_mem_def contents_def cells_def git_buf_oom_def borrowed_def)
qed

lemma move_in_roomy:
  assumes "roomy b t d" "i \<le> length t" "i + length s \<le> d"
  shows "\<exists>b1. move_in i s b = Some (Inr (), b1) \<and> roomy (b1\<lparr>b_size := i + length s\<rparr>) (take i t @ s) d"
proof (cases "s = []")
  case True
  then show ?thesis using assms by (auto simp: move_in_def roomy_def min_def take_take dest: arg_cong [where f = "take i"])
next
  case False
  obtain cs where cs: "b_ptr b = Owned cs" "length cs = b_asize b" "b_asize b < MAX_OBJECT" "d \<le> b_asize b"
    "b_size b = length t" "take (length t) cs = t" using assms by (auto simp: roomy_def)
  have "take i cs = take i t" using cs(6) assms(2) by (metis min.absorb1 take_take)
  then show ?thesis using False cs assms by (auto simp: move_in_def roomy_def)
qed

lemma append_roomy:
  assumes "roomy b t d" "length t + length s < d"
  shows "succeeds (t @ s) (append_bytes s b)"
proof -
  obtain b1 where b1: "move_in (length t) s b = Some (Inr (), b1)"
    "roomy (b1\<lparr>b_size := length t + length s\<rparr>) (t @ s) d"
    using move_in_roomy [of b t d "length t" s] assms by auto
  have "b_size b = length t" using assms(1) by (auto simp: roomy_def)
  then have "append_bytes s b = terminate (b1\<lparr>b_size := length t + length s\<rparr>)"
    using b1(1) by (simp add: append_bytes_def bnd_def set_size_def update_state_def)
  moreover have "roomy (b1\<lparr>b_size := length t + length s\<rparr>) (t @ s) (length (t @ s) + 1)"
    using b1(2) assms(2) by (auto simp: roomy_def)
  ultimately show ?thesis using terminate_roomy by metis
qed

text \<open>A list of bytes that is emitted one by one.\<close>

definition emits :: "unit buf \<Rightarrow> string \<Rightarrow> bool" where
  "emits m s \<longleftrightarrow> (\<forall>b t d. roomy b t d \<and> length t + length s \<le> d \<longrightarrow>
     (\<exists>b1. m b = Some (Inr (), b1) \<and> roomy b1 (t @ s) d))"

lemma emits_ret: "emits (ret ()) []"
  by (simp add: emits_def ret_def)

lemma emits_emit: "emits (emit c) [c]"
  unfolding emits_def
proof (intro allI impI, elim conjE)
  fix b t d
  assume r: "roomy b t d" and l: "length t + length [c] \<le> d"
  obtain cs where cs: "b_ptr b = Owned cs" "length cs = b_asize b" "b_asize b < MAX_OBJECT" "d \<le> b_asize b"
    "b_size b = length t" "take (length t) cs = t" using r by (auto simp: roomy_def)
  then have "emit c b = Some (Inr (), b\<lparr>b_ptr := Owned (cs[length t := c]), b_size := length t + 1\<rparr>)"
    using l by (simp add: emit_def poke_def bnd_def set_size_def update_state_def)
  moreover have "take (Suc (length t)) (cs[length t := c]) = t @ [c]"
    using cs l by (simp add: take_Suc_conv_app_nth)
  ultimately show "\<exists>b1. emit c b = Some (Inr (), b1) \<and> roomy b1 (t @ [c]) d"
    using cs l by (auto simp: roomy_def)
qed

lemma emits_bnd:
  assumes "emits m s" "emits k t"
  shows "emits (bnd m (\<lambda>_. k)) (s @ t)"
  unfolding emits_def
proof (intro allI impI, elim conjE)
  fix b u d
  assume r: "roomy b u d" and l: "length u + length (s @ t) \<le> d"
  then obtain b1 where b1: "m b = Some (Inr (), b1)" "roomy b1 (u @ s) d"
    using assms(1) unfolding emits_def by fastforce
  moreover obtain b2 where "k b1 = Some (Inr (), b2)" "roomy b2 ((u @ s) @ t) d"
    using assms(2) b1(2) l unfolding emits_def by fastforce
  ultimately show "\<exists>b1. bnd m (\<lambda>_. k) b = Some (Inr (), b1) \<and> roomy b1 (u @ s @ t) d"
    by (simp add: bnd_def)
qed

lemma emits_for_each: "emits (for_each emit s) s"
proof (induction s)
  case (Cons c s)
  then show ?case using emits_bnd [OF emits_emit, of "for_each emit s" s c] by simp
qed (simp add: emits_ret)

lemma emits_terminate:
  assumes "emits m s" "roomy b t d" "length t + length s < d"
  shows "succeeds (t @ s) (bnd m (\<lambda>_. terminate) b)"
proof -
  obtain b1 where b1: "m b = Some (Inr (), b1)" "roomy b1 (t @ s) d"
    using assms unfolding emits_def by fastforce
  then have "roomy b1 (t @ s) (length (t @ s) + 1)" using assms(3) by (auto simp: roomy_def)
  then show ?thesis using terminate_roomy b1(1) by (simp add: bnd_def)
qed


lemma put_yields:
  assumes "buf_ok b" "env_ok env" "\<not> git_buf_oom b" "b_size b < SMALL" "length s < SMALL"
  shows "yields env b (contents b @ s) (git_buf_put env s b)"
proof (cases "s = []")
  case True
  then show ?thesis using assms by (simp add: git_buf_put_def yields_def removes_def)
next
  case False
  have sz: "length (contents b) = b_size b"
    using length_contents assms by auto
  have n: "b_size b + length s \<le> SIZE_MAX" "b_size b + length s + 1 \<le> SIZE_MAX" "b_size b + length s + 1 < 4 * SMALL"
    using assms(4,5) by (simp_all add: SMALL_def SIZE_MAX_def)
  show ?thesis using False
    by (simp add: git_buf_put_def add_sizet_ok [OF n(1)] add_sizet_ok [OF n(2), simplified])
      (rule yields_ensure, use assms n sz in \<open>auto intro: append_roomy\<close>)
qed

lemma putcn_yields:
  assumes "buf_ok b" "env_ok env" "\<not> git_buf_oom b" "b_size b < SMALL" "n < SMALL"
  shows "yields env b (contents b @ replicate n c) (git_buf_putcn env c n b)"
proof -
  have sz: "length (contents b) = b_size b"
    using length_contents assms by auto
  have n: "b_size b + n \<le> SIZE_MAX" "b_size b + n + 1 \<le> SIZE_MAX" "b_size b + n + 1 < 4 * SMALL"
    using assms(4,5) by (simp_all add: SMALL_def SIZE_MAX_def)
  show ?thesis
    by (simp add: git_buf_putcn_def add_sizet_ok [OF n(1)] add_sizet_ok [OF n(2), simplified])
      (rule yields_ensure, use assms n sz in \<open>auto intro: append_roomy\<close>)
qed

lemma putc_yields:
  assumes "buf_ok b" "env_ok env" "\<not> git_buf_oom b" "b_size b < SMALL"
  shows "yields env b (contents b @ [c]) (git_buf_putc env c b)"
proof -
  have sz: "length (contents b) = b_size b"
    using length_contents assms by auto
  have n: "b_size b + 2 \<le> SIZE_MAX" "b_size b + 2 < 4 * SMALL"
    using assms(4) by (simp_all add: SMALL_def SIZE_MAX_def)
  have k: "succeeds (contents b @ [c]) (bnd (emit c) (\<lambda>_. terminate) b1)" if r: "roomy b1 (contents b) (b_size b + 2)" for b1
    using emits_terminate [OF emits_emit r] sz by simp
  show ?thesis unfolding git_buf_putc_def add_sizet_ok [OF n(1)] bnd_simps
    by (rule yields_ensure) (use assms n k in auto)
qed

lemma vsnprintf_fits:
  assumes "roomy b t d" "length t + length s + 1 \<le> d" "d = b_asize b"
  shows "succeeds (t @ s) (bnd (p_vsnprintf s (b_asize b - b_size b)) (\<lambda>_. set_size (b_size b + length s)) b)"
proof -
  obtain cs where cs: "b_ptr b = Owned cs" "length cs = b_asize b" "b_asize b < MAX_OBJECT"
    "b_size b = length t" "take (length t) cs = t" using assms(1) by (auto simp: roomy_def)
  have "take (b_asize b - b_size b - 1) s = s" using assms cs by simp
  then have "p_vsnprintf s (b_asize b - b_size b) b =
      Some (Inr (), b\<lparr>b_ptr := Owned (t @ s @ [NUL] @ drop (length t + length s + 1) cs)\<rparr>)"
    using assms cs by (simp add: p_vsnprintf_def move_in_def)
  then show ?thesis using cs assms
    by (simp add: bnd_def set_size_def update_state_def succeeds_def buf_ok_def buf_mem_def contents_def cells_def
        git_buf_oom_def borrowed_def nth_append)
qed

text \<open>A first try that is too long leaves the content as it was.\<close>

lemma vsnprintf_cut:
  assumes "buf_ok b" "\<not> git_buf_oom b" "b_asize b - b_size b < length s + 1"
  obtains b1 where "p_vsnprintf s (b_asize b - b_size b) b = Some (Inr (), b1)" "buf_mem b1" "contents b1 = contents b"
    "b_size b1 = b_size b" "b_asize b1 = b_asize b" "\<not> git_buf_oom b1" "b_asize b = 0 \<Longrightarrow> b1 = b"
proof (cases "b_asize b - b_size b = 0")
  case True
  then show ?thesis using that [of b] assms by (simp add: p_vsnprintf_def buf_ok_mem)
next
  case False
  then obtain cs where cs: "b_ptr b = Owned cs" "length cs = b_asize b" "b_asize b < MAX_OBJECT" "b_size b < b_asize b"
    using assms by (auto simp: buf_ok_def buf_mem_def git_buf_oom_def split: buf_ptr.splits)
  let ?n = "b_asize b - b_size b"
  let ?b = "b\<lparr>b_ptr := Owned (take (b_size b) cs @ take (?n - 1) s @ [NUL] @ drop (b_size b + ?n) cs)\<rparr>"
  have "p_vsnprintf s ?n b = Some (Inr (), ?b)"
    using False cs assms(3) by (simp add: p_vsnprintf_def move_in_def)
  moreover have "buf_mem ?b" "contents ?b = contents b" "\<not> git_buf_oom ?b"
    using cs assms(3) by (auto simp: buf_mem_def contents_def cells_def git_buf_oom_def)
  ultimately show ?thesis using that [of ?b] False by simp
qed

lemma printf_yields:
  assumes ok: "buf_ok b" "env_ok env" "\<not> git_buf_oom b" and l: "b_size b < SMALL" "length s < SMALL" "format_len < SMALL"
  shows "yields env b (contents b @ s) (git_buf_printf env format_len (Some s) b)"
proof -
  have sz: "length (contents b) = b_size b"
    using length_contents ok by auto
  let ?e = "format_len * 2 + b_size b"
  have n: "format_len * 2 \<le> SIZE_MAX" "?e \<le> SIZE_MAX" "?e < 4 * SMALL" "b_size b + length s \<le> SIZE_MAX"
    "b_size b + length s + 1 \<le> SIZE_MAX" "b_size b + length s + 1 < 4 * SMALL"
    using l by (simp_all add: SMALL_def SIZE_MAX_def)
  have second: "yields env b (contents b @ s) (vprintf_loop env 2 (Some s) b1)"
    if b1: "buf_ok b1" "\<not> git_buf_oom b1" "contents b1 = contents b" "b_size b1 = b_size b" "b_asize b1 = 0 \<longrightarrow> b1 = b"
      "borrowed b \<longrightarrow> b_asize b1 = 0" for b1
  proof (cases "length s + 1 \<le> b_asize b1 - b_size b1")
    case True
    then obtain cs where "b_ptr b1 = Owned cs"
      using b1 by (auto simp: buf_ok_def buf_mem_def git_buf_oom_def split: buf_ptr.splits)
    then have "roomy b1 (contents b) (b_asize b1)" using roomy_owned [of b1 cs] b1 by simp
    then have "succeeds (contents b @ s) (bnd (p_vsnprintf s (b_asize b1 - b_size b1)) (\<lambda>_. set_size (b_size b1 + length s)) b1)"
      using True b1 sz by (intro vsnprintf_fits) auto
    then show ?thesis using True succeeds_yields by (simp add: numeral_2_eq_2)
  next
    case False
    obtain b2 where b2: "p_vsnprintf s (b_asize b1 - b_size b1) b1 = Some (Inr (), b2)" "buf_mem b2" "contents b2 = contents b1"
      "b_size b2 = b_size b1" "b_asize b2 = b_asize b1" "\<not> git_buf_oom b2" "b_asize b1 = 0 \<Longrightarrow> b2 = b1"
      using vsnprintf_cut [of b1 s] b1 False by auto
    let ?d = "b_size b1 + length s + 1"
    have run: "vprintf_loop env 2 (Some s) b1 = bnd (ENSURE_SIZE env ?d) (\<lambda>_. vprintf_loop env 1 (Some s)) b2"
      using False b2(1) n(4,5) b1(4) by (simp add: numeral_2_eq_2 bnd_def [of "p_vsnprintf s _"] add_sizet_ok)
    have d: "?d < 4 * SMALL" using n(6) b1(4) by simp
    show ?thesis
    proof (cases rule: ensure_cases [OF b2(2) ok(2) d, case_names fail keep grow])
      case (fail b3)
      have "borrowed b2 \<longrightarrow> b2 = b" using b2(2,5,7) b1(5) by (auto simp: borrowed_def buf_mem_def)
      moreover have "borrowed b \<longrightarrow> borrowed b2" using b2(7) b1(5,6) by auto
      ultimately have "if borrowed b then b3 = b else git_buf_oom b3 \<and> refuses env"
        using fail(2) b2(6) by (cases "borrowed b"; cases "borrowed b2"; simp)
      then show ?thesis unfolding run yields_def using fail(1) by (simp add: bnd_def)
    next
      case keep
      then show ?thesis using False b2(4,5) by simp
    next
      case (grow b3 cs)
      then have "roomy b3 (contents b) (b_asize b3)" using roomy_owned [of b3 cs "b_asize b3"] b2(3) b1(3) by simp
      then have "succeeds (contents b @ s) (bnd (p_vsnprintf s (b_asize b3 - b_size b3)) (\<lambda>_. set_size (b_size b3 + length s)) b3)"
        using grow(6) b1 sz by (intro vsnprintf_fits) auto
      moreover have "length s + 1 \<le> b_asize b3 - b_size b3" using grow(4,6) b2(4) by simp
      ultimately show ?thesis unfolding run using grow(1) succeeds_yields by (simp add: bnd_def [of "ENSURE_SIZE env _"])
    qed
  qed
  have run: "git_buf_printf env format_len (Some s) b = bnd (ENSURE_SIZE env ?e) (\<lambda>_. vprintf_loop env 2 (Some s)) b"
    unfolding git_buf_printf_def git_buf_vprintf_def multiply_sizet_ok [OF n(1)] bnd_simps add_sizet_ok [OF n(2)] ..
  show ?thesis
  proof (cases rule: ensure_cases [OF buf_ok_mem [OF ok(1)] ok(2) n(3), case_names fail keep grow])
    case (fail b1)
    then show ?thesis unfolding run using ok(1,3) oom_ok by (auto simp: bnd_def yields_def)
  next
    case keep
    moreover have "borrowed b \<longrightarrow> b_asize b = 0" using ok(1) by (auto simp: borrowed_def buf_ok_def buf_mem_def)
    ultimately show ?thesis unfolding run using second [of b] ok by (simp add: bnd_def)
  next
    case (grow b1 cs)
    have "b_asize b1 \<noteq> 0" using grow(6,7) by simp
    then show ?thesis unfolding run using second [of b1] grow by (simp add: bnd_def git_buf_oom_def)
  qed
qed


subsection \<open>Moving bytes about\<close>

text \<open>The allocation starts with \<open>t\<close>, whatever the size is at the moment.\<close>

definition holds :: "git_buf \<Rightarrow> string \<Rightarrow> nat \<Rightarrow> bool" where
  "holds b t d \<longleftrightarrow> (\<exists>cs. b_ptr b = Owned cs \<and> length cs = b_asize b \<and> b_asize b < MAX_OBJECT \<and> d \<le> b_asize b \<and>
     length t \<le> b_asize b \<and> take (length t) cs = t)"

lemma roomy_holds: "roomy b t d \<longleftrightarrow> holds b t d \<and> b_size b = length t"
  by (auto simp: roomy_def holds_def)

lemma holds_set_size [simp]: "holds (b\<lparr>b_size := n\<rparr>) t d = holds b t d"
  by (simp add: holds_def)

lemma holds_take: "holds b t d \<Longrightarrow> holds b (take i t) d"
  by (fastforce simp: holds_def min_def dest: arg_cong [where f = "take i"])

lemma move_in_holds:
  assumes "holds b t d" "i \<le> length t" "i + length s \<le> d"
  obtains b1 where "move_in i s b = Some (Inr (), b1)" "holds b1 (take i t @ s) d" "b_size b1 = b_size b" "b_asize b1 = b_asize b"
proof (cases "s = []")
  case True
  then show ?thesis using that [of b] holds_take [OF assms(1), of i] by (simp add: move_in_def)
next
  case False
  obtain cs where cs: "b_ptr b = Owned cs" "length cs = b_asize b" "b_asize b < MAX_OBJECT" "d \<le> b_asize b"
    "take (length t) cs = t" using assms(1) by (auto simp: holds_def)
  have "take i cs = take i t" using cs(5) assms(2) by (metis min.absorb1 take_take)
  then show ?thesis using that [of "b\<lparr>b_ptr := Owned (take i cs @ s @ drop (i + length s) cs)\<rparr>"] False cs assms
    by (simp add: move_in_def holds_def)
qed

text \<open>The last steps of an operation: the new size and the terminator.\<close>

lemma finish_holds:
  assumes "holds b t d" "length t < d"
  shows "succeeds t (bnd (set_size (length t)) (\<lambda>_. terminate) b)"
  unfolding set_size_run
  by (rule terminate_roomy) (use assms in \<open>auto simp: roomy_holds holds_def\<close>)

lemma poke_holds:
  assumes "holds b t d" "length t < d"
  obtains b1 where "poke (length t) c b = Some (Inr (), b1)" "holds b1 (t @ [c]) d" "b_size b1 = b_size b"
proof -
  obtain cs where cs: "b_ptr b = Owned cs" "length cs = b_asize b" "b_asize b < MAX_OBJECT" "d \<le> b_asize b"
    "take (length t) cs = t" using assms(1) by (auto simp: holds_def)
  have "take (Suc (length t)) (cs[length t := c]) = t @ [c]" using cs assms(2) by (simp add: take_Suc_conv_app_nth)
  then show ?thesis using that [of "b\<lparr>b_ptr := Owned (cs[length t := c])\<rparr>"] cs assms by (simp add: poke_def holds_def)
qed

definition join_text :: "char \<Rightarrow> string \<Rightarrow> string \<Rightarrow> string" where
  "join_text separator a s =
     (if separator = NUL \<or> a = [] then a @ s
      else a @ (if last a = separator then [] else [separator]) @ dropWhile (\<lambda>c. c = separator) s)"

lemma join_yields:
  assumes ok: "buf_ok b" "env_ok env" "\<not> git_buf_oom b" and l: "length a < SMALL" "length s < SMALL"
  shows "yields env b (join_text separator a s) (git_buf_join env separator (POther a) s b)"
proof -
  define sep where "sep = (separator \<noteq> NUL \<and> a \<noteq> [])"
  define s1 where "s1 = (if sep then dropWhile (\<lambda>c. c = separator) s else s)"
  define need where "need = (if sep \<and> last a \<noteq> separator then 1 else 0 :: nat)"
  define between where "between = (if need = 1 then [separator] else [])"
  have joined: "join_text separator a s = a @ between @ s1"
    by (simp add: join_text_def between_def need_def s1_def sep_def)
  have s1: "length s1 < SMALL" using l(2) length_dropWhile_le [of "\<lambda>c. c = separator" s] by (simp add: s1_def)
  have need: "need = length between" "need \<le> 1" by (simp_all add: need_def between_def)
  let ?d = "length a + length s1 + need + 1"
  have d: "length a + length s1 \<le> SIZE_MAX" "length a + length s1 + need \<le> SIZE_MAX" "?d \<le> SIZE_MAX" "?d < 4 * SMALL"
    using l(1) s1 need(2) by (simp_all add: SMALL_def SIZE_MAX_def)
  define p where "p = (if need = 1 then poke (length a) separator else ret ())"
  define k where "k b1 = bnd (move_in 0 a) (\<lambda>_.
      bnd p (\<lambda>_.
        bnd (move_in (length a + need) s1) (\<lambda>_.
          bnd (set_size (length a + length s1 + need)) (\<lambda>_. terminate)))) b1" for b1
  have run: "git_buf_join env separator (POther a) s b = bnd (ENSURE_SIZE env ?d) (\<lambda>_. k) b"
    unfolding git_buf_join_def ptr_str_def Let_def
    by (simp add: own_ptr_def sep_def [symmetric] s1_def [symmetric] need_def [symmetric] p_def k_def [abs_def]
        add_sizet_ok [OF d(1)] add_sizet_ok [OF d(2)] add_sizet_ok [OF d(3)] del: One_nat_def)
  have "succeeds (join_text separator a s) (k b1)" if r: "roomy b1 (contents b) ?d" for b1
  proof -
    have "holds b1 (contents b) ?d" using r by (simp add: roomy_holds)
    then obtain b2 where b2: "move_in 0 a b1 = Some (Inr (), b2)" "holds b2 a ?d"
      using move_in_holds [of b1 "contents b" ?d 0 a] by auto
    obtain b3 where b3: "(if need = 1 then poke (length a) separator else ret ()) b2 = Some (Inr (), b3)"
      "holds b3 (a @ between) ?d"
    proof (cases "need = 1")
      case True
      then show ?thesis using poke_holds [OF b2(2), of separator] that by (auto simp: between_def)
    next
      case False
      then show ?thesis using b2(2) that [of b2] by (simp add: between_def ret_def)
    qed
    obtain b4 where b4: "move_in (length a + need) s1 b3 = Some (Inr (), b4)" "holds b4 ((a @ between) @ s1) ?d"
      using move_in_holds [OF b3(2), of "length (a @ between)" s1] need(1) by auto
    have "k b1 = bnd (set_size (length a + length s1 + need)) (\<lambda>_. terminate) b4"
      using b2(1) b3(1) b4(1) by (simp add: k_def bnd_def p_def)
    moreover have "length a + length s1 + need = length ((a @ between) @ s1)" using need(1) by simp
    ultimately show ?thesis using finish_holds [OF b4(2)] need(1) by (simp add: joined add_ac)
  qed
  then show ?thesis unfolding run by (intro yields_ensure) (use ok d in auto)
qed

lemma splice_yields:
  assumes ok: "buf_ok b" "env_ok env" "\<not> git_buf_oom b" and l: "b_size b < SMALL" "length s < SMALL" and i: "i + n \<le> b_size b"
  shows "yields env b (take i (contents b) @ s @ drop (i + n) (contents b)) (git_buf_splice env i n s b)"
proof -
  let ?c = "contents b"
  have sz: "length ?c = b_size b"
    using length_contents ok by auto
  define m where "m = b_size b - n + length s"
  let ?d = "m + 1"
  have d: "m \<le> SIZE_MAX" "?d \<le> SIZE_MAX" "?d < 4 * SMALL"
    using l by (simp_all add: SMALL_def SIZE_MAX_def m_def)
  define rest where "rest = drop (i + n) ?c"
  define k where "k b1 = bnd (move_in (i + length s) (seg (cells b1) (i + n) (b_size b - i - n))) (\<lambda>_.
      bnd (move_in i s) (\<lambda>_. bnd (set_size m) (\<lambda>_. terminate))) b1" for b1
  have i2: "n \<le> b_size b - i" using i by simp
  have run: "git_buf_splice env i n s b = bnd (ENSURE_SIZE env ?d) (\<lambda>_. k) b"
    using i i2 add_sizet_ok [OF d(1) [unfolded m_def]] add_sizet_ok [OF d(2) [unfolded m_def]]
    unfolding git_buf_splice_def k_def m_def [symmetric] by (simp add: k_def [abs_def])
  have "succeeds (take i ?c @ s @ rest) (k b1)" if r: "roomy b1 ?c ?d" for b1
  proof -
    obtain cs where cs: "b_ptr b1 = Owned cs" "length cs = b_asize b1" "b_asize b1 < MAX_OBJECT" "?d \<le> b_asize b1"
      "b_size b1 = b_size b" "take (b_size b) cs = ?c" using r sz by (auto simp: roomy_def)
    have sg: "seg (cells b1) (i + n) (b_size b - i - n) = rest"
      unfolding seg_def rest_def cs(6) [symmetric] by (simp add: cells_def cs(1) drop_take)
    have len: "length rest = b_size b - i - n" using sz by (simp add: rest_def)
    let ?cs = "take i cs @ s @ rest @ drop (m) cs"
    have m: "m = i + length s + length rest" using i len by (simp add: m_def)
    have "length cs \<ge> m + 1" using cs by simp
    have "\<exists>b2. bnd (move_in (i + length s) rest) (\<lambda>_. move_in i s) b1 = Some (Inr (), b2) \<and> holds b2 (take i ?c @ s @ rest) ?d"
    proof -
      let ?cs1 = "if rest = [] then cs else take (i + length s) cs @ rest @ drop m cs"
      have l1: "length ?cs1 = length cs" using \<open>length cs \<ge> m + 1\<close> m by auto
      have 1: "move_in (i + length s) rest b1 = Some (Inr (), b1\<lparr>b_ptr := Owned ?cs1\<rparr>)"
        using cs m by (auto simp: move_in_def add.assoc)
      let ?cs2 = "if s = [] then ?cs1 else take i ?cs1 @ s @ drop (i + length s) ?cs1"
      have 2: "move_in i s (b1\<lparr>b_ptr := Owned ?cs1\<rparr>) = Some (Inr (), b1\<lparr>b_ptr := Owned ?cs2\<rparr>)"
        using cs m l1 by (auto simp: move_in_def)
      have il: "i \<le> b_size b" using i by simp
      have ti: "take i cs = take i ?c" using cs(6) il by (metis min.absorb1 take_take)
      have "take m ?cs2 = take i ?c @ s @ rest"
        using ti m il sz \<open>length cs \<ge> m + 1\<close> by (auto simp: min_def)
      moreover have "length ?cs2 = length cs" using l1 m \<open>length cs \<ge> m + 1\<close> by auto
      moreover have "m = length (take i ?c @ s @ rest)" using m il sz by simp
      ultimately have "holds (b1\<lparr>b_ptr := Owned ?cs2\<rparr>) (take i ?c @ s @ rest) ?d"
        using cs(2-4) unfolding holds_def by (intro exI [of _ ?cs2]) simp
      then show ?thesis using 1 2 by (simp add: bnd_def)
    qed
    then obtain b2 where b2: "bnd (move_in (i + length s) rest) (\<lambda>_. move_in i s) b1 = Some (Inr (), b2)"
      "holds b2 (take i ?c @ s @ rest) ?d" by blast
    have "k b1 = bnd (bnd (move_in (i + length s) rest) (\<lambda>_. move_in i s)) (\<lambda>_. bnd (set_size m) (\<lambda>_. terminate)) b1"
      unfolding k_def sg bnd_assoc ..
    also have "\<dots> = bnd (set_size m) (\<lambda>_. terminate) b2"
      unfolding bnd_def [of "bnd (move_in (i + length s) rest) (\<lambda>_. move_in i s)"] b2(1) by simp
    finally have "k b1 = bnd (set_size m) (\<lambda>_. terminate) b2" .
    moreover have "m = length (take i ?c @ s @ rest)" using m i sz by simp
    ultimately show ?thesis using finish_holds [OF b2(2)] by simp
  qed
  then show ?thesis unfolding run rest_def by (intro yields_ensure) (use ok d in auto)
qed


subsection \<open>Removing\<close>

lemma ok_cases:
  assumes "buf_ok b" "\<not> git_buf_oom b"
  obtains (init) "b = GIT_BUF_INIT"
  | (owned) cs where "b_ptr b = Owned cs" "length cs = b_asize b" "b_size b < b_asize b" "b_asize b < MAX_OBJECT" "cs ! b_size b = NUL"
  | (borrowed) cs where "b_ptr b = Borrowed cs" "b_asize b = 0" "b_size b \<le> length cs" "length cs < MAX_OBJECT"
  using assms unfolding buf_ok_def buf_mem_def git_buf_oom_def GIT_BUF_INIT_def
  by (cases b) (auto split: buf_ptr.splits)

lemma cut_ok:
  assumes "buf_ok b" "\<not> git_buf_oom b" "n \<le> b_size b"
  shows "removes b (take n (contents b))
    (bnd (set_size n) (\<lambda>_ b. if b_asize b > b_size b then terminate b else Some (Inr (), b)) b)"
  using assms(1,2)
proof (cases rule: ok_cases)
  case init
  then show ?thesis using assms by (simp add: set_size_run removes_def borrowed_def GIT_BUF_INIT_def buf_ok_def buf_mem_def contents_def git_buf_oom_def)
next
  case (owned cs)
  have "succeeds (take n (contents b)) (terminate (b\<lparr>b_size := n\<rparr>))"
    by (rule terminate_roomy) (use owned assms(3) in \<open>auto simp: roomy_def contents_def cells_def min_def\<close>)
  then show ?thesis using owned assms(3) succeeds_removes by (simp add: set_size_run)
next
  case (borrowed cs)
  then show ?thesis using assms(3)
    by (simp add: set_size_run removes_def borrowed_def buf_ok_def buf_mem_def contents_def cells_def git_buf_oom_def min_def)
qed

lemma truncate_removes:
  assumes "buf_ok b" "\<not> git_buf_oom b"
  shows "removes b (take n (contents b)) (git_buf_truncate n b)"
  using assms cut_ok [OF assms, of n] length_contents [OF assms]
  by (simp add: git_buf_truncate_def removes_def)

lemma rfind_loop_take: "n \<le> length cs \<Longrightarrow> rfind_loop cs f n = length (dropWhile f (rev (take n cs)))"
  by (induction n) (auto simp: take_Suc_conv_app_nth)

lemma rtrim_removes:
  assumes "buf_ok b" "\<not> git_buf_oom b"
  shows "removes b (rev (dropWhile git__isspace (rev (contents b)))) (git_buf_rtrim b)"
proof -
  let ?c = "contents b" and ?n = "rfind_loop (cells b) git__isspace (b_size b)"
  have n: "?n = length (dropWhile git__isspace (rev ?c))"
    using rfind_loop_take buf_ok_size [OF assms] unfolding contents_def by blast
  have "rev (dropWhile git__isspace (rev ?c)) = take ?n ?c"
    unfolding n by (metis append_eq_conv_conj length_rev rev_append rev_rev_ident takeWhile_dropWhile_id)
  moreover have "?n \<le> b_size b"
    using n length_dropWhile_le [of git__isspace "rev ?c"] length_contents [OF assms] by simp
  ultimately show ?thesis using cut_ok [OF assms] by (simp add: git_buf_rtrim_def)
qed

lemma consume_removes:
  assumes "buf_ok b" "\<not> git_buf_oom b" "n \<le> b_size b"
  shows "removes b (drop n (contents b)) (git_buf_consume (int n) b)"
proof (cases "n = 0")
  case True
  then show ?thesis using assms by (simp add: git_buf_consume_def removes_def)
next
  case False
  let ?m = "b_size b - n"
  have c: "seg (cells b) n ?m = drop n (contents b)" by (simp add: seg_def contents_def drop_take)
  have run: "git_buf_consume (int n) b = bnd (move_in 0 (drop n (contents b))) (\<lambda>_. bnd (set_size ?m) (\<lambda>_. terminate)) b"
    using False assms(3) by (simp add: git_buf_consume_def c)
  have len: "length (drop n (contents b)) = ?m" using length_contents [OF assms(1,2)] by simp
  show ?thesis using assms(1,2)
  proof (cases rule: ok_cases)
    case init
    then show ?thesis using False assms(3) by (simp add: GIT_BUF_INIT_def)
  next
    case (owned cs)
    then have "holds b [] (b_asize b)" by (simp add: holds_def)
    then obtain b1 where b1: "move_in 0 (drop n (contents b)) b = Some (Inr (), b1)" "holds b1 (drop n (contents b)) (b_asize b)"
      by (rule move_in_holds [of b "[]" "b_asize b" 0 "drop n (contents b)"]) (use len owned(3) in simp_all)
    have "bnd (set_size ?m) (\<lambda>_. terminate) b1 = git_buf_consume (int n) b"
      unfolding run using b1(1) by (simp add: bnd_def [of "move_in 0 _"])
    then show ?thesis using finish_holds [OF b1(2)] len owned(3) False succeeds_removes by simp
  next
    case (borrowed cs)
    let ?s = "drop n (contents b)" let ?cs = "if ?s = [] then cs else ?s @ drop ?m cs"
    have 1: "move_in 0 ?s b = Some (Inr (), b\<lparr>b_ptr := Borrowed ?cs\<rparr>)"
      using borrowed len by (auto simp: move_in_def)
    have lc: "length ?cs = length cs" using len borrowed(3) by auto
    have mn: "?m < length cs" using False borrowed(3) assms(3) by simp
    have "take ?m ?cs = ?s" using len by auto
    then show ?thesis unfolding run using 1 borrowed mn lc
      by (simp add: bnd_def set_size_def update_state_def terminate_def poke_def removes_def borrowed_def buf_ok_def buf_mem_def
          contents_def cells_def git_buf_oom_def del: if_split_asm split del: if_split)
  qed
qed

lemma sets_yields:
  assumes "buf_ok b" "env_ok env" "\<not> git_buf_oom b" "b_size b < SMALL" "length s < SMALL"
  shows "yields env b s (git_buf_sets env (Some s) b)"
proof (cases "s = []")
  case True
  have "git_buf_sets env (Some s) b = git_buf_clear b" by (simp add: git_buf_sets_def git_buf_set_def True)
  moreover have "removes b [] (git_buf_clear b)" using assms(1,3)
  proof (cases rule: ok_cases)
    case (owned cs)
    then show ?thesis
      by (simp add: git_buf_clear_def Let_def poke_def removes_def borrowed_def buf_ok_def buf_mem_def contents_def cells_def git_buf_oom_def)
  qed (auto simp: git_buf_clear_def Let_def GIT_BUF_INIT_def removes_def borrowed_def buf_ok_def buf_mem_def contents_def git_buf_oom_def)
  ultimately show ?thesis using True removes_yields by simp
next
  case False
  let ?d = "length s + 1"
  have d: "?d \<le> SIZE_MAX" "?d < 4 * SMALL" using assms(5) by (simp_all add: SMALL_def SIZE_MAX_def)
  define k where "k b1 = bnd (move_in 0 s) (\<lambda>_. bnd (set_size (length s))
     (\<lambda>_ b. if b_asize b > b_size b then terminate b else Some (Inr (), b))) b1" for b1
  have run: "git_buf_sets env (Some s) b = bnd (ENSURE_SIZE env ?d) (\<lambda>_. k) b"
    using False by (simp add: git_buf_sets_def git_buf_set_def bnd_assoc k_def [abs_def] add_sizet_ok [OF d(1), simplified])
  have "succeeds s (k b1)" if r: "roomy b1 (contents b) ?d" for b1
  proof -
    obtain b2 where b2: "move_in 0 s b1 = Some (Inr (), b2)" "holds b2 s ?d" "b_asize b2 = b_asize b1"
      using move_in_holds [of b1 "contents b" ?d 0 s] r by (auto simp: roomy_holds)
    have "b_asize b2 > length s" using b2(3) r by (auto simp: roomy_def)
    then show ?thesis using finish_holds [OF b2(2)] b2(1) by (simp add: k_def bnd_def set_size_def update_state_def)
  qed
  then show ?thesis unfolding run by (intro yields_ensure) (use assms d in auto)
qed


definition tiny_memory :: buf_env where
  "tiny_memory = \<lparr>be_alloc = (\<lambda>n. n < 100), be_junk = CHR ''x''\<rparr>"

lemma tiny_memory_ok: "env_ok tiny_memory"
  by (simp add: env_ok_def MAX_OBJECT_def tiny_memory_def)


text \<open>Running out of memory is not forgotten by later writes, unless they write nothing.\<close>

lemma put_after_oom:
  "git_buf_oom b \<Longrightarrow> b_size b + length s < SIZE_MAX \<Longrightarrow>
     git_buf_put env s b = (if s = [] then Some (Inr (), b) else Some (Inl GIT_ERROR, b))"
  by (simp add: git_buf_put_def add_sizet_ok ENSURE_SIZE_def git_buf_oom_def bnd_def [of "ENSURE_SIZE env _"])

text \<open>A request for the last bytes of the address space is rounded to 0, and the terminator is written in front of the allocation.\<close>

lemma init_size_max: "be_alloc env 0 \<Longrightarrow> git_buf_init env SIZE_MAX b = None"
  by (simp add: git_buf_init_def ENSURE_SIZE_def GIT_BUF_INIT_def git_buf_grow_def git_buf_try_grow_def grown_size_def SIZE_MAX_def Let_def)


subsection \<open>Writing without looking at the results\<close>

text \<open>
  Much of the code writes to a fresh buffer and asks at the end whether memory ran out. A sequence of
  such writes appends all of its text or leaves the buffer marked.
\<close>

definition fills :: "buf_env \<Rightarrow> string \<Rightarrow> unit buf \<Rightarrow> bool" where
  "fills env s m \<longleftrightarrow> (\<forall>b. buf_ok b \<and> \<not> borrowed b \<and> (git_buf_oom b \<or> b_size b + length s < SMALL) \<longrightarrow>
     (\<exists>b1. m b = Some (Inr (), b1) \<and> buf_ok b1 \<and> \<not> borrowed b1 \<and>
       (if git_buf_oom b1 then git_buf_oom b \<or> refuses env else \<not> git_buf_oom b \<and> contents b1 = contents b @ s)))"

lemma fillsI:
  assumes "\<And>b. git_buf_oom b \<Longrightarrow> \<exists>r. m b = Some (r, b)"
    and "\<And>b. buf_ok b \<Longrightarrow> \<not> git_buf_oom b \<Longrightarrow> b_size b + length s < SMALL \<Longrightarrow> yields env b (contents b @ s) (m b)"
  shows "fills env s (ignore m)"
  unfolding fills_def
proof (intro allI impI, elim conjE)
  fix b assume b: "buf_ok b" "\<not> borrowed b" "git_buf_oom b \<or> b_size b + length s < SMALL"
  show "\<exists>b1. ignore m b = Some (Inr (), b1) \<and> buf_ok b1 \<and> \<not> borrowed b1 \<and>
       (if git_buf_oom b1 then git_buf_oom b \<or> refuses env else \<not> git_buf_oom b \<and> contents b1 = contents b @ s)"
  proof (cases "git_buf_oom b")
    case True
    then show ?thesis using assms(1) [OF True] b by (auto simp: ignore_def)
  next
    case False
    then have "yields env b (contents b @ s) (m b)" using assms(2) b by blast
    then show ?thesis using False b(2) oom_ok by (auto simp: ignore_def yields_def removes_def borrowed_def git_buf_oom_def)
  qed
qed

lemma oom_add_ensure: "git_buf_oom b \<Longrightarrow> \<exists>r. bnd (add_sizet x y) (\<lambda>n. bnd (ENSURE_SIZE env (f n)) (k n)) b = Some (r, b)"
  by (simp add: add_sizet_def ret_def fail_def bnd_def ENSURE_SIZE_def git_buf_oom_def)

lemma oom_add2_ensure:
  "git_buf_oom b \<Longrightarrow> \<exists>r. bnd (add_sizet x y) (\<lambda>n. bnd (add_sizet (g n) z) (\<lambda>n. bnd (ENSURE_SIZE env (f n)) (k n))) b = Some (r, b)"
  using oom_add_ensure [of b "g (x + y)" z env f k] by (simp add: add_sizet_def [of x y]) (simp add: fail_def)

lemma fills_putc: "env_ok env \<Longrightarrow> fills env [c] (ignore (git_buf_putc env c))"
  by (rule fillsI) (use oom_add_ensure [of _ _ _ env "\<lambda>n. n"] putc_yields in \<open>auto simp: git_buf_putc_def\<close>)

lemma fills_put: "env_ok env \<Longrightarrow> fills env s (ignore (git_buf_put env s))"
  by (rule fillsI) (use oom_add2_ensure [of _ _ _ "\<lambda>n. n" _ env "\<lambda>n. n"] put_yields in \<open>auto simp: git_buf_put_def\<close>)

lemma fills_printf: "env_ok env \<Longrightarrow> n < SMALL \<Longrightarrow> fills env s (ignore (git_buf_printf env n (Some s)))"
proof (rule fillsI)
  fix b assume "git_buf_oom b"
  then show "\<exists>r. git_buf_printf env n (Some s) b = Some (r, b)"
    using oom_add_ensure [of b "n * 2" "b_size b" env "\<lambda>n. n" "\<lambda>_ _. vprintf_loop env 2 (Some s)"]
    by (simp add: git_buf_printf_def git_buf_vprintf_def multiply_sizet_def) (simp add: fail_def)
qed (auto intro: printf_yields)

lemma fills_ret: "fills env [] (ret ())"
  by (simp add: fills_def ret_def)

lemma fills_bnd:
  assumes "fills env s m" "fills env t k"
  shows "fills env (s @ t) (bnd m (\<lambda>_. k))"
  unfolding fills_def
proof (intro allI impI, elim conjE)
  fix b assume b: "buf_ok b" "\<not> borrowed b" "git_buf_oom b \<or> b_size b + length (s @ t) < SMALL"
  then have "git_buf_oom b \<or> b_size b + length s < SMALL" by auto
  with b(1,2) assms(1) obtain b1 where b1: "m b = Some (Inr (), b1)" "buf_ok b1" "\<not> borrowed b1"
    "if git_buf_oom b1 then git_buf_oom b \<or> refuses env else \<not> git_buf_oom b \<and> contents b1 = contents b @ s"
    unfolding fills_def by blast
  have "git_buf_oom b1 \<or> b_size b1 + length t < SMALL"
    using b1(4) b length_contents [of b] length_contents [of b1] b1(2) by (auto split: if_splits)
  with b1(2,3) assms(2) obtain b2 where b2: "k b1 = Some (Inr (), b2)" "buf_ok b2" "\<not> borrowed b2"
    "if git_buf_oom b2 then git_buf_oom b1 \<or> refuses env else \<not> git_buf_oom b1 \<and> contents b2 = contents b1 @ t"
    unfolding fills_def by blast
  then show "\<exists>b1. bnd m (\<lambda>_. k) b = Some (Inr (), b1) \<and> buf_ok b1 \<and> \<not> borrowed b1 \<and>
       (if git_buf_oom b1 then git_buf_oom b \<or> refuses env else \<not> git_buf_oom b \<and> contents b1 = contents b @ s @ t)"
    using b1 by (auto simp: bnd_def split: if_splits)
qed

lemma fills_for_each: "(\<And>c. c \<in> set cs \<Longrightarrow> fills env (f c) (m c)) \<Longrightarrow> fills env (concat (map f cs)) (for_each m cs)"
proof (induction cs)
  case (Cons c cs)
  then show ?case using fills_bnd [of env "f c" "m c"] by simp
qed (simp add: fills_ret)


lemma fills_init:
  assumes "fills env s m" "length s < SMALL"
  obtains b where "m GIT_BUF_INIT = Some (Inr (), b)" "buf_ok b" "\<not> borrowed b"
    "if git_buf_oom b then refuses env else contents b = s"
proof -
  have "\<not> borrowed GIT_BUF_INIT" "b_size GIT_BUF_INIT = 0" by (simp_all add: borrowed_def GIT_BUF_INIT_def)
  with assms have "\<exists>b. m GIT_BUF_INIT = Some (Inr (), b) \<and> buf_ok b \<and> \<not> borrowed b \<and>
      (if git_buf_oom b then git_buf_oom GIT_BUF_INIT \<or> refuses env
       else \<not> git_buf_oom GIT_BUF_INIT \<and> contents b = contents GIT_BUF_INIT @ s)"
    unfolding fills_def by (metis add_0 buf_ok_init(1))
  then show ?thesis using that unfolding buf_ok_init(2) using buf_ok_init(3) by (metis append_Nil)
qed

end
