(* ===== verification/BufCodecCorrect.thy ===== *)
theory BufCodecCorrect
  imports BufCodec BufferCorrect
begin

text \<open>
  The codings of \<open>buffer.c\<close> are inverted by their decoders: base 64 up to the zeros of the padding, base
  85 exactly, the quoting of paths exactly.
\<close>

subsection \<open>Base 64\<close>

lemma table64: "list_all (\<lambda>n. base64_decode ! of_char (base64_encode ! n) = int n) [0..<64]"
  unfolding base64_decode_def base64_encode_def by (simp add: upt_rec nth_append)

lemma from64_b64: "unat v < 64 \<Longrightarrow> from64 (b64 v) = int (unat v)"
  using table64 by (simp add: list_all_iff from64_def b64_def)

lemma less_8: "n < LENGTH(8) \<Longrightarrow> n = 0 \<or> n = 1 \<or> n = 2 \<or> n = 3 \<or> n = 4 \<or> n = 5 \<or> n = 6 \<or> n = (7 :: nat)"
  by (simp; presburger)

lemma bits64:
  fixes a b c :: u8
  shows "push_bit 2 (drop_bit 2 a) OR drop_bit 4 ((push_bit 4 (a AND 0x03) OR drop_bit 4 b) AND 0x30) = a"
    "push_bit 4 ((push_bit 4 (a AND 0x03) OR drop_bit 4 b) AND 0x0f)
       OR drop_bit 2 ((push_bit 2 (b AND 0x0f) OR drop_bit 6 c) AND 0x3c) = b"
    "push_bit 6 ((push_bit 2 (b AND 0x0f) OR drop_bit 6 c) AND 0x03) OR ((c AND 0x3f) AND 0x3f) = c"
  by - (rule bit_word_eqI; drule less_8; elim disjE; simp add: bit_simps)+


lemma below_64: "(v :: u8) AND 63 = v \<Longrightarrow> unat v < 64"
proof -
  assume "v AND 63 = v"
  moreover have "(63 :: u8) = mask 6" by (simp add: mask_eq_exp_minus_1)
  ultimately have "unat v = unat (v AND mask 6)" by simp
  also have "\<dots> = take_bit 6 (unat v)" unfolding take_bit_eq_mask [symmetric] by (rule unsigned_take_bit_eq)
  also have "\<dots> = unat v mod 2 ^ 6" by (rule take_bit_eq_mod)
  finally have "unat v = unat v mod 64" by simp
  then show ?thesis by (metis mod_less_divisor zero_less_numeral)
qed

lemma six_bits:
  fixes a b c :: u8
  shows "drop_bit 2 a AND 63 = drop_bit 2 a"
    "(push_bit 4 (a AND 0x03) OR drop_bit 4 b) AND 63 = push_bit 4 (a AND 0x03) OR drop_bit 4 b"
    "(push_bit 2 (b AND 0x0f) OR drop_bit 6 c) AND 63 = push_bit 2 (b AND 0x0f) OR drop_bit 6 c"
    "(c AND 0x3f) AND 63 = c AND 0x3f"
  by - (rule bit_word_eqI; drule less_8; elim disjE; simp add: bit_simps impossible_bit)+

lemma from64_word: "v AND 63 = v \<Longrightarrow> of_int (from64 (b64 v)) = v \<and> 0 \<le> from64 (b64 v)"
  using from64_b64 [OF below_64] by simp

lemma from64_pad: "from64 CHR ''='' = 0"
  by (simp add: from64_def base64_decode_def nth_append)

lemma chr_byte [simp]: "chr (byte x) = x" and byte_chr [simp]: "byte (chr w) = w" and chr_0: "chr 0 = NUL"
proof -
  have "unat (of_nat (of_char x) :: u8) = of_char x" by (simp add: unat_of_nat)
  then have "unat (byte x) = of_char x" by (simp only: byte_def of_nat_of_char)
  then show "chr (byte x) = x" by (simp add: chr_def)
  have "byte (chr w) = of_nat (of_char (char_of (unat w)))" by (simp only: byte_def chr_def of_nat_of_char)
  then show "byte (chr w) = w" using unsigned_less [of w, where ?'a = nat] by simp
  show "chr 0 = NUL" by (simp add: chr_def NUL_def char_of_eq_iff)
qed


text \<open>The text of the coding, and the zeros that the padding decodes to.\<close>

fun base64_text :: "string \<Rightarrow> string" where
  "base64_text [] = []"
| "base64_text [x] = (let a = byte x; b = 0 in
     [b64 (drop_bit 2 a), b64 (push_bit 4 (a AND 0x03) OR drop_bit 4 b), CHR ''='', CHR ''=''])"
| "base64_text [x, y] = (let a = byte x; b = byte y in
     [b64 (drop_bit 2 a), b64 (push_bit 4 (a AND 0x03) OR drop_bit 4 b), b64 (push_bit 2 (b AND 0x0f)), CHR ''=''])"
| "base64_text (x # y # z # read) = (let a = byte x; b = byte y; c = byte z in
     [b64 (drop_bit 2 a), b64 (push_bit 4 (a AND 0x03) OR drop_bit 4 b),
      b64 (push_bit 2 (b AND 0x0f) OR drop_bit 6 c), b64 (c AND 0x3f)] @ base64_text read)"

definition padding :: "nat \<Rightarrow> nat" where "padding n = (3 - n mod 3) mod 3"

lemma padding_simps: "padding 0 = 0" "padding (Suc 0) = 2" "padding (Suc (Suc 0)) = 1" "padding (Suc (Suc (Suc n))) = padding n"
  by (simp_all add: padding_def)

lemma encode64_emits: "emits (encode_base64_loop s) (base64_text s)"
proof (induction s rule: base64_text.induct)
  case (4 x y z read)
  from 4 [OF refl refl refl] show ?case unfolding encode_base64_loop.simps base64_text.simps Let_def
    by (intro emits_bnd emits_for_each)
qed (auto simp: Let_def emits_ret simp del: for_each.simps intro: emits_for_each)

lemma decode64_group:
  assumes "from64 p = int (unat (drop_bit 2 a))" "from64 q = int (unat (push_bit 4 (a AND 0x03) OR drop_bit 4 b))"
    "from64 r = int (unat (push_bit 2 (b AND 0x0f) OR drop_bit 6 c))" "from64 s = int (unat (c AND 0x3f))"
    "emits (decode_base64_loop orig rest) t"
  shows "emits (decode_base64_loop orig (p # q # r # s # rest)) ([chr a, chr b, chr c] @ t)"
proof -
  have w: "of_int (int (unat v)) = v" for v :: u8 by simp
  have neg: "(int n < 0) = False" for n by simp
  have "decode_base64_loop orig (p # q # r # s # rest) =
      bnd (for_each emit [chr a, chr b, chr c]) (\<lambda>_. decode_base64_loop orig rest)"
    by (simp only: decode_base64_loop.simps assms(1-4) Let_def w neg bits64 de_Morgan_disj if_False simp_thms)
  then show ?thesis using assms(5) by (simp only: emits_bnd emits_for_each)
qed

lemma decode64_emits: "emits (decode_base64_loop orig (base64_text s)) (s @ replicate (padding (length s)) NUL)"
proof (induction s rule: base64_text.induct)
  case (2 x)
  show ?case
    using decode64_group [of "b64 _" "byte x" "b64 _" 0 "CHR ''=''" 0 "CHR ''=''" orig "[]" "[]",
        OF from64_b64 [OF below_64 [OF six_bits(1)]] from64_b64 [OF below_64 [OF six_bits(2)]]]
    by (simp add: Let_def from64_pad padding_simps chr_0 numeral_2_eq_2 emits_ret)
next
  case (3 x y)
  show ?case
    using decode64_group [of "b64 _" "byte x" "b64 _" "byte y" "b64 _" 0 "CHR ''=''" orig "[]" "[]",
        OF from64_b64 [OF below_64 [OF six_bits(1)]] from64_b64 [OF below_64 [OF six_bits(2)]]
          from64_b64 [OF below_64 [OF six_bits(3)]]]
    by (simp add: Let_def from64_pad padding_simps chr_0 numeral_2_eq_2 emits_ret)
next
  case (4 x y z read)
  show ?case
    using decode64_group [of "b64 _" "byte x" "b64 _" "byte y" "b64 _" "byte z" "b64 _",
        OF from64_b64 [OF below_64 [OF six_bits(1)]] from64_b64 [OF below_64 [OF six_bits(2)]]
          from64_b64 [OF below_64 [OF six_bits(3)]] from64_b64 [OF below_64 [OF six_bits(4)]] 4 [OF refl refl refl]]
    by (simp add: Let_def padding_simps)
qed (simp add: emits_ret padding_simps)


lemma length_base64: "length (base64_text s) = (length s + 2) div 3 * 4"
proof (induction s rule: base64_text.induct)
  case (4 x y z read)
  have "(n + 5) div 3 = (n + 2) div 3 + 1" for n :: nat by presburger
  then show ?case using 4 [OF refl refl refl] by (simp add: Let_def add.commute)
qed (simp_all add: Let_def)

lemma padding_length: "n + padding n = (n + 2) div 3 * 3"
proof -
  obtain k r where n: "n = 3 * k + r" "r < 3" by (metis mult_div_mod_eq mod_less_divisor zero_less_numeral)
  then consider "r = 0" | "r = 1" | "r = 2" by linarith
  moreover have "Suc (Suc (3 * k)) mod 3 = 2" by presburger
  ultimately show ?thesis unfolding n(1) padding_def by cases simp_all
qed

lemma blocks: "(n :: nat) div 3 + (if n mod 3 \<noteq> 0 then 1 else 0) = (n + 2) div 3"
  by (simp; presburger)

lemma encode64_yields:
  assumes "buf_ok b" "env_ok env" "\<not> git_buf_oom b" "b_size b < SMALL" "length s < SMALL"
  shows "yields env b (contents b @ base64_text s) (git_buf_encode_base64 env s b)"
proof -
  let ?n = "(length s + 2) div 3" let ?d = "(?n + 1) * 4 + b_size b"
  have d: "?n + 1 \<le> SIZE_MAX" "(?n + 1) * 4 \<le> SIZE_MAX" "?d \<le> SIZE_MAX" "?d < 4 * SMALL"
    using assms(4,5) by (simp_all add: SMALL_def SIZE_MAX_def)
  have run: "git_buf_encode_base64 env s b = bnd (ENSURE_SIZE env ?d) (\<lambda>_. bnd (encode_base64_loop s) (\<lambda>_. terminate)) b"
    unfolding git_buf_encode_base64_def Let_def blocks add_sizet_ok [OF d(1)] bnd_simps multiply_sizet_ok [OF d(2)]
      add_sizet_ok [OF d(3)] ..
  show ?thesis unfolding run
    by (rule yields_ensure)
      (use assms d length_contents [OF assms(1,3)] in \<open>auto intro!: emits_terminate [OF encode64_emits] simp: length_base64\<close>)
qed

lemma decode64_yields:
  assumes "buf_ok b" "env_ok env" "\<not> git_buf_oom b" "b_size b < SMALL" "length s < SMALL"
  shows "yields env b (contents b @ s @ replicate (padding (length s)) NUL) (git_buf_decode_base64 env (base64_text s) b)"
proof -
  let ?n = "(length s + 2) div 3 * 3" let ?d = "?n + b_size b + 1"
  have d: "?n + b_size b \<le> SIZE_MAX" "?d \<le> SIZE_MAX" "?d < 4 * SMALL"
    using assms(4,5) by (simp_all add: SMALL_def SIZE_MAX_def)
  have len: "length (s @ replicate (padding (length s)) NUL) = ?n" by (simp only: length_append length_replicate padding_length)
  have b4: "length (base64_text s) div 4 * 3 = ?n" "length (base64_text s) mod 4 = 0" by (simp_all add: length_base64)
  have run: "git_buf_decode_base64 env (base64_text s) b =
      bnd (ENSURE_SIZE env ?d) (\<lambda>_. bnd (decode_base64_loop (b_size b) (base64_text s)) (\<lambda>_. terminate)) b"
    unfolding git_buf_decode_base64_def Let_def b4 add_sizet_ok [OF d(1)] bnd_simps add_sizet_ok [OF d(2)] by simp
  show ?thesis unfolding run
  proof (rule yields_ensure)
    fix b1 assume r: "roomy b1 (contents b) ?d"
    show "succeeds (contents b @ s @ replicate (padding (length s)) NUL)
        (bnd (decode_base64_loop (b_size b) (base64_text s)) (\<lambda>_. terminate) b1)"
      using emits_terminate [OF decode64_emits r] len length_contents [OF assms(1,3)] by simp
  qed (use assms d in auto)
qed

subsection \<open>Base 85\<close>

lemma table85: "list_all (\<lambda>n. base85_decode ! of_char (base85_encode ! n) = int n + 1) [0..<85]"
  unfolding base85_decode_def base85_encode_def by (simp add: upt_rec nth_append)

lemma from85_encode: "n < 85 \<Longrightarrow> from85 (base85_encode ! n) = int n"
  using table85 by (simp add: list_all_iff from85_def)

lemma mod_85: "unat (acc mod 85 :: u32) < 85" and div_85: "unat (acc div 85 :: u32) = unat acc div 85"
  by (simp_all add: unat_mod unat_div)

lemma base85_value_append:
  "base85_value a (xs @ ys) = (case base85_value a xs of None \<Rightarrow> None | Some v \<Rightarrow> base85_value v ys)"
  by (induction xs arbitrary: a) (simp_all add: Let_def)

lemma base85_value_digits:
  "unat acc < 85 ^ n \<Longrightarrow> base85_value a (base85_digits n acc) = Some (a * 85 ^ n + acc)"
proof (induction n arbitrary: acc)
  case 0
  then show ?case by (simp add: unat_eq_zero)
next
  case (Suc n)
  have "unat (acc div 85) < 85 ^ n" using Suc.prems unfolding div_85 by (simp add: less_mult_imp_div_less mult.commute)
  from Suc.IH [OF this] have "base85_value a (base85_digits (Suc n) acc) =
      base85_value (a * 85 ^ n + acc div 85) [base85_encode ! unat (acc mod 85)]"
    by (simp add: base85_value_append)
  also have "\<dots> = Some ((a * 85 ^ n + acc div 85) * 85 + acc mod 85)"
    using from85_encode [OF mod_85 [of acc]] by (simp add: Let_def)
  also have "(a * 85 ^ n + acc div 85) * 85 + acc mod 85 = a * 85 ^ Suc n + acc"
    using div_mult_mod_eq [of acc 85] by (simp only: distrib_right power_Suc2 add.assoc mult.assoc)
  finally show ?case .
qed


lemma base85_group_digits: "base85_group (base85_digits 5 acc) = Some acc"
proof -
  let ?q = "acc div 85" let ?r = "acc mod 85"
  have five: "base85_digits 5 acc = base85_digits 4 ?q @ [base85_encode ! unat ?r]"
    by (simp add: numeral_eq_Suc)
  have len: "length (base85_digits n a) = n" for n a by (induction n arbitrary: a) simp_all
  have "unat acc < 2 ^ 32" using unsigned_less [of acc, where ?'a = nat] by simp
  then have q: "unat ?q < 85 ^ 4" unfolding div_85 by simp
  have high: "base85_value 0 (base85_digits 4 ?q) = Some ?q" using base85_value_digits [OF q, of 0] by simp
  have de: "from85 (base85_encode ! unat ?r) = int (unat ?r)" using from85_encode [OF mod_85] .
  have split: "unat ?q * 85 + unat ?r = unat acc" by (simp add: div_85 unat_mod)
  then have le: "unat ?q * 85 < 2 ^ 32" using \<open>unat acc < 2 ^ 32\<close> by simp
  have q85: "unat (?q * 85) = unat ?q * 85" using le by (simp add: unat_word_ariths)
  have 1: "\<not> (0xffffffff div 85 :: u32) < ?q"
    using div_le_mono [of "unat acc" "2 ^ 32 - 1" 85] \<open>unat acc < 2 ^ 32\<close> by (simp add: word_less_nat_alt div_85)
  have 2: "\<not> 0xffffffff - ?r < ?q * 85"
  proof -
    have "unat ?r \<le> unat (0xffffffff :: u32)" using mod_85 [of acc] by simp
    then have "unat (0xffffffff - ?r) = 4294967295 - unat ?r" by (subst unat_sub) (auto simp: word_le_nat_alt)
    then show ?thesis using split \<open>unat acc < 2 ^ 32\<close> q85 by (simp add: word_less_nat_alt)
  qed
  have "of_int (int (unat ?r)) = ?r" by simp
  moreover have "?q * 85 + ?r = acc" by (rule div_mult_mod_eq)
  ultimately show ?thesis using 1 2
    unfolding base85_group_def five by (simp add: len high nth_append de Let_def del: of_int_of_nat_eq)
qed

definition join_bytes :: "u8 \<Rightarrow> u8 \<Rightarrow> u8 \<Rightarrow> u8 \<Rightarrow> u32" where
  "join_bytes a b c d = push_bit 24 (ucast a) OR (push_bit 16 (ucast b) OR (push_bit 8 (ucast c) OR push_bit 0 (ucast d)))"

lemma low_byte: "ucast (join_bytes a b c d) = d"
  by (rule bit_word_eqI; drule less_8; elim disjE; simp add: join_bytes_def bit_simps)

lemma less_32: "n < LENGTH(32) \<Longrightarrow> n < 8 \<or> 8 \<le> n \<and> n < 16 \<or> 16 \<le> n \<and> n < 24 \<or> 24 \<le> n \<and> n < 32"
  by auto

lemma rotate_bytes: "push_bit 8 (join_bytes a b c d) OR drop_bit 24 (join_bytes a b c d) = join_bytes b c d a"
proof (rule bit_word_eqI)
  fix n assume "n < LENGTH(32)"
  then consider "n < 8" | "8 \<le> n" "n < 16" | "16 \<le> n" "n < 24" | "24 \<le> n" "n < 32" using less_32 by blast
  then show "bit (push_bit 8 (join_bytes a b c d) OR drop_bit 24 (join_bytes a b c d)) n = bit (join_bytes b c d a) n"
    by cases (auto simp: join_bytes_def bit_simps impossible_bit)
qed


lemma emit_rotated_bytes: "n \<le> 4 \<Longrightarrow> emits (emit_rotated n (join_bytes a b c d)) (take n (map chr [a, b, c, d]))"
proof -
  have e: "emit_rotated (Suc m) (join_bytes p q r s) = bnd (emit (chr p)) (\<lambda>_. emit_rotated m (join_bytes q r s p))" for m p q r s
    by (simp add: Let_def rotate_bytes low_byte)
  assume "n \<le> 4"
  then consider "n = 0" | "n = Suc 0" | "n = Suc (Suc 0)" | "n = Suc (Suc (Suc 0))" | "n = Suc (Suc (Suc (Suc 0)))" by linarith
  then show ?thesis
  proof cases
    case 1
    then show ?thesis by (simp add: emits_ret)
  qed (simp only: e emit_rotated.simps(1) take_Suc_Cons take_0 list.map;
      intro emits_bnd [of _ "[_]", simplified] emits_emit emits_ret)+
qed

text \<open>The bytes of a group, zeros behind the end of the input.\<close>

lemma base85_acc_join:
  assumes "0 < length xs" "length xs \<le> 4"
  obtains a b c d where "base85_acc 24 xs = join_bytes a b c d" "take (length xs) (map chr [a, b, c, d]) = xs"
proof -
  consider p where "xs = [p]" | p q where "xs = [p, q]" | p q r where "xs = [p, q, r]" | p q r s where "xs = [p, q, r, s]"
    using assms by (auto simp: length_Suc_conv le_Suc_eq numeral_eq_Suc)
  then show ?thesis
  proof cases
    case (1 p)
    then show ?thesis using that [of "byte p" 0 0 0] by (simp add: join_bytes_def)
  next
    case (2 p q)
    then show ?thesis using that [of "byte p" "byte q" 0 0] by (simp add: join_bytes_def)
  next
    case (3 p q r)
    then show ?thesis using that [of "byte p" "byte q" "byte r" 0] by (simp add: join_bytes_def)
  next
    case (4 p q r s)
    then show ?thesis using that [of "byte p" "byte q" "byte r" "byte s"] by (simp add: join_bytes_def)
  qed
qed

function base85_text :: "string \<Rightarrow> string" where
  "base85_text s = (if s = [] then [] else base85_digits 5 (base85_acc 24 (take 4 s)) @ base85_text (drop 4 s))"
  by pat_completeness auto
termination by (relation "measure length") auto

declare base85_text.simps [simp del]

lemma length_base85_digits: "length (base85_digits n a) = n"
  by (induction n arbitrary: a) simp_all

lemma encode85_emits: "emits (encode_base85_loop s) (base85_text s)"
proof (induction s rule: base85_text.induct)
  case (1 s)
  show ?case
  proof (cases "s = []")
    case True
    then show ?thesis by (simp add: encode_base85_loop.simps base85_text.simps emits_ret)
  next
    case False
    then show ?thesis using emits_bnd [OF emits_for_each 1 [OF False]]
      by (simp add: encode_base85_loop.simps [of s] base85_text.simps [of s])
  qed
qed

lemma length_base85: "length (base85_text s) = (length s + 3) div 4 * 5"
proof (induction s rule: base85_text.induct)
  case (1 s)
  show ?case
  proof (cases "length s \<le> 4")
    case True
    then consider "length s = 0" | "length s = 1" | "length s = 2" | "length s = 3" | "length s = 4" by linarith
    then show ?thesis by cases (auto simp: base85_text.simps [of s] base85_text.simps [of "[]"] length_base85_digits)
  next
    case False
    then obtain m where m: "length s = m + 4" by (metis add.commute le_Suc_ex nat_le_linear)
    then have "s \<noteq> []" by auto
    moreover have "(m + 4 + 3) div 4 = (m + 3) div 4 + 1" using div_add_self2 [of 4 "m + 3"] by (simp add: add_ac)
    ultimately show ?thesis using 1 m by (simp add: base85_text.simps [of s] length_base85_digits)
  qed
qed

lemma decode85_emits: "emits (decode_base85_loop orig (base85_text s) (length s)) s"
proof (induction s rule: base85_text.induct)
  case (1 s)
  show ?case
  proof (cases "s = []")
    case True
    then show ?thesis by (simp add: decode_base85_loop.simps emits_ret)
  next
    case False
    define acc where "acc = base85_acc 24 (take 4 s)"
    define n where "n = (if length s < 4 then length s else 4)"
    have n: "n = length (take 4 s)" "0 < length (take 4 s)" "length s - n = length (drop 4 s)"
      using False by (auto simp: n_def)
    have le: "length (take 4 s) \<le> 4" by simp
    obtain a b c d where j: "acc = join_bytes a b c d" "take n (map chr [a, b, c, d]) = take 4 s"
      unfolding acc_def n(1) by (rule base85_acc_join [OF n(2) le])
    have chunk: "base85_text s = base85_digits 5 acc @ base85_text (drop 4 s)"
      using False by (simp add: base85_text.simps [of s] acc_def)
    have "decode_base85_loop orig (base85_text s) (length s) =
        bnd (emit_rotated n acc) (\<lambda>_. decode_base85_loop orig (base85_text (drop 4 s)) (length (drop 4 s)))"
      using False unfolding decode_base85_loop.simps [of orig "base85_text s"] unfolding chunk
      by (simp add: length_base85_digits base85_group_digits Let_def n_def [symmetric] n(3))
    moreover have "emits (emit_rotated n acc) (take 4 s)"
      using emit_rotated_bytes [of n a b c d] j by (simp add: n_def)
    ultimately show ?thesis using emits_bnd [OF _ 1 [OF False], of _ "take 4 s"] by simp
  qed
qed

lemma blocks_4: "(n :: nat) div 4 + (if n mod 4 \<noteq> 0 then 1 else 0) = (n + 3) div 4"
  by (simp; presburger)

lemma encode85_yields:
  assumes "buf_ok b" "env_ok env" "\<not> git_buf_oom b" "b_size b < SMALL" "length s < SMALL"
  shows "yields env b (contents b @ base85_text s) (git_buf_encode_base85 env s b)"
proof -
  let ?n = "(length s + 3) div 4" let ?d = "?n * 5 + b_size b + 1"
  have d: "?n * 5 \<le> SIZE_MAX" "?n * 5 + b_size b \<le> SIZE_MAX" "?d \<le> SIZE_MAX" "?d < 4 * SMALL"
    using assms(4,5) by (simp_all add: SMALL_def SIZE_MAX_def)
  have run: "git_buf_encode_base85 env s b = bnd (ENSURE_SIZE env ?d) (\<lambda>_. bnd (encode_base85_loop s) (\<lambda>_. terminate)) b"
    unfolding git_buf_encode_base85_def Let_def blocks_4 add_sizet_ok [OF d(2)] bnd_simps multiply_sizet_ok [OF d(1)]
      add_sizet_ok [OF d(3)] ..
  show ?thesis unfolding run
    by (rule yields_ensure)
      (use assms d length_contents [OF assms(1,3)] in \<open>auto intro!: emits_terminate [OF encode85_emits] simp: length_base85\<close>)
qed

lemma decode85_yields:
  assumes "buf_ok b" "env_ok env" "\<not> git_buf_oom b" "b_size b < SMALL" "length s < SMALL"
  shows "yields env b (contents b @ s) (git_buf_decode_base85 env (base85_text s) (length s) b)"
proof -
  let ?d = "length s + b_size b + 1"
  have d: "length s + b_size b \<le> SIZE_MAX" "?d \<le> SIZE_MAX" "?d < 4 * SMALL"
    using assms(4,5) by (simp_all add: SMALL_def SIZE_MAX_def)
  have "n \<le> (n + 3) div 4 * 5 * 4 div 5" for n :: nat by presburger
  then have b5: "(length (base85_text s) mod 5 \<noteq> 0 \<or> length s > length (base85_text s) * 4 div 5) = False"
    by (simp add: length_base85 not_less)
  have run: "git_buf_decode_base85 env (base85_text s) (length s) b =
      bnd (ENSURE_SIZE env ?d) (\<lambda>_. bnd (decode_base85_loop (b_size b) (base85_text s) (length s)) (\<lambda>_. terminate)) b"
    unfolding git_buf_decode_base85_def Let_def b5 add_sizet_ok [OF d(1)] bnd_simps add_sizet_ok [OF d(2)] by simp
  show ?thesis unfolding run
  proof (rule yields_ensure)
    fix b1 assume r: "roomy b1 (contents b) ?d"
    show "succeeds (contents b @ s) (bnd (decode_base85_loop (b_size b) (base85_text s) (length s)) (\<lambda>_. terminate) b1)"
      using emits_terminate [OF decode85_emits r] length_contents [OF assms(1,3)] by simp
  qed (use assms d in auto)
qed



end
