(* ===== verification/BufQuoteCorrect.thy ===== *)
theory BufQuoteCorrect
  imports BufCodecCorrect
begin

text \<open>
  \<open>git_buf_unquote\<close> inverts \<open>git_buf_quote\<close>, for all bytes.
\<close>

subsection \<open>One character\<close>

definition quote_text :: "char \<Rightarrow> string" where
  "quote_text c =
     (if schar c \<ge> 7 \<and> schar c \<le> 13 then [CHR 0x5C, ''abtnvfr'' ! nat (schar c - 7)]
      else if c = CHR 0x22 \<or> c = CHR 0x5C then [CHR 0x5C, c]
      else if c \<noteq> CHR '' '' \<and> (schar c < ord CHR ''!'' \<or> schar c > ord CHR ''~'') then CHR 0x5C # octal c
      else [c])"

lemma fills_quote_char: "env_ok env \<Longrightarrow> fills env (quote_text c) (quote_char env c)"
  unfolding quote_char_def quote_text_def
  using fills_putc fills_printf fills_bnd [of env "[_]" _ "[_]"] by (auto simp: SMALL_def)

lemma byte_digit: "k < 200 \<Longrightarrow> byte (char_of (48 + k :: nat)) - 48 = of_nat k"
proof -
  assume k: "k < 200"
  have "byte (char_of (48 + k :: nat)) = of_nat (of_char (char_of (48 + k :: nat)))"
    by (simp only: byte_def of_nat_of_char)
  then show ?thesis using k by simp
qed

lemma octal_value:
  assumes "a < 4" "b < 8" "d < 8"
  shows "push_bit 6 (of_nat a) OR push_bit 3 (of_nat b) OR of_nat d = (of_nat (64 * a + 8 * b + d) :: u8)"
proof -
  have "a = 0 \<or> a = 1 \<or> a = 2 \<or> a = 3" "b = 0 \<or> b = 1 \<or> b = 2 \<or> b = 3 \<or> b = 4 \<or> b = 5 \<or> b = 6 \<or> b = 7"
    "d = 0 \<or> d = 1 \<or> d = 2 \<or> d = 3 \<or> d = 4 \<or> d = 5 \<or> d = 6 \<or> d = 7" using assms by presburger+
  then show ?thesis by (elim disjE; simp)
qed

text \<open>The three forms of the text of a character, and what the reader makes of them.\<close>

lemma quote_text_cases:
  obtains (plain) "quote_text c = [c]" "c \<noteq> CHR 0x5C"
  | (short) e where "quote_text c = [CHR 0x5C, e]" "unescape_char e = Some c"
  | (octal) d2 d1 d0 where "quote_text c = [CHR 0x5C, d2, d1, d0]" "unescape_char d2 = None"
      "ord CHR ''0'' \<le> schar d2" "schar d2 \<le> ord CHR ''3''" "is_octal d1" "is_octal d0"
      "chr (push_bit 6 (byte d2 - 48) OR push_bit 3 (byte d1 - 48) OR (byte d0 - 48)) = c"
proof -
  consider "schar c \<ge> 7 \<and> schar c \<le> 13" | "c = CHR 0x22 \<or> c = CHR 0x5C"
    | "\<not> (schar c \<ge> 7 \<and> schar c \<le> 13)" "\<not> (c = CHR 0x22 \<or> c = CHR 0x5C)" "c \<noteq> CHR '' '' \<and> (schar c < ord CHR ''!'' \<or> schar c > ord CHR ''~'')"
    | "\<not> (schar c \<ge> 7 \<and> schar c \<le> 13)" "\<not> (c = CHR 0x22 \<or> c = CHR 0x5C)" "\<not> (c \<noteq> CHR '' '' \<and> (schar c < ord CHR ''!'' \<or> schar c > ord CHR ''~''))"
    by blast
  then show thesis
  proof cases
    case 1
    then have "schar c \<in> {7, 8, 9, 10, 11, 12, 13}" by auto
    moreover have "c = char_of (ord c)" by (simp add: ord_def)
    moreover have "ord c = schar c" using 1 ord_less [of c] by (auto simp: schar_def split: if_splits)
    ultimately have "c \<in> {CHR 0x07, CHR 0x08, CHR 0x09, CHR 0x0A, CHR 0x0B, CHR 0x0C, CHR 0x0D}"
      by (auto simp: char_of_def)
    then show thesis
      using short 1 by (auto simp: quote_text_def unescape_char_def schar_def ord_def)
  next
    case 2
    then show thesis using short by (auto simp: quote_text_def unescape_char_def schar_def ord_def)
  next
    case 3
    let ?n = "of_char c :: nat"
    let ?a = "?n div 64" and ?b = "?n div 8 mod 8" and ?d = "?n mod 8"
    have n: "?n < 256" by simp
    have a: "?a < 4" using less_mult_imp_div_less [of ?n 4 64] n by simp
    have oct: "\<And>k. k < 8 \<Longrightarrow> is_octal (char_of (48 + k :: nat))"
      by (simp add: is_octal_def schar_def ord_of_char_of) (simp add: ord_def)
    have "64 * (m div 64) + 8 * (m div 8 mod 8) + m mod 8 = m" for m :: nat
    proof -
      have "m div 64 = m div 8 div 8" using div_mult2_eq [of m 8 8] by simp
      then show ?thesis using mult_div_mod_eq [of 8 m] mult_div_mod_eq [of 8 "m div 8"] by linarith
    qed
    then have "64 * ?a + 8 * ?b + ?d = ?n" .
    have cb: "chr (of_nat (of_char c)) = c" using chr_byte [of c] by (simp only: byte_def of_nat_of_char)
    with \<open>64 * ?a + 8 * ?b + ?d = ?n\<close> have v: "chr (push_bit 6 (byte (char_of (48 + ?a)) - 48) OR push_bit 3 (byte (char_of (48 + ?b)) - 48) OR (byte (char_of (48 + ?d)) - 48)) = c"
      using octal_value [of ?a ?b ?d] a cb by (simp add: byte_digit)
    have d2: "unescape_char (char_of (48 + ?a)) = None"
    proof -
      have "?a = 0 \<or> ?a = 1 \<or> ?a = 2 \<or> ?a = 3" using a by linarith
      then show ?thesis by (elim disjE) (simp_all add: unescape_char_def char_of_def)
    qed
    have "quote_text c = CHR 0x5C # octal c" unfolding quote_text_def if_not_P [OF 3(1)] if_not_P [OF 3(2)] if_P [OF 3(3)] ..
    then have q: "quote_text c = [CHR 0x5C, char_of (48 + ?a), char_of (48 + ?b), char_of (48 + ?d)]"
      by (simp only: octal_def Let_def)
    have "schar (char_of (48 + ?a)) = 48 + int ?a" unfolding schar_def using ord_of_char_of [of "48 + ?a"] a by simp
    moreover have "ord CHR ''0'' = 48" "ord CHR ''3'' = 51" by (simp_all add: ord_def)
    ultimately have "ord CHR ''0'' \<le> schar (char_of (48 + ?a))" "schar (char_of (48 + ?a)) \<le> ord CHR ''3''" using a by linarith+
    from octal [OF q d2 this oct oct v] show thesis by simp
  next
    case 4
    have "quote_text c = [c]" unfolding quote_text_def if_not_P [OF 4(1)] if_not_P [OF 4(2)] if_not_P [OF 4(3)] ..
    then show thesis using plain 4(2) by simp
  qed
qed


subsection \<open>Reading in place\<close>

text \<open>
  The reader is at \<open>j\<close> and has written up to \<open>i < j\<close>; what is left in front of the last quote is the text
  of \<open>u\<close>.
\<close>

lemma unquote_loop_reads:
  assumes "b_ptr b = Owned cs" "n \<le> length cs" "i < j" "j < n"
    "drop j (take (n - 1) cs) = concat (map quote_text u)"
  shows "\<exists>cs'. unquote_loop n i j b = Some (Inr (i + length u), b\<lparr>b_ptr := Owned cs'\<rparr>) \<and>
    length cs' = length cs \<and> take (i + length u) cs' = take i cs @ u \<and> i + length u < n"
  using assms
proof (induction u arbitrary: b cs i j)
  case Nil
  then have "j + 1 = n" by auto
  then show ?case using Nil by (intro exI [of _ cs]) (simp add: unquote_loop.simps)
next
  case (Cons c u)
  define m where "m = length (quote_text c)"
  have dr: "drop j (take (n - 1) cs) = quote_text c @ concat (map quote_text u)" using Cons.prems(5) by simp
  then have "length (drop j (take (n - 1) cs)) = m + length (concat (map quote_text u))" by (simp add: m_def)
  then have jm: "j + m \<le> n - 1" using Cons.prems(2,4) by simp
  have m0: "0 < m" by (cases c rule: quote_text_cases) (simp_all add: m_def)
  have nth: "peek (j + k) b = Some (Inr (quote_text c ! k), b)" if "k < m" for k
  proof -
    have "drop j (take (n - 1) cs) ! k = quote_text c ! k" using that unfolding dr by (simp add: nth_append m_def)
    moreover have "drop j (take (n - 1) cs) ! k = cs ! (j + k)" using that jm Cons.prems(2) by simp
    ultimately show ?thesis using that jm Cons.prems(1,2,4) by (simp add: peek_def cells_def)
  qed
  let ?b = "b\<lparr>b_ptr := Owned (cs[i := c])\<rparr>"
  have "drop (j + m) (take (n - 1) (cs[i := c])) = drop m (drop j (take (n - 1) cs))"
    using Cons.prems(3) by (simp add: take_update_swap drop_update_cancel add.commute)
  also have "\<dots> = concat (map quote_text u)" unfolding dr by (simp add: m_def)
  finally have rest: "drop (j + m) (take (n - 1) (cs[i := c])) = concat (map quote_text u)" .
  have jn1: "j + m < n" using jm Cons.prems(4) by linarith
  obtain cs' where cs': "unquote_loop n (i + 1) (j + m) ?b = Some (Inr (i + 1 + length u), ?b\<lparr>b_ptr := Owned cs'\<rparr>)"
    "length cs' = length cs" "take (i + 1 + length u) cs' = take (i + 1) (cs[i := c]) @ u" "i + 1 + length u < n"
    using Cons.IH [of ?b "cs[i := c]" "i + 1" "j + m"] Cons.prems(2,3) m0 jn1 rest by auto
  have step: "bnd (poke i c) (\<lambda>_. unquote_loop n (i + 1) (j + m)) b = Some (Inr (i + length (c # u)), b\<lparr>b_ptr := Owned cs'\<rparr>)"
    using cs'(1) Cons.prems(1-4) by (simp add: poke_def bnd_def)
  have jn: "j + 1 < n" using jm m0 by simp
  have "unquote_loop n i j b = bnd (poke i c) (\<lambda>_. unquote_loop n (i + 1) (j + m)) b"
  proof (cases c rule: quote_text_cases)
    case plain
    then show ?thesis using nth [of 0] jn
      by (simp add: unquote_loop.simps [of n i j] m_def bnd_def [of "peek _"])
  next
    case (short e)
    then show ?thesis using nth [of 0] nth [of 1] jn jn1
      by (simp add: unquote_loop.simps [of n i j] m_def bnd_def [of "peek _"])
  next
    case (octal d2 d1 d0)
    then show ?thesis using nth [of 0] nth [of 1] nth [of 2] nth [of 3] jn jn1
      by (simp add: unquote_loop.simps [of n i j] m_def bnd_def [of "peek _"] eval_nat_numeral)
  qed
  moreover have "take (i + 1) (cs[i := c]) = take i cs @ [c]" using Cons.prems(2,3,4) by (simp add: take_Suc_conv_app_nth)
  ultimately show ?case using step cs' by (intro exI [of _ cs']) simp
qed


subsection \<open>Whole buffers\<close>

definition quoted_text :: "string \<Rightarrow> string" where
  "quoted_text s = [CHR 0x22] @ concat (map quote_text s) @ [CHR 0x22]"

lemma quote_text_plain: "\<not> needs_quote c \<Longrightarrow> quote_text c = [c]"
proof -
  assume n: "\<not> needs_quote c"
  have "ord c = 32 \<Longrightarrow> c = CHR '' ''" using ord_inject [of c "CHR '' ''"] by (simp add: ord_def)
  moreover have "ord CHR ''!'' = 33" "ord CHR '' '' = 32" by (simp_all add: ord_def)
  ultimately show ?thesis
    using n ord_less [of c] by (auto simp: needs_quote_def quote_text_def schar_def split: if_splits)
qed

lemma length_quote_text: "length (quote_text c) \<le> 4"
  by (cases c rule: quote_text_cases) simp_all

lemma length_quoted: "length (quoted_text s) \<le> 4 * length s + 2"
proof -
  have "length (concat (map quote_text s)) \<le> 4 * length s"
    using length_quote_text by (induction s) (auto intro: order_trans add_le_mono)
  then show ?thesis by (simp add: quoted_text_def)
qed

lemma unquote_quoted:
  assumes "buf_ok b" "\<not> git_buf_oom b" "\<not> borrowed b" "contents b = quoted_text s"
  shows "succeeds s (git_buf_unquote b)"
proof -
  have "\<not> git__isspace CHR 0x22" by (simp add: git__isspace_def)
  then have "rev (dropWhile git__isspace (rev (contents b))) = contents b"
    unfolding assms(4) quoted_text_def by simp
  then obtain b1 where b1: "git_buf_rtrim b = Some (Inr (), b1)" "buf_ok b1" "contents b1 = quoted_text s"
    "\<not> git_buf_oom b1" "\<not> borrowed b1"
    using rtrim_removes [OF assms(1,2)] assms(3,4) by (auto simp: removes_def)
  have n: "b_size b1 = length (concat (map quote_text s)) + 2"
    using length_contents [OF b1(2,4)] b1(3) by (simp add: quoted_text_def)
  from b1(2,4) obtain cs where cs: "b_ptr b1 = Owned cs" "length cs = b_asize b1" "b_size b1 < b_asize b1" "b_asize b1 < MAX_OBJECT"
  proof (cases rule: ok_cases)
    case init
    then show ?thesis using n by (simp add: GIT_BUF_INIT_def)
  next
    case (borrowed cs)
    then show ?thesis using b1(5) n by (simp add: borrowed_def)
  qed blast
  let ?n = "b_size b1"
  have tk: "take ?n cs = [CHR 0x22] @ concat (map quote_text s) @ [CHR 0x22]"
    using b1(3) by (simp add: contents_def cells_def cs quoted_text_def)
  have "take (?n - 1) cs = take (?n - 1) (take ?n cs)" by (simp add: min_def)
  also have "\<dots> = [CHR 0x22] @ concat (map quote_text s)" unfolding tk using n by simp
  finally have "drop 1 (take (?n - 1) cs) = concat (map quote_text s)" by simp
  then obtain cs' where cs': "unquote_loop ?n 0 1 b1 = Some (Inr (length s), b1\<lparr>b_ptr := Owned cs'\<rparr>)"
    "length cs' = length cs" "take (length s) cs' = s" "length s < ?n"
    using unquote_loop_reads [OF cs(1), of ?n 0 1 s] cs n by auto
  have ends: "cells b1 ! 0 = CHR 0x22" "cells b1 ! (?n - 1) = CHR 0x22"
  proof -
    have "take ?n cs ! 0 = CHR 0x22" "take ?n cs ! (?n - 1) = CHR 0x22" unfolding tk using n by (simp_all add: nth_append)
    then show "cells b1 ! 0 = CHR 0x22" "cells b1 ! (?n - 1) = CHR 0x22" using n by (simp_all add: cells_def cs)
  qed
  have "git_buf_unquote b = Some (Inr (), b1\<lparr>b_ptr := Owned (cs'[length s := NUL]), b_size := length s\<rparr>)"
    using b1(1) cs' ends n cs
    by (simp add: git_buf_unquote_def bnd_def poke_def set_size_def update_state_def)
  then show ?thesis using cs cs'
    by (simp add: succeeds_def buf_ok_def buf_mem_def contents_def cells_def git_buf_oom_def borrowed_def)
qed

lemma fills_quoted:
  assumes "env_ok env" "\<forall>c\<in>set (take i s). \<not> needs_quote c"
  shows "fills env (quoted_text s) (bnd (ignore (git_buf_putc env CHR 0x22)) (\<lambda>_.
      bnd (ignore (git_buf_put env (take i s))) (\<lambda>_.
      bnd (for_each (quote_char env) (drop i s)) (\<lambda>_.
      ignore (git_buf_putc env CHR 0x22)))))"
proof -
  have "concat (map quote_text (take i s)) = take i s"
    using assms(2) by (induction s arbitrary: i) (auto simp: take_Cons' quote_text_plain)
  then have "concat (map quote_text s) = take i s @ concat (map quote_text (drop i s))"
    by (metis append_take_drop_id concat_append map_append)
  then have q: "quoted_text s = [CHR 0x22] @ take i s @ concat (map quote_text (drop i s)) @ [CHR 0x22]"
    by (simp add: quoted_text_def)
  show ?thesis unfolding q
    by (intro fills_bnd fills_putc fills_put fills_for_each fills_quote_char assms(1))
qed

text \<open>
  C33. Quoting a path and reading it back. \<open>git_buf_quote\<close> leaves a buffer of plain characters alone
  and otherwise replaces it by a quoted text, which \<open>git_buf_unquote\<close> turns back into the bytes it came
  from, whatever they are, working in place and without an error. When memory runs out the buffer
  is as before.
\<close>

theorem git_buf_quote_roundtrip:
  assumes "buf_ok b" "env_ok env" "\<not> git_buf_oom b" "4 * length (contents b) + 2 < SMALL"
  shows "(\<exists>b1. git_buf_quote env b = Some (Inr (), b1) \<and>
      (if b1 = b then \<forall>c\<in>set (contents b). \<not> needs_quote c else succeeds (contents b) (git_buf_unquote b1))) \<or>
    git_buf_quote env b = Some (Inl GIT_ERROR, b) \<and> refuses env"
proof -
  let ?s = "contents b"
  define bang where "bang = (?s \<noteq> [] \<and> hd ?s = CHR ''!'')"
  define i where "i = (if bang then 0 else length (takeWhile (\<lambda>c. \<not> needs_quote c) ?s))"
  show ?thesis
  proof (cases "\<not> bang \<and> i = length ?s")
    case True
    then have "git_buf_quote env b = Some (Inr (), b)"
      by (simp add: git_buf_quote_def Let_def bang_def i_def)
    moreover have "\<forall>c\<in>set ?s. \<not> needs_quote c"
      using True by (metis (mono_tags, lifting) i_def set_takeWhileD takeWhile_eq_take take_all order_refl)
    ultimately show ?thesis by simp
  next
    case False
    let ?m = "bnd (ignore (git_buf_putc env CHR 0x22)) (\<lambda>_. bnd (ignore (git_buf_put env (take i ?s))) (\<lambda>_.
      bnd (for_each (quote_char env) (drop i ?s)) (\<lambda>_. ignore (git_buf_putc env CHR 0x22))))"
    have "\<forall>c\<in>set (take i ?s). \<not> needs_quote c"
      by (auto simp: i_def takeWhile_eq_take [symmetric] dest: set_takeWhileD)
    then have f: "fills env (quoted_text ?s) ?m" by (rule fills_quoted [OF assms(2)])
    have "length (quoted_text ?s) < SMALL"
      using length_quoted [of ?s] assms(4) by simp
    then obtain q where q: "?m GIT_BUF_INIT = Some (Inr (), q)" "buf_ok q" "\<not> borrowed q"
      "if git_buf_oom q then refuses env else contents q = quoted_text ?s"
      using fills_init [OF f] by blast
    have run: "git_buf_quote env b = (if git_buf_oom q then Some (Inl GIT_ERROR, b) else Some (Inr (), q))"
      unfolding git_buf_quote_def Let_def bang_def [symmetric] i_def [symmetric] q(1) if_not_P [OF False] by simp
    show ?thesis
    proof (cases "git_buf_oom q")
      case True
      then show ?thesis using run q(4) by simp
    next
      case noom: False
      then have c: "contents q = quoted_text ?s" using q(4) by simp
      have "q \<noteq> b"
      proof
        assume "q = b"
        then have "length ?s = length (quoted_text ?s)" using c by simp
        moreover have "length t \<le> length (concat (map quote_text t))" for t
          by (induction t) (auto simp: quote_text_def octal_def Let_def)
        then have "length ?s \<le> length (concat (map quote_text ?s))" .
        ultimately show False by (simp add: quoted_text_def)
      qed
      then show ?thesis using run noom unquote_quoted [OF q(2) noom q(3) c] by simp
    qed
  qed
qed

theorem git_buf_quote_roundtrip_witness:
  "(\<exists>b1. git_buf_quote tiny_memory GIT_BUF_INIT = Some (Inr (), b1)) \<or> git_buf_quote tiny_memory GIT_BUF_INIT = Some (Inl GIT_ERROR, GIT_BUF_INIT)"
  using git_buf_quote_roundtrip [of GIT_BUF_INIT tiny_memory] tiny_memory_ok by (auto simp: SMALL_def)

end
