(* ===== verification/Radix.thy ===== *)
theory Radix
  imports UtilCorrect
begin

text \<open>
  Numbers as text: what \<open>printf\<close> writes for \<open>%u\<close>, \<open>%o\<close> and \<open>%02d\<close>, and that \<open>git__strntol64\<close> and
  \<open>git__strntol32\<close> read it back.
\<close>

text \<open>The digits of \<open>n\<close> in a base of at most ten.\<close>

function radix_text :: "nat \<Rightarrow> nat \<Rightarrow> string" where
  "radix_text base n =
     (if n < base \<or> base < 2 then [char_of (48 + n)] else radix_text base (n div base) @ [char_of (48 + n mod base)])"
  by pat_completeness auto
termination
  by (relation "measure snd") auto

declare radix_text.simps [simp del]

definition decimal :: "nat \<Rightarrow> string" where "decimal n = radix_text 10 n"

definition octal_text :: "nat \<Rightarrow> string" where "octal_text n = radix_text 8 n"

text \<open>\<open>%02d\<close>\<close>

definition two_digits :: "nat \<Rightarrow> string" where
  "two_digits n = (if n < 10 then CHR ''0'' # decimal n else decimal n)"

subsection \<open>Reading back\<close>

lemma ord_signs: "ord CHR ''0'' = 48" "ord CHR ''9'' = 57"
  by (simp_all add: ord_def)

lemma digit_value_char: "n < 10 \<Longrightarrow> digit_value base (char_of (48 + n :: nat)) = int n"
  using ord_of_char_of [of "48 + n"] ord_signs by (simp add: digit_value_def git__isdigit_def)

definition is_numeral :: "nat \<Rightarrow> string \<Rightarrow> bool" where
  "is_numeral base ds \<longleftrightarrow> ds \<noteq> [] \<and> (\<forall>c\<in>set ds. \<exists>n < base. c = char_of (48 + n :: nat))"

lemma radix_is_numeral: "2 \<le> base \<Longrightarrow> is_numeral base (radix_text base n)"
proof (induction base n rule: radix_text.induct)
  case (1 base n)
  then show ?case
    by (subst radix_text.simps) (auto simp: is_numeral_def intro: exI [of _ n] exI [of _ "n mod base"])
qed

lemma is_numeral_append: "is_numeral base a \<Longrightarrow> is_numeral base b \<Longrightarrow> is_numeral base (a @ b)"
  by (auto simp: is_numeral_def)

lemma is_numeral_digits: "is_numeral base ds \<Longrightarrow> base \<le> 10 \<Longrightarrow> \<forall>c\<in>set ds. digit_value (int base) c < int base"
  using digit_value_char by (fastforce simp: is_numeral_def)

lemma numeral_chars: "is_numeral base ds \<Longrightarrow> base \<le> 10 \<Longrightarrow> c \<in> set ds \<Longrightarrow> 48 \<le> ord c \<and> ord c \<le> 57"
  by (auto simp: is_numeral_def ord_of_char_of)

lemma number_append: "number base (a @ b) = number base a * base ^ length b + number base b"
proof -
  have "foldl (\<lambda>a c. a * base + digit_value base c) n b = n * base ^ length b + foldl (\<lambda>a c. a * base + digit_value base c) 0 b" for n
  proof (induction b arbitrary: n)
    case (Cons c b)
    show ?case using Cons.IH [of "n * base + digit_value base c"] Cons.IH [of "digit_value base c"] by (simp add: algebra_simps)
  qed simp
  from this [of "number base a"] show ?thesis by (simp add: number_def)
qed

lemma number_radix: "2 \<le> base \<Longrightarrow> base \<le> 10 \<Longrightarrow> number (int base) (radix_text base n) = int n"
proof (induction base n rule: radix_text.induct)
  case (1 base n)
  show ?case
  proof (cases "n < base")
    case True
    then show ?thesis using 1(3) by (simp add: radix_text.simps [of base n] number_def digit_value_char)
  next
    case False
    have d: "number (int base) [char_of (48 + n mod base)] = int (n mod base)"
      using 1(2,3) by (simp add: number_def digit_value_char order_less_le_trans [OF mod_less_divisor])
    have "number (int base) (radix_text base n) = int (n div base) * int base + int (n mod base)"
      unfolding radix_text.simps [of base n] using False 1 d by (simp add: number_append)
    then show ?thesis by (metis of_nat_add of_nat_mult div_mult_mod_eq)
  qed
qed

lemma number_nonneg: "0 \<le> base \<Longrightarrow> 0 \<le> number base ds"
proof -
  assume b: "0 \<le> base"
  have "0 \<le> foldl (\<lambda>a c. a * base + digit_value base c) n ds" if "0 \<le> n" for n
    using that by (induction ds arbitrary: n) (auto simp: digit_value_nonneg b)
  then show ?thesis by (simp add: number_def)
qed

text \<open>A number ends at a space or at the end of the text.\<close>

lemma strntol64_numeral:
  assumes "is_numeral base ds" "2 \<le> base" "base \<le> 10" "number (int base) ds \<le> INT64_MAX" "rest = [] \<or> hd rest = CHR '' ''"
  shows "git__strntol64 (ds @ rest) (int base) = (Inr (number (int base) ds), Some rest)"
proof -
  have sp: "rest = [] \<or> int base \<le> digit_value (int base) (hd rest) \<and> \<not> is_x (hd rest)"
    using assms(5) by (auto simp: digit_value_def git__isdigit_def ord_def is_x_def)
  show ?thesis
    using strntol64_reads [of "int base" "[]" "[]" ds rest] assms(1-4) sp is_numeral_digits [OF assms(1,3)] number_nonneg [of "int base" ds]
    by (simp add: is_numeral_def INT64_MIN_def Let_def)
qed

lemma strntol32_numeral:
  assumes "is_numeral base ds" "2 \<le> base" "base \<le> 10" "number (int base) ds < 2 ^ 31" "rest = [] \<or> hd rest = CHR '' ''"
  shows "git__strntol32 (ds @ rest) (int base) = (Inr (number (int base) ds), Some rest)"
proof -
  have "git__strntol64 (ds @ rest) (int base) = (Inr (number (int base) ds), Some rest)"
    using strntol64_numeral [OF assms(1-3)] assms(4,5) by (simp add: INT64_MAX_def)
  moreover have "sint (word_of_int (number (int base) ds) :: u32) = number (int base) ds"
    using assms(4) number_nonneg [of "int base" ds] by (simp add: signed_of_int signed_take_bit_int_eq_self)
  ultimately show ?thesis by (simp add: git__strntol32_def Let_def)
qed

lemma zero_char: "CHR ''0'' = char_of (48 :: nat)"
  using char_of_char [of "CHR ''0''", where ?'a = nat] by (simp del: char_of_char)

lemma two_digits: "n < 100 \<Longrightarrow> length (two_digits n) = 2 \<and> is_numeral 10 (two_digits n) \<and> number 10 (two_digits n) = int n"
proof -
  assume n: "n < 100"
  have d: "is_numeral 10 (decimal n)" "number 10 (decimal n) = int n"
    using radix_is_numeral [of 10 n] number_radix [of 10 n] by (simp_all add: decimal_def)
  have "\<exists>n < 10. CHR ''0'' = char_of (48 + n :: nat)" by (rule exI [of _ 0]) (simp add: zero_char)
  moreover have "digit_value 10 CHR ''0'' = 0" by (simp add: digit_value_def git__isdigit_def ord_def)
  ultimately have z: "is_numeral 10 ''0''" "number 10 ''0'' = 0"
    by (simp_all add: is_numeral_def number_def)
  show ?thesis
  proof (cases "n < 10")
    case True
    then have t: "two_digits n = ''0'' @ decimal n" and l: "length (decimal n) = 1"
      by (simp_all add: two_digits_def decimal_def radix_text.simps [of 10 n])
    have "is_numeral 10 (two_digits n)" unfolding t by (rule is_numeral_append [OF z(1) d(1)])
    moreover have "number 10 (two_digits n) = int n" unfolding t number_append z(2) d(2) by simp
    moreover have "length (two_digits n) = 2" unfolding t using l by simp
    ultimately show ?thesis by simp
  next
    case False
    then have "n div 10 < 10" "two_digits n = decimal n" using n by (auto simp: two_digits_def)
    then show ?thesis using False d
      by (simp add: decimal_def radix_text.simps [of 10 n] radix_text.simps [of 10 "n div 10"])
  qed
qed

end
