(* ===== verification/Signature.thy ===== *)
theory Signature
  imports BufferCorrect Radix "HOL-Library.Signed_Division"
begin

text \<open>
  \<open>signature.c\<close>: who made a commit, and when. A string is NULL, here \<open>None\<close>, after a failed allocation:
  \<open>git_signature__parse\<close> does not look whether its copies succeed, so that \<open>mem\<close>, the outcome of the
  allocations, ends up in its result. Bytes between two pointers are a list.
\<close>

record git_time =
  t_time :: int
  t_offset :: int
  t_sign :: char

record git_signature =
  s_name :: "string option"
  s_email :: "string option"
  s_when :: git_time

definition contains_angle_brackets :: "string \<Rightarrow> bool" where
  "contains_angle_brackets input \<longleftrightarrow> CHR ''<'' \<in> set input \<or> CHR ''>'' \<in> set input"

definition is_crud :: "char \<Rightarrow> bool" where
  "is_crud c \<longleftrightarrow> ord c \<le> 32 \<or> c = CHR ''.'' \<or> c = CHR '','' \<or> c = CHR '':'' \<or> c = CHR '';'' \<or> c = CHR ''<'' \<or>
     c = CHR ''>'' \<or> c = CHR 0x22 \<or> c = CHR 0x5C \<or> c = CHR 0x27"

definition trimmed :: "string \<Rightarrow> string" where
  "trimmed s = rev (dropWhile is_crud (rev (dropWhile is_crud s)))"

text \<open>The copy of \<open>git__substrdup\<close>, as the string that it starts with.\<close>

definition extract_trimmed :: "bool \<Rightarrow> string \<Rightarrow> string option" where
  "extract_trimmed mem s = (if mem then Some (takeWhile (\<lambda>c. c \<noteq> NUL) (trimmed s)) else None)"

definition git_signature_new :: "bool \<Rightarrow> string \<Rightarrow> string \<Rightarrow> int \<Rightarrow> int \<Rightarrow> git_signature result" where
  "git_signature_new mem name email time offset =
     (if contains_angle_brackets name \<or> contains_angle_brackets email then Inl GIT_ERROR
      else (case (extract_trimmed mem name, extract_trimmed mem email) of
              (Some n, Some e) \<Rightarrow>
                (if n = [] \<or> e = [] then Inl GIT_ERROR
                 else Inr \<lparr>s_name = Some n, s_email = Some e,
                   s_when = \<lparr>t_time = time, t_offset = offset, t_sign = (if offset < 0 then CHR ''-'' else CHR ''+'')\<rparr>\<rparr>)
            | _ \<Rightarrow> Inl GIT_ERROR))"

text \<open>The copy, or NULL for NULL; copying a string that is NULL reads through a wild pointer.\<close>

definition git_signature_dup :: "bool \<Rightarrow> git_signature option \<Rightarrow> git_signature option result option" where
  "git_signature_dup mem source =
     (case source of
        None \<Rightarrow> Some (Inr None)
      | Some s \<Rightarrow>
          (if \<not> mem then Some (Inl GIT_ERROR)
           else (case (s_name s, s_email s) of
                   (Some n, Some e) \<Rightarrow> Some (Inr (Some \<lparr>s_name = Some n, s_email = Some e, s_when = s_when s\<rparr>))
                 | _ \<Rightarrow> None)))"

definition git_signature__pdup :: "bool \<Rightarrow> git_signature option \<Rightarrow> git_signature option result option" where
  "git_signature__pdup mem source = git_signature_dup mem source"

definition no_time :: git_time where "no_time = \<lparr>t_time = 0, t_offset = 0, t_sign = NUL\<rparr>"

text \<open>The time zone \<open>tz_start\<close>, which is not empty; a malformed one counts as zero. The division truncates.\<close>

definition parse_timezone :: "string \<Rightarrow> git_time \<Rightarrow> git_time" where
  "parse_timezone tz_start w =
     (let sign = hd tz_start;
          offset = (if sign \<noteq> CHR ''-'' \<and> sign \<noteq> CHR ''+'' then 0
                    else (case git__strntol32 (tl tz_start) 10 of (Inl e, _) \<Rightarrow> 0 | (Inr n, _) \<Rightarrow> n));
          hours = offset sdiv 100; mins = offset smod 100
      in if hours \<le> 14 \<and> mins \<le> 59
         then (let off = hours * 60 + mins in
               w\<lparr>t_offset := (if sign = CHR ''-'' then - off else off), t_sign := sign\<rparr>)
         else w)"

text \<open>What follows the e-mail address: the time and the time zone.\<close>

definition parse_when :: "string \<Rightarrow> git_time result" where
  "parse_when time_start =
     (case git__strntol64 time_start 10 of
        (Inr t, Some time_end) \<Rightarrow>
          (let w = no_time\<lparr>t_time := t\<rparr> in
           Inr (if length time_end > 1 then parse_timezone (tl time_end) w else w))
      | _ \<Rightarrow> Inl GIT_ERROR)"

text \<open>
  \<open>buffer\<close> is what lies between \<open>*buffer_out\<close> and \<open>buffer_end\<close>. The result is the signature and what is left
  behind \<open>ender\<close>.
\<close>

definition git_signature__parse :: "bool \<Rightarrow> string \<Rightarrow> string option \<Rightarrow> char \<Rightarrow> (git_signature \<times> string) result" where
  "git_signature__parse mem buffer header ender =
     (case (if ender \<noteq> NUL then memchr buffer ender else Some (length buffer)) of
        None \<Rightarrow> Inl GIT_ERROR
      | Some n \<Rightarrow>
          (let line = take n buffer; header_len = (case header of None \<Rightarrow> 0 | Some h \<Rightarrow> length h) in
           if header \<noteq> None \<and> (header_len \<ge> length line \<or> take header_len line \<noteq> the header) then Inl GIT_ERROR
           else (let s = drop header_len line in
             (case (git__memrchr s CHR ''<'' (length s), git__memrchr s CHR ''>'' (length s)) of
                (Some email_start, Some email_end) \<Rightarrow>
                  (if email_end \<le> email_start then Inl GIT_ERROR
                   else (let name = extract_trimmed mem (take email_start s);
                             email = extract_trimmed mem (seg s (email_start + 1) (email_end - email_start - 1)) in
                     (case (if email_end + 2 < length s then parse_when (drop (email_end + 2) s) else Inr no_time) of
                        Inl e \<Rightarrow> Inl e
                      | Inr w \<Rightarrow> Inr (\<lparr>s_name = name, s_email = email, s_when = w\<rparr>, drop (n + 1) buffer))))
              | _ \<Rightarrow> Inl GIT_ERROR))))"

definition git_signature_from_buffer :: "bool \<Rightarrow> string \<Rightarrow> git_signature result" where
  "git_signature_from_buffer mem buf =
     (if \<not> mem then Inl GIT_ERROR
      else (case git_signature__parse mem buf None NUL of Inl e \<Rightarrow> Inl e | Inr (sig, rest) \<Rightarrow> Inr sig))"

subsection \<open>Writing\<close>

text \<open>
  The text that is written. Negating the smallest \<open>int\<close> overflows, and printing a string that is NULL
  reads through it.
\<close>

definition signature_text :: "string option \<Rightarrow> git_signature \<Rightarrow> string option" where
  "signature_text header sig =
     (let w = s_when sig; sign = (if t_offset w < 0 \<or> t_sign w = CHR ''-'' then CHR ''-'' else CHR ''+'');
          offset = nat \<bar>t_offset w\<bar> in
      case (s_name sig, s_email sig) of
        (Some name, Some email) \<Rightarrow>
          (if t_offset w = - (2 ^ 31) then None
           else Some ((case header of None \<Rightarrow> [] | Some h \<Rightarrow> h) @ name @ '' <'' @ email @ ''> '' @
             decimal (nat (t_time w mod 2 ^ 32)) @ '' '' @ [sign] @ two_digits (offset div 60) @ two_digits (offset mod 60) @
             [CHR 0x0A]))
      | _ \<Rightarrow> None)"

definition git_signature__writebuf :: "buf_env \<Rightarrow> string option \<Rightarrow> git_signature \<Rightarrow> unit buf" where
  "git_signature__writebuf env header sig =
     (case signature_text header sig of
        None \<Rightarrow> (\<lambda>b. None)
      | Some ln \<Rightarrow> ignore (git_buf_printf env 24 (Some ln)))"

text \<open>\<open>git__strcmp\<close> is \<open>strcmp\<close>.\<close>

definition git_signature__equal :: "git_signature \<Rightarrow> git_signature \<Rightarrow> bool option" where
  "git_signature__equal one two =
     (case (s_name one, s_name two) of
        (Some n1, Some n2) \<Rightarrow>
          (if strcmp n1 n2 \<noteq> 0 then Some False
           else (case (s_email one, s_email two) of
                   (Some e1, Some e2) \<Rightarrow>
                     Some (strcmp e1 e2 = 0 \<and> t_time (s_when one) = t_time (s_when two) \<and>
                       t_offset (s_when one) = t_offset (s_when two) \<and> t_sign (s_when one) = t_sign (s_when two))
                 | _ \<Rightarrow> None))
      | _ \<Rightarrow> None)"

end
