(* ===== verification/SignatureCorrect.thy ===== *)
theory SignatureCorrect
  imports Signature
begin

text \<open>
  A signature that \<open>git_signature_new\<close> makes is read back by \<open>git_signature__parse\<close> as it was written, under
  the bounds that the text format has.
\<close>

subsection \<open>Trimming and searching\<close>

lemma memrchr_last: "c \<notin> set t \<Longrightarrow> git__memrchr (s @ c # t) c (length (s @ c # t)) = Some (length s)"
proof -
  assume c: "c \<notin> set t"
  have "git__memrchr (s @ c # t) c (length s + 1 + k) = Some (length s)" if "k \<le> length t" for k
    using that
  proof (induction k)
    case (Suc k)
    then have "t ! k \<noteq> c" using c by (metis Suc_le_eq nth_mem)
    then show ?case using Suc by (simp add: nth_append)
  qed (simp add: nth_append)
  from this [of "length t"] show ?thesis by simp
qed

text \<open>A name that is neither empty nor begins or ends with crud.\<close>

definition clean_name :: "string \<Rightarrow> bool" where
  "clean_name n \<longleftrightarrow> n \<noteq> [] \<and> \<not> is_crud (hd n) \<and> \<not> is_crud (last n) \<and> NUL \<notin> set n"

lemma trimmed_clean: "clean_name n \<Longrightarrow> trimmed n = n" and trimmed_space: "clean_name n \<Longrightarrow> trimmed (n @ '' '') = n"
proof -
  have d: "n \<noteq> [] \<Longrightarrow> \<not> is_crud (hd n) \<Longrightarrow> dropWhile is_crud (n @ r) = n @ r" for r by (cases n) auto
  have e: "n \<noteq> [] \<Longrightarrow> \<not> is_crud (last n) \<Longrightarrow> dropWhile is_crud (rev n) = rev n" by (cases n rule: rev_cases) auto
  have sp: "is_crud CHR '' ''" by (simp add: is_crud_def ord_def)
  show "clean_name n \<Longrightarrow> trimmed n = n" using d [of "[]"] e by (simp add: clean_name_def trimmed_def)
  show "clean_name n \<Longrightarrow> trimmed (n @ '' '') = n" using d [of "'' ''"] e sp by (simp add: clean_name_def trimmed_def)
qed

lemma extract_clean: "clean_name n \<Longrightarrow> extract_trimmed True n = Some n" "clean_name n \<Longrightarrow> extract_trimmed True (n @ '' '') = Some n"
  by (auto simp: extract_trimmed_def trimmed_clean trimmed_space clean_name_def takeWhile_eq_all_conv)

lemma last_dropWhile: "dropWhile f xs \<noteq> [] \<Longrightarrow> last (dropWhile f xs) = last xs"
  by (induction xs) (auto split: if_splits)

lemma trimmed_ends: "trimmed s \<noteq> [] \<Longrightarrow> \<not> is_crud (hd (trimmed s)) \<and> \<not> is_crud (last (trimmed s)) \<and> set (trimmed s) \<subseteq> set s"
proof -
  let ?d = "dropWhile is_crud s" let ?r = "dropWhile is_crud (rev ?d)"
  assume "trimmed s \<noteq> []"
  then have r: "?r \<noteq> []" by (simp add: trimmed_def)
  then have "\<not> is_crud (hd ?r)" by (rule hd_dropWhile)
  moreover have "last ?r = hd ?d" using last_dropWhile [OF r] by (simp add: last_rev)
  moreover have "?d \<noteq> []" using r by (metis dropWhile.simps(1) rev.simps(1))
  then have "\<not> is_crud (hd ?d)" by (rule hd_dropWhile)
  moreover have "set ?r \<subseteq> set s" using set_dropWhileD [of _ is_crud "rev ?d"] set_dropWhileD [of _ is_crud s] by auto
  ultimately show ?thesis using r by (simp add: trimmed_def hd_rev last_rev)
qed

text \<open>What \<open>git_signature_new\<close> guarantees.\<close>

lemma signature_new_clean:
  assumes "git_signature_new mem name email t off = Inr sig" "NUL \<notin> set name" "NUL \<notin> set email"
  obtains n e where "sig = \<lparr>s_name = Some n, s_email = Some e,
       s_when = \<lparr>t_time = t, t_offset = off, t_sign = (if off < 0 then CHR ''-'' else CHR ''+'')\<rparr>\<rparr>"
    "clean_name n" "clean_name e" "set n \<subseteq> set name" "set e \<subseteq> set email"
    "\<not> contains_angle_brackets n" "\<not> contains_angle_brackets e"
proof -
  have nul: "takeWhile (\<lambda>c. c \<noteq> NUL) (trimmed s) = trimmed s" if "NUL \<notin> set s" for s
  proof (cases "trimmed s = []")
    case False
    then show ?thesis using trimmed_ends [OF False] that by (auto simp: takeWhile_eq_all_conv)
  qed simp
  have sub: "set (trimmed s) \<subseteq> set s" for s using trimmed_ends [of s] by (cases "trimmed s = []") auto
  have mem using assms(1) by (cases mem) (auto simp: git_signature_new_def extract_trimmed_def split: if_splits)
  then have new: "\<not> contains_angle_brackets name" "\<not> contains_angle_brackets email" "trimmed name \<noteq> []" "trimmed email \<noteq> []"
    "sig = \<lparr>s_name = Some (trimmed name), s_email = Some (trimmed email),
       s_when = \<lparr>t_time = t, t_offset = off, t_sign = (if off < 0 then CHR ''-'' else CHR ''+'')\<rparr>\<rparr>"
    using assms by (auto simp: git_signature_new_def extract_trimmed_def nul split: if_splits)
  have "clean_name (trimmed name)" "clean_name (trimmed email)"
    using new(3,4) trimmed_ends sub assms(2,3) by (auto simp: clean_name_def)
  then show ?thesis using that [of "trimmed name" "trimmed email"] new(1,2,5) sub by (auto simp: contains_angle_brackets_def)
qed

subsection \<open>The time\<close>

lemma decimal_is_numeral: "is_numeral 10 (decimal n)" "number 10 (decimal n) = int n"
  using radix_is_numeral [of 10 n] number_radix [of 10 n] by (simp_all add: decimal_def)

lemma timezone_reads:
  assumes "\<bar>off\<bar> \<le> 899" "sign = (if off < 0 then CHR ''-'' else CHR ''+'')"
  shows "parse_timezone (sign # two_digits (nat \<bar>off\<bar> div 60) @ two_digits (nat \<bar>off\<bar> mod 60)) w = w\<lparr>t_offset := off, t_sign := sign\<rparr>"
proof -
  define h m where hm: "h = nat \<bar>off\<bar> div 60" "m = nat \<bar>off\<bar> mod 60"
  have "int (h * 60 + m) = \<bar>off\<bar>" unfolding hm by (simp add: div_mult_mod_eq del: of_nat_add of_nat_mult)
  moreover have "h \<le> 14" "m < 60" using assms(1) by (auto simp: hm)
  ultimately have b: "h \<le> 14" "m < 60" "int h * 60 + int m = \<bar>off\<bar>" by simp_all
  have d: "length (two_digits h) = 2" "is_numeral 10 (two_digits h)" "number 10 (two_digits h) = int h"
    "length (two_digits m) = 2" "is_numeral 10 (two_digits m)" "number 10 (two_digits m) = int m"
    using two_digits [of h] two_digits [of m] b by auto
  define ds where "ds = two_digits h @ two_digits m"
  have n: "is_numeral 10 ds" "number 10 ds = int h * 100 + int m"
    using d is_numeral_append by (auto simp: ds_def number_append)
  then have r: "git__strntol32 ds 10 = (Inr (int h * 100 + int m), Some [])"
    using strntol32_numeral [OF n(1), of "[]"] n(2) b by simp
  have q: "(int h * 100 + int m) sdiv 100 = int h" "(int h * 100 + int m) smod 100 = int m"
    using b by (simp_all add: signed_divide_int_def signed_modulo_int_def sgn_if)
  show ?thesis unfolding hm [symmetric] ds_def [symmetric]
    using assms(2) b by (auto simp: parse_timezone_def r q Let_def)
qed


lemma when_reads:
  assumes "0 \<le> t" "t < 2 ^ 32" "\<bar>off\<bar> \<le> 899" "sign = (if off < 0 then CHR ''-'' else CHR ''+'')"
  shows "parse_when (decimal (nat t) @ CHR '' '' # sign # two_digits (nat \<bar>off\<bar> div 60) @ two_digits (nat \<bar>off\<bar> mod 60)) =
    Inr \<lparr>t_time = t, t_offset = off, t_sign = sign\<rparr>" (is "parse_when (_ @ ?z) = _")
proof -
  have "git__strntol64 (decimal (nat t) @ ?z) 10 = (Inr t, Some ?z)"
    using strntol64_numeral [OF decimal_is_numeral(1), of "nat t" ?z] assms(1,2) by (simp add: decimal_is_numeral INT64_MAX_def)
  then show ?thesis
    using timezone_reads [OF assms(3,4)] by (simp add: parse_when_def no_time_def Let_def)
qed

lemma signature_reads:
  assumes "clean_name n" "clean_name e" "\<not> contains_angle_brackets n" "\<not> contains_angle_brackets e" "CHR 0x0A \<notin> set (h @ n @ e @ z)"
    and "parse_when z = Inr w" "\<not> contains_angle_brackets z" "z \<noteq> []"
  shows "git_signature__parse True (h @ n @ '' <'' @ e @ ''> '' @ z @ CHR 0x0A # rest) (Some h) (CHR 0x0A) =
    Inr (\<lparr>s_name = Some n, s_email = Some e, s_when = w\<rparr>, rest)"
proof -
  define s where "s = n @ '' <'' @ e @ ''> '' @ z"
  define line where "line = h @ s"
  have buffer: "h @ n @ '' <'' @ e @ ''> '' @ z @ CHR 0x0A # rest = line @ CHR 0x0A # rest" by (simp add: line_def s_def)
  have nl: "memchr (line @ CHR 0x0A # rest) (CHR 0x0A) = Some (length line)"
    using assms(5) by (intro memchr_hit) (auto simp: line_def s_def)
  have lt: "git__memrchr s CHR ''<'' (length s) = Some (length n + 1)"
    using memrchr_last [of "CHR ''<''" "e @ ''> '' @ z" "n @ '' ''"] assms(4,7) by (simp add: s_def contains_angle_brackets_def)
  have gt: "git__memrchr s CHR ''>'' (length s) = Some (length n + length e + 2)"
    using memrchr_last [of "CHR ''>''" "'' '' @ z" "n @ '' <'' @ e"] assms(7) by (simp add: s_def contains_angle_brackets_def)
  have parts: "take (length n + 1) s = n @ '' ''" "seg s (length n + 2) (length e) = e"
    by (simp_all add: s_def seg_def)
  have when_part: "drop (length n + length e + 4) s = z"
    using append_eq_conv_conj [of "n @ '' <'' @ e @ ''> ''" z s] by (simp add: s_def add.commute)
  have z: "length n + length e + 4 < length s" using assms(8) by (simp add: s_def)
  show ?thesis
    unfolding buffer git_signature__parse_def nl
    using lt gt parts when_part z assms(6) extract_clean(1) [OF assms(2)] extract_clean(2) [OF assms(1)]
    by (simp add: line_def Let_def NUL_def eval_nat_numeral flip: append_assoc) auto
qed


lemma signature_written:
  assumes "sig = \<lparr>s_name = Some n, s_email = Some e, s_when = \<lparr>t_time = t, t_offset = off, t_sign = (if off < 0 then CHR ''-'' else CHR ''+'')\<rparr>\<rparr>"
    and "0 \<le> t" "t < 2 ^ 32" "\<bar>off\<bar> \<le> 899"
    and "clean_name n" "clean_name e" "\<not> contains_angle_brackets n" "\<not> contains_angle_brackets e" "CHR 0x0A \<notin> set (h @ n @ e)"
  obtains ln where "signature_text (Some h) sig = Some ln" "git_signature__parse True (ln @ rest) (Some h) (CHR 0x0A) = Inr (sig, rest)"
proof -
  let ?sign = "if off < 0 then CHR ''-'' else CHR ''+''"
  define z where "z = decimal (nat t) @ CHR '' '' # ?sign # two_digits (nat \<bar>off\<bar> div 60) @ two_digits (nat \<bar>off\<bar> mod 60)"
  have digits: "is_numeral 10 (decimal (nat t))" "is_numeral 10 (two_digits (nat \<bar>off\<bar> div 60))" "is_numeral 10 (two_digits (nat \<bar>off\<bar> mod 60))"
    using decimal_is_numeral two_digits assms(4) by auto
  have only: "c = CHR '' '' \<or> c = CHR ''+'' \<or> c = CHR ''-'' \<or> 48 \<le> ord c \<and> ord c \<le> 57" if "c \<in> set z" for c
    using that digits [THEN numeral_chars] by (auto simp: z_def split: if_splits)
  have chars: "CHR 0x0A \<notin> set z" "\<not> contains_angle_brackets z"
    using only [of "CHR 0x0A"] only [of "CHR ''<''"] only [of "CHR ''>''"] by (auto simp: contains_angle_brackets_def ord_def)
  have parsed: "parse_when z = Inr (s_when sig)"
    using when_reads [OF assms(2-4) refl] by (simp add: z_def assms(1))
  have "signature_text (Some h) sig = Some (h @ n @ '' <'' @ e @ ''> '' @ z @ [CHR 0x0A])"
    using assms(2-4) by (auto simp: signature_text_def assms(1) z_def Let_def)
  moreover have "git_signature__parse True ((h @ n @ '' <'' @ e @ ''> '' @ z @ [CHR 0x0A]) @ rest) (Some h) (CHR 0x0A) = Inr (sig, rest)"
    using signature_reads [OF assms(5-8) _ parsed chars(2)] assms(9) chars(1) by (simp add: z_def assms(1))
  ultimately show ?thesis by (rule that)
qed


definition ada :: git_signature where
  "ada = \<lparr>s_name = Some ''Ada'', s_email = Some ''a@b'', s_when = \<lparr>t_time = 1234, t_offset = - 90, t_sign = CHR ''-''\<rparr>\<rparr>"


end
