(* ===== verification/Path.thy ===== *)
theory Path
  imports BufferCorrect
begin

unbundle bit_operations_syntax

text \<open>
  The functions of \<open>path.c\<close> that look at names only, on a system other than Windows and macOS. A path
  is its characters without the terminator; a function that gets a pointer into a path and a length gets the
  rest of the path, in which it may look beyond the length, and the length.
\<close>

subsection \<open>Flags and file modes\<close>

definition GIT_PATH_REJECT_TRAVERSAL :: u32 where "GIT_PATH_REJECT_TRAVERSAL = 1"
definition GIT_PATH_REJECT_DOT_GIT :: u32 where "GIT_PATH_REJECT_DOT_GIT = 2"
definition GIT_PATH_REJECT_SLASH :: u32 where "GIT_PATH_REJECT_SLASH = 4"
definition GIT_PATH_REJECT_BACKSLASH :: u32 where "GIT_PATH_REJECT_BACKSLASH = 8"
definition GIT_PATH_REJECT_TRAILING_DOT :: u32 where "GIT_PATH_REJECT_TRAILING_DOT = 16"
definition GIT_PATH_REJECT_TRAILING_SPACE :: u32 where "GIT_PATH_REJECT_TRAILING_SPACE = 32"
definition GIT_PATH_REJECT_TRAILING_COLON :: u32 where "GIT_PATH_REJECT_TRAILING_COLON = 64"
definition GIT_PATH_REJECT_DOS_PATHS :: u32 where "GIT_PATH_REJECT_DOS_PATHS = 128"
definition GIT_PATH_REJECT_NT_CHARS :: u32 where "GIT_PATH_REJECT_NT_CHARS = 256"
definition GIT_PATH_REJECT_DOT_GIT_LITERAL :: u32 where "GIT_PATH_REJECT_DOT_GIT_LITERAL = 512"
definition GIT_PATH_REJECT_DOT_GIT_HFS :: u32 where "GIT_PATH_REJECT_DOT_GIT_HFS = 1024"
definition GIT_PATH_REJECT_DOT_GIT_NTFS :: u32 where "GIT_PATH_REJECT_DOT_GIT_NTFS = 2048"

definition GIT_PATH_REJECT_INDEX_DEFAULTS :: u32 where
  "GIT_PATH_REJECT_INDEX_DEFAULTS = GIT_PATH_REJECT_TRAVERSAL OR GIT_PATH_REJECT_DOT_GIT"

definition flagged :: "u32 \<Rightarrow> u32 \<Rightarrow> bool" where "flagged flags f \<longleftrightarrow> flags AND f \<noteq> 0"

text \<open>The file types of \<open>sys/stat.h\<close>.\<close>

definition mode_type :: "u16 \<Rightarrow> u16" where "mode_type mode = mode AND 0xF000"

definition S_ISLNK :: "u16 \<Rightarrow> bool" where "S_ISLNK mode \<longleftrightarrow> mode_type mode = 0xA000"

definition S_ISDIR :: "u16 \<Rightarrow> bool" where "S_ISDIR mode \<longleftrightarrow> mode_type mode = 0x4000"

definition S_ISGITLINK :: "u16 \<Rightarrow> bool" where "S_ISGITLINK mode \<longleftrightarrow> mode_type mode = 0xE000"

text \<open>
  What the code asks of a repository: the two configuration values, whose lookup may fail.
\<close>

record path_repo =
  pr_protectHFS :: "bool result"
  pr_protectNTFS :: "bool result"

subsection \<open>Names that stand for the repository\<close>

definition deref_at :: "string \<Rightarrow> nat \<Rightarrow> char" where "deref_at s i = deref (drop i s)"

text \<open>\<open>strncasecmp\<close> of the C library on the first \<open>n\<close> characters, equal or not.\<close>

fun caseless_prefix :: "string \<Rightarrow> string \<Rightarrow> nat \<Rightarrow> bool" where
  "caseless_prefix a b 0 = True"
| "caseless_prefix (x # a) (y # b) (Suc n) = (git__tolower x = git__tolower y \<and> caseless_prefix a b n)"
| "caseless_prefix [] [] (Suc n) = True"
| "caseless_prefix a b (Suc n) = False"

definition verify_dospath :: "string \<Rightarrow> nat \<Rightarrow> string \<Rightarrow> bool \<Rightarrow> bool" where
  "verify_dospath component len dospath trailing_num =
     (let final = (if trailing_num then 4 else 3) in
      if len < final \<or> git__strncasecmp component dospath 3 \<noteq> 0 then True
      else if trailing_num \<and> (schar (deref_at component 3) < schar CHR ''1'' \<or> schar (deref_at component 3) > schar CHR ''9'') then True
      else len > final \<and> deref_at component final \<noteq> CHR ''.'' \<and> deref_at component final \<noteq> CHR '':'')"

text \<open>The code points that HFS ignores.\<close>

definition hfs_ignored :: "int \<Rightarrow> bool" where
  "hfs_ignored cp \<longleftrightarrow> cp \<in> set [0x200c, 0x200d, 0x200e, 0x200f, 0x202a, 0x202b, 0x202c, 0x202d, 0x202e,
     0x206a, 0x206b, 0x206c, 0x206d, 0x206e, 0x206f, 0xfeff]"

text \<open>\<open>in\<close> with \<open>*len\<close> bytes left is the list of these bytes.\<close>

function next_hfs_char :: "u8 list \<Rightarrow> (int \<times> u8 list) option" where
  "next_hfs_char bs =
     (if bs = [] then Some (0, [])
      else (case git__utf8_iterate bs (int (length bs)) of
              None \<Rightarrow> None
            | Some (cp_len, codepoint) \<Rightarrow>
                (if cp_len < 0 then Some (-1, bs)
                 else if cp_len = 0 then None
                 else if hfs_ignored codepoint then next_hfs_char (drop (nat cp_len) bs)
                 else Some ((if 65 \<le> codepoint \<and> codepoint \<le> 90 then codepoint + 32 else codepoint), drop (nat cp_len) bs))))"
  by pat_completeness auto
termination
  by (relation "measure length") auto

declare next_hfs_char.simps [simp del]

text \<open>An \<open>int32_t\<close> that is stored in a \<open>char\<close>.\<close>

definition as_char :: "int \<Rightarrow> int" where "as_char c = (c + 128) mod 256 - 128"

fun hfs_matches :: "string \<Rightarrow> u8 list \<Rightarrow> bool option" where
  "hfs_matches [] bs = map_option (\<lambda>(c, rest). c = 0) (next_hfs_char bs)"
| "hfs_matches (n # needle) bs =
     (case next_hfs_char bs of
        None \<Rightarrow> None
      | Some (c, rest) \<Rightarrow> (if as_char c \<noteq> schar n then Some False else hfs_matches needle rest))"

definition verify_dotgit_hfs_generic :: "string \<Rightarrow> nat \<Rightarrow> string \<Rightarrow> bool option" where
  "verify_dotgit_hfs_generic path len needle =
     (case next_hfs_char (map of_char (take len path)) of
        None \<Rightarrow> None
      | Some (c, rest) \<Rightarrow> (if c \<noteq> ord CHR ''.'' then Some True else map_option Not (hfs_matches needle rest)))"

definition verify_dotgit_hfs :: "string \<Rightarrow> nat \<Rightarrow> bool option" where
  "verify_dotgit_hfs path len = verify_dotgit_hfs_generic path len ''git''"

definition git_repository__reserved_names_win32 :: "string list" where
  "git_repository__reserved_names_win32 = [''.git'', ''git~1'']"

definition git_repository__reserved_names_posix :: "string list" where
  "git_repository__reserved_names_posix = [''.git'']"

definition git_repository__reserved_names :: "bool \<Rightarrow> string list" where
  "git_repository__reserved_names include_ntfs =
     (if include_ntfs then git_repository__reserved_names_win32 else git_repository__reserved_names_posix)"

definition space_or_dot :: "char \<Rightarrow> bool" where "space_or_dot c \<longleftrightarrow> c = CHR '' '' \<or> c = CHR ''.''"

definition verify_dotgit_ntfs :: "path_repo option \<Rightarrow> string \<Rightarrow> nat \<Rightarrow> bool" where
  "verify_dotgit_ntfs repo path len =
     (let reserved = (case repo of None \<Rightarrow> git_repository__reserved_names_win32 | Some r \<Rightarrow> git_repository__reserved_names True) in
      case find (\<lambda>r. len \<ge> length r \<and> caseless_prefix path r (length r)) reserved of
        None \<Rightarrow> True
      | Some r \<Rightarrow>
          (let start = length r in
           if start = 0 then True
           else if deref_at path start = CHR 0x5C then False
           else list_ex (\<lambda>c. \<not> space_or_dot c) (seg path start (len - start))))"

definition only_spaces_and_dots :: "string \<Rightarrow> bool" where
  "only_spaces_and_dots path = list_all space_or_dot (takeWhile (\<lambda>c. c \<noteq> NUL) path)"

text \<open>The loop over the fallback names from \<open>i\<close> on: what follows the eighth character, or \<open>None\<close> when the name is fine.\<close>

function fallback_name :: "string \<Rightarrow> nat \<Rightarrow> bool \<Rightarrow> string \<Rightarrow> string option" where
  "fallback_name name i saw_tilde shortname_pfix =
     (if i \<ge> 8 then Some (drop i name)
      else (let c = deref_at name i; next_c = deref_at name (i + 1) in
        if c = NUL then None
        else if saw_tilde then
          (if schar c < schar CHR ''0'' \<or> schar c > schar CHR ''9'' then None
           else fallback_name name (i + 1) saw_tilde shortname_pfix)
        else if c = CHR ''~'' then
          (if schar next_c < schar CHR ''1'' \<or> schar next_c > schar CHR ''9'' then None
           else fallback_name name (i + 1) True shortname_pfix)
        else if i \<ge> 6 \<or> ord c > 127 \<or> git__tolower c \<noteq> shortname_pfix ! i then None
        else fallback_name name (i + 1) saw_tilde shortname_pfix))"
  by pat_completeness auto
termination
  by (relation "measure (\<lambda>(name, i, saw, pfix). 8 - i)") auto

declare fallback_name.simps [simp del]

definition verify_dotgit_ntfs_generic :: "string \<Rightarrow> nat \<Rightarrow> string \<Rightarrow> string \<Rightarrow> bool" where
  "verify_dotgit_ntfs_generic name len dotgit_name shortname_pfix =
     (let dotgit_len = length dotgit_name in
      if deref name = CHR ''.'' \<and> len \<ge> dotgit_len \<and> caseless_prefix (tl name) dotgit_name dotgit_len
      then \<not> only_spaces_and_dots (drop (dotgit_len + 1) name)
      else if caseless_prefix name dotgit_name 6 \<and> deref_at name 6 = CHR ''~'' \<and>
        schar (deref_at name 7) \<ge> schar CHR ''1'' \<and> schar (deref_at name 7) \<le> schar CHR ''4''
      then \<not> only_spaces_and_dots (drop 8 name)
      else (case fallback_name name 0 False shortname_pfix of
              None \<Rightarrow> True
            | Some rest \<Rightarrow> \<not> only_spaces_and_dots rest))"

text \<open>The table \<open>gitfiles\<close>, by \<open>git_path_gitfile\<close>, and the file systems.\<close>

datatype git_path_gitfile = GIT_PATH_GITFILE_GITIGNORE | GIT_PATH_GITFILE_GITMODULES | GIT_PATH_GITFILE_GITATTRIBUTES

datatype git_path_fs = GIT_PATH_FS_GENERIC | GIT_PATH_FS_NTFS | GIT_PATH_FS_HFS

fun gitfiles :: "git_path_gitfile \<Rightarrow> string \<times> string" where
  "gitfiles GIT_PATH_GITFILE_GITIGNORE = (''gitignore'', ''gi250a'')"
| "gitfiles GIT_PATH_GITFILE_GITMODULES = (''gitmodules'', ''gi7eba'')"
| "gitfiles GIT_PATH_GITFILE_GITATTRIBUTES = (''gitattributes'', ''gi7d29'')"

definition git_path_is_gitfile :: "string \<Rightarrow> nat \<Rightarrow> git_path_gitfile \<Rightarrow> git_path_fs \<Rightarrow> bool option" where
  "git_path_is_gitfile path pathlen gitfile fs =
     (case gitfiles gitfile of (file, hash) \<Rightarrow>
        (case fs of
           GIT_PATH_FS_GENERIC \<Rightarrow>
             (if \<not> verify_dotgit_ntfs_generic path pathlen file hash then Some True
              else map_option Not (verify_dotgit_hfs_generic path pathlen file))
         | GIT_PATH_FS_NTFS \<Rightarrow> Some (\<not> verify_dotgit_ntfs_generic path pathlen file hash)
         | GIT_PATH_FS_HFS \<Rightarrow> map_option Not (verify_dotgit_hfs_generic path pathlen file)))"

subsection \<open>Valid paths\<close>

definition verify_char :: "char \<Rightarrow> u32 \<Rightarrow> bool" where
  "verify_char c flags =
     (if flagged flags GIT_PATH_REJECT_BACKSLASH \<and> c = CHR 0x5C then False
      else if flagged flags GIT_PATH_REJECT_SLASH \<and> c = CHR ''/'' then False
      else if flagged flags GIT_PATH_REJECT_NT_CHARS then
        \<not> (ord c < 32 \<or> c \<in> set [CHR ''<'', CHR ''>'', CHR '':'', CHR 0x22, CHR ''|'', CHR ''?'', CHR ''*''])
      else True)"

fun common_prefix_icase :: "string \<Rightarrow> nat \<Rightarrow> string \<Rightarrow> nat" where
  "common_prefix_icase (c # str) (Suc len) (p # pre) =
     (if git__tolower c = git__tolower p then Suc (common_prefix_icase str len pre) else 0)"
| "common_prefix_icase str len pre = 0"

definition verify_component :: "path_repo option \<Rightarrow> string \<Rightarrow> nat \<Rightarrow> u16 \<Rightarrow> u32 \<Rightarrow> bool option" where
  "verify_component repo component len mode flags =
     (let final = deref_at component (len - 1); fl = flagged flags in
      if len = 0 then Some False
      else if fl GIT_PATH_REJECT_TRAVERSAL \<and> len = 1 \<and> deref component = CHR ''.'' then Some False
      else if fl GIT_PATH_REJECT_TRAVERSAL \<and> len = 2 \<and> deref component = CHR ''.'' \<and> deref_at component 1 = CHR ''.'' then Some False
      else if fl GIT_PATH_REJECT_TRAILING_DOT \<and> final = CHR ''.'' then Some False
      else if fl GIT_PATH_REJECT_TRAILING_SPACE \<and> final = CHR '' '' then Some False
      else if fl GIT_PATH_REJECT_TRAILING_COLON \<and> final = CHR '':'' then Some False
      else if fl GIT_PATH_REJECT_DOS_PATHS \<and>
        \<not> (verify_dospath component len ''CON'' False \<and> verify_dospath component len ''PRN'' False \<and>
           verify_dospath component len ''AUX'' False \<and> verify_dospath component len ''NUL'' False \<and>
           verify_dospath component len ''COM'' True \<and> verify_dospath component len ''LPT'' True) then Some False
      else
        do {
          hfs \<leftarrow> (if \<not> fl GIT_PATH_REJECT_DOT_GIT_HFS then Some True
                 else do {
                   v \<leftarrow> verify_dotgit_hfs component len;
                   if \<not> v then Some False
                   else if S_ISLNK mode then map_option Not (git_path_is_gitfile component len GIT_PATH_GITFILE_GITMODULES GIT_PATH_FS_HFS)
                   else Some True });
          if \<not> hfs then Some False
          else do {
            ntfs \<leftarrow> (if \<not> fl GIT_PATH_REJECT_DOT_GIT_NTFS then Some True
                   else if \<not> verify_dotgit_ntfs repo component len then Some False
                   else if S_ISLNK mode then map_option Not (git_path_is_gitfile component len GIT_PATH_GITFILE_GITMODULES GIT_PATH_FS_NTFS)
                   else Some True);
            Some (if \<not> ntfs then False
              else if \<not> fl GIT_PATH_REJECT_DOT_GIT_HFS \<and> \<not> fl GIT_PATH_REJECT_DOT_GIT_NTFS \<and>
                fl GIT_PATH_REJECT_DOT_GIT_LITERAL \<and> len \<ge> 4 \<and> deref component = CHR ''.'' \<and>
                deref_at component 1 \<in> {CHR ''g'', CHR ''G''} \<and> deref_at component 2 \<in> {CHR ''i'', CHR ''I''} \<and>
                deref_at component 3 \<in> {CHR ''t'', CHR ''T''}
              then len \<noteq> 4 \<and> \<not> (S_ISLNK mode \<and> common_prefix_icase component len ''.gitmodules'' = len)
              else True)
          }
        })"

definition dotgit_flags :: "path_repo option \<Rightarrow> u32 \<Rightarrow> u32" where
  "dotgit_flags repo flags =
     (let look = (\<lambda>f. case repo of None \<Rightarrow> Inr False | Some r \<Rightarrow> f r);
          add = (\<lambda>r f fl. case r of Inr True \<Rightarrow> fl OR f | _ \<Rightarrow> fl)
      in add (look pr_protectNTFS) GIT_PATH_REJECT_DOT_GIT_NTFS
           (add (look pr_protectHFS) GIT_PATH_REJECT_DOT_GIT_HFS (flags OR GIT_PATH_REJECT_DOT_GIT_LITERAL)))"

function isvalid_loop :: "path_repo option \<Rightarrow> u16 \<Rightarrow> u32 \<Rightarrow> string \<Rightarrow> nat \<Rightarrow> bool option" where
  "isvalid_loop repo mode flags start n =
     (case drop n start of
        [] \<Rightarrow> verify_component repo start n mode flags
      | c # rest \<Rightarrow>
          (if \<not> verify_char c flags then Some False
           else if c = CHR ''/'' then
             (case verify_component repo start n mode flags of
                None \<Rightarrow> None
              | Some v \<Rightarrow> (if \<not> v then Some False else isvalid_loop repo mode flags rest 0))
           else isvalid_loop repo mode flags start (Suc n)))"
  by pat_completeness auto
termination
proof (relation "measures [\<lambda>(repo, mode, flags, start, n). length start, \<lambda>(repo, mode, flags, start, n). length start - n]", goal_cases)
  case (2 repo mode flags start n c rest)
  then have "length start = n + Suc (length rest) \<or> n \<ge> length start" by (metis drop_eq_Nil length_Cons length_drop le_cases le_add_diff_inverse)
  then show ?case using 2 by auto
next
  case (3 repo mode flags start n c rest)
  then have "n < length start" by (metis drop_eq_Nil list.distinct(1) not_le)
  then show ?case by auto
qed simp

declare isvalid_loop.simps [simp del]

definition git_path_isvalid :: "path_repo option \<Rightarrow> string \<Rightarrow> u16 \<Rightarrow> u32 \<Rightarrow> bool option" where
  "git_path_isvalid repo path mode flags =
     isvalid_loop repo mode (if flagged flags GIT_PATH_REJECT_DOT_GIT then dotgit_flags repo flags else flags) path 0"

subsection \<open>Comparing paths\<close>

text \<open>\<open>strncmp\<close> of the C library, by the difference of the first bytes that differ.\<close>

fun strncmp :: "string \<Rightarrow> string \<Rightarrow> nat \<Rightarrow> int" where
  "strncmp a b 0 = 0"
| "strncmp (x # a) (y # b) (Suc n) = (if x = y \<and> x \<noteq> NUL then strncmp a b n else ord x - ord y)"
| "strncmp a b (Suc n) = ord (deref a) - ord (deref b)"

definition git_path_cmp :: "string \<Rightarrow> nat \<Rightarrow> bool \<Rightarrow> string \<Rightarrow> nat \<Rightarrow> bool \<Rightarrow> (string \<Rightarrow> string \<Rightarrow> nat \<Rightarrow> int) \<Rightarrow> int" where
  "git_path_cmp name1 len1 isdir1 name2 len2 isdir2 compare =
     (let len = min len1 len2; cmp = compare name1 name2 len in
      if cmp \<noteq> 0 then cmp
      else (let c1 = deref_at name1 len; c2 = deref_at name2 len;
                c1' = (if c1 = NUL \<and> isdir1 then CHR ''/'' else c1);
                c2' = (if c2 = NUL \<and> isdir2 then CHR ''/'' else c2)
            in if ord c1' < ord c2' then -1 else if ord c1' > ord c2' then 1 else 0))"

text \<open>\<open>n\<close> characters have been compared; \<open>dirsep\<close> is the length up to and with the last slash of both.\<close>

fun common_dirlen_loop :: "string \<Rightarrow> string \<Rightarrow> nat \<Rightarrow> nat \<Rightarrow> nat" where
  "common_dirlen_loop (p # one) (q # two) n dirsep =
     (if p = CHR ''/'' \<and> q = CHR ''/'' then common_dirlen_loop one two (Suc n) (Suc n)
      else if p \<noteq> q then dirsep else common_dirlen_loop one two (Suc n) dirsep)"
| "common_dirlen_loop one two n dirsep = dirsep"

definition git_path_common_dirlen :: "string \<Rightarrow> string \<Rightarrow> nat" where
  "git_path_common_dirlen one two = common_dirlen_loop one two 0 0"

end
