(* ===== verification/PathCorrect.thy ===== *)
theory PathCorrect
  imports Path
begin

text \<open>
  \<open>git_path_isvalid\<close> ends without looking outside the path, and a path that it accepts cannot leave the directory
  or name the repository in it.
\<close>

subsection \<open>Reading code points\<close>

lemma uint_ascii: "unat (b :: u8) < 128 \<Longrightarrow> uint b < 128"
proof -
  assume "unat b < 128"
  then have "int (unat b) < 128" by linarith
  then show ?thesis by simp
qed

lemma utf8_ascii: "unat b < 128 \<Longrightarrow> git__utf8_iterate (b # bs) (int (length (b # bs))) = Some (1, uint b)"
proof -
  assume b: "unat b < 128"
  have "utf8proc_utf8class ! unat b = 1" using b by (simp add: utf8proc_utf8class_def nth_append)
  then have "git__utf8_charlen (b # bs) n = Some 1" for n
    by (auto simp: git__utf8_charlen_def Let_def)
  then show ?thesis using uint_ascii [OF b] by (simp add: git__utf8_iterate_def Let_def)
qed

lemma next_hfs_ascii:
  "unat b < 128 \<Longrightarrow> next_hfs_char (b # bs) = Some (if 65 \<le> uint b \<and> uint b \<le> 90 then uint b + 32 else uint b, bs)"
proof -
  assume b: "unat b < 128"
  have "uint b < 128" "0 \<le> uint b" using uint_ascii [OF b] by simp_all
  then have "\<not> hfs_ignored (uint b)" by (auto simp: hfs_ignored_def)
  then show ?thesis unfolding next_hfs_char.simps [of "b # bs"] utf8_ascii [OF b] by simp
qed


lemma ord_tolower: "ord (git__tolower c) = (if 65 \<le> ord c \<and> ord c \<le> 90 then ord c + 32 else ord c)"
proof -
  have "ord (char_of (ord c + 32)) = ord c + 32" if "65 \<le> ord c" "ord c \<le> 90"
    using that unfolding ord_def by simp
  then show ?thesis by (simp add: git__tolower_def git__isupper_def) (simp add: ord_def)
qed

lemma lower_letter:
  "git__tolower c = CHR ''g'' \<longleftrightarrow> c = CHR ''g'' \<or> c = CHR ''G''" "git__tolower c = CHR ''i'' \<longleftrightarrow> c = CHR ''i'' \<or> c = CHR ''I''"
  "git__tolower c = CHR ''t'' \<longleftrightarrow> c = CHR ''t'' \<or> c = CHR ''T''" "git__tolower c = CHR ''.'' \<longleftrightarrow> c = CHR ''.''"
proof -
  have l: "git__tolower c = d \<longleftrightarrow> ord c = ord d \<or> ord c + 32 = ord d" if "97 \<le> ord d" "ord d \<le> 122" for d
    using that ord_inject [of "git__tolower c" d] unfolding ord_tolower by (auto split: if_splits)
  have o: "ord CHR ''g'' = 103" "ord CHR ''i'' = 105" "ord CHR ''t'' = 116" "ord CHR ''.'' = 46"
    "ord CHR ''G'' = 71" "ord CHR ''I'' = 73" "ord CHR ''T'' = 84" by (simp_all add: ord_def)
  show "git__tolower c = CHR ''g'' \<longleftrightarrow> c = CHR ''g'' \<or> c = CHR ''G''" "git__tolower c = CHR ''i'' \<longleftrightarrow> c = CHR ''i'' \<or> c = CHR ''I''"
    "git__tolower c = CHR ''t'' \<longleftrightarrow> c = CHR ''t'' \<or> c = CHR ''T''"
    using l [of "CHR ''g''"] l [of "CHR ''i''"] l [of "CHR ''t''"] o
      ord_inject [of c "CHR ''G''"] ord_inject [of c "CHR ''I''"] ord_inject [of c "CHR ''T''"]
      ord_inject [of c "CHR ''g''"] ord_inject [of c "CHR ''i''"] ord_inject [of c "CHR ''t''"] by simp_all
  show "git__tolower c = CHR ''.'' \<longleftrightarrow> c = CHR ''.''"
    using ord_inject [of "git__tolower c" "CHR ''.''"] ord_inject [of c "CHR ''.''"] o by (auto simp: ord_tolower split: if_splits)
qed

lemma dotgit_chars: "map git__tolower c = ''.git'' \<Longrightarrow>
  \<exists>x y z. c = [CHR ''.'', x, y, z] \<and> x \<in> {CHR ''g'', CHR ''G''} \<and> y \<in> {CHR ''i'', CHR ''I''} \<and> z \<in> {CHR ''t'', CHR ''T''}"
  using lower_letter by (auto simp: map_eq_Cons_conv)

subsection \<open>The three checks for the repository's directory\<close>

lemma take_prefix: "take (length c) s = c \<Longrightarrow> \<exists>r. s = c @ r"
  by (metis append_take_drop_id)

lemma hfs_rejects_dotgit:
  assumes "map git__tolower c = ''.git''" "take (length c) s = c"
  shows "verify_dotgit_hfs s (length c) = Some False"
proof -
  obtain x y z where c: "c = [CHR ''.'', x, y, z]" "x \<in> {CHR ''g'', CHR ''G''}" "y \<in> {CHR ''i'', CHR ''I''}" "z \<in> {CHR ''t'', CHR ''T''}"
    using dotgit_chars [OF assms(1)] by blast
  have "next_hfs_char [] = Some (0, [])" by (simp add: next_hfs_char.simps)
  then have "verify_dotgit_hfs_generic s (length c) ''git'' = Some False"
    unfolding verify_dotgit_hfs_generic_def assms(2) unfolding c(1) using c(2-4)
    by (auto simp: next_hfs_ascii as_char_def schar_def ord_def)
  then show ?thesis by (simp add: verify_dotgit_hfs_def)
qed

lemma ntfs_rejects_dotgit:
  assumes "map git__tolower c = ''.git''" "take (length c) s = c"
  shows "\<not> verify_dotgit_ntfs repo s (length c)"
proof -
  obtain x y z where c: "c = [CHR ''.'', x, y, z]" "x \<in> {CHR ''g'', CHR ''G''}" "y \<in> {CHR ''i'', CHR ''I''}" "z \<in> {CHR ''t'', CHR ''T''}"
    using dotgit_chars [OF assms(1)] by blast
  obtain r where r: "s = c @ r" using take_prefix [OF assms(2)] by blast
  have l: "git__tolower x = CHR ''g''" "git__tolower y = CHR ''i''" "git__tolower z = CHR ''t''" "git__tolower CHR ''.'' = CHR ''.''"
    "git__tolower CHR ''g'' = CHR ''g''" "git__tolower CHR ''i'' = CHR ''i''" "git__tolower CHR ''t'' = CHR ''t''"
    using c lower_letter by auto
  have p: "caseless_prefix s ''.git'' 4" unfolding r c(1) using l by (simp add: eval_nat_numeral)
  have names: "(case repo of None \<Rightarrow> git_repository__reserved_names_win32 | Some ra \<Rightarrow> git_repository__reserved_names True) = [''.git'', ''git~1'']"
    by (simp add: git_repository__reserved_names_def git_repository__reserved_names_win32_def split: option.split)
  show ?thesis
    unfolding verify_dotgit_ntfs_def names using p by (simp add: c(1) seg_def eval_nat_numeral)
qed

subsection \<open>Components\<close>

text \<open>The components of a path, as git speaks of them: what lies between the slashes.\<close>

fun components :: "string \<Rightarrow> string list" where
  "components [] = [[]]"
| "components (c # cs) =
     (if c = CHR ''/'' then [] # components cs
      else (c # hd (components cs)) # tl (components cs))"

lemma components_append: "CHR ''/'' \<notin> set s \<Longrightarrow> components s = [s] \<and> components (s @ CHR ''/'' # r) = s # components r"
  by (induction s) auto

definition component_checked :: "path_repo option \<Rightarrow> u16 \<Rightarrow> u32 \<Rightarrow> string \<Rightarrow> bool" where
  "component_checked repo mode flags c \<longleftrightarrow>
     (\<exists>s. take (length c) s = c \<and> length c \<le> length s \<and> verify_component repo s (length c) mode flags = Some True)"

lemma isvalid_loop_components:
  "isvalid_loop repo mode flags start n = Some True \<Longrightarrow> n \<le> length start \<Longrightarrow> CHR ''/'' \<notin> set (take n start) \<Longrightarrow>
   (\<forall>c\<in>set (components start). component_checked repo mode flags c) \<and> (\<forall>c\<in>set (drop n start). verify_char c flags)"
proof (induction repo mode flags start n rule: isvalid_loop.induct)
  case (1 repo mode flags start n)
  note step = isvalid_loop.simps [of repo mode flags start n]
  show ?case
  proof (cases "drop n start")
    case Nil
    then have "n = length start" using 1(4) by simp
    moreover have "component_checked repo mode flags start"
      unfolding component_checked_def by (rule exI [of _ start]) (use 1(3) step Nil \<open>n = length start\<close> in simp)
    ultimately show ?thesis using 1(5) components_append [of start "[]"] by simp
  next
    case (Cons c rest)
    then have vc: "verify_char c flags" using 1(3) step by (auto split: if_splits)
    have n: "n < length start" using Cons by (metis drop_eq_Nil list.distinct(1) not_le)
    have st: "start = take n start @ c # rest" using Cons by (metis append_take_drop_id)
    show ?thesis
    proof (cases "c = CHR ''/''")
      case True
      then obtain v: "verify_component repo start n mode flags = Some True" "isvalid_loop repo mode flags rest 0 = Some True"
        using 1(3) step Cons vc by (auto split: option.splits if_splits)
      have comps: "components start = take n start # components rest"
        using components_append [OF 1(5), of rest] st True by metis
      have "component_checked repo mode flags (take n start)"
        using v(1) n unfolding component_checked_def by (intro exI [of _ start]) simp
      then show ?thesis using 1(1) [OF Cons] vc True v comps Cons by auto
    next
      case False
      have "isvalid_loop repo mode flags start (Suc n) = Some True" using 1(3) step Cons vc False by simp
      moreover have "take (Suc n) start = take n start @ [c]" "drop (Suc n) start = rest"
        using Cons Cons_nth_drop_Suc [OF n] by (simp_all add: take_Suc_conv_app_nth [OF n])
      ultimately show ?thesis using 1(2) [OF Cons] vc False 1(4,5) Cons n by auto
    qed
  qed
qed

lemma verify_component_names:
  assumes "verify_component repo s (length c) mode flags = Some True" "take (length c) s = c"
  shows "c \<noteq> []" "flagged flags GIT_PATH_REJECT_TRAVERSAL \<Longrightarrow> c \<noteq> ''.'' \<and> c \<noteq> ''..''"
    "flagged flags GIT_PATH_REJECT_DOT_GIT_LITERAL \<Longrightarrow> map git__tolower c \<noteq> ''.git''"
proof -
  obtain r where r: "s = c @ r" using take_prefix [OF assms(2)] by blast
  show "c \<noteq> []" using assms(1) by (auto simp: verify_component_def Let_def)
  show "c \<noteq> ''.'' \<and> c \<noteq> ''..''" if "flagged flags GIT_PATH_REJECT_TRAVERSAL"
    using assms(1) that unfolding r by (auto simp: verify_component_def Let_def deref_at_def)
  show "map git__tolower c \<noteq> ''.git''" if lit: "flagged flags GIT_PATH_REJECT_DOT_GIT_LITERAL"
  proof
    assume c: "map git__tolower c = ''.git''"
    note bad = hfs_rejects_dotgit [OF c assms(2)] ntfs_rejects_dotgit [OF c assms(2), of repo]
    obtain x y z where xyz: "c = [CHR ''.'', x, y, z]" "x \<in> {CHR ''g'', CHR ''G''}" "y \<in> {CHR ''i'', CHR ''I''}" "z \<in> {CHR ''t'', CHR ''T''}"
      using dotgit_chars [OF c] by blast
    have d: "deref s = CHR ''.''" "deref_at s 1 = x" "deref_at s 2 = y" "deref_at s 3 = z" "length c = 4"
      unfolding r xyz(1) by (simp_all add: deref_at_def)
    consider "flagged flags GIT_PATH_REJECT_DOT_GIT_HFS" | "\<not> flagged flags GIT_PATH_REJECT_DOT_GIT_HFS" "flagged flags GIT_PATH_REJECT_DOT_GIT_NTFS"
      | "\<not> flagged flags GIT_PATH_REJECT_DOT_GIT_HFS" "\<not> flagged flags GIT_PATH_REJECT_DOT_GIT_NTFS" by blast
    then have "verify_component repo s (length c) mode flags \<noteq> Some True"
    proof cases
      case 1
      then show ?thesis using bad by (simp add: verify_component_def Let_def)
    next
      case 2
      then show ?thesis using bad by (simp add: verify_component_def Let_def)
    next
      case 3
      then show ?thesis using lit d xyz(2-4) by (simp add: verify_component_def Let_def)
    qed
    then show False using assms(1) by simp
  qed
qed

lemma flagged_or: "flagged (a OR b) f \<longleftrightarrow> flagged a f \<or> flagged b f"
  by (simp add: flagged_def bit.conj_disj_distrib2 or_eq_0_iff)

lemma dotgit_flags_keep: "flagged flags f \<Longrightarrow> flagged (dotgit_flags repo flags) f"
  and dotgit_flags_literal: "flagged (dotgit_flags repo flags) GIT_PATH_REJECT_DOT_GIT_LITERAL"
proof -
  have l: "flagged GIT_PATH_REJECT_DOT_GIT_LITERAL GIT_PATH_REJECT_DOT_GIT_LITERAL"
    by (simp add: flagged_def GIT_PATH_REJECT_DOT_GIT_LITERAL_def)
  show "flagged flags f \<Longrightarrow> flagged (dotgit_flags repo flags) f"
    and "flagged (dotgit_flags repo flags) GIT_PATH_REJECT_DOT_GIT_LITERAL"
    using l by (simp_all add: dotgit_flags_def Let_def flagged_or split: option.split sum.split bool.split)
qed

subsection \<open>The checks end inside the path\<close>

lemma next_hfs_total: "length bs < 2 ^ 31 \<Longrightarrow> \<exists>c rest. next_hfs_char bs = Some (c, rest) \<and> length rest \<le> length bs"
proof (induction bs rule: next_hfs_char.induct)
  case (1 bs)
  show ?case
  proof (cases "bs = []")
    case False
    have u: "unat (of_int (int (length bs)) :: size_t) = length bs"
      using 1(2) by (simp add: unat_of_nat)
    consider "git__utf8_charlen bs (length bs) = Some (-1)"
      | k where "0 < k" "git__utf8_charlen bs (length bs) = Some (int k)" "k \<le> length bs"
      using charlen_cases [OF False] by blast
    then have "\<exists>k cp. git__utf8_iterate bs (int (length bs)) = Some (k, cp) \<and> (k < 0 \<or> 0 < k \<and> nat k \<le> length bs)"
      unfolding git__utf8_iterate_def u by cases (auto simp: Let_def)
    then obtain k cp where k: "git__utf8_iterate bs (int (length bs)) = Some (k, cp)" "k < 0 \<or> 0 < k \<and> nat k \<le> length bs" by blast
    show ?thesis
    proof (cases "k < 0 \<or> \<not> hfs_ignored cp")
      case True
      then show ?thesis using k False by (auto simp: next_hfs_char.simps [of bs])
    next
      case ign: False
      then have "\<exists>c rest. next_hfs_char (drop (nat k) bs) = Some (c, rest) \<and> length rest \<le> length (drop (nat k) bs)"
        using k(2) 1(2) by (intro 1(1) [OF False k(1) refl]) auto
      then show ?thesis using k ign False by (auto simp: next_hfs_char.simps [of bs])
    qed
  qed (simp add: next_hfs_char.simps)
qed

lemma hfs_matches_total: "length bs < 2 ^ 31 \<Longrightarrow> \<exists>v. hfs_matches needle bs = Some v"
proof (induction needle bs rule: hfs_matches.induct)
  case (1 bs)
  then show ?case using next_hfs_total [of bs] by auto
next
  case (2 n needle bs)
  obtain c rest where c: "next_hfs_char bs = Some (c, rest)" "length rest \<le> length bs" using next_hfs_total [OF 2(2)] by blast
  then show ?case using 2(1) [OF c(1) refl] 2(2) by auto
qed

lemma verify_dotgit_hfs_total: "length path < 2 ^ 31 \<Longrightarrow> \<exists>v. verify_dotgit_hfs_generic path len needle = Some v"
proof -
  assume p: "length path < 2 ^ 31"
  then have "length (map of_char (take len path) :: u8 list) < 2 ^ 31" by simp
  then obtain c rest where c: "next_hfs_char (map of_char (take len path)) = Some (c, rest)" "length rest \<le> length (map of_char (take len path) :: u8 list)"
    using next_hfs_total by blast
  then have "length rest < 2 ^ 31" using p by simp
  then show ?thesis using c hfs_matches_total [of rest needle] by (auto simp: verify_dotgit_hfs_generic_def)
qed

lemma if_total: "\<exists>v. a = Some v \<Longrightarrow> \<exists>v. b = Some v \<Longrightarrow> \<exists>v. (if c then a else b) = Some v"
  by simp

lemma bind_total: "\<exists>v. m = Some v \<Longrightarrow> (\<And>x. \<exists>v. f x = Some v) \<Longrightarrow> \<exists>v. Option.bind m f = Some v"
  by auto

lemma map_option_total: "\<exists>v. m = Some v \<Longrightarrow> \<exists>v. map_option f m = Some v"
  by auto

lemma verify_component_total: "length s < 2 ^ 31 \<Longrightarrow> \<exists>v. verify_component repo s n mode flags = Some v"
proof -
  assume s: "length s < 2 ^ 31"
  have hfs: "\<exists>v. verify_dotgit_hfs s n = Some v"
    using verify_dotgit_hfs_total [OF s] unfolding verify_dotgit_hfs_def .
  have gitfile: "\<exists>v. git_path_is_gitfile s n g fs = Some v" for g fs
    using verify_dotgit_hfs_total [OF s, of n "fst (gitfiles g)"] by (auto simp: git_path_is_gitfile_def split: prod.split git_path_fs.split)
  show ?thesis unfolding verify_component_def Let_def
    by (intro if_total bind_total map_option_total hfs gitfile) auto
qed

lemma isvalid_loop_total: "length start < 2 ^ 31 \<Longrightarrow> \<exists>v. isvalid_loop repo mode flags start n = Some v"
proof (induction repo mode flags start n rule: isvalid_loop.induct)
  case (1 repo mode flags start n)
  obtain v where v: "verify_component repo start n mode flags = Some v" using verify_component_total [OF 1(3)] by blast
  show ?case
  proof (cases "drop n start")
    case (Cons c rest)
    then have "length rest < 2 ^ 31" using 1(3) by (metis length_Cons length_drop diff_le_self Suc_lessD le_less_trans)
    then show ?thesis using 1(1) [OF Cons _ _ v] 1(2) [OF Cons] 1(3) v Cons
      by (auto simp: isvalid_loop.simps [of repo mode flags start n])
  qed (simp add: isvalid_loop.simps [of repo mode flags start n] v)
qed

subsection \<open>Property\<close>

text \<open>
  C35. Checking a path. For every path shorter than 2 GB \<open>git_path_isvalid\<close> returns, and all that it reads is in the path. When the caller rejects
  traversal and \<open>.git\<close>, an accepted path has no empty component, none that is \<open>.\<close> or \<open>..\<close>, and none that is \<open>.git\<close> in any
  mixture of cases, whichever of the checks for HFS and NTFS the configuration turns on, or fails to.
\<close>

theorem git_path_isvalid_safe:
  assumes "flagged flags GIT_PATH_REJECT_TRAVERSAL" "flagged flags GIT_PATH_REJECT_DOT_GIT" "length path < 2 ^ 31"
  shows "\<exists>v. git_path_isvalid repo path mode flags = Some v \<and>
    (v \<longrightarrow> (\<forall>c\<in>set (components path). c \<noteq> [] \<and> c \<noteq> ''.'' \<and> c \<noteq> ''..'' \<and> map git__tolower c \<noteq> ''.git''))"
proof -
  let ?flags = "dotgit_flags repo flags"
  obtain v where v: "isvalid_loop repo mode ?flags path 0 = Some v" using isvalid_loop_total [OF assms(3)] by blast
  have "c \<noteq> [] \<and> c \<noteq> ''.'' \<and> c \<noteq> ''..'' \<and> map git__tolower c \<noteq> ''.git''" if "v" "c \<in> set (components path)" for c
  proof -
    have "isvalid_loop repo mode ?flags path 0 = Some True" using v that(1) by simp
    then have "component_checked repo mode ?flags c" using isvalid_loop_components [of repo mode ?flags path 0] that(2) by simp
    then obtain s where s: "verify_component repo s (length c) mode ?flags = Some True" "take (length c) s = c"
      by (auto simp: component_checked_def)
    show ?thesis
      using verify_component_names(1) [OF s] verify_component_names(2) [OF s dotgit_flags_keep [OF assms(1)]]
        verify_component_names(3) [OF s dotgit_flags_literal] by (intro conjI) simp_all
  qed
  then show ?thesis using v assms(2) by (auto simp: git_path_isvalid_def)
qed

theorem git_path_isvalid_safe_witness:
  "\<exists>v. git_path_isvalid (Some \<lparr>pr_protectHFS = Inr True, pr_protectNTFS = Inl GIT_ERROR\<rparr>) ''a/.GIT/b'' 0 GIT_PATH_REJECT_INDEX_DEFAULTS = Some v \<and> \<not> v"
proof -
  have f: "flagged GIT_PATH_REJECT_INDEX_DEFAULTS GIT_PATH_REJECT_TRAVERSAL" "flagged GIT_PATH_REJECT_INDEX_DEFAULTS GIT_PATH_REJECT_DOT_GIT"
    by (simp_all add: flagged_def GIT_PATH_REJECT_INDEX_DEFAULTS_def GIT_PATH_REJECT_TRAVERSAL_def GIT_PATH_REJECT_DOT_GIT_def)
  have "''.GIT'' \<in> set (components ''a/.GIT/b'')" by simp
  moreover have "map git__tolower ''.GIT'' = ''.git''" using lower_letter by simp
  ultimately show ?thesis
    using git_path_isvalid_safe [OF f, of "''a/.GIT/b''" "Some \<lparr>pr_protectHFS = Inr True, pr_protectNTFS = Inl GIT_ERROR\<rparr>" 0] by auto
qed

end
