(* ===== verification/ObjectType.thy ===== *)
theory ObjectType
  imports Oid Path
begin

text \<open>
  The types of objects, \<open>git_object_t\<close> of \<open>include/git2/types.h\<close>, with their names and the functions of
  \<open>object.c\<close> and \<open>object.h\<close> about them, and what the functions on objects use of a repository.
\<close>

datatype git_object_t =
    GIT_OBJECT_ANY
  | GIT_OBJECT_INVALID
  | GIT_OBJECT_COMMIT
  | GIT_OBJECT_TREE
  | GIT_OBJECT_BLOB
  | GIT_OBJECT_TAG
  | GIT_OBJECT_OFS_DELTA
  | GIT_OBJECT_REF_DELTA

text \<open>
  The rows of the table \<open>git_objects_table\<close> that stand for a type: its name, and whether the structure has a
  size. The rows 0 and 5 are empty.
\<close>

definition git_objects_table :: "(git_object_t \<times> string \<times> bool) list" where
  "git_objects_table =
     [(GIT_OBJECT_COMMIT, ''commit'', True), (GIT_OBJECT_TREE, ''tree'', True), (GIT_OBJECT_BLOB, ''blob'', True),
      (GIT_OBJECT_TAG, ''tag'', True), (GIT_OBJECT_OFS_DELTA, ''OFS_DELTA'', False), (GIT_OBJECT_REF_DELTA, ''REF_DELTA'', False)]"

definition git_object_type2string :: "git_object_t \<Rightarrow> string" where
  "git_object_type2string type = (case map_of git_objects_table type of None \<Rightarrow> '''' | Some (str, sized) \<Rightarrow> str)"

definition git_object_stringn2type :: "string \<Rightarrow> nat \<Rightarrow> git_object_t" where
  "git_object_stringn2type str len =
     (if len = 0 \<or> deref str = NUL then GIT_OBJECT_INVALID
      else (case find (\<lambda>(type, s, sized). git__prefixncmp str len s = 0) git_objects_table of
              None \<Rightarrow> GIT_OBJECT_INVALID
            | Some (type, s, sized) \<Rightarrow> type))"

definition git_object_string2type :: "string option \<Rightarrow> git_object_t" where
  "git_object_string2type str =
     (case str of None \<Rightarrow> GIT_OBJECT_INVALID | Some s \<Rightarrow> git_object_stringn2type s (length s))"

definition git_object_typeisloose :: "git_object_t \<Rightarrow> bool" where
  "git_object_typeisloose type = (case map_of git_objects_table type of None \<Rightarrow> False | Some (str, sized) \<Rightarrow> sized)"

subsection \<open>File modes\<close>

definition GIT_FILEMODE_TREE :: u16 where "GIT_FILEMODE_TREE = 0x4000"
definition GIT_FILEMODE_BLOB :: u16 where "GIT_FILEMODE_BLOB = 0x81A4"
definition GIT_FILEMODE_BLOB_EXECUTABLE :: u16 where "GIT_FILEMODE_BLOB_EXECUTABLE = 0x81ED"
definition GIT_FILEMODE_LINK :: u16 where "GIT_FILEMODE_LINK = 0xA000"
definition GIT_FILEMODE_COMMIT :: u16 where "GIT_FILEMODE_COMMIT = 0xE000"

lemmas filemode_defs = GIT_FILEMODE_TREE_def GIT_FILEMODE_BLOB_def GIT_FILEMODE_BLOB_EXECUTABLE_def
  GIT_FILEMODE_LINK_def GIT_FILEMODE_COMMIT_def

definition git_object__type_from_filemode :: "u16 \<Rightarrow> git_object_t" where
  "git_object__type_from_filemode mode =
     (if mode = GIT_FILEMODE_TREE then GIT_OBJECT_TREE
      else if mode = GIT_FILEMODE_COMMIT then GIT_OBJECT_COMMIT
      else if mode = GIT_FILEMODE_BLOB \<or> mode = GIT_FILEMODE_BLOB_EXECUTABLE \<or> mode = GIT_FILEMODE_LINK then GIT_OBJECT_BLOB
      else GIT_OBJECT_INVALID)"

subsection \<open>The repository\<close>

text \<open>
  \<open>db_open\<close> is the outcome of \<open>git_repository_odb__weakptr\<close>, \<open>db_read\<close>, \<open>db_write\<close> and \<open>db_freshen\<close> stand
  for \<open>git_odb_read\<close> (and \<open>git_odb_read_header\<close>), \<open>git_odb_write\<close> and \<open>git_odb__freshen\<close>, and \<open>db_strict\<close> for the option
  \<open>git_object__strict_input_validation\<close>. The type of an object that is read is one of the four.
\<close>

record git_odb =
  db_open :: "unit result"
  db_read :: "git_oid \<Rightarrow> (git_object_t \<times> string) result"
  db_write :: "git_object_t \<Rightarrow> string \<Rightarrow> git_oid result"
  db_freshen :: "git_oid \<Rightarrow> unit result"
  db_strict :: bool
  db_paths :: "path_repo option"

definition git_object__is_valid :: "git_odb \<Rightarrow> git_oid \<Rightarrow> git_object_t \<Rightarrow> bool" where
  "git_object__is_valid repo oid expected_type =
     (if \<not> db_strict repo then True
      else (case db_open repo of
              Inl e \<Rightarrow> False
            | Inr u \<Rightarrow>
                (case db_read repo oid of
                   Inl e \<Rightarrow> False
                 | Inr (actual_type, data) \<Rightarrow> expected_type = GIT_OBJECT_ANY \<or> expected_type = actual_type)))"

end
