(* ===== verification/Array.thy ===== *)
theory Array
  imports Compare
begin

text \<open>
  The growing array of \<open>array.h\<close>: its elements and the number of cells allocated. \<open>can_alloc n\<close> says whether
  there is memory for \<open>n\<close> cells.
\<close>

record 'a git_array =
  ga_items :: "'a list"
  ga_asize :: nat

definition git_array_init :: "'a git_array" where "git_array_init = \<lparr>ga_items = [], ga_asize = 0\<rparr>"

text \<open>With the \<open>GIT_ERROR_CHECK_ARRAY\<close> that follows it.\<close>

definition git_array_init_to_size :: "(nat \<Rightarrow> bool) \<Rightarrow> nat \<Rightarrow> 'a git_array result" where
  "git_array_init_to_size can_alloc desired =
     (if can_alloc desired then Inr \<lparr>ga_items = [], ga_asize = desired\<rparr> else Inl GIT_ERROR)"

text \<open>Growing and storing the new item. An error stands for the NULL that is returned; the array has been cleared then.\<close>

definition git_array_grow :: "(nat \<Rightarrow> bool) \<Rightarrow> 'a git_array \<Rightarrow> 'a \<Rightarrow> 'a git_array result" where
  "git_array_grow can_alloc a x =
     (let n = length (ga_items a) in
      if n \<ge> 8 \<and> n * 3 > SIZE_MAX then Inl GIT_ERROR
      else (let new_size = (if n < 8 then 8 else n * 3 div 2) in
        if can_alloc new_size then Inr \<lparr>ga_items = ga_items a @ [x], ga_asize = new_size\<rparr> else Inl GIT_ERROR))"

definition git_array_alloc :: "(nat \<Rightarrow> bool) \<Rightarrow> 'a git_array \<Rightarrow> 'a \<Rightarrow> 'a git_array result" where
  "git_array_alloc can_alloc a x =
     (if length (ga_items a) \<ge> ga_asize a then git_array_grow can_alloc a x
      else Inr (a\<lparr>ga_items := ga_items a @ [x]\<rparr>))"

definition git_array_get :: "'a git_array \<Rightarrow> nat \<Rightarrow> 'a option" where
  "git_array_get a i = (if i < length (ga_items a) then Some (ga_items a ! i) else None)"

definition git_array_last :: "'a git_array \<Rightarrow> 'a option" where
  "git_array_last a = (if ga_items a = [] then None else Some (last (ga_items a)))"

definition git_array_pop :: "'a git_array \<Rightarrow> ('a \<times> 'a git_array) option" where
  "git_array_pop a = (if ga_items a = [] then None else Some (last (ga_items a), a\<lparr>ga_items := butlast (ga_items a)\<rparr>))"

definition git_array_valid_index :: "'a git_array \<Rightarrow> nat \<Rightarrow> bool" where
  "git_array_valid_index a i \<longleftrightarrow> i < length (ga_items a)"

definition git_array_clear :: "'a git_array \<Rightarrow> 'a git_array" where "git_array_clear a = git_array_init"

definition git_array_size :: "'a git_array \<Rightarrow> nat" where "git_array_size a = length (ga_items a)"

text \<open>The place where the search ends, and whether the key is there.\<close>

function array_search_loop :: "('a \<Rightarrow> int) \<Rightarrow> 'a list \<Rightarrow> nat \<Rightarrow> nat \<Rightarrow> nat \<times> bool" where
  "array_search_loop compare items base lim =
     (if lim = 0 then (base, False)
      else (let part = base + lim div 2; cmp = compare (items ! part) in
        if cmp = 0 then (part, True)
        else if cmp > 0 then array_search_loop compare items (part + 1) ((lim - 1) div 2)
        else array_search_loop compare items base (lim div 2)))"
  by pat_completeness auto
termination
  by (relation "measure (\<lambda>(compare, items, base, lim). lim)") auto

declare array_search_loop.simps [simp del]

definition git_array_search :: "'a git_array \<Rightarrow> ('k \<Rightarrow> 'a \<Rightarrow> int) \<Rightarrow> 'k \<Rightarrow> nat result" where
  "git_array_search a compare key =
     (case array_search_loop (compare key) (ga_items a) 0 (length (ga_items a)) of
        (pos, found) \<Rightarrow> if found then Inr pos else Inl GIT_ENOTFOUND)"

end
