(* ===== verification/Tree.thy ===== *)
theory Tree
  imports ObjectType Array VectorCorrect "HOL-Library.AList"
begin

unbundle bit_operations_syntax

text \<open>
  \<open>tree.c\<close>: directories as objects. A tree is parsed into an array of entries, in which names are searched;
  a tree builder collects entries by name and writes them in the order that git prescribes.
\<close>

definition UINT16_MAX :: nat where "UINT16_MAX = 65535"

definition DEFAULT_TREE_SIZE :: nat where "DEFAULT_TREE_SIZE = 16"

text \<open>\<open>te_filename\<close> is the terminated string; \<open>te_filename_len\<close> has 16 bits.\<close>

record git_tree_entry =
  te_attr :: u16
  te_filename_len :: u16
  te_oid :: git_oid
  te_filename :: string

type_synonym git_tree = "git_tree_entry git_array"

subsection \<open>Modes and names\<close>

definition valid_filemode :: "u16 \<Rightarrow> bool" where
  "valid_filemode filemode \<longleftrightarrow> filemode = GIT_FILEMODE_TREE \<or> filemode = GIT_FILEMODE_BLOB \<or>
     filemode = GIT_FILEMODE_BLOB_EXECUTABLE \<or> filemode = GIT_FILEMODE_LINK \<or> filemode = GIT_FILEMODE_COMMIT"

definition normalize_filemode :: "u16 \<Rightarrow> u16" where
  "normalize_filemode filemode =
     (if mode_type filemode = GIT_FILEMODE_TREE then GIT_FILEMODE_TREE
      else if filemode AND 0x49 \<noteq> 0 then GIT_FILEMODE_BLOB_EXECUTABLE
      else if mode_type filemode = GIT_FILEMODE_COMMIT then GIT_FILEMODE_COMMIT
      else if mode_type filemode = GIT_FILEMODE_LINK then GIT_FILEMODE_LINK
      else GIT_FILEMODE_BLOB)"

definition valid_entry_name :: "git_odb \<Rightarrow> string \<Rightarrow> bool option" where
  "valid_entry_name repo filename =
     (if filename = [] then Some False
      else git_path_isvalid (db_paths repo) filename 0
        (GIT_PATH_REJECT_TRAVERSAL OR GIT_PATH_REJECT_DOT_GIT OR GIT_PATH_REJECT_SLASH))"

definition git_tree_entry__is_tree :: "git_tree_entry \<Rightarrow> bool" where
  "git_tree_entry__is_tree e \<longleftrightarrow> S_ISDIR (te_attr e) \<and> \<not> S_ISGITLINK (te_attr e)"

definition git_tree_entry_filemode :: "git_tree_entry \<Rightarrow> u16" where
  "git_tree_entry_filemode entry = normalize_filemode (te_attr entry)"

definition git_tree_entry_type :: "git_tree_entry \<Rightarrow> git_object_t" where
  "git_tree_entry_type entry =
     (if S_ISGITLINK (te_attr entry) then GIT_OBJECT_COMMIT
      else if S_ISDIR (te_attr entry) then GIT_OBJECT_TREE
      else GIT_OBJECT_BLOB)"

definition otype_from_mode :: "u16 \<Rightarrow> git_object_t" where
  "otype_from_mode filemode =
     (if filemode = GIT_FILEMODE_TREE then GIT_OBJECT_TREE
      else if filemode = GIT_FILEMODE_COMMIT then GIT_OBJECT_COMMIT
      else GIT_OBJECT_BLOB)"

subsection \<open>Entries\<close>

definition entry_sort_cmp :: "git_tree_entry cmp" where
  "entry_sort_cmp e1 e2 =
     git_path_cmp (te_filename e1) (unat (te_filename_len e1)) (git_tree_entry__is_tree e1)
       (te_filename e2) (unat (te_filename_len e2)) (git_tree_entry__is_tree e2) strncmp"

definition git_tree_entry_cmp :: "git_tree_entry cmp" where
  "git_tree_entry_cmp e1 e2 = entry_sort_cmp e1 e2"

text \<open>
  \<open>TREE_ENTRY_CHECK_NAMELEN\<close> sets an error message and goes on, so that the length of a name longer than
  \<open>UINT16_MAX\<close> is cut to 16 bits. \<open>NULL\<close> after a failed allocation is \<open>None\<close>.
\<close>

definition alloc_entry :: "bool \<Rightarrow> string \<Rightarrow> nat \<Rightarrow> git_oid \<Rightarrow> git_tree_entry option" where
  "alloc_entry mem filename filename_len oid =
     (if mem then Some \<lparr>te_attr = 0, te_filename_len = of_nat filename_len, te_oid = git_oid_cpy oid, te_filename = take filename_len filename\<rparr>
      else None)"

definition git_tree_entry_dup :: "bool \<Rightarrow> git_tree_entry \<Rightarrow> git_tree_entry result" where
  "git_tree_entry_dup mem source =
     (case alloc_entry mem (te_filename source) (unat (te_filename_len source)) (te_oid source) of
        None \<Rightarrow> Inl GIT_ERROR
      | Some cpy \<Rightarrow> Inr (cpy\<lparr>te_attr := te_attr source\<rparr>))"

subsection \<open>Searching\<close>

text \<open>\<open>memcmp\<close> on the first \<open>n\<close> characters.\<close>

fun memcmp_chars :: "string \<Rightarrow> string \<Rightarrow> nat \<Rightarrow> int" where
  "memcmp_chars a b 0 = 0"
| "memcmp_chars (x # a) (y # b) (Suc n) = (if x = y then memcmp_chars a b n else ord x - ord y)"
| "memcmp_chars a b (Suc n) = ord (deref a) - ord (deref b)"

record tree_key_search =
  ks_filename :: string
  ks_filename_len :: u16

definition homing_search_cmp :: "tree_key_search \<Rightarrow> git_tree_entry \<Rightarrow> int" where
  "homing_search_cmp key entry =
     memcmp_chars (ks_filename key) (te_filename entry) (min (unat (ks_filename_len key)) (unat (te_filename_len entry)))"

definition entry_named :: "string \<Rightarrow> nat \<Rightarrow> git_tree_entry \<Rightarrow> bool" where
  "entry_named filename filename_len entry \<longleftrightarrow>
     unat (te_filename_len entry) = filename_len \<and> memcmp_chars filename (te_filename entry) filename_len = 0"

function search_forward :: "tree_key_search \<Rightarrow> string \<Rightarrow> nat \<Rightarrow> git_tree_entry list \<Rightarrow> nat \<Rightarrow> nat option" where
  "search_forward key filename filename_len entries i =
     (if i < length entries then
        (if homing_search_cmp key (entries ! i) < 0 then None
         else if entry_named filename filename_len (entries ! i) then Some i
         else search_forward key filename filename_len entries (Suc i))
      else None)"
  by pat_completeness auto
termination
  by (relation "measure (\<lambda>(key, filename, filename_len, entries, i). length entries - i)") auto

declare search_forward.simps [simp del]

primrec search_backward :: "tree_key_search \<Rightarrow> string \<Rightarrow> nat \<Rightarrow> git_tree_entry list \<Rightarrow> nat \<Rightarrow> nat option" where
  "search_backward key filename filename_len entries 0 = None"
| "search_backward key filename filename_len entries (Suc i) =
     (if homing_search_cmp key (entries ! i) > 0 then None
      else if entry_named filename filename_len (entries ! i) then Some i
      else search_backward key filename filename_len entries i)"

definition tree_key_search :: "git_tree \<Rightarrow> string \<Rightarrow> nat \<Rightarrow> nat result" where
  "tree_key_search tree filename filename_len =
     (let ksearch = \<lparr>ks_filename = filename, ks_filename_len = of_nat filename_len\<rparr> in
      case git_array_search tree homing_search_cmp ksearch of
        Inl e \<Rightarrow> Inl GIT_ENOTFOUND
      | Inr homing \<Rightarrow>
          (case search_forward ksearch filename filename_len (ga_items tree) homing of
             Some i \<Rightarrow> Inr i
           | None \<Rightarrow>
               (case search_backward ksearch filename filename_len (ga_items tree) homing of
                  Some i \<Rightarrow> Inr i
                | None \<Rightarrow> Inl GIT_ENOTFOUND)))"

definition entry_fromname :: "git_tree \<Rightarrow> string \<Rightarrow> nat \<Rightarrow> git_tree_entry option" where
  "entry_fromname tree name name_len =
     (case tree_key_search tree name name_len of Inl e \<Rightarrow> None | Inr idx \<Rightarrow> git_array_get tree idx)"

definition git_tree_entry_byname :: "git_tree \<Rightarrow> string \<Rightarrow> git_tree_entry option" where
  "git_tree_entry_byname tree filename = entry_fromname tree filename (length filename)"

definition git_tree_entry_byindex :: "git_tree \<Rightarrow> nat \<Rightarrow> git_tree_entry option" where
  "git_tree_entry_byindex tree idx = git_array_get tree idx"

definition git_tree_entry_byid :: "git_tree \<Rightarrow> git_oid \<Rightarrow> git_tree_entry option" where
  "git_tree_entry_byid tree oid = find (\<lambda>e. memcmp (oid_id (te_oid e)) (oid_id oid) = 0) (ga_items tree)"

definition git_tree_entrycount :: "git_tree \<Rightarrow> nat" where "git_tree_entrycount tree = length (ga_items tree)"

subsection \<open>Parsing\<close>

text \<open>The mode, and where reading stopped.\<close>

definition parse_mode :: "string \<Rightarrow> (u16 \<times> string option) result" where
  "parse_mode buffer =
     (if buffer = [] \<or> git__isspace (hd buffer) then Inl GIT_ERROR
      else (case git__strntol32 buffer 8 of
              (Inl e, _) \<Rightarrow> Inl e
            | (Inr mode, buffer_out) \<Rightarrow>
                (if mode < 0 \<or> mode > int UINT16_MAX then Inl GIT_ERROR else Inr (of_int mode, buffer_out))))"

lemma strntol_digits_rest: "length (snd (snd (snd (strntol_digits base neg s n ndig ovfl)))) \<le> length s"
proof (induction s arbitrary: n ndig ovfl)
  case (Cons c s)
  have IH: "length (snd (snd (snd (strntol_digits base neg s n ndig ovfl)))) \<le> length (c # s)" for n ndig ovfl
    using Cons.IH [of n ndig ovfl] by simp
  have split: "P (if b then x else y)" if "P x" "P y" for b P and x y :: "int \<times> nat \<times> bool \<times> string"
    using that by simp
  show ?case unfolding strntol_digits.simps Let_def
    by (intro split [where P = "\<lambda>r. length (snd (snd (snd r))) \<le> length (c # s)"] IH) simp
qed simp

lemma strntol_digits_end: "strntol_digits base neg s 0 0 False = (n, k, ovfl, rest) \<Longrightarrow> length rest \<le> length s"
  using strntol_digits_rest [of base neg s 0 0 False] by simp

lemma strntol_digits_end2: "strntol_digits base neg (drop 2 s) 0 0 False = (n, k, ovfl, rest) \<Longrightarrow> length rest \<le> length s"
  using strntol_digits_end [of base neg "drop 2 s" n k ovfl rest] by simp

lemma strntol64_rest: "git__strntol64 s base = (r, Some rest) \<Longrightarrow> length rest \<le> length s"
proof -
  assume g: "git__strntol64 s base = (r, Some rest)"
  define p where "p = dropWhile git__isspace s"
  have s: "length p \<le> length s" by (simp add: p_def length_dropWhile_le)
  define p1 where "p1 = (if hd p = CHR ''-'' \<or> hd p = CHR ''+'' then tl p else p)"
  have p1: "length p1 \<le> length p" by (simp add: p1_def)
  have "length rest \<le> length p1"
    using g [unfolded git__strntol64_def Let_def p_def [symmetric] p1_def [symmetric]]
    by (auto split: if_split_asm prod.splits simp del: strntol_digits.simps dest: strntol_digits_end strntol_digits_end2)
  then show ?thesis using p1 s by simp
qed

lemma parse_mode_rest: "parse_mode s = Inr (attr, Some rest) \<Longrightarrow> length rest \<le> length s"
  by (auto simp: parse_mode_def git__strntol32_def Let_def split: if_splits prod.splits sum.splits dest!: strntol64_rest)

text \<open>The loop over the entries; it stops as each entry takes more than the bytes of an id.\<close>

function parse_entries :: "(nat \<Rightarrow> bool) \<Rightarrow> git_tree \<Rightarrow> string \<Rightarrow> git_tree result" where
  "parse_entries can_alloc entries buffer =
     (if buffer = [] then Inr entries
      else (case parse_mode buffer of
              Inl e \<Rightarrow> Inl GIT_ERROR
            | Inr (attr, None) \<Rightarrow> Inl GIT_ERROR
            | Inr (attr, Some b) \<Rightarrow>
                (if b = [] \<or> hd b \<noteq> CHR '' '' then Inl GIT_ERROR
                 else (case memchr (tl b) NUL of
                         None \<Rightarrow> Inl GIT_ERROR
                       | Some filename_len \<Rightarrow>
                           (if filename_len = 0 \<or> filename_len > UINT16_MAX then Inl GIT_ERROR
                            else if length (drop (filename_len + 1) (tl b)) < GIT_OID_RAWSZ then Inl GIT_ERROR
                            else (case git_array_alloc can_alloc entries
                                \<lparr>te_attr = attr, te_filename_len = of_nat filename_len,
                                 te_oid = GitOid (map of_char (take GIT_OID_RAWSZ (drop (filename_len + 1) (tl b)))),
                                 te_filename = take filename_len (tl b)\<rparr> of
                                  Inl e \<Rightarrow> Inl GIT_ERROR
                                | Inr entries1 \<Rightarrow>
                                    parse_entries can_alloc entries1 (drop (filename_len + 1 + GIT_OID_RAWSZ) (tl b))))))))"
  by pat_completeness auto
termination
proof (relation "measure (\<lambda>(can_alloc, entries, buffer). length buffer)", goal_cases)
  case (2 can_alloc entries buffer x1 attr y b n)
  then have "length b \<le> length buffer" "b \<noteq> []" using parse_mode_rest by auto
  then show ?case by (cases b) (auto simp: GIT_OID_RAWSZ_def)
qed simp

declare parse_entries.simps [simp del]

definition git_tree__parse_raw :: "(nat \<Rightarrow> bool) \<Rightarrow> string \<Rightarrow> git_tree result" where
  "git_tree__parse_raw can_alloc data =
     (case git_array_init_to_size can_alloc DEFAULT_TREE_SIZE of
        Inl e \<Rightarrow> Inl e
      | Inr entries \<Rightarrow> parse_entries can_alloc entries data)"

end
