(* ===== verification/TreeBuilder.thy ===== *)
theory TreeBuilder
  imports Tree Radix
begin

text \<open>
  The tree builder of \<open>tree.c\<close>. Its map is an association list; in which order the hash table gives out its
  values is an argument \<open>iter\<close> of the functions that go through it. \<open>mem filename\<close> says whether there is
  memory for an entry and for its place in the map.
\<close>

record git_treebuilder =
  bld_repo :: git_odb
  bld_map :: "(string \<times> git_tree_entry) list"

definition git_treebuilder_entrycount :: "git_treebuilder \<Rightarrow> nat" where
  "git_treebuilder_entrycount bld = length (bld_map bld)"

subsection \<open>Adding and removing entries\<close>

text \<open>Whether the entry may be added; \<open>None\<close> comes from the check of the name.\<close>

definition check_entry :: "git_odb \<Rightarrow> string \<Rightarrow> git_oid \<Rightarrow> u16 \<Rightarrow> unit result option" where
  "check_entry repo filename oid filemode =
     (if \<not> valid_filemode filemode then Some (Inl GIT_ERROR)
      else (case valid_entry_name repo filename of
              None \<Rightarrow> None
            | Some valid \<Rightarrow>
                Some (if \<not> valid \<or> git_oid_is_zero oid then Inl GIT_ERROR
                  else if filemode \<noteq> GIT_FILEMODE_COMMIT \<and> \<not> git_object__is_valid repo oid (otype_from_mode filemode)
                  then Inl GIT_ERROR
                  else Inr ())))"

definition append_entry :: "bool \<Rightarrow> git_treebuilder \<Rightarrow> string \<Rightarrow> git_oid \<Rightarrow> u16 \<Rightarrow> bool \<Rightarrow> git_treebuilder result option" where
  "append_entry mem bld filename oid filemode validate =
     do {
       checked \<leftarrow> (if validate then check_entry (bld_repo bld) filename oid filemode else Some (Inr ()));
       Some (case checked of
         Inl e \<Rightarrow> Inl e
       | Inr u \<Rightarrow>
           (case alloc_entry mem filename (length filename) oid of
              None \<Rightarrow> Inl GIT_ERROR
            | Some entry \<Rightarrow> Inr (bld\<lparr>bld_map := AList.update (te_filename entry) (entry\<lparr>te_attr := filemode\<rparr>) (bld_map bld)\<rparr>)))
     }"

text \<open>The entries of the source are not checked.\<close>

primrec append_all :: "(string \<Rightarrow> bool) \<Rightarrow> git_treebuilder \<Rightarrow> git_tree_entry list \<Rightarrow> git_treebuilder result option" where
  "append_all mem bld [] = Some (Inr bld)"
| "append_all mem bld (e # es) =
     do {
       r \<leftarrow> append_entry (mem (te_filename e)) bld (te_filename e) (te_oid e) (te_attr e) False;
       (case r of Inl err \<Rightarrow> Some (Inl GIT_ERROR) | Inr bld1 \<Rightarrow> append_all mem bld1 es)
     }"

definition git_treebuilder_new :: "(string \<Rightarrow> bool) \<Rightarrow> bool \<Rightarrow> git_odb \<Rightarrow> git_tree option \<Rightarrow> git_treebuilder result option" where
  "git_treebuilder_new mem mem_bld repo source =
     (if \<not> mem_bld then Some (Inl GIT_ERROR)
      else append_all mem \<lparr>bld_repo = repo, bld_map = []\<rparr> (case source of None \<Rightarrow> [] | Some tree \<Rightarrow> ga_items tree))"

text \<open>The builder and the entry that was inserted.\<close>

definition git_treebuilder_insert :: "bool \<Rightarrow> git_treebuilder \<Rightarrow> string \<Rightarrow> git_oid \<Rightarrow> u16 \<Rightarrow>
    (git_treebuilder \<times> git_tree_entry) result option" where
  "git_treebuilder_insert mem bld filename oid filemode =
     do {
       checked \<leftarrow> check_entry (bld_repo bld) filename oid filemode;
       Some (case checked of
         Inl e \<Rightarrow> Inl e
       | Inr u \<Rightarrow>
           (case (case map_of (bld_map bld) filename of
                    Some entry \<Rightarrow> Some (entry\<lparr>te_oid := oid\<rparr>)
                  | None \<Rightarrow> alloc_entry mem filename (length filename) oid) of
              None \<Rightarrow> Inl GIT_ERROR
            | Some e \<Rightarrow>
                (let entry = e\<lparr>te_attr := filemode\<rparr> in
                 Inr (bld\<lparr>bld_map := AList.update filename entry (bld_map bld)\<rparr>, entry))))
     }"

definition git_treebuilder_get :: "git_treebuilder \<Rightarrow> string \<Rightarrow> git_tree_entry option" where
  "git_treebuilder_get bld filename = map_of (bld_map bld) filename"

definition git_treebuilder_remove :: "git_treebuilder \<Rightarrow> string \<Rightarrow> git_treebuilder result" where
  "git_treebuilder_remove bld filename =
     (case git_treebuilder_get bld filename of
        None \<Rightarrow> Inl GIT_ERROR
      | Some entry \<Rightarrow> Inr (bld\<lparr>bld_map := AList.delete filename (bld_map bld)\<rparr>))"

definition git_treebuilder_filter :: "git_treebuilder \<Rightarrow> (git_tree_entry \<Rightarrow> bool) \<Rightarrow> git_treebuilder" where
  "git_treebuilder_filter bld flt = bld\<lparr>bld_map := filter (\<lambda>(filename, entry). \<not> flt entry) (bld_map bld)\<rparr>"

definition git_treebuilder_clear :: "git_treebuilder \<Rightarrow> git_treebuilder" where
  "git_treebuilder_clear bld = bld\<lparr>bld_map := []\<rparr>"

subsection \<open>Writing\<close>

definition oid_chars :: "git_oid \<Rightarrow> string" where "oid_chars oid = map (\<lambda>b. char_of (unat b)) (oid_id oid)"

text \<open>One byte more than \<open>filename_len\<close> is written, the terminator when the length has not been cut.\<close>

definition write_entry :: "buf_env \<Rightarrow> git_tree_entry \<Rightarrow> unit buf" where
  "write_entry env entry =
     bnd (ignore (git_buf_printf env 3 (Some (octal_text (unat (te_attr entry)) @ '' '')))) (\<lambda>_.
     bnd (ignore (git_buf_put env (take (unat (te_filename_len entry) + 1) (te_filename entry @ [NUL])))) (\<lambda>_.
     bnd (ignore (git_buf_put env (take GIT_OID_RAWSZ (oid_chars (te_oid entry))))) (\<lambda>_.
     bnd get_state (\<lambda>b. if git_buf_oom b then fail GIT_ERROR else ret ()))))"

primrec insert_entries :: "(nat \<Rightarrow> bool) \<Rightarrow> git_tree_entry git_vector \<Rightarrow> git_tree_entry list \<Rightarrow> git_tree_entry git_vector result" where
  "insert_entries can_alloc v [] = Inr v"
| "insert_entries can_alloc v (e # es) =
     (case git_vector_insert can_alloc v e of Inl err \<Rightarrow> Inl err | Inr v1 \<Rightarrow> insert_entries can_alloc v1 es)"

definition git_treebuilder_write_with_buffer :: "buf_env \<Rightarrow> (nat \<Rightarrow> bool) \<Rightarrow> (git_tree_entry list \<Rightarrow> git_tree_entry list) \<Rightarrow>
    git_treebuilder \<Rightarrow> git_oid buf" where
  "git_treebuilder_write_with_buffer env can_alloc iter bld =
     bnd git_buf_clear (\<lambda>_.
       (let entrycount = length (bld_map bld) in
        case git_vector_init can_alloc entrycount (Some entry_sort_cmp) of
          Inl e \<Rightarrow> fail e
        | Inr v0 \<Rightarrow>
            bnd get_state (\<lambda>b. bnd (if b_asize b = 0 then git_buf_grow env (entrycount * 72) else ret ()) (\<lambda>_.
              case insert_entries can_alloc v0 (iter (map snd (bld_map bld))) of
                Inl e \<Rightarrow> fail e
              | Inr v1 \<Rightarrow>
                  (case git_vector_sort can_alloc v1 of
                     None \<Rightarrow> (\<lambda>b. None)
                   | Some v2 \<Rightarrow>
                       bnd (for_each (write_entry env) (v_contents v2)) (\<lambda>_.
                         case db_open (bld_repo bld) of
                           Inl e \<Rightarrow> fail e
                         | Inr u \<Rightarrow> bnd get_state (\<lambda>b.
                             case db_write (bld_repo bld) GIT_OBJECT_TREE (contents b) of
                               Inl e \<Rightarrow> fail e
                             | Inr oid \<Rightarrow> ret oid)))))))"

definition git_treebuilder_write :: "buf_env \<Rightarrow> (nat \<Rightarrow> bool) \<Rightarrow> (git_tree_entry list \<Rightarrow> git_tree_entry list) \<Rightarrow>
    git_treebuilder \<Rightarrow> git_oid result option" where
  "git_treebuilder_write env can_alloc iter bld =
     map_option fst (git_treebuilder_write_with_buffer env can_alloc iter bld GIT_BUF_INIT)"

end
