(* ===== verification/TsortOn.thy ===== *)
theory TsortOn
  imports TsortCorrect
begin

text \<open>
  The sort calls the comparison on elements of the array only: a comparison that keeps the contract there sorts
  as well. \<open>agree\<close> relates it to one that keeps the contract everywhere.
\<close>

definition agree :: "'a set \<Rightarrow> 'a cmp \<Rightarrow> 'a cmp \<Rightarrow> bool" where
  "agree X c1 c2 \<longleftrightarrow> (\<forall>a\<in>X. \<forall>b\<in>X. c1 a b = c2 a b)"

lemma agreeD: "agree X c1 c2 \<Longrightarrow> a \<in> X \<Longrightarrow> b \<in> X \<Longrightarrow> c1 a b = c2 a b"
  by (simp add: agree_def)

lemma agree_subset: "agree X c1 c2 \<Longrightarrow> Y \<subseteq> X \<Longrightarrow> agree Y c1 c2"
  by (auto simp: agree_def)

lemma skip_equal_agree:
  "agree (set dst) c1 c2 \<Longrightarrow> x \<in> set dst \<Longrightarrow> skip_equal c1 dst x i = skip_equal c2 dst x i"
proof (induction c1 dst x i rule: skip_equal.induct)
  case (1 c1 dst x i)
  show ?case
  proof (cases "i < length dst")
    case True
    then have "c1 x (dst ! i) = c2 x (dst ! i)" using 1(2,3) by (simp add: agreeD)
    then show ?thesis using 1 True by (simp add: skip_equal.simps [of _ _ _ i])
  qed (simp add: skip_equal.simps [of _ _ _ i])
qed

lemma binsearch_loop_agree:
  "agree (set dst) c1 c2 \<Longrightarrow> x \<in> set dst \<Longrightarrow> l \<le> r \<Longrightarrow> r < length dst \<Longrightarrow>
   binsearch_loop c1 dst x l r = binsearch_loop c2 dst x l r"
proof (induction c1 dst x l r rule: binsearch_loop.induct)
  case (1 c1 dst x l r)
  define c where "c = l + (r - l) div 2"
  have c: "l \<le> c" "c \<le> r" "c < length dst" using 1(5,6) by (auto simp: c_def)
  then have "c1 x (dst ! c) = c2 x (dst ! c)" using 1(3,4) by (simp add: agreeD)
  then show ?case
    using 1(1) [OF c_def refl] 1(2) [OF c_def refl] 1(3-6) c skip_equal_agree [OF 1(3,4)]
    by (simp add: binsearch_loop.simps [of _ _ _ l r] Let_def flip: c_def)
qed

lemma binsearch_agree:
  assumes "agree (set dst) c1 c2" "x \<in> set dst" "sz \<le> length dst"
  shows "binsearch c1 dst x sz = binsearch c2 dst x sz"
proof (cases "sz = 0")
  case False
  then have "0 < length dst" using assms(3) by linarith
  then have "dst ! 0 \<in> set dst" by (rule nth_mem)
  then have "c1 x (dst ! 0) = c2 x (dst ! 0)" using assms by (simp add: agreeD)
  then show ?thesis using False assms skip_equal_agree [OF assms(1,2)] binsearch_loop_agree [OF assms(1,2), of 0 "sz - 1"]
    by (simp add: binsearch_def)
qed (simp add: binsearch_def)

lemma set_shift_right: "i < length dst \<Longrightarrow> set (shift_right dst location i) \<subseteq> set dst"
proof (induction dst location i rule: shift_right.induct)
  case (1 dst location i)
  have "set (dst[i := dst ! (i - 1)]) \<subseteq> set dst" using 1(2) by (intro set_update_subsetI) auto
  moreover have "set (shift_right (dst[i := dst ! (i - 1)]) location (i - 1)) \<subseteq> set (dst[i := dst ! (i - 1)])" if "location < i"
    using 1 that by simp
  ultimately show ?case by (subst shift_right.simps) auto
qed

lemma bisort_agree:
  "agree (set dst) c1 c2 \<Longrightarrow> sz \<le> length dst \<Longrightarrow> bisort c1 dst i sz = bisort c2 dst i sz"
proof (induction c1 dst i sz rule: bisort.induct)
  case (1 c1 dst i sz)
  show ?case
  proof (cases "i < sz")
    case True
    then have i: "dst ! i \<in> set dst" "dst ! (i - 1) \<in> set dst" using 1(4) by auto
    then have c: "c1 (dst ! (i - 1)) (dst ! i) = c2 (dst ! (i - 1)) (dst ! i)" using 1(3) by (simp add: agreeD)
    have b: "binsearch c1 dst (dst ! i) i = binsearch c2 dst (dst ! i) i"
      using True 1(3,4) i by (intro binsearch_agree) auto
    have "bisort c1 ((shift_right dst loc i)[loc := dst ! i]) (Suc i) sz = bisort c2 ((shift_right dst loc i)[loc := dst ! i]) (Suc i) sz"
      if l: "binsearch c1 dst (dst ! i) i = Some loc" "\<not> c1 (dst ! (i - 1)) (dst ! i) \<le> 0" for loc
    proof (rule 1(2) [OF True l(2,1)])
      have "set ((shift_right dst loc i)[loc := dst ! i]) \<subseteq> set dst"
        using set_shift_right [of i dst loc] i True 1(4) by (intro set_update_subsetI) auto
      then show "agree (set ((shift_right dst loc i)[loc := dst ! i])) c1 c2" by (rule agree_subset [OF 1(3)])
    qed (use 1(4) in simp)
    moreover have "bisort c1 dst (Suc i) sz = bisort c2 dst (Suc i) sz" if "c1 (dst ! (i - 1)) (dst ! i) \<le> 0"
      using 1(1) [OF True that 1(3,4)] .
    ultimately show ?thesis using True b c
      by (simp add: bisort.simps [of _ _ i] split: option.splits)
  qed (simp add: bisort.simps [of _ _ i])
qed

lemma scan_run_agree:
  "\<forall>a\<in>set dst. \<forall>b\<in>set dst. p a b = q a b \<Longrightarrow> scan_run p dst cur = scan_run q dst cur"
proof (induction p dst cur rule: scan_run.induct)
  case (1 p dst cur)
  show ?case
  proof (cases "Suc cur < length dst")
    case True
    then have "p (dst ! (cur - 1)) (dst ! cur) = q (dst ! (cur - 1)) (dst ! cur)" using 1(2) by simp
    then show ?thesis using 1 by (simp add: scan_run.simps [of _ _ cur])
  qed (simp add: scan_run.simps [of _ _ cur])
qed

lemma count_run_agree:
  assumes "agree (set dst) c1 c2" "start < length dst"
  shows "count_run c1 dst start = count_run c2 dst start"
proof -
  have at: "c1 (dst ! i) (dst ! j) = c2 (dst ! i) (dst ! j)" if "i < length dst" "j < length dst" for i j
    using assms(1) that by (simp add: agreeD)
  have "scan_run (\<lambda>a b. c1 a b \<le> 0) dst k = scan_run (\<lambda>a b. c2 a b \<le> 0) dst k"
    "scan_run (\<lambda>a b. c1 a b > 0) dst k = scan_run (\<lambda>a b. c2 a b > 0) dst k" for k
    by (rule scan_run_agree, use assms(1) in \<open>simp add: agree_def\<close>)+
  then show ?thesis
    using at [of "length dst - 2" "length dst - 1"] at [of start "start + 1"] assms(2) by (simp add: count_run_def Let_def)
qed

lemma merge_list_agree: "agree (set xs \<union> set ys) c1 c2 \<Longrightarrow> merge_list c1 xs ys = merge_list c2 xs ys"
  by (induction c1 xs ys rule: merge_list.induct) (auto simp: agree_def)

lemma merge_back_agree: "agree (set xs \<union> set ys) c1 c2 \<Longrightarrow> merge_back c1 xs ys = merge_back c2 xs ys"
  by (induction c1 xs ys rule: merge_back.induct) (auto simp: agree_def)

lemma merge_runs_agree:
  assumes "agree (set dst) c1 c2"
    and adj: "run_start a + run_length a = run_start b" "run_start b + run_length b \<le> length dst"
  shows "merge_runs can_alloc c1 dst a b store = merge_runs can_alloc c2 dst a b store"
proof -
  let ?s = "run_start a" and ?A = "run_length a" and ?B = "run_length b"
  define P LA LB S where "P = take ?s dst" and "LA = seg dst ?s ?A" and "LB = seg dst (?s + ?A) ?B" and "S = drop (?s + ?A + ?B) dst"
  have dst: "dst = P @ LA @ LB @ S"
    using split_at_seg [of dst ?s "?A + ?B"] seg_add [of dst ?s ?A ?B]
    by (simp add: P_def LA_def LB_def S_def add.assoc)
  have len: "length P = ?s" "length LA = ?A" "length LB = ?B"
    using adj by (auto simp: P_def LA_def LB_def intro!: length_seg)
  have lo: "merge_lo c LA ?A (?s + ?A + ?B) dst 0 (?s + ?A) ?s = P @ merge_list c LA LB @ S" for c
    unfolding dst using merge_lo_eq [of LA ?A 0 LA ?s P "?s + ?A" "?s + ?A + ?B" LB c S] len by (simp add: seg_def)
  have hi: "merge_hi c LB ?s dst ?B (?s + ?A) (?s + ?A + ?B) = P @ rev (merge_back c (rev LA) (rev LB)) @ S" for c
    unfolding dst using merge_hi_eq [of LB ?B LB ?s P "?s + ?A" LA "?s + ?A + ?B" c S] len by simp
  have "set LA \<union> set LB \<subseteq> set dst" by (subst dst) auto
  then have "agree (set LA \<union> set LB) c1 c2" using assms(1) by (rule agree_subset [rotated])
  then have "merge_list c1 LA LB = merge_list c2 LA LB" "merge_back c1 (rev LA) (rev LB) = merge_back c2 (rev LA) (rev LB)"
    by (auto intro: merge_list_agree merge_back_agree)
  then show ?thesis using lo hi by (simp add: merge_runs_def LA_def LB_def Let_def split: option.split)
qed

context git_cmp
begin

lemma collapse_agree:
  assumes c: "agree (set dst0) c1 cmp"
  shows "sort_inv (\<forall>n. can_alloc n) dst0 dst stack cur \<Longrightarrow>
    collapse can_alloc c1 sz dst stack store = collapse can_alloc cmp sz dst stack store"
proof (induction "length stack" arbitrary: dst stack store rule: less_induct)
  case less
  have c: "agree (set dst) c1 cmp" and n: "cur \<le> length dst"
    using less.prems c by (auto simp: sort_inv_def dest: mset_eq_setD)
  show ?case
  proof (cases stack rule: check_invariant.cases)
    case (3 b a)
    then have "merge_runs can_alloc c1 dst a b store = merge_runs can_alloc cmp dst a b store"
      using less.prems n by (intro merge_runs_agree [OF c]) (auto simp: sort_inv_def)
    then show ?thesis by (simp add: 3)
  next
    case (4 c b a rest)
    have m: "merge_runs can_alloc c1 dst a b store = merge_runs can_alloc cmp dst a b store"
      "merge_runs can_alloc c1 dst b c store = merge_runs can_alloc cmp dst b c store"
      using less.prems n 4 by (auto simp: sort_inv_def intro!: merge_runs_agree [OF \<open>agree (set dst) c1 cmp\<close>])
    obtain d1 s1 where m1: "merge_runs can_alloc cmp dst a b store = (d1, s1)" by fastforce
    obtain d2 s2 where m2: "merge_runs can_alloc cmp dst b c store = (d2, s2)" by fastforce
    have "collapse can_alloc c1 sz d1 (c # join_runs a b # rest) s1 = collapse can_alloc cmp sz d1 (c # join_runs a b # rest) s1"
      by (rule less.hyps) (use 4 merge_below_inv [OF less.prems [unfolded 4] m1] in auto)
    moreover have "collapse can_alloc c1 sz d2 (join_runs b c # a # rest) s2 = collapse can_alloc cmp sz d2 (join_runs b c # a # rest) s2"
      by (rule less.hyps) (use 4 merge_top_inv [OF less.prems [unfolded 4] m2] in auto)
    ultimately show ?thesis using m m1 m2 by (simp add: 4)
  qed auto
qed

lemma finish_up_agree:
  assumes c: "agree (set dst0) c1 cmp"
  shows "sort_inv (\<forall>n. can_alloc n) dst0 dst stack cur \<Longrightarrow>
    finish_up can_alloc c1 dst stack store = finish_up can_alloc cmp dst stack store"
proof (induction "length stack" arbitrary: dst stack store rule: less_induct)
  case less
  have c: "agree (set dst) c1 cmp" and n: "cur \<le> length dst"
    using less.prems c by (auto simp: sort_inv_def dest: mset_eq_setD)
  show ?case
  proof (cases stack rule: remdups_adj.cases)
    case (3 b a rest)
    then have m: "merge_runs can_alloc c1 dst a b store = merge_runs can_alloc cmp dst a b store"
      using less.prems n by (intro merge_runs_agree [OF c]) (auto simp: sort_inv_def)
    obtain d1 s1 where m1: "merge_runs can_alloc cmp dst a b store = (d1, s1)" by fastforce
    have "finish_up can_alloc c1 d1 (join_runs a b # rest) s1 = finish_up can_alloc cmp d1 (join_runs a b # rest) s1"
      by (rule less.hyps) (use 3 merge_top_inv [OF _ m1] less.prems in auto)
    then show ?thesis using 3 m m1 by simp
  qed auto
qed

lemma push_next_agree:
  assumes c: "agree (set dst0) c1 cmp" and inv: "state_inv (\<forall>n. can_alloc n) dst0 s"
  shows "push_next can_alloc c1 minrun s = push_next can_alloc cmp minrun s"
proof -
  let ?cur = "ts_curr s" and ?dst = "ts_dst s"
  have cur: "?cur < length ?dst" and a: "agree (set ?dst) c1 cmp"
    using inv c by (auto simp: state_inv_def sort_inv_def dest: mset_eq_setD)
  obtain d1 l1 where cr: "count_run cmp ?dst ?cur = (d1, l1)" by fastforce
  have cr1: "count_run c1 ?dst ?cur = (d1, l1)" using count_run_agree [OF a cur] cr by simp
  define run where "run = min minrun (length ?dst - ?cur)"
  have d1: "length d1 = length ?dst" "set d1 = set ?dst"
    using count_run_spec [OF cur cr] stable_perm_mset by (auto dest: mset_eq_setD)
  have "set (drop ?cur d1) \<subseteq> set ?dst" using d1(2) set_drop_subset by fast
  then have b: "bisort c1 (drop ?cur d1) l1 run = bisort cmp (drop ?cur d1) l1 run"
    using a d1(1) by (intro bisort_agree) (auto simp: run_def intro: agree_subset)
  obtain dst len where dl: "(if l1 < run then map_option (\<lambda>d. (take ?cur d1 @ d, run)) (bisort cmp (drop ?cur d1) l1 run)
      else Some (d1, l1)) = Some (dst, len)"
    and inv1: "sort_inv (\<forall>n. can_alloc n) dst0 dst (\<lparr>run_start = ?cur, run_length = len\<rparr> # ts_stack s) (?cur + len)"
    by (rule push_step [OF inv cr, of minrun, folded run_def])
  show ?thesis
    unfolding push_next_def Let_def cr cr1 prod.case run_def [symmetric] b dl bind.bind_lunit finish_up_agree [OF c inv1] ..
qed

lemma tsort_loop_agree:
  assumes c: "agree (set dst0) c1 cmp"
  shows "state_inv (\<forall>n. can_alloc n) dst0 s \<Longrightarrow> tsort_loop can_alloc c1 minrun s = tsort_loop can_alloc cmp minrun s"
proof (induction "(length dst0 - ts_curr s, length (ts_stack s))" arbitrary: s
    rule: wf_induct_rule [OF wf_lex_prod [OF wf_less_than wf_less_than]])
  case (1 s)
  let ?ok = "\<forall>n. can_alloc n"
  show ?case
  proof (cases "check_invariant (ts_stack s)")
    case True
    obtain r where r: "push_next can_alloc cmp minrun s = Some r"
      and r': "case r of Inl d \<Rightarrow> sorted_result ?ok dst0 d
             | Inr s' \<Rightarrow> state_inv ?ok dst0 s' \<and> ts_curr s < ts_curr s'"
      using push_next_spec [OF "1.prems"] by blast
    have r1: "push_next can_alloc c1 minrun s = Some r" using push_next_agree [OF c "1.prems"] r by simp
    show ?thesis
    proof (cases r)
      case (Inr s')
      then have "length dst0 - ts_curr s' < length dst0 - ts_curr s" using r' by (auto simp: state_inv_def)
      then have "tsort_loop can_alloc c1 minrun s' = tsort_loop can_alloc cmp minrun s'"
        using r' Inr by (intro "1.hyps") auto
      then show ?thesis using r r1 Inr True by (simp add: tsort_loop.simps [of _ _ _ s])
    qed (use r r1 True in \<open>simp add: tsort_loop.simps [of _ _ _ s]\<close>)
  next
    case False
    obtain d st sto where col: "collapse can_alloc cmp (length (ts_dst s)) (ts_dst s) (ts_stack s)
        (ts_store s) = (d, st, sto)" by (metis prod_cases3)
    let ?s = "s\<lparr>ts_dst := d, ts_stack := st, ts_store := sto\<rparr>"
    have col1: "collapse can_alloc c1 (length (ts_dst s)) (ts_dst s) (ts_stack s) (ts_store s) = (d, st, sto)"
      using collapse_agree [OF c] "1.prems" col by (auto simp: state_inv_def)
    have "sort_inv ?ok dst0 d st (ts_curr s)" "length st < length (ts_stack s)"
      using collapse_inv [OF _ col] "1.prems" False by (auto simp: state_inv_def)
    then have "tsort_loop can_alloc c1 minrun ?s = tsort_loop can_alloc cmp minrun ?s"
      using "1.prems" by (intro "1.hyps") (auto simp: state_inv_def)
    then show ?thesis using col col1 False by (simp add: tsort_loop.simps [of _ _ _ s])
  qed
qed

lemma push_then_loop_agree:
  assumes c: "agree (set dst0) c1 cmp"
  shows "state_inv (\<forall>n. can_alloc n) dst0 s \<Longrightarrow> push_then_loop can_alloc c1 minrun n s = push_then_loop can_alloc cmp minrun n s"
proof (induction n arbitrary: s)
  case 0
  then show ?case using tsort_loop_agree [OF c] by simp
next
  case (Suc n)
  obtain r where r: "push_next can_alloc cmp minrun s = Some r" "case r of Inl d \<Rightarrow> sorted_result (\<forall>n. can_alloc n) dst0 d
             | Inr s' \<Rightarrow> state_inv (\<forall>n. can_alloc n) dst0 s' \<and> ts_curr s < ts_curr s'"
    using push_next_spec [OF Suc.prems, of minrun] by blast
  then show ?case using Suc.IH push_next_agree [OF c Suc.prems, of minrun] by (cases r) auto
qed

lemma tsort_agree:
  assumes c: "agree (set dst) c1 cmp"
  shows "git__tsort_r can_alloc c1 dst = git__tsort_r can_alloc cmp dst"
proof (cases "length dst < 64")
  case True
  then show ?thesis using bisort_agree [OF c] by (simp add: git__tsort_r_def)
next
  case False
  then have "state_inv (\<forall>n. can_alloc n) dst \<lparr>ts_dst = dst, ts_stack = [], ts_curr = 0, ts_store = \<lparr>store_alloc = 0\<rparr>\<rparr>"
    by (auto simp: state_inv_def sort_inv_def)
  then show ?thesis using push_then_loop_agree [OF c] False by (simp add: git__tsort_r_def Let_def del: push_then_loop.simps)
qed

end

text \<open>The contract of a comparison on the elements of a set only.\<close>

definition cmp_on :: "'a set \<Rightarrow> 'a cmp \<Rightarrow> bool" where
  "cmp_on X c \<longleftrightarrow> (\<forall>a\<in>X. \<forall>b\<in>X. (0 < c a b \<longleftrightarrow> c b a < 0) \<and> (\<forall>d\<in>X. c a b \<le> 0 \<and> c b d \<le> 0 \<longrightarrow> c a d \<le> 0))"

text \<open>Such a comparison is extended to one for all elements: those outside come last.\<close>

definition extend_cmp :: "'a set \<Rightarrow> 'a cmp \<Rightarrow> 'a cmp" where
  "extend_cmp X c a b = (if a \<in> X then (if b \<in> X then c a b else - 1) else if b \<in> X then 1 else 0)"

lemma extend_cmp_contract: "cmp_on X c \<Longrightarrow> git_cmp (extend_cmp X c)"
proof
  assume X: "cmp_on X c"
  have anti: "0 < c a b \<longleftrightarrow> c b a < 0" if "a \<in> X" "b \<in> X" for a b
    using X that by (simp add: cmp_on_def)
  have trans: "c a d \<le> 0" if "a \<in> X" "b \<in> X" "d \<in> X" "c a b \<le> 0" "c b d \<le> 0" for a b d
    using X that unfolding cmp_on_def by blast
  show "0 < extend_cmp X c a b \<longleftrightarrow> extend_cmp X c b a < 0" for a b
    using anti [of a b] by (simp add: extend_cmp_def)
  show "extend_cmp X c a d \<le> 0" if "extend_cmp X c a b \<le> 0" "extend_cmp X c b d \<le> 0" for a b d
    using that trans [of a b d] by (simp add: extend_cmp_def split: if_splits)
qed

lemma tsort_on:
  assumes "cmp_on (set dst) c" "\<forall>n. can_alloc n"
  obtains d where "git__tsort can_alloc c dst = Some d" "mset d = mset dst" "sorted_by c d"
proof -
  define e where "e = extend_cmp (set dst) c"
  have e: "git_cmp e" unfolding e_def by (rule extend_cmp_contract [OF assms(1)])
  have "agree (set dst) c e" by (simp add: e_def agree_def extend_cmp_def)
  then obtain d where d: "git__tsort can_alloc c dst = Some d" "mset d = mset dst" "sorted_by e d"
    using git_cmp.tsort_agree [OF e, of dst c can_alloc] git_cmp.tsort_result [OF e, of can_alloc dst] assms(2)
    by (auto simp: git__tsort_def git_cmp.sorted_result_def [OF e])
  have "set d = set dst" by (rule mset_eq_setD [OF d(2)])
  then have "sorted_by c d"
    using d(3) unfolding sorted_by_def e_def by (intro sorted_wrt_mono_rel [of d _ "\<lambda>a b. c a b \<le> 0"]) (auto simp: extend_cmp_def)
  then show ?thesis using that d by blast
qed

end
