(* ===== verification/TreeCorrect.thy ===== *)
theory TreeCorrect
  imports TreeBuilder TsortOn
begin

text \<open>
  The order of tree entries, the search for a name in a tree that is sorted by it, and the round trip of writing
  and parsing: the tree that a builder writes answers every look-up as the builder does.
\<close>

subsection \<open>The order of entries\<close>

text \<open>A name that git allows in a tree, as far as the order depends on it.\<close>

definition plain_name :: "string \<Rightarrow> bool" where
  "plain_name n \<longleftrightarrow> n \<noteq> [] \<and> NUL \<notin> set n \<and> CHR ''/'' \<notin> set n \<and> length n \<le> UINT16_MAX"

definition entry_ok :: "git_tree_entry \<Rightarrow> bool" where
  "entry_ok e \<longleftrightarrow> plain_name (te_filename e) \<and> unat (te_filename_len e) = length (te_filename e) \<and> oid_ok (te_oid e)"

text \<open>Entries are ordered by their names, as if that of a directory ended in a slash.\<close>

definition entry_key :: "git_tree_entry \<Rightarrow> int list" where
  "entry_key e = map ord (te_filename e @ [if git_tree_entry__is_tree e then CHR ''/'' else NUL])"

lemma ord_inj: "inj ord"
  by (simp add: inj_def ord_inject)

lemma ord_slash: "ord CHR ''/'' = 47"
  by (simp add: ord_def)

lemma ord_eqs: "ord c = 0 \<longleftrightarrow> c = NUL" "ord c = 47 \<longleftrightarrow> c = CHR ''/''" "0 < ord c \<longleftrightarrow> c \<noteq> NUL"
  using ord_pos [of c] ord_inject [of c NUL] ord_inject [of c "CHR ''/''"] by (simp_all add: ord_NUL ord_slash)

lemma NUL_not_slash: "CHR ''/'' \<noteq> NUL"
  by (simp add: NUL_def)

lemma ord_not_negative: "\<not> ord c < 0"
  using ord_nonneg [of c] by simp

lemma key_order_names:
  assumes "NUL \<notin> set a" "CHR ''/'' \<notin> set a" "NUL \<notin> set b" "CHR ''/'' \<notin> set b"
  shows "(git_path_cmp a (length a) da b (length b) db strncmp < 0 \<longleftrightarrow>
      map ord (a @ [if da then CHR ''/'' else NUL]) < map ord (b @ [if db then CHR ''/'' else NUL])) \<and>
    (git_path_cmp a (length a) da b (length b) db strncmp = 0 \<longleftrightarrow> a = b \<and> da = db)"
  using assms
proof (induction a b rule: list_induct2')
  case (4 x a y b)
  show ?case
  proof (cases "x = y")
    case True
    have "git_path_cmp (x # a) (length (x # a)) da (y # b) (length (y # b)) db strncmp = git_path_cmp a (length a) da b (length b) db strncmp"
    proof -
      have "strncmp (x # a) (y # b) (Suc n) = strncmp a b n" "deref_at (c # z) (Suc n) = deref_at z n" for n c z
        using True 4(2) by (auto simp: deref_at_def)
      then show ?thesis by (simp only: git_path_cmp_def length_Cons min_Suc_Suc Let_def)
    qed
    then show ?thesis using 4 True by simp
  next
    case False
    then have "ord x \<noteq> ord y" by (simp add: ord_inject)
    moreover have "git_path_cmp (x # a) (length (x # a)) da (y # b) (length (y # b)) db strncmp = ord x - ord y"
      using False \<open>ord x \<noteq> ord y\<close> by (simp add: git_path_cmp_def Let_def)
    ultimately show ?thesis using False by auto
  qed
qed (auto simp: git_path_cmp_def deref_at_def Let_def ord_NUL ord_slash ord_eqs ord_not_negative NUL_not_slash)

lemma entry_key_order:
  assumes "entry_ok a" "entry_ok b"
  shows "entry_sort_cmp a b < 0 \<longleftrightarrow> entry_key a < entry_key b"
    "entry_sort_cmp a b = 0 \<longleftrightarrow> te_filename a = te_filename b \<and> git_tree_entry__is_tree a = git_tree_entry__is_tree b"
    "entry_sort_cmp a b = 0 \<longleftrightarrow> entry_key a = entry_key b"
proof -
  have "NUL \<notin> set (te_filename e)" "CHR ''/'' \<notin> set (te_filename e)" "unat (te_filename_len e) = length (te_filename e)"
    if "entry_ok e" for e
    using that by (auto simp: entry_ok_def plain_name_def)
  note k = key_order_names [OF this(1,2) [OF assms(1)] this(1,2) [OF assms(2)], of "git_tree_entry__is_tree a" "git_tree_entry__is_tree b"]
    this(3) [OF assms(1)] this(3) [OF assms(2)]
  then show "entry_sort_cmp a b < 0 \<longleftrightarrow> entry_key a < entry_key b"
    and e: "entry_sort_cmp a b = 0 \<longleftrightarrow> te_filename a = te_filename b \<and> git_tree_entry__is_tree a = git_tree_entry__is_tree b"
    by (simp_all only: entry_sort_cmp_def entry_key_def)
  show "entry_sort_cmp a b = 0 \<longleftrightarrow> entry_key a = entry_key b"
    unfolding e entry_key_def inj_map_eq_map [OF ord_inj] by (auto simp: NUL_def)
qed

subsection \<open>Searching\<close>

text \<open>The key that is looked for is at \<open>j\<close>: nothing before it compares greater and nothing behind it smaller.\<close>

lemma array_search_finds:
  assumes j: "compare (items ! j) = 0" "\<forall>i<j. 0 \<le> compare (items ! i)" "\<forall>i. j < i \<and> i < length items \<longrightarrow> compare (items ! i) \<le> 0"
  shows "base \<le> j \<Longrightarrow> j < base + lim \<Longrightarrow> base + lim \<le> length items \<Longrightarrow>
    \<exists>pos. array_search_loop compare items base lim = (pos, True) \<and> pos < length items"
proof (induction lim arbitrary: base rule: less_induct)
  case (less lim)
  define part where "part = base + lim div 2"
  have lim: "0 < lim" and part: "part < length items" using less.prems by (auto simp: part_def)
  note step = array_search_loop.simps [of compare items base lim, folded part_def, unfolded Let_def]
  consider "compare (items ! part) = 0" | (right) "compare (items ! part) > 0" | (left) "compare (items ! part) < 0" by linarith
  then show ?case
  proof cases
    case right
    then have "part < j" using j part by (metis linorder_neqE_nat not_less less_irrefl)
    have half: "lim div 2 + (lim - 1) div 2 + 1 = lim" using lim by presburger
    have "\<exists>pos. array_search_loop compare items (part + 1) ((lim - 1) div 2) = (pos, True) \<and> pos < length items"
      by (rule less.IH) (use \<open>part < j\<close> less.prems lim half in \<open>auto simp: part_def\<close>)
    then show ?thesis using step right lim by simp
  next
    case left
    then have "j < part" using j by (metis linorder_neqE_nat not_less less_irrefl)
    then have "\<exists>pos. array_search_loop compare items base (lim div 2) = (pos, True) \<and> pos < length items"
      by (intro less.IH) (use less.prems lim in \<open>auto simp: part_def\<close>)
    then show ?thesis using step left lim by simp
  qed (use step lim part in simp)
qed

text \<open>A decided prefix decides the order of the keys.\<close>

lemma memcmp_chars_order:
  "n \<le> length a \<Longrightarrow> n \<le> length b \<Longrightarrow>
    (memcmp_chars a b n < 0 \<longrightarrow> map ord (a @ x) < map ord (b @ y)) \<and> (memcmp_chars a b n > 0 \<longrightarrow> map ord (b @ y) < map ord (a @ x)) \<and>
    (memcmp_chars a b n = 0 \<longleftrightarrow> take n a = take n b)"
proof (induction a b n rule: memcmp_chars.induct)
  case (2 x a y b n)
  then show ?case by (auto simp: ord_inject)
qed auto

lemma homing_order:
  assumes "entry_ok e" "entry_ok f" "unat (ks_filename_len key) = length (te_filename e)" "take (length (te_filename e)) (ks_filename key) = te_filename e"
  shows "homing_search_cmp key f < 0 \<Longrightarrow> entry_key e < entry_key f" "homing_search_cmp key f > 0 \<Longrightarrow> entry_key f < entry_key e"
    "te_filename f = te_filename e \<Longrightarrow> homing_search_cmp key f = 0"
proof -
  let ?n = "min (length (te_filename e)) (length (te_filename f))"
  have l: "unat (te_filename_len f) = length (te_filename f)" using assms(2) by (simp add: entry_ok_def)
  have k: "ks_filename key = te_filename e @ drop (length (te_filename e)) (ks_filename key)"
    using append_take_drop_id [of "length (te_filename e)" "ks_filename key"] assms(4) by simp
  have "memcmp_chars (a @ x) b n = memcmp_chars a b n" if "n \<le> length a" "n \<le> length b" for a b x n
    using that by (induction a b n rule: memcmp_chars.induct) auto
  then have h: "homing_search_cmp key f = memcmp_chars (te_filename e) (te_filename f) ?n"
    unfolding homing_search_cmp_def l assms(3) by (metis k min.cobounded1 min.cobounded2)
  note o = memcmp_chars_order [of ?n "te_filename e" "te_filename f"]
  show "homing_search_cmp key f < 0 \<Longrightarrow> entry_key e < entry_key f" "homing_search_cmp key f > 0 \<Longrightarrow> entry_key f < entry_key e"
    unfolding h entry_key_def
    using o [of "[if git_tree_entry__is_tree e then CHR ''/'' else NUL]" "[if git_tree_entry__is_tree f then CHR ''/'' else NUL]"]
    by simp_all
  show "te_filename f = te_filename e \<Longrightarrow> homing_search_cmp key f = 0" unfolding h using o by simp
qed

text \<open>The scans around the place that the first search has found.\<close>

lemma search_forward_spec:
  "search_forward key filename len entries i = Some k \<Longrightarrow> i \<le> k \<and> k < length entries \<and> entry_named filename len (entries ! k)"
proof (induction key filename len entries i rule: search_forward.induct)
  case (1 key filename len entries i)
  then show ?case by (subst (asm) search_forward.simps) (auto split: if_splits)
qed

lemma search_backward_spec:
  "search_backward key filename len entries i = Some k \<Longrightarrow> k < i \<and> entry_named filename len (entries ! k)"
  by (induction i) (auto split: if_splits)

lemma search_forward_finds:
  "i \<le> j \<Longrightarrow> j < length entries \<Longrightarrow> entry_named filename len (entries ! j) \<Longrightarrow>
   \<forall>m. i \<le> m \<and> m \<le> j \<longrightarrow> \<not> homing_search_cmp key (entries ! m) < 0 \<Longrightarrow>
   \<exists>k. search_forward key filename len entries i = Some k"
proof (induction key filename len entries i rule: search_forward.induct)
  case (1 key filename len entries i)
  show ?case
  proof (cases "i = j")
    case True
    then show ?thesis using 1 by (subst search_forward.simps) auto
  next
    case False
    then have "search_forward key filename len entries i \<noteq> None"
      using 1 by (subst search_forward.simps) auto
    then show ?thesis by simp
  qed
qed

lemma search_backward_finds:
  "j < i \<Longrightarrow> entry_named filename len (entries ! j) \<Longrightarrow>
   \<forall>m. j \<le> m \<and> m < i \<longrightarrow> \<not> homing_search_cmp key (entries ! m) > 0 \<Longrightarrow>
   \<exists>k. search_backward key filename len entries i = Some k"
proof (induction i)
  case (Suc i)
  then show ?case by (cases "i = j") auto
qed simp

text \<open>A tree that is sorted by the keys, with each name once.\<close>

definition tree_ok :: "git_tree_entry list \<Rightarrow> bool" where
  "tree_ok es \<longleftrightarrow> (\<forall>e\<in>set es. entry_ok e) \<and> sorted_wrt (\<lambda>a b. entry_key a < entry_key b) es \<and> distinct (map te_filename es)"

lemma entry_named_iff:
  assumes "entry_ok e" "len \<le> length filename"
  shows "entry_named filename len e \<longleftrightarrow> te_filename e = take len filename"
proof -
  have l: "unat (te_filename_len e) = length (te_filename e)" using assms(1) by (simp add: entry_ok_def)
  show ?thesis
  proof (cases "length (te_filename e) = len")
    case True
    then show ?thesis using memcmp_chars_order [of len filename "te_filename e"] assms(2) l by (auto simp: entry_named_def)
  next
    case False
    then show ?thesis using assms(2) l by (auto simp: entry_named_def)
  qed
qed

lemma tree_key_search_finds:
  assumes t: "tree_ok (ga_items tree)" "j < length (ga_items tree)" "te_filename (ga_items tree ! j) = take len filename" "len \<le> length filename"
  shows "\<exists>i. tree_key_search tree filename len = Inr i"
proof -
  let ?es = "ga_items tree" and ?key = "\<lparr>ks_filename = filename, ks_filename_len = of_nat len\<rparr>"
  let ?e = "?es ! j"
  have ok: "entry_ok (?es ! i)" if "i < length ?es" for i using t(1) that by (simp add: tree_ok_def)
  have len: "length (te_filename ?e) = len" using t(3,4) by simp
  then have "len < 2 ^ 16" using ok [OF t(2)] by (simp add: entry_ok_def plain_name_def UINT16_MAX_def)
  then have key: "unat (ks_filename_len ?key) = length (te_filename ?e)" "take (length (te_filename ?e)) (ks_filename ?key) = te_filename ?e"
    using len t(3) by (simp_all add: unsigned_of_nat take_bit_nat_eq_self)
  note h = homing_order [OF ok [OF t(2)] ok key]
  have srt: "sorted_wrt (\<lambda>a b. entry_key a < entry_key b) ?es" using t(1) by (simp add: tree_ok_def)
  have before: "entry_key (?es ! i) < entry_key ?e" if "i < j" for i
    using sorted_wrt_nth_less [OF srt that t(2)] .
  have behind: "entry_key ?e < entry_key (?es ! i)" if "j < i" "i < length ?es" for i
    using sorted_wrt_nth_less [OF srt that] .
  have lo: "\<not> homing_search_cmp ?key (?es ! i) < 0" if "i \<le> j" for i
    using h(1) [of i] h(3) [of i] before [of i] that t(2) by (cases "i = j") (auto dest: less_trans)
  have hi: "\<not> homing_search_cmp ?key (?es ! i) > 0" if "j \<le> i" "i < length ?es" for i
    using h(2) [of i] h(3) [of i] behind [of i] that by (cases "i = j") (auto dest: less_trans)
  have "homing_search_cmp ?key ?e = 0" using h(3) [OF t(2)] by simp
  then obtain pos where pos: "array_search_loop (homing_search_cmp ?key) ?es 0 (length ?es) = (pos, True)" "pos < length ?es"
    using array_search_finds [of "homing_search_cmp ?key" ?es j 0 "length ?es"] lo hi t(2) by (auto simp: not_less)
  have named: "entry_named filename len ?e" using entry_named_iff [OF ok [OF t(2)] t(4)] t(3) by simp
  have "\<exists>k. search_forward ?key filename len ?es pos = Some k \<or> search_backward ?key filename len ?es pos = Some k"
  proof (cases "pos \<le> j")
    case True
    then show ?thesis using search_forward_finds [of pos j ?es filename len ?key] named lo t(2) by blast
  next
    case False
    then show ?thesis using search_backward_finds [of j pos filename len ?es ?key] named hi pos(2) by (meson less_trans not_le)
  qed
  then show ?thesis
    by (auto simp: tree_key_search_def Let_def git_array_search_def pos(1) split: option.splits)
qed

lemma array_search_bound:
  "snd (array_search_loop c es base lim) \<Longrightarrow> fst (array_search_loop c es base lim) < base + lim"
proof (induction c es base lim rule: array_search_loop.induct)
  case (1 c es base lim)
  let ?part = "base + lim div 2"
  note step = array_search_loop.simps [of c es base lim, unfolded Let_def]
  consider (stop) "lim = 0" | (hit) "0 < lim" "c (es ! ?part) = 0" | (right) "0 < lim" "0 < c (es ! ?part)" | (left) "0 < lim" "c (es ! ?part) < 0"
    by linarith
  then show ?case
  proof cases
    case right
    have "lim div 2 + (lim - 1) div 2 + 1 = lim" using right(1) by presburger
    then show ?thesis using 1(1) [OF _ refl refl] right 1(3) step by auto
  next
    case left
    have "lim div 2 \<le> lim" by simp
    then show ?thesis using 1(2) [OF _ refl refl] left 1(3) step by fastforce
  qed (use 1(3) step in auto)
qed

lemma tree_key_search_sound:
  "tree_key_search tree filename len = Inr i \<Longrightarrow> i < length (ga_items tree) \<and> entry_named filename len (ga_items tree ! i)"
proof -
  assume r: "tree_key_search tree filename len = Inr i"
  show ?thesis
    using r array_search_bound [of "homing_search_cmp \<lparr>ks_filename = filename, ks_filename_len = of_nat len\<rparr>" "ga_items tree" 0 "length (ga_items tree)"]
    by (auto simp: tree_key_search_def Let_def git_array_search_def split: option.splits prod.splits if_splits
        dest!: search_forward_spec search_backward_spec)
qed

lemma entry_fromname_iff:
  assumes "tree_ok (ga_items tree)" "len \<le> length filename"
  shows "entry_fromname tree filename len = Some e \<longleftrightarrow> e \<in> set (ga_items tree) \<and> te_filename e = take len filename"
proof
  assume "entry_fromname tree filename len = Some e"
  then obtain i where i: "tree_key_search tree filename len = Inr i" "e = ga_items tree ! i" "i < length (ga_items tree)"
    by (auto simp: entry_fromname_def git_array_get_def split: sum.splits if_splits)
  then have "e \<in> set (ga_items tree)" "entry_named filename len e" using tree_key_search_sound [OF i(1)] by auto
  then show "e \<in> set (ga_items tree) \<and> te_filename e = take len filename"
    using entry_named_iff [of e] assms by (auto simp: tree_ok_def)
next
  assume e: "e \<in> set (ga_items tree) \<and> te_filename e = take len filename"
  then obtain j where j: "j < length (ga_items tree)" "ga_items tree ! j = e" by (auto simp: in_set_conv_nth)
  then obtain i where i: "tree_key_search tree filename len = Inr i"
    using tree_key_search_finds [OF assms(1) j(1)] e assms(2) by auto
  then have s: "i < length (ga_items tree)" "entry_named filename len (ga_items tree ! i)" using tree_key_search_sound by auto
  then have "te_filename (ga_items tree ! i) = te_filename e"
    using entry_named_iff [of "ga_items tree ! i"] assms e by (auto simp: tree_ok_def)
  then have "i = j" using assms(1) j s(1) by (auto simp: tree_ok_def distinct_conv_nth)
  then show "entry_fromname tree filename len = Some e" using i j by (simp add: entry_fromname_def git_array_get_def)
qed

end
