(* ===== verification/TreeWrite.thy ===== *)
theory TreeWrite
  imports TreeCorrect
begin

text \<open>What a tree builder writes, and that parsing it gives back its entries in order.\<close>

subsection \<open>Writing that stops for want of memory\<close>

text \<open>Like \<open>fills\<close>, for a function that looks whether memory ran out.\<close>

definition writes :: "buf_env \<Rightarrow> string \<Rightarrow> unit buf \<Rightarrow> bool" where
  "writes env s m \<longleftrightarrow> (\<forall>b. buf_ok b \<and> \<not> borrowed b \<and> \<not> git_buf_oom b \<and> b_size b + length s < SMALL \<longrightarrow>
     (\<exists>b1. m b = Some (Inr (), b1) \<and> buf_ok b1 \<and> \<not> borrowed b1 \<and> \<not> git_buf_oom b1 \<and> contents b1 = contents b @ s) \<or>
     (\<exists>b1. m b = Some (Inl GIT_ERROR, b1) \<and> refuses env))"

lemma writes_ret: "writes env [] (ret ())"
  by (simp add: writes_def ret_def)

lemma writes_bnd:
  assumes "writes env s m" "writes env t k"
  shows "writes env (s @ t) (bnd m (\<lambda>_. k))"
  unfolding writes_def
proof (intro allI impI, elim conjE)
  fix b assume b: "buf_ok b" "\<not> borrowed b" "\<not> git_buf_oom b" "b_size b + length (s @ t) < SMALL"
  then consider (ok) b1 where "m b = Some (Inr (), b1)" "buf_ok b1" "\<not> borrowed b1" "\<not> git_buf_oom b1" "contents b1 = contents b @ s"
    | (err) b1 where "m b = Some (Inl GIT_ERROR, b1)" "refuses env"
    using assms(1) unfolding writes_def by fastforce
  then show "(\<exists>b1. bnd m (\<lambda>_. k) b = Some (Inr (), b1) \<and> buf_ok b1 \<and> \<not> borrowed b1 \<and> \<not> git_buf_oom b1 \<and> contents b1 = contents b @ s @ t) \<or>
      (\<exists>b1. bnd m (\<lambda>_. k) b = Some (Inl GIT_ERROR, b1) \<and> refuses env)"
  proof cases
    case ok
    have "b_size b1 = b_size b + length s"
      using length_contents [OF ok(2,4)] length_contents [OF b(1,3)] ok(5) by simp
    then have "b_size b1 + length t < SMALL" using b(4) by simp
    then show ?thesis using assms(2) ok unfolding writes_def by (fastforce simp: bnd_def)
  qed (auto simp: bnd_def)
qed

lemma writes_for_each: "(\<And>c. c \<in> set cs \<Longrightarrow> writes env (f c) (m c)) \<Longrightarrow> writes env (concat (map f cs)) (for_each m cs)"
proof (induction cs)
  case (Cons c cs)
  then show ?case using writes_bnd [of env "f c" "m c"] by simp
qed (simp add: writes_ret)

lemma writes_checked:
  assumes "fills env s m"
  shows "writes env s (bnd m (\<lambda>_. bnd get_state (\<lambda>b. if git_buf_oom b then fail GIT_ERROR else ret ())))"
  unfolding writes_def
proof (intro allI impI, elim conjE)
  fix b assume b: "buf_ok b" "\<not> borrowed b" "\<not> git_buf_oom b" "b_size b + length s < SMALL"
  then obtain b1 where "m b = Some (Inr (), b1)" "buf_ok b1" "\<not> borrowed b1"
    "if git_buf_oom b1 then git_buf_oom b \<or> refuses env else \<not> git_buf_oom b \<and> contents b1 = contents b @ s"
    using assms unfolding fills_def by blast
  then show "(\<exists>b1. bnd m (\<lambda>_. bnd get_state (\<lambda>b. if git_buf_oom b then fail GIT_ERROR else ret ())) b = Some (Inr (), b1) \<and>
        buf_ok b1 \<and> \<not> borrowed b1 \<and> \<not> git_buf_oom b1 \<and> contents b1 = contents b @ s) \<or>
      (\<exists>b1. bnd m (\<lambda>_. bnd get_state (\<lambda>b. if git_buf_oom b then fail GIT_ERROR else ret ())) b = Some (Inl GIT_ERROR, b1) \<and> refuses env)"
    using b(3) by (auto simp: bnd_def get_state_def fail_def ret_def split: if_splits)
qed

subsection \<open>The text of an entry\<close>

definition entry_text :: "git_tree_entry \<Rightarrow> string" where
  "entry_text e = octal_text (unat (te_attr e)) @ '' '' @ te_filename e @ [NUL] @ oid_chars (te_oid e)"

lemma write_entry_writes:
  assumes "env_ok env" "entry_ok e"
  shows "writes env (entry_text e) (write_entry env e)"
proof -
  have n: "unat (te_filename_len e) = length (te_filename e)" "length (oid_chars (te_oid e)) = GIT_OID_RAWSZ"
    using assms(2) by (simp_all add: entry_ok_def oid_ok_def oid_chars_def)
  have t: "take (unat (te_filename_len e) + 1) (te_filename e @ [NUL]) = te_filename e @ [NUL]"
    "take GIT_OID_RAWSZ (oid_chars (te_oid e)) = oid_chars (te_oid e)" using n by simp_all
  have "fills env (entry_text e) (bnd (ignore (git_buf_printf env 3 (Some (octal_text (unat (te_attr e)) @ '' '')))) (\<lambda>_.
      bnd (ignore (git_buf_put env (te_filename e @ [NUL]))) (\<lambda>_. ignore (git_buf_put env (oid_chars (te_oid e))))))"
    using fills_bnd [OF fills_printf [OF assms(1)] fills_bnd [OF fills_put [OF assms(1)] fills_put [OF assms(1)]],
        of 3 "octal_text (unat (te_attr e)) @ '' ''" "te_filename e @ [NUL]" "oid_chars (te_oid e)"]
    by (simp add: SMALL_def entry_text_def)
  from writes_checked [OF this] show ?thesis unfolding write_entry_def t bnd_assoc .
qed

subsection \<open>Parsing\<close>

lemma octal_reads:
  "parse_mode (octal_text (unat (w :: u16)) @ '' '' @ rest) = Inr (w, Some ('' '' @ rest))"
proof -
  have b: "unat w < 2 ^ 16" using unsigned_less [of w, where ?'a = nat] by simp
  have o: "is_numeral 8 (octal_text (unat w))" "number 8 (octal_text (unat w)) = int (unat w)"
    using radix_is_numeral [of 8 "unat w"] number_radix [of 8 "unat w"] by (simp_all add: octal_text_def)
  then obtain c cs where c: "octal_text (unat w) = c # cs" "48 \<le> ord c" "ord c \<le> 57"
    using numeral_chars [OF o(1)] by (cases "octal_text (unat w)") (auto simp: is_numeral_def)
  have ns: "\<not> git__isspace c" using c(2,3) by (auto simp: git__isspace_def ord_def)
  have u: "int (unat w) = uint w" "uint w < 2 ^ 16" "0 \<le> uint w" using unsigned_less [of w, where ?'a = int] by simp_all
  have "git__strntol32 (octal_text (unat w) @ '' '' @ rest) 8 = (Inr (uint w), Some ('' '' @ rest))"
    using strntol32_numeral [OF o(1), of "'' '' @ rest"] o(2) u by simp
  then have "git__strntol32 (c # cs @ '' '' @ rest) 8 = (Inr (uint w), Some ('' '' @ rest))" by (simp add: c(1))
  then show ?thesis using u ns unfolding parse_mode_def c(1) by (simp add: UINT16_MAX_def)
qed

lemma oid_chars_back: "GitOid (map of_char (oid_chars oid)) = oid"
proof (cases oid)
  case (GitOid bs)
  have "(of_char (char_of (unat b)) :: u8) = b" for b :: u8
  proof -
    have "unat b < 256" using unsigned_less [of b, where ?'a = nat] by simp
    then have "of_nat (of_char (char_of (unat b)) :: nat) = b" by simp
    then show ?thesis by (simp only: of_nat_of_char)
  qed
  then show ?thesis by (simp add: GitOid oid_chars_def comp_def)
qed

lemma parse_entry:
  assumes "entry_ok e"
  shows "parse_entries (\<lambda>_. True) arr (entry_text e @ rest) =
    (case git_array_alloc (\<lambda>_. True) arr e of Inl err \<Rightarrow> Inl GIT_ERROR | Inr arr1 \<Rightarrow> parse_entries (\<lambda>_. True) arr1 rest)"
proof -
  define name z where "name = te_filename e" and "z = oid_chars (te_oid e)"
  have ok: "name \<noteq> []" "NUL \<notin> set name" "length name \<le> UINT16_MAX" "length z = GIT_OID_RAWSZ" "GitOid (map of_char z) = te_oid e"
    "unat (te_filename_len e) = length name"
    using assms oid_chars_back [of "te_oid e"] by (auto simp: entry_ok_def plain_name_def name_def z_def oid_ok_def oid_chars_def)
  have len: "of_nat (length name) = te_filename_len e" by (simp flip: ok(6))
  have et: "entry_text e @ rest = octal_text (unat (te_attr e)) @ '' '' @ (name @ NUL # z @ rest)"
    by (simp add: entry_text_def name_def z_def)
  have ne: "octal_text (unat (te_attr e)) \<noteq> []"
    using radix_is_numeral [of 8 "unat (te_attr e)"] by (simp add: octal_text_def is_numeral_def)
  have nul: "memchr (name @ NUL # z @ rest) NUL = Some (length name)" by (rule memchr_hit [OF ok(2)])
  have e: "e = \<lparr>te_attr = te_attr e, te_filename_len = of_nat (length name), te_oid = GitOid (map of_char z), te_filename = name\<rparr>"
    by (rule git_tree_entry.equality) (simp_all add: len ok(5), simp add: name_def)
  have parts: "drop (length name + 1) (name @ NUL # z @ rest) = z @ rest" "take (length name) (name @ NUL # z @ rest) = name"
    "drop (length name + 1 + GIT_OID_RAWSZ) (name @ NUL # z @ rest) = rest" "take GIT_OID_RAWSZ (z @ rest) = z"
    using ok(4) by simp_all
  show ?thesis
    unfolding et parse_entries.simps [of _ _ "octal_text (unat (te_attr e)) @ '' '' @ name @ NUL # z @ rest"] octal_reads
    using ne ok(1,3,4) nul parts e by (simp, use ok(4) in \<open>simp split: sum.split\<close>)
qed

lemma parse_entries_text:
  "\<forall>e\<in>set es. entry_ok e \<Longrightarrow> length (ga_items arr) + length es < 2 ^ 60 \<Longrightarrow>
   \<exists>arr1. parse_entries (\<lambda>_. True) arr (concat (map entry_text es)) = Inr arr1 \<and> ga_items arr1 = ga_items arr @ es"
proof (induction es arbitrary: arr)
  case Nil
  then show ?case by (simp add: parse_entries.simps)
next
  case (Cons e es)
  have "\<exists>arr1. git_array_alloc (\<lambda>_. True) arr e = Inr arr1 \<and> ga_items arr1 = ga_items arr @ [e]"
    using Cons.prems(2) by (auto simp: git_array_alloc_def git_array_grow_def Let_def SIZE_MAX_def)
  then obtain arr1 where a: "git_array_alloc (\<lambda>_. True) arr e = Inr arr1" "ga_items arr1 = ga_items arr @ [e]" by blast
  then show ?case using Cons.IH [of arr1] Cons.prems parse_entry [of e arr "concat (map entry_text es)"] by simp
qed

subsection \<open>The builder\<close>

lemma insert_entries_all:
  assumes "\<forall>n. can_alloc n"
  shows "\<exists>v1. insert_entries can_alloc v es = Inr v1 \<and> v_contents v1 = v_contents v @ es \<and> v_cmp v1 = v_cmp v \<and>
    (git_vector_is_sorted v1 \<longrightarrow> length (v_contents v1) \<le> 1 \<or> es = [] \<and> git_vector_is_sorted v)"
proof (induction es arbitrary: v)
  case (Cons e es)
  have "\<exists>v1. git_vector_insert can_alloc v e = Inr v1 \<and> v_contents v1 = v_contents v @ [e] \<and> v_cmp v1 = v_cmp v \<and>
      git_vector_is_sorted v1 = (length (v_contents v1) \<le> 1)"
    using assms by (auto simp: git_vector_insert_def grow_for_insert_def resize_vector_def Let_def)
  then obtain v1 where v1: "git_vector_insert can_alloc v e = Inr v1" "v_contents v1 = v_contents v @ [e]" "v_cmp v1 = v_cmp v"
    "git_vector_is_sorted v1 = (length (v_contents v1) \<le> 1)" by blast
  then show ?case using Cons.IH [of v1] by auto
qed simp

lemma entry_cmp_on: "\<forall>e\<in>X. entry_ok e \<Longrightarrow> cmp_on X entry_sort_cmp"
  unfolding cmp_on_def
proof (intro ballI conjI impI)
  fix a b assume X: "\<forall>e\<in>X. entry_ok e" and a: "a \<in> X" "b \<in> X"
  then have ok: "entry_ok a" "entry_ok b" by auto
  have le: "entry_sort_cmp x y \<le> 0 \<longleftrightarrow> entry_key x \<le> entry_key y" if "entry_ok x" "entry_ok y" for x y
    using entry_key_order(1,3) [OF that] by (metis order_le_less)
  show "0 < entry_sort_cmp a b \<longleftrightarrow> entry_sort_cmp b a < 0"
    using le [OF ok] entry_key_order(1) [OF ok(2,1)] by auto
  show "entry_sort_cmp a d \<le> 0" if "d \<in> X" "entry_sort_cmp a b \<le> 0 \<and> entry_sort_cmp b d \<le> 0" for d
    using that X ok le [of a b] le [of b d] le [of a d] by auto
qed

lemma sorted_tree_ok:
  assumes "\<forall>e\<in>set es. entry_ok e" "distinct (map te_filename es)" "sorted_by entry_sort_cmp d" "mset d = mset es"
  shows "tree_ok d"
proof -
  have s: "set d = set es" by (rule mset_eq_setD [OF assms(4)])
  have "mset (map te_filename d) = mset (map te_filename es)" using assms(4) by simp
  then have dist: "distinct (map te_filename d)" using assms(2) by (metis mset_eq_imp_distinct_iff)
  have "entry_key (d ! i) < entry_key (d ! j)" if "i < j" "j < length d" for i j
  proof -
    have ok: "entry_ok (d ! i)" "entry_ok (d ! j)" using that assms(1) s by (metis nth_mem order_less_trans)+
    have "te_filename (d ! i) \<noteq> te_filename (d ! j)"
      using nth_eq_iff_index_eq [OF dist, of i j] that by simp
    then have "entry_sort_cmp (d ! i) (d ! j) \<noteq> 0" using entry_key_order(2) [OF ok] by simp
    moreover have "entry_sort_cmp (d ! i) (d ! j) \<le> 0" using sorted_by_nth [OF assms(3) that] .
    ultimately show ?thesis using entry_key_order(1) [OF ok] by simp
  qed
  then show ?thesis using assms(1) s dist by (simp add: tree_ok_def sorted_wrt_iff_nth_less)
qed

lemma sort_entries:
  assumes "\<forall>e\<in>set es. entry_ok e" "distinct (map te_filename es)" "\<forall>n. can_alloc n"
  obtains v0 v1 v2 where "git_vector_init can_alloc n (Some entry_sort_cmp) = Inr v0" "insert_entries can_alloc v0 es = Inr v1"
    "git_vector_sort can_alloc v1 = Some v2" "tree_ok (v_contents v2)" "mset (v_contents v2) = mset es"
proof -
  define v0 :: "git_tree_entry git_vector" where
    "v0 = \<lparr>v_alloc_size = max n MIN_ALLOCSIZE, v_cmp = Some entry_sort_cmp, v_contents = [], v_flags = GIT_VECTOR_SORTED\<rparr>"
  have v0: "git_vector_init can_alloc n (Some entry_sort_cmp) = Inr v0"
    using assms(3) by (simp add: git_vector_init_def resize_vector_def v0_def MIN_ALLOCSIZE_def)
  obtain v1 where v1: "insert_entries can_alloc v0 es = Inr v1" "v_contents v1 = es" "v_cmp v1 = Some entry_sort_cmp"
    "git_vector_is_sorted v1 \<longrightarrow> length es \<le> 1 \<or> es = []"
    using insert_entries_all [OF assms(3), of v0 es] by (auto simp: v0_def)
  obtain d where d: "git__tsort can_alloc entry_sort_cmp es = Some d" "mset d = mset es" "sorted_by entry_sort_cmp d"
    using tsort_on [OF entry_cmp_on assms(3)] assms(1) by blast
  have short: "sorted_by entry_sort_cmp es" if "length es \<le> 1" using that by (cases es) auto
  have "\<exists>v2. git_vector_sort can_alloc v1 = Some v2 \<and> sorted_by entry_sort_cmp (v_contents v2) \<and> mset (v_contents v2) = mset es"
    using v1 d short by (cases "length es \<le> 1") (auto simp: git_vector_sort_def)
  then show ?thesis using that [OF v0 v1(1)] sorted_tree_ok [OF assms(1,2)] by blast
qed

lemma grow_init:
  assumes "env_ok env" "m < 4 * SMALL"
  shows "(\<exists>b1. git_buf_grow env m GIT_BUF_INIT = Some (Inr (), b1) \<and> buf_ok b1 \<and> \<not> borrowed b1 \<and> \<not> git_buf_oom b1 \<and> contents b1 = []) \<or>
    (\<exists>e b1. git_buf_grow env m GIT_BUF_INIT = Some (Inl e, b1) \<and> refuses env)"
proof (cases "m = 0")
  case True
  then show ?thesis
    by (intro disjI1 exI [of _ GIT_BUF_INIT]) (simp add: git_buf_grow_def git_buf_try_grow_def Let_def borrowed_def, simp add: GIT_BUF_INIT_def)
next
  case False
  have a: "b_asize GIT_BUF_INIT = 0" "b_ptr GIT_BUF_INIT \<noteq> git_buf__oom" "\<not> borrowed GIT_BUF_INIT"
    by (simp_all add: GIT_BUF_INIT_def borrowed_def)
  then have e: "ENSURE_SIZE env m GIT_BUF_INIT = (case git_buf_grow env m GIT_BUF_INIT of
           None \<Rightarrow> None | Some (Inl e, b1) \<Rightarrow> Some (Inl GIT_ERROR, b1) | Some (Inr _, b1) \<Rightarrow> Some (Inr (), b1))"
    using False by (simp add: ENSURE_SIZE_def)
  show ?thesis
  proof (cases rule: ensure_cases [OF buf_ok_mem [OF buf_ok_init(1)] assms, case_names fail keep grow])
    case (fail b1)
    then show ?thesis using e a(3) by (auto split: option.splits sum.splits)
  next
    case (grow b1 cs)
    then have "\<not> git_buf_oom b1" "\<not> borrowed b1" by (simp_all add: git_buf_oom_def borrowed_def)
    then show ?thesis using e grow by (auto split: option.splits sum.splits)
  qed (use a(1) False in simp)
qed

lemma length_radix: "2 \<le> base \<Longrightarrow> n < base ^ k \<Longrightarrow> 0 < k \<Longrightarrow> length (radix_text base n) \<le> k"
proof (induction base n arbitrary: k rule: radix_text.induct)
  case (1 base n)
  show ?case
  proof (cases "n < base")
    case True
    then show ?thesis using 1(4) by (simp add: radix_text.simps [of base n])
  next
    case False
    obtain k1 where "k = Suc k1" using 1(4) by (cases k) auto
    moreover have "0 < k1" using False 1(3) calculation by (cases k1) auto
    ultimately have k1: "k = Suc k1" "0 < k1" .
    have "n div base < base ^ k1" using 1(3) k1 by (simp add: less_mult_imp_div_less mult.commute)
    then show ?thesis using 1(1) [of k1] 1(2) False k1 by (simp add: radix_text.simps [of base n])
  qed
qed

lemma length_entry_text: "entry_ok e \<Longrightarrow> length (entry_text e) \<le> 2 ^ 17"
proof -
  assume e: "entry_ok e"
  have "unat (te_attr e) < 8 ^ 6" using unsigned_less [of "te_attr e", where ?'a = nat] by simp
  then have "length (octal_text (unat (te_attr e))) \<le> 6" unfolding octal_text_def by (rule length_radix [rotated]) simp_all
  then show ?thesis using e
    by (simp add: entry_text_def entry_ok_def plain_name_def UINT16_MAX_def oid_ok_def oid_chars_def GIT_OID_RAWSZ_def)
qed

lemma length_entries_text: "\<forall>e\<in>set d. entry_ok e \<Longrightarrow> length (concat (map entry_text d)) \<le> length d * 2 ^ 17"
proof (induction d)
  case (Cons e d)
  then show ?case using length_entry_text [of e] by simp
qed simp

lemma write_from_empty:
  assumes env: "env_ok env" and mem: "\<forall>n. can_alloc n"
    and es: "\<forall>e\<in>set (iter (map snd (bld_map bld))). entry_ok e" "distinct (map te_filename (iter (map snd (bld_map bld))))"
      "length (iter (map snd (bld_map bld))) = length (bld_map bld)" "length (bld_map bld) < 2 ^ 40"
  obtains d where "tree_ok d" "mset d = mset (iter (map snd (bld_map bld)))"
    "git_treebuilder_write env can_alloc iter bld =
       Some (case db_open (bld_repo bld) of Inl e \<Rightarrow> Inl e | Inr u \<Rightarrow> db_write (bld_repo bld) GIT_OBJECT_TREE (concat (map entry_text d))) \<or>
     (\<exists>e. git_treebuilder_write env can_alloc iter bld = Some (Inl e) \<and> refuses env)"
proof -
  let ?n = "length (bld_map bld)" and ?es = "iter (map snd (bld_map bld))"
  obtain v0 v1 v2 where v: "git_vector_init can_alloc ?n (Some entry_sort_cmp) = Inr v0" "insert_entries can_alloc v0 ?es = Inr v1"
    "git_vector_sort can_alloc v1 = Some v2" "tree_ok (v_contents v2)" "mset (v_contents v2) = mset ?es"
    by (rule sort_entries [OF es(1,2) mem])
  let ?d = "v_contents v2"
  show ?thesis
  proof (rule that [OF v(4,5)])
    define finish where "finish = (\<lambda>_ :: unit. case db_open (bld_repo bld) of
                           Inl e \<Rightarrow> fail e
                         | Inr u \<Rightarrow> bnd get_state (\<lambda>b.
                             case db_write (bld_repo bld) GIT_OBJECT_TREE (contents b) of
                               Inl e \<Rightarrow> fail e
                             | Inr oid \<Rightarrow> ret oid))"
    define grow where "grow = git_buf_grow env (?n * 72)"
    have clr: "git_buf_clear GIT_BUF_INIT = Some (Inr (), GIT_BUF_INIT)"
      by (simp add: git_buf_clear_def GIT_BUF_INIT_def)
    have run: "git_treebuilder_write_with_buffer env can_alloc iter bld GIT_BUF_INIT =
        bnd grow (\<lambda>_. bnd (for_each (write_entry env) ?d) finish) GIT_BUF_INIT"
      unfolding git_treebuilder_write_with_buffer_def bnd_def [of git_buf_clear] clr option.case prod.case sum.case Let_def v
        finish_def grow_def
      by (simp add: bnd_def [of get_state] get_state_def) (simp add: GIT_BUF_INIT_def)
    have text_small: "length (concat (map entry_text ?d)) < SMALL" and ok: "\<forall>e\<in>set ?d. entry_ok e"
    proof -
      have "length ?d = ?n" using v(5) es(3) by (metis size_mset)
      moreover show ok: "\<forall>e\<in>set ?d. entry_ok e" using v(4) by (simp add: tree_ok_def)
      ultimately show "length (concat (map entry_text ?d)) < SMALL"
        using length_entries_text [OF ok] es(4) by (simp add: SMALL_def)
    qed
    have w: "writes env (concat (map entry_text ?d)) (for_each (write_entry env) ?d)"
      using ok write_entry_writes [OF env] by (intro writes_for_each) auto
    have "?n * 72 < 4 * SMALL" using es(4) by (simp add: SMALL_def)
    from grow_init [OF env this] consider (ok) b1 where "grow GIT_BUF_INIT = Some (Inr (), b1)" "buf_ok b1" "\<not> borrowed b1" "\<not> git_buf_oom b1" "contents b1 = []"
      | (err) e b1 where "grow GIT_BUF_INIT = Some (Inl e, b1)" "refuses env"
      unfolding grow_def by blast
    then show "git_treebuilder_write env can_alloc iter bld =
       Some (case db_open (bld_repo bld) of Inl e \<Rightarrow> Inl e | Inr u \<Rightarrow> db_write (bld_repo bld) GIT_OBJECT_TREE (concat (map entry_text ?d))) \<or>
     (\<exists>e. git_treebuilder_write env can_alloc iter bld = Some (Inl e) \<and> refuses env)"
    proof cases
      case ok
      have "b_size b1 = 0" using length_contents [OF ok(2,4)] ok(5) by simp
      then consider (ok2) b2 where "for_each (write_entry env) ?d b1 = Some (Inr (), b2)" "contents b2 = concat (map entry_text ?d)"
        | (err2) b2 where "for_each (write_entry env) ?d b1 = Some (Inl GIT_ERROR, b2)" "refuses env"
        using w ok text_small unfolding writes_def by fastforce
      then show ?thesis
      proof cases
        case ok2
        have "git_treebuilder_write_with_buffer env can_alloc iter bld GIT_BUF_INIT = finish () b2"
          unfolding run by (simp add: bnd_def [of grow] bnd_def [of "for_each _ _"] ok ok2)
        then show ?thesis
          unfolding git_treebuilder_write_def finish_def
          by (auto simp: bnd_def get_state_def fail_def ret_def ok2(2) split: sum.split)
      next
        case err2
        then show ?thesis unfolding git_treebuilder_write_def run by (auto simp: bnd_def ok)
      qed
    next
      case err
      then show ?thesis unfolding git_treebuilder_write_def run by (auto simp: bnd_def)
    qed
  qed
qed

subsection \<open>The tree that a builder writes\<close>

text \<open>The names of a builder are those of its entries, and each of them may stand in a tree.\<close>

definition bld_ok :: "git_treebuilder \<Rightarrow> bool" where
  "bld_ok bld \<longleftrightarrow> distinct (map fst (bld_map bld)) \<and> length (bld_map bld) < 2 ^ 40 \<and>
     (\<forall>(n, e)\<in>set (bld_map bld). te_filename e = n \<and> entry_ok e)"

lemma written_tree_answers:
  assumes "bld_ok bld" "tree_ok d" "mset d = mset (map snd (bld_map bld))" "ga_items tree = d"
  shows "git_tree_entry_byname tree name = git_treebuilder_get bld name"
proof -
  have s: "set d = snd ` set (bld_map bld)" using mset_eq_setD [OF assms(3)] by simp
  have names: "te_filename e = n" if "(n, e) \<in> set (bld_map bld)" for n e
    using assms(1) that by (auto simp: bld_ok_def)
  have "entry_fromname tree name (length name) = Some e \<longleftrightarrow> map_of (bld_map bld) name = Some e" for e
  proof -
    have "entry_fromname tree name (length name) = Some e \<longleftrightarrow> e \<in> set d \<and> te_filename e = name"
      using entry_fromname_iff [of tree "length name" name e] assms(2,4) by simp
    also have "\<dots> \<longleftrightarrow> (name, e) \<in> set (bld_map bld)" unfolding s using names by force
    also have "\<dots> \<longleftrightarrow> map_of (bld_map bld) name = Some e"
      using assms(1) by (simp add: bld_ok_def map_of_eq_Some_iff)
    finally show ?thesis .
  qed
  then show ?thesis unfolding git_tree_entry_byname_def git_treebuilder_get_def by (metis option.exhaust)
qed

text \<open>
  C37. What a tree builder writes is a tree that stands for it. In whatever order the hash table gives out the
  entries, \<open>git_treebuilder_write\<close> hands the object database one text, which \<open>git_tree__parse_raw\<close> accepts;
  the entries of the parsed tree are in the order of git, and looking up any name in it, with the binary search that has to
  cope with directories, finds exactly the entry that the builder holds under that name. Nothing is
  written only if the database refuses or memory runs out.
\<close>

theorem git_treebuilder_write_faithful:
  assumes "bld_ok bld" "\<forall>xs. mset (iter xs) = mset xs" "env_ok env" "\<forall>n. can_alloc n"
    and "db_open (bld_repo bld) = Inr ()"
  shows "\<exists>data tree. (git_treebuilder_write env can_alloc iter bld = Some (db_write (bld_repo bld) GIT_OBJECT_TREE data) \<or>
      (\<exists>e. git_treebuilder_write env can_alloc iter bld = Some (Inl e) \<and> refuses env)) \<and>
    git_tree__parse_raw (\<lambda>_. True) data = Inr tree \<and> sorted_by git_tree_entry_cmp (ga_items tree) \<and>
    (\<forall>name. git_tree_entry_byname tree name = git_treebuilder_get bld name)"
proof -
  let ?es = "iter (map snd (bld_map bld))"
  have m: "mset ?es = mset (map snd (bld_map bld))" using assms(2) by blast
  have ok: "\<forall>e\<in>set ?es. entry_ok e"
    using mset_eq_setD [OF m] assms(1) by (auto simp: bld_ok_def)
  have "map te_filename (map snd (bld_map bld)) = map fst (bld_map bld)"
    using assms(1) by (auto simp: bld_ok_def)
  then have "mset (map te_filename ?es) = mset (map fst (bld_map bld))" using m by (metis mset_map)
  then have dist: "distinct (map te_filename ?es)" using assms(1) by (metis bld_ok_def mset_eq_imp_distinct_iff)
  have len: "length ?es = length (bld_map bld)" using m by (metis length_map size_mset)
  obtain d where d: "tree_ok d" "mset d = mset ?es"
    "git_treebuilder_write env can_alloc iter bld =
       Some (case db_open (bld_repo bld) of Inl e \<Rightarrow> Inl e | Inr u \<Rightarrow> db_write (bld_repo bld) GIT_OBJECT_TREE (concat (map entry_text d))) \<or>
     (\<exists>e. git_treebuilder_write env can_alloc iter bld = Some (Inl e) \<and> refuses env)"
    using write_from_empty [where iter = iter and bld = bld, OF assms(3,4) ok dist len] assms(1) by (auto simp: bld_ok_def)
  have "length d < 2 ^ 40" using d(2) len assms(1) by (metis bld_ok_def size_mset)
  then obtain tree where tree: "git_tree__parse_raw (\<lambda>_. True) (concat (map entry_text d)) = Inr tree" "ga_items tree = d"
    using parse_entries_text [of d "\<lparr>ga_items = [], ga_asize = DEFAULT_TREE_SIZE\<rparr>"] d(1)
    by (auto simp: git_tree__parse_raw_def git_array_init_to_size_def tree_ok_def)
  have "sorted_by git_tree_entry_cmp d"
    using d(1) unfolding sorted_by_def git_tree_entry_cmp_def tree_ok_def
    by (auto intro: sorted_wrt_mono_rel [of d "\<lambda>a b. entry_key a < entry_key b"] simp: entry_key_order(1) less_imp_le)
  moreover have "git_tree_entry_byname tree name = git_treebuilder_get bld name" for name
    using written_tree_answers [OF assms(1) d(1) _ tree(2)] d(2) m by simp
  ultimately show ?thesis using d(3) assms(5) tree by (intro exI [of _ "concat (map entry_text d)"] exI [of _ tree]) simp
qed

definition sample_entry :: "u16 \<Rightarrow> string \<Rightarrow> git_tree_entry" where
  "sample_entry mode name = \<lparr>te_attr = mode, te_filename_len = of_nat (length name), te_oid = GitOid (replicate 20 7), te_filename = name\<rparr>"

definition sample_builder :: git_treebuilder where
  "sample_builder = \<lparr>bld_repo = \<lparr>db_open = Inr (), db_read = (\<lambda>_. Inl GIT_ENOTFOUND), db_write = (\<lambda>_ _. Inr (GitOid (replicate 20 1))),
       db_freshen = (\<lambda>_. Inr ()), db_strict = True, db_paths = None\<rparr>,
     bld_map = [(''a'', sample_entry GIT_FILEMODE_TREE ''a''), (''a.c'', sample_entry GIT_FILEMODE_BLOB ''a.c'')]\<rparr>"

lemma sample_builder_ok: "bld_ok sample_builder"
  by (simp add: bld_ok_def sample_builder_def sample_entry_def entry_ok_def plain_name_def NUL_def UINT16_MAX_def oid_ok_def
      GIT_OID_RAWSZ_def)

lemma git_treebuilder_write_faithful_witness:
  "\<exists>data tree. (git_treebuilder_write tiny_memory (\<lambda>_. True) rev sample_builder = Some (Inr (GitOid (replicate 20 1))) \<or>
      (\<exists>e. git_treebuilder_write tiny_memory (\<lambda>_. True) rev sample_builder = Some (Inl e) \<and> refuses tiny_memory)) \<and>
    git_tree__parse_raw (\<lambda>_. True) data = Inr tree \<and>
    git_tree_entry_byname tree ''a'' = Some (sample_entry GIT_FILEMODE_TREE ''a'') \<and> git_tree_entry_byname tree ''b'' = None"
proof -
  have "db_open (bld_repo sample_builder) = Inr ()" by (simp add: sample_builder_def)
  from git_treebuilder_write_faithful [OF sample_builder_ok _ tiny_memory_ok _ this, of rev "\<lambda>_. True"]
  obtain data tree where "git_treebuilder_write tiny_memory (\<lambda>_. True) rev sample_builder = Some (db_write (bld_repo sample_builder) GIT_OBJECT_TREE data) \<or>
      (\<exists>e. git_treebuilder_write tiny_memory (\<lambda>_. True) rev sample_builder = Some (Inl e) \<and> refuses tiny_memory)"
    "git_tree__parse_raw (\<lambda>_. True) data = Inr tree" "\<forall>name. git_tree_entry_byname tree name = git_treebuilder_get sample_builder name"
    by auto
  then show ?thesis by (intro exI [of _ data] exI [of _ tree]) (simp add: sample_builder_def git_treebuilder_get_def)
qed

end
