(* ===== verification/TreeBuilderCorrect.thy ===== *)
theory TreeBuilderCorrect
  imports TreeWrite PathCorrect
begin

text \<open>
  The operations of the tree builder keep it such that it can be written, and act on it as on a finite map from
  names to entries.
\<close>

lemma valid_entry_name_plain:
  assumes "valid_entry_name repo n = Some True" "NUL \<notin> set n" "length n \<le> UINT16_MAX"
  shows "plain_name n"
proof -
  let ?f = "GIT_PATH_REJECT_TRAVERSAL OR GIT_PATH_REJECT_DOT_GIT OR GIT_PATH_REJECT_SLASH"
  have f: "flagged ?f GIT_PATH_REJECT_SLASH" "flagged ?f GIT_PATH_REJECT_DOT_GIT"
    by (simp_all add: flagged_or) (simp_all add: flagged_def GIT_PATH_REJECT_SLASH_def GIT_PATH_REJECT_DOT_GIT_def)
  have n: "n \<noteq> []" using assms(1) by (auto simp: valid_entry_name_def)
  then have "isvalid_loop (db_paths repo) 0 (dotgit_flags (db_paths repo) ?f) n 0 = Some True"
    using assms(1) f(2) by (simp add: valid_entry_name_def git_path_isvalid_def)
  then have "\<forall>c\<in>set n. verify_char c (dotgit_flags (db_paths repo) ?f)"
    using isvalid_loop_components [of "db_paths repo" 0 "dotgit_flags (db_paths repo) ?f" n 0] by simp
  then have "CHR ''/'' \<notin> set n" using dotgit_flags_keep [OF f(1)] by (auto simp: verify_char_def)
  then show ?thesis using n assms(2,3) by (simp add: plain_name_def)
qed

lemma alloc_entry_ok:
  assumes "alloc_entry mem n (length n) oid = Some e" "plain_name n" "oid_ok oid"
  shows "entry_ok (e\<lparr>te_attr := m\<rparr>)" "te_filename e = n" "te_oid e = oid"
proof -
  have "unat (of_nat (length n) :: u16) = length n"
    using assms(2) by (simp add: plain_name_def UINT16_MAX_def unsigned_of_nat take_bit_nat_eq_self)
  then show "entry_ok (e\<lparr>te_attr := m\<rparr>)" "te_filename e = n" "te_oid e = oid"
    using assms by (auto simp: alloc_entry_def entry_ok_def git_oid_cpy_def split: if_splits)
qed

lemma set_update_pairs: "distinct (map fst al) \<Longrightarrow> set (AList.update k v al) = {(k, v)} \<union> {(a, b) \<in> set al. a \<noteq> k}"
  by (induction al) (force simp: image_iff)+

lemma length_update_le: "length (AList.update k v al) \<le> Suc (length al)"
  by (induction al) auto

lemma insert_effect:
  assumes ok: "bld_ok bld" "NUL \<notin> set n" "length n \<le> UINT16_MAX" "oid_ok oid" "length (bld_map bld) + 1 < 2 ^ 40"
    and i: "git_treebuilder_insert mem bld n oid m = Some (Inr (bld1, e))"
  shows "bld_ok bld1" "git_treebuilder_get bld1 = (git_treebuilder_get bld)(n \<mapsto> e)" "te_filename e = n" "te_oid e = oid" "te_attr e = m"
proof -
  have chk: "check_entry (bld_repo bld) n oid m = Some (Inr ())"
    using i by (cases "check_entry (bld_repo bld) n oid m") (auto simp: git_treebuilder_insert_def split: sum.splits)
  then have "valid_entry_name (bld_repo bld) n = Some True"
    by (auto simp: check_entry_def split: if_splits option.splits)
  note plain = valid_entry_name_plain [OF this ok(2,3)]
  obtain e0 where e0: "(case map_of (bld_map bld) n of Some entry \<Rightarrow> Some (entry\<lparr>te_oid := oid\<rparr>) | None \<Rightarrow> alloc_entry mem n (length n) oid) = Some e0"
    "e = e0\<lparr>te_attr := m\<rparr>" "bld1 = bld\<lparr>bld_map := AList.update n e (bld_map bld)\<rparr>"
    using i chk by (auto simp: git_treebuilder_insert_def Let_def split: option.splits)
  have "entry_ok e \<and> te_filename e = n \<and> te_oid e = oid"
  proof (cases "map_of (bld_map bld) n")
    case None
    then show ?thesis using alloc_entry_ok [of mem n oid e0] e0 plain ok(4) by simp
  next
    case (Some entry)
    then have "entry_ok entry" "te_filename entry = n" using ok(1) by (auto simp: bld_ok_def dest: map_of_SomeD)
    then show ?thesis using e0 Some ok(4) by (auto simp: entry_ok_def)
  qed
  then have e: "entry_ok e" "te_filename e = n" "te_oid e = oid" by auto
  then show "te_filename e = n" "te_oid e = oid" "te_attr e = m" using e0(2) by simp_all
  show "git_treebuilder_get bld1 = (git_treebuilder_get bld)(n \<mapsto> e)"
    by (simp add: git_treebuilder_get_def e0(3) update_conv' fun_eq_iff)
  have "distinct (map fst (bld_map bld))" using ok(1) by (simp add: bld_ok_def)
  then show "bld_ok bld1" using ok(1,5) e length_update_le [of n e "bld_map bld"]
    by (auto simp: bld_ok_def e0(3) distinct_update set_update_pairs)
qed

lemma bld_ok_sub:
  assumes "bld_ok bld" "set al \<subseteq> set (bld_map bld)" "distinct (map fst al)" "length al \<le> length (bld_map bld)"
  shows "bld_ok (bld\<lparr>bld_map := al\<rparr>)"
  using assms by (auto simp: bld_ok_def)

text \<open>
  C36. The tree builder is a well-formed finite map. Whatever is inserted, removed, filtered or cleared, each of its
  names occurs once, stands for an entry of that name, and may stand in a tree; an insertion or removal that
  succeeds changes the entry under its name, and only that one. Names of 64 kB and more are
  excluded: the code does not refuse them, and cuts their length.
\<close>

theorem git_treebuilder_wellformed:
  assumes "bld_ok bld" "NUL \<notin> set n" "length n \<le> UINT16_MAX" "oid_ok oid" "length (bld_map bld) + 1 < 2 ^ 40"
  shows "(git_treebuilder_insert mem bld n oid m = Some (Inr (bld1, e)) \<longrightarrow>
      bld_ok bld1 \<and> git_treebuilder_get bld1 = (git_treebuilder_get bld)(n \<mapsto> e) \<and> te_filename e = n \<and> te_oid e = oid \<and> te_attr e = m) \<and>
    (git_treebuilder_remove bld n = Inr bld2 \<longrightarrow>
      bld_ok bld2 \<and> git_treebuilder_get bld n \<noteq> None \<and> git_treebuilder_get bld2 = (git_treebuilder_get bld)(n := None)) \<and>
    (bld_ok (git_treebuilder_filter bld flt) \<and> (\<forall>k e. git_treebuilder_get (git_treebuilder_filter bld flt) k = Some e \<longleftrightarrow>
      git_treebuilder_get bld k = Some e \<and> \<not> flt e)) \<and>
    bld_ok (git_treebuilder_clear bld) \<and> git_treebuilder_get (git_treebuilder_clear bld) = Map.empty"
proof (intro conjI)
  show "git_treebuilder_insert mem bld n oid m = Some (Inr (bld1, e)) \<longrightarrow>
      bld_ok bld1 \<and> git_treebuilder_get bld1 = (git_treebuilder_get bld)(n \<mapsto> e) \<and> te_filename e = n \<and> te_oid e = oid \<and> te_attr e = m"
    using insert_effect [OF assms] by blast
  have dist: "distinct (map fst (bld_map bld))" using assms(1) by (simp add: bld_ok_def)
  show "git_treebuilder_remove bld n = Inr bld2 \<longrightarrow>
      bld_ok bld2 \<and> git_treebuilder_get bld n \<noteq> None \<and> git_treebuilder_get bld2 = (git_treebuilder_get bld)(n := None)"
  proof
    assume r: "git_treebuilder_remove bld n = Inr bld2"
    then have b: "bld2 = bld\<lparr>bld_map := AList.delete n (bld_map bld)\<rparr>" "git_treebuilder_get bld n \<noteq> None"
      by (auto simp: git_treebuilder_remove_def split: option.splits)
    moreover have "bld_ok bld2" unfolding b(1) using dist
      by (intro bld_ok_sub [OF assms(1)]) (auto simp: AList.delete_eq distinct_map_filter)
    ultimately show "bld_ok bld2 \<and> git_treebuilder_get bld n \<noteq> None \<and> git_treebuilder_get bld2 = (git_treebuilder_get bld)(n := None)"
      by (simp add: fun_eq_iff git_treebuilder_get_def delete_conv')
  qed
  show "bld_ok (git_treebuilder_filter bld flt)" unfolding git_treebuilder_filter_def using dist
    by (intro bld_ok_sub [OF assms(1)]) (auto simp: distinct_map_filter)
  show "\<forall>k e. git_treebuilder_get (git_treebuilder_filter bld flt) k = Some e \<longleftrightarrow> git_treebuilder_get bld k = Some e \<and> \<not> flt e"
    using dist by (auto simp: git_treebuilder_get_def git_treebuilder_filter_def distinct_map_filter map_of_eq_Some_iff)
  show "bld_ok (git_treebuilder_clear bld)" "git_treebuilder_get (git_treebuilder_clear bld) = Map.empty"
    by (simp_all add: git_treebuilder_clear_def fun_eq_iff git_treebuilder_get_def bld_ok_sub [OF assms(1)])
qed

text \<open>A name of 65536 bytes is entered with the length 0; what is written for it has no terminator.\<close>

lemma long_name_cut: "alloc_entry True n 65536 oid = Some e \<Longrightarrow> te_filename_len e = 0"
  by (auto simp: alloc_entry_def)

lemma sample_insert:
  "\<exists>bld1 e. git_treebuilder_insert True sample_builder ''b'' (GitOid (replicate 20 7)) GIT_FILEMODE_COMMIT = Some (Inr (bld1, e))"
proof -
  have "check_entry (bld_repo sample_builder) ''b'' (GitOid (replicate 20 7)) GIT_FILEMODE_COMMIT = Some (Inr ())" by code_simp
  then show ?thesis
    by (simp add: git_treebuilder_insert_def alloc_entry_def sample_builder_def oid_ok_def GIT_OID_RAWSZ_def Let_def)
qed

theorem git_treebuilder_wellformed_witness:
  "\<exists>bld1 e. git_treebuilder_insert True sample_builder ''b'' (GitOid (replicate 20 7)) GIT_FILEMODE_COMMIT = Some (Inr (bld1, e)) \<and>
     bld_ok bld1 \<and> git_treebuilder_get bld1 ''b'' = Some e \<and> git_treebuilder_get bld1 ''a'' = git_treebuilder_get sample_builder ''a'' \<and>
     bld_ok (git_treebuilder_filter sample_builder (\<lambda>e. te_filename e = ''a''))"
proof -
  obtain bld1 e where ins: "git_treebuilder_insert True sample_builder ''b'' (GitOid (replicate 20 7)) GIT_FILEMODE_COMMIT = Some (Inr (bld1, e))"
    using sample_insert by blast
  have "NUL \<notin> set ''b''" "length ''b'' \<le> UINT16_MAX" "oid_ok (GitOid (replicate 20 7))"
    "length (bld_map sample_builder) + 1 < 2 ^ 40"
    by (simp_all add: NUL_def UINT16_MAX_def oid_ok_def GIT_OID_RAWSZ_def sample_builder_def)
  from git_treebuilder_wellformed [OF sample_builder_ok this] ins show ?thesis
    by (intro exI [of _ bld1] exI [of _ e]) auto
qed

end
