(* ===== verification/Spec2Isabelle.thy ===== *)
theory Spec2Isabelle
  imports VectorCorrect Pqueue Varint DeltaCorrect UtilCorrect OidCorrect WildmatchCorrect
    MergeBasePublic HideCorrect BufCodecCorrect BufQuoteCorrect SignatureCorrect PathCorrect TreeWrite TreeBuilderCorrect
begin

text \<open>
  Verification of the core of libgit2, the C library under \<open>src/libgit2/src\<close>.

  The program. libgit2 reads and writes git repositories. Objects (commits, trees, blobs, tags)
  are named by the SHA-1 of their content (\<open>oid.c\<close>), stored whole or as differences
  (\<open>delta.c\<close>, \<open>varint.c\<close>) in an object database, and connected to a history that walks and merges
  traverse (\<open>commit_list.c\<close>, \<open>revwalk.c\<close>, \<open>graph.c\<close>, \<open>merge.c\<close>). All of that rests on a small
  set of containers (\<open>vector.c\<close>, \<open>pqueue.c\<close>, sorting in \<open>tsort.c\<close>, searching and string helpers in
  \<open>util.c\<close>) and on the pattern matcher \<open>wildmatch.c\<close>.

  How the model corresponds to the code. A function keeps its C name where HOL allows it; a loop is a
  function of its own with the suffix \<open>_loop\<close> or the name of what it does. A struct is a record, with
  a prefix for its fields (\<open>n_\<close> for a commit node, \<open>w_\<close> for a walk, \<open>v_\<close> for a vector). An integer
  whose width matters is a word, another one \<open>nat\<close> or \<open>int\<close>. Memory that the code only reads is a list, a
  pointer into it the rest of the list or an index. An error code is the left side of a sum,
  an access outside an object and a failed assertion are \<open>None\<close>. Whether an allocation succeeds is an
  argument (\<open>can_alloc\<close>, \<open>env_mem\<close>), so that the paths of failure are part of the model; so are the
  object database and everything else that is not computed here.

  The theories, with the code that they model.
    Prelude            integer types, error codes, segments of arrays, lemmas on words.
    Compare            the contract of comparison callbacks: locale \<open>git_cmp\<close>.
    Tsort              \<open>tsort.c\<close>; TsortLemmas and TsortCorrect: it is a stable sort for every
                       comparison that keeps the contract, and a permutation for any callback.
    Bsearch            \<open>git__bsearch\<close> and \<open>git__bsearch_r\<close> of \<open>util.c\<close>.
    Vector             \<open>vector.c\<close>, \<open>vector.h\<close>; VectorCorrect: invariant, effect on the list
                       that a vector stands for, ordered insertion, \<open>uniq\<close>.
    Pqueue             \<open>pqueue.c\<close>: the heap, a priority queue by the locale \<open>priority_queue\<close>.
    Varint             \<open>varint.c\<close>, with its round trip.
    Delta              \<open>delta.c\<close>; DeltaCorrect: applying a delta gives back the target, no write
                       is outside the buffer, the sizes of the header are checked.
    Util               helpers of \<open>util.c\<close> and \<open>util.h\<close>; UtilCorrect: numbers, \<open>git__memmem\<close>,
                       insertion sort, UTF-8, comparison functions as instances of \<open>git_cmp\<close>.
    Buffer             \<open>buffer.c\<close>: memory, writing, joining; BufferCorrect: every operation is the one
                       on strings, or fails for want of memory, and stays in bounds.
    BufCodec           base 64, base 85, percent coding, quoting; BufCodecCorrect and
                       BufQuoteCorrect: round trips.
    Radix              numbers as text, as printf writes and git__strntol64 reads them.
    Signature          \<open>signature.c\<close>; SignatureCorrect: what is written is parsed back.
    Path               \<open>path.c\<close>: which names a path may have; PathCorrect: what is accepted is harmless.
    ObjectType         the types of objects of \<open>object.c\<close>, file modes, the view of a repository.
    Array              \<open>array.h\<close>.
    Tree, TreeBuilder  \<open>tree.c\<close>: parsing, searching, building and writing trees; TreeCorrect: the
                       order of entries and the search; TreeWrite: a written tree is read back;
                       TreeBuilderCorrect: a builder is a finite map; TsortOn: sorting with a
                       comparison that is lawful on the elements of the array only.
    Oid                \<open>oid.c\<close>; OidCorrect: hexadecimal form, order, prefix comparison.
    Wildmatch          \<open>wildmatch.c\<close>; WildmatchCorrect: it agrees with a declarative semantics of
                       patterns, so the codes that cut the search short lose no match.
    CommitList         \<open>commit_list.c\<close> and the structs of \<open>revwalk.h\<close>; the monad \<open>eff\<close> of functions
                       that may fail and change the walk; CommitListCorrect: order by date.
    Revwalk            \<open>revwalk.c\<close>.
    MergeBase          \<open>graph.c\<close> and the merge bases of \<open>merge.c\<close>; PaintCorrect, ClearCorrect,
                       MergeBaseCorrect, MergeBaseTotal, MergeBasePublic: the result is the set of
                       best common ancestors, and the calls end.
    TopoCorrect        the topological sorting of \<open>revwalk.c\<close> ends, loses no commit, and puts no
                       commit in front of one of its children.
    HideCorrect        hiding a commit hides its ancestors and nothing else.

  Bounds and fuel. Recursion is structural or has a termination proof where the code's loop has an
  evident measure. The loops over a history (\<open>paint_loop\<close>, \<open>topo_loop\<close>, \<open>mark_uninteresting\<close>, the
  loops of the walk) end because the history is finite and acyclic, a fact that is not visible in
  the code; they take fuel, and \<open>None\<close> says that it is used up. The theorems about them state that
  a fuel linear in the number of commits and parent links is enough (\<open>merge_cost\<close>,
  \<open>history_size\<close>), so that they are statements of total correctness.

  Not modelled, and why. Code that is a wrapper around the operating system, the network or another
  library has nothing that a proof in HOL could say about it: the transports, streams and
  credentials, \<open>win32\<close> and \<open>unix\<close>, \<open>posix.c\<close>, \<open>futils.c\<close>, the memory maps of \<open>mwindow.c\<close>, the bindings
  of the Haxe library. The bundled libraries under \<open>deps\<close> (zlib, pcre, http-parser, ntlmclient,
  winhttp), \<open>xdiff\<close> and the SHA-1 implementations under \<open>hash\<close> are third-party code. The
  components that compose all of the others over a repository on disk (index, checkout, the
  iterators, the merge of trees, diff, rebase, stash, submodules, the reference and object
  databases, configuration, packing, the repository itself) are not modelled yet.
\<close>

end
